(* ===== verification/CPrelude.thy ===== *)
theory CPrelude
  imports Main "HOL-Library.Word"
begin

text \<open>
  The shared vocabulary of the development: names for the C integer types, the result
  discipline of the C functions that return 0 or 1, byte strings read as big-endian and
  little-endian numbers, and the word lemmas the component theories use.
\<close>

unbundle bit_operations_syntax

section \<open>C integer types\<close>

type_synonym u8 = "8 word"
type_synonym u16 = "16 word"
type_synonym u32 = "32 word"
type_synonym u64 = "64 word"
type_synonym bytes = "u8 list"

text \<open>\<open>size_t\<close> is 64 bits wide on the targets of the pods; sums of sizes wrap.\<close>

definition size_add :: "nat \<Rightarrow> nat \<Rightarrow> nat" where
  "size_add a b = (a + b) mod 2 ^ 64"

definition size_mult :: "nat \<Rightarrow> nat \<Rightarrow> nat" where
  "size_mult a b = (a * b) mod 2 ^ 64"

section \<open>Functions that return 0 or 1 and change their argument\<close>

text \<open>
  A C function \<open>int f(S *s, T *out)\<close> is a HOL function from the state to the pair of
  the result (\<open>None\<close> for a return of 0) and the state it leaves, also when it fails.
\<close>

type_synonym ('s, 'a) cres = "'a option \<times> 's"

definition try_op :: "('s, 'a) cres \<Rightarrow> ('a \<Rightarrow> 's \<Rightarrow> ('s, 'b) cres) \<Rightarrow> ('s, 'b) cres" where
  "try_op r k = (case r of (None, s) \<Rightarrow> (None, s) | (Some x, s) \<Rightarrow> k x s)"

abbreviation returns :: "'a \<Rightarrow> 's \<Rightarrow> ('s, 'a) cres" where
  "returns x s \<equiv> (Some x, s)"

abbreviation fails :: "'s \<Rightarrow> ('s, 'a) cres" where
  "fails s \<equiv> (None, s)"

named_theorems cres_simps \<open>equations of the result discipline\<close>

lemma try_op_None [simp, cres_simps]: "try_op (None, s) k = (None, s)"
  by (simp add: try_op_def)

lemma try_op_Some [simp, cres_simps]: "try_op (Some x, s) k = k x s"
  by (simp add: try_op_def)

lemma try_op_split:
  "P (try_op r k) \<longleftrightarrow>
     (\<forall>s. r = (None, s) \<longrightarrow> P (None, s)) \<and> (\<forall>x s. r = (Some x, s) \<longrightarrow> P (k x s))"
  by (auto simp: try_op_def split: prod.splits option.splits)

lemma try_op_split_asm:
  "P (try_op r k) \<longleftrightarrow>
     \<not> ((\<exists>s. r = (None, s) \<and> \<not> P (None, s)) \<or> (\<exists>x s. r = (Some x, s) \<and> \<not> P (k x s)))"
  by (auto simp: try_op_def split: prod.splits option.splits)

lemmas try_op_splits = try_op_split try_op_split_asm

lemma try_op_eq_Some:
  "try_op r k = (Some y, t) \<longleftrightarrow> (\<exists>x s. r = (Some x, s) \<and> k x s = (Some y, t))"
  by (auto split: try_op_splits)

lemma case_res_eq_Some:
  "(case r of (None, _) \<Rightarrow> fails s | (Some x, c) \<Rightarrow> k x c) = (Some y, t) \<longleftrightarrow>
     (\<exists>x c. r = (Some x, c) \<and> k x c = (Some y, t))"
  by (auto split: prod.splits option.splits)

section \<open>Byte strings as numbers\<close>

text \<open>Conversions of sums and products into words are kept folded.\<close>

declare of_nat_add [simp del] of_nat_mult [simp del]

definition be_nat :: "bytes \<Rightarrow> nat" where
  "be_nat bs = foldl (\<lambda>a b. a * 256 + unat b) 0 bs"

fun le_nat :: "bytes \<Rightarrow> nat" where
  "le_nat [] = 0"
| "le_nat (b # bs) = unat b + 256 * le_nat bs"

text \<open>The \<open>n\<close> low bytes of a number, least significant first and most significant first.\<close>

fun le_bytes :: "nat \<Rightarrow> nat \<Rightarrow> bytes" where
  "le_bytes 0 v = []"
| "le_bytes (Suc n) v = word_of_nat v # le_bytes n (v div 256)"

definition be_bytes :: "nat \<Rightarrow> nat \<Rightarrow> bytes" where
  "be_bytes n v = rev (le_bytes n v)"

lemma unat_u8_bound [simp]: "unat (b :: u8) < 256"
  using unsigned_less [of b] by simp

lemma le_nat_append: "le_nat (xs @ ys) = le_nat xs + 256 ^ length xs * le_nat ys"
  by (induction xs) (auto simp: algebra_simps)

lemma be_nat_Nil [simp]: "be_nat [] = 0"
  by (simp add: be_nat_def)

lemma be_nat_snoc [simp]: "be_nat (bs @ [b]) = be_nat bs * 256 + unat b"
  by (simp add: be_nat_def)

lemma be_nat_rev: "be_nat (rev bs) = le_nat bs"
  by (induction bs) auto

lemma be_nat_eq_le_nat: "be_nat bs = le_nat (rev bs)"
  using be_nat_rev [of "rev bs"] by simp

lemma be_nat_append: "be_nat (xs @ ys) = be_nat xs * 256 ^ length ys + be_nat ys"
  by (simp add: be_nat_eq_le_nat le_nat_append)

lemma be_nat_Cons: "be_nat (b # bs) = unat b * 256 ^ length bs + be_nat bs"
  using be_nat_append [of "[b]" bs] be_nat_snoc [of "[]" b] by simp

lemma le_nat_bound: "le_nat bs < 256 ^ length bs"
proof (induction bs)
  case (Cons b bs)
  have "unat b + 256 * le_nat bs < 256 * (le_nat bs + 1)"
    by simp
  also have "\<dots> \<le> 256 * 256 ^ length bs"
    using Cons by (intro mult_le_mono) auto
  finally show ?case by simp
qed simp

lemma be_nat_bound: "be_nat bs < 256 ^ length bs"
  using le_nat_bound [of "rev bs"] by (simp add: be_nat_eq_le_nat)

lemma length_le_bytes [simp]: "length (le_bytes n v) = n"
  by (induction n arbitrary: v) auto

lemma length_be_bytes [simp]: "length (be_bytes n v) = n"
  by (simp add: be_bytes_def)

lemma unat_word_of_nat_u8 [simp]: "unat (word_of_nat v :: u8) = v mod 256"
  by (simp add: unsigned_of_nat take_bit_eq_mod)

lemma le_nat_le_bytes: "le_nat (le_bytes n v) = v mod 256 ^ n"
proof (induction n arbitrary: v)
  case (Suc n)
  have "v mod 256 ^ Suc n = v mod 256 + 256 * (v div 256 mod 256 ^ n)"
    by (simp add: mod_mult2_eq)
  with Suc show ?case by simp
qed simp

lemma be_nat_be_bytes: "be_nat (be_bytes n v) = v mod 256 ^ n"
  by (simp add: be_bytes_def be_nat_rev le_nat_le_bytes)

lemma le_bytes_le_nat: "le_bytes (length bs) (le_nat bs) = bs"
proof (induction bs)
  case (Cons b bs)
  have "(unat b + 256 * le_nat bs) div 256 = le_nat bs"
    by simp
  moreover have "(word_of_nat (unat b + 256 * le_nat bs) :: u8) = b"
    by (simp only: word_unat_eq_iff unat_word_of_nat_u8) simp
  ultimately show ?case using Cons by simp
qed simp

lemma be_bytes_be_nat: "be_bytes (length bs) (be_nat bs) = bs"
  using le_bytes_le_nat [of "rev bs"] by (simp add: be_bytes_def be_nat_eq_le_nat)

section \<open>Word arithmetic\<close>

lemma unat_take_bit: "unat (take_bit n a) = unat a mod 2 ^ n" for a :: "'a::len word"
  unfolding unsigned_take_bit_eq by (rule take_bit_eq_mod)

lemma unat_push_bit: "unat (push_bit n a) = (unat a * 2 ^ n) mod 2 ^ LENGTH('a)"
  for a :: "'a::len word"
  unfolding unsigned_push_bit_eq by (simp only: push_bit_eq_mult take_bit_eq_mod)

lemma unat_drop_bit: "unat (drop_bit n a) = unat a div 2 ^ n" for a :: "'a::len word"
  unfolding unat_drop_bit_eq by (rule drop_bit_eq_div)

lemma unat_and_mask: "unat (a AND mask n) = unat a mod 2 ^ n" for a :: "'a::len word"
  unfolding take_bit_eq_mask [symmetric] by (rule unat_take_bit)

lemma unat_ucast: "unat (ucast a :: 'b::len word) = unat a mod 2 ^ LENGTH('b)"
  for a :: "'a::len word"
  unfolding unsigned_ucast_eq by (rule take_bit_eq_mod)

lemma take_bit_small:
  fixes b :: "'a::len word"
  assumes "unat b < 2 ^ n"
  shows "take_bit n b = b"
  using assms by (simp add: word_unat_eq_iff unat_take_bit)

lemma push_bit_and_small:
  fixes a b :: "'a::len word"
  assumes "unat b < 2 ^ n"
  shows "push_bit n a AND b = 0"
proof (rule bit_word_eqI)
  fix k
  have "bit b k \<Longrightarrow> k < n"
    using take_bit_small [OF assms] by (metis bit_take_bit_iff)
  then show "bit (push_bit n a AND b) k = bit (0 :: 'a word) k"
    by (auto simp: bit_simps)
qed

lemma push_bit_or_eq_add:
  fixes a b :: "'a::len word"
  assumes "unat b < 2 ^ n"
  shows "push_bit n a OR b = push_bit n a + b"
  using disjunctive_add_eq_or [OF push_bit_and_small [OF assms]] by simp

lemma unat_push_bit_or:
  fixes a b :: "'a::len word"
  assumes "unat b < 2 ^ n"
  shows "unat (push_bit n a OR b) = (unat a * 2 ^ n + unat b) mod 2 ^ LENGTH('a)"
  unfolding push_bit_or_eq_add [OF assms]
  by (simp only: unat_word_ariths unat_push_bit mod_add_left_eq)

lemma word_xor_eq_0: "a XOR b = 0 \<longleftrightarrow> a = b" for a b :: "'a::len word"
  by (auto simp: bit_eq_iff bit_simps)

lemma unat_u8_and_7f: "unat (b AND 0x7f) = unat b mod 128" for b :: u8
  using unat_and_mask [of b 7] by (simp add: mask_eq_exp_minus_1)

lemma unat_u8_and_1f: "unat (b AND 0x1f) = unat b mod 32" for b :: u8
  using unat_and_mask [of b 5] by (simp add: mask_eq_exp_minus_1)

lemma mod_128_high: "128 \<le> x \<Longrightarrow> x < 256 \<Longrightarrow> 128 + x mod 128 = x" for x :: nat
  by (simp add: le_mod_geq)

lemma bit_u8_7: "bit b 7 \<longleftrightarrow> 128 \<le> unat b" for b :: u8
proof -
  have "bit b 7 \<longleftrightarrow> bit (unat b) 7"
    by (simp add: bit_unsigned_iff)
  also have "\<dots> \<longleftrightarrow> odd (unat b div 128)"
    by (simp add: bit_iff_odd)
  finally have "bit b 7 \<longleftrightarrow> odd (unat b div 128)" .
  moreover have "unat b div 128 < 2"
    by (rule less_mult_imp_div_less) simp
  ultimately show ?thesis by (auto simp: odd_iff_mod_2_eq_one)
qed

lemma u8_and_80: "b AND 0x80 = 0 \<longleftrightarrow> unat b < 128" for b :: u8
proof -
  have "b AND 0x80 = 0 \<longleftrightarrow> \<not> bit b 7"
    using and_exp_eq_0_iff_not_bit [of b 7] by simp
  then show ?thesis by (simp add: bit_u8_7 not_le)
qed

lemma foldl_be_accumulate:
  "unat (foldl (\<lambda>result b. push_bit 8 result OR ucast b) r data) =
     (unat r * 256 ^ length data + be_nat data) mod 2 ^ LENGTH('a)"
  for r :: "'a::len word"
proof (induction data rule: rev_induct)
  case (snoc b data)
  have ub: "unat (ucast b :: 'a word) < 2 ^ 8"
    unfolding unat_ucast by (rule le_less_trans [OF mod_less_eq_dividend]) simp
  have step: "((x mod m) * 256 + y mod m) mod m = (x * 256 + y) mod m" for x y m :: nat
    by (intro mod_add_cong) (simp_all add: mod_mult_left_eq)
  have "unat (foldl (\<lambda>result b. push_bit 8 result OR ucast b) r (data @ [b])) =
      ((unat r * 256 ^ length data + be_nat data) mod 2 ^ LENGTH('a) * 256 +
        unat b mod 2 ^ LENGTH('a)) mod 2 ^ LENGTH('a)"
    by (simp only: foldl_append foldl.simps unat_push_bit_or [OF ub] snoc unat_ucast) simp
  also have "\<dots> = ((unat r * 256 ^ length data + be_nat data) * 256 + unat b) mod 2 ^ LENGTH('a)"
    by (rule step)
  also have "(unat r * 256 ^ length data + be_nat data) * 256 + unat b =
      unat r * 256 ^ length (data @ [b]) + be_nat (data @ [b])"
    by (simp add: add_mult_distrib)
  finally show ?case .
qed simp

lemma foldl_be_accumulate_0:
  "foldl (\<lambda>result b. push_bit 8 result OR ucast b) (0 :: 'a::len word) data = word_of_nat (be_nat data)"
  using foldl_be_accumulate [of "0 :: 'a word" data] by (simp add: word_unat_eq_iff unat_of_nat)

lemma ucast_word_of_nat:
  "LENGTH('b) \<le> LENGTH('a) \<Longrightarrow> (ucast (word_of_nat n :: 'a::len word) :: 'b::len word) = word_of_nat n"
  by (simp add: word_unat_eq_iff unat_ucast unat_of_nat) (metis le_imp_power_dvd mod_mod_cancel)

lemma word_of_nat_unat: "word_of_nat (unat w) = w" for w :: "'a::len word"
  by simp

lemma unat_u64_bound: "unat v < 18446744073709551616" for v :: u64
  using unsigned_less [of v] by simp

lemma unat_ucast_up:
  fixes a :: "'a::len word"
  assumes "LENGTH('a) \<le> LENGTH('b)"
  shows "unat (ucast a :: 'b::len word) = unat a"
proof -
  have "unat a < 2 ^ LENGTH('a)" by (rule unsigned_less)
  also have "\<dots> \<le> 2 ^ LENGTH('b)" using assms by simp
  finally show ?thesis by (simp add: unat_ucast)
qed

lemma size_add_no_wrap:
  assumes "a < 2 ^ 64" "n < 2 ^ 64"
  shows "\<not> size_add a n < a \<longleftrightarrow> a + n < 2 ^ 64"
    and "a + n < 2 ^ 64 \<Longrightarrow> size_add a n = a + n"
proof -
  show eq: "size_add a n = a + n" if "a + n < 2 ^ 64"
    using that by (simp add: size_add_def)
  show "\<not> size_add a n < a \<longleftrightarrow> a + n < 2 ^ 64"
  proof (cases "a + n < 2 ^ 64")
    case False
    then have "size_add a n = a + n - 2 ^ 64"
      using assms by (simp add: size_add_def le_mod_geq)
    then show ?thesis using False assms by simp
  qed (simp add: eq)
qed

text \<open>Sizes are evaluated as 64-bit words.\<close>

lemma size_add_code [code]: "size_add a b = unat (word_of_nat a + word_of_nat b :: u64)"
  by (simp add: size_add_def unat_word_ariths unat_of_nat mod_add_eq)

lemma size_mult_code [code]: "size_mult a b = unat (word_of_nat a * word_of_nat b :: u64)"
  by (simp add: size_mult_def unat_word_ariths unat_of_nat mod_mult_eq)

end
