(* ===== verification/Mem.thy ===== *)
theory Mem
  imports CPrelude
begin

text \<open>
  The memory and string helpers of \<^verbatim>\<open>crypto/mem.c\<close> and the byte-swapping helpers of
  \<^verbatim>\<open>crypto/internal.h\<close> that the byte-string code calls. A C buffer of known length is a
  list of bytes. Whether an allocation of a given size succeeds is the parameter
  \<open>alloc\<close> of the functions that allocate.
\<close>

section \<open>Comparison, hashing and string helpers\<close>

text \<open>\<open>CRYPTO_memcmp\<close> ORs all byte differences together, with no early exit.\<close>

definition CRYPTO_memcmp :: "bytes \<Rightarrow> bytes \<Rightarrow> nat \<Rightarrow> u8" where
  "CRYPTO_memcmp a b len = foldl (\<lambda>x i. x OR (a ! i XOR b ! i)) 0 [0..<len]"

definition OPENSSL_hash32 :: "bytes \<Rightarrow> u32" where
  "OPENSSL_hash32 ptr = foldl (\<lambda>h b. (h XOR ucast b) * 16777619) 2166136261 ptr"

fun OPENSSL_strnlen :: "bytes \<Rightarrow> nat" where
  "OPENSSL_strnlen [] = 0"
| "OPENSSL_strnlen (c # s) = (if c = 0 then 0 else Suc (OPENSSL_strnlen s))"

definition OPENSSL_tolower :: "int \<Rightarrow> int" where
  "OPENSSL_tolower c = (if 65 \<le> c \<and> c \<le> 90 then c + (97 - 65) else c)"

text \<open>\<open>memchr\<close>: the offset of the first occurrence.\<close>

fun OPENSSL_memchr :: "bytes \<Rightarrow> u8 \<Rightarrow> nat option" where
  "OPENSSL_memchr [] c = None"
| "OPENSSL_memchr (b # s) c = (if b = c then Some 0 else map_option Suc (OPENSSL_memchr s c))"

definition OPENSSL_memdup :: "(nat \<Rightarrow> bool) \<Rightarrow> bytes \<Rightarrow> bytes option" where
  "OPENSSL_memdup alloc data =
     (if length data = 0 then None else if alloc (length data) then Some data else None)"

definition OPENSSL_strndup :: "(nat \<Rightarrow> bool) \<Rightarrow> bytes \<Rightarrow> bytes option" where
  "OPENSSL_strndup alloc str =
     (let size = OPENSSL_strnlen str; alloc_size = size_add size 1 in
      if alloc_size < size then None
      else if alloc alloc_size then Some (take size str @ [0]) else None)"

section \<open>Byte swapping\<close>

text \<open>
  With GCC and Clang the helpers are the compiler's \<^verbatim>\<open>__builtin_bswapN\<close>, which reverse the
  bytes of their argument.
\<close>

definition CRYPTO_bswap2 :: "u16 \<Rightarrow> u16" where
  "CRYPTO_bswap2 x = word_of_nat (le_nat (rev (le_bytes 2 (unat x))))"

definition CRYPTO_bswap4 :: "u32 \<Rightarrow> u32" where
  "CRYPTO_bswap4 x = word_of_nat (le_nat (rev (le_bytes 4 (unat x))))"

definition CRYPTO_bswap8 :: "u64 \<Rightarrow> u64" where
  "CRYPTO_bswap8 x = word_of_nat (le_nat (rev (le_bytes 8 (unat x))))"

section \<open>Lemmas\<close>

lemma foldl_or_zero:
  "foldl (\<lambda>x i. x OR f i) z js = (0 :: u8) \<longleftrightarrow> z = 0 \<and> (\<forall>i \<in> set js. f i = 0)"
  by (induction js arbitrary: z) (auto simp: or_eq_0_iff)

lemma CRYPTO_memcmp_eq_0:
  assumes "length a = len" and "length b = len"
  shows "CRYPTO_memcmp a b len = 0 \<longleftrightarrow> a = b"
proof -
  have "CRYPTO_memcmp a b len = 0 \<longleftrightarrow> (\<forall>i \<in> set [0..<len]. a ! i XOR b ! i = 0)"
    unfolding CRYPTO_memcmp_def
    using foldl_or_zero [of "\<lambda>i. a ! i XOR b ! i" 0 "[0..<len]"] by blast
  also have "\<dots> \<longleftrightarrow> a = b"
    using assms nth_equalityI [of a b] unfolding word_xor_eq_0 set_upt by fastforce
  finally show ?thesis .
qed

lemma OPENSSL_strnlen_le: "OPENSSL_strnlen s \<le> length s"
  by (induction s) auto

lemma take_OPENSSL_strnlen: "take (OPENSSL_strnlen s) s = takeWhile (\<lambda>c. c \<noteq> 0) s"
  by (induction s) auto

lemma OPENSSL_memchr_None [simp]: "OPENSSL_memchr s c = None \<longleftrightarrow> c \<notin> set s"
  by (induction s) auto

lemma OPENSSL_memchr_Some:
  "OPENSSL_memchr s c = Some i \<Longrightarrow> i < length s \<and> s ! i = c \<and> c \<notin> set (take i s)"
proof (induction s arbitrary: i)
  case (Cons b s)
  then show ?case by (cases i) (auto split: if_splits)
qed simp

lemma bswap_of_bytes:
  "length bs = 2 \<Longrightarrow> CRYPTO_bswap2 (word_of_nat (be_nat bs)) = word_of_nat (le_nat bs)"
  "length bs = 4 \<Longrightarrow> CRYPTO_bswap4 (word_of_nat (be_nat bs)) = word_of_nat (le_nat bs)"
  "length bs = 8 \<Longrightarrow> CRYPTO_bswap8 (word_of_nat (be_nat bs)) = word_of_nat (le_nat bs)"
  using be_nat_bound [of bs] le_bytes_le_nat [of "rev bs"]
  by (simp_all add: CRYPTO_bswap2_def CRYPTO_bswap4_def CRYPTO_bswap8_def unat_of_nat be_nat_eq_le_nat)

end
