(* ===== verification/CBS.thy ===== *)
theory CBS
  imports Mem
begin

text \<open>
  The byte-string reader of \<^verbatim>\<open>crypto/bytestring/cbs.c\<close>: a \<open>CBS\<close> is a pointer and a
  length, modelled by the bytes it covers. Every reader takes the \<open>CBS\<close> and returns its
  result (\<open>None\<close> where the C code returns 0) with the \<open>CBS\<close> as it is left, which a
  failing reader may have moved.
\<close>

section \<open>Raw bytes and fixed-width integers\<close>

type_synonym cbs = bytes

definition CBS_init :: "bytes \<Rightarrow> nat \<Rightarrow> cbs" where
  "CBS_init data len = take len data"

definition cbs_get :: "cbs \<Rightarrow> nat \<Rightarrow> (cbs, bytes) cres" where
  "cbs_get c n = (if length c < n then fails c else returns (take n c) (drop n c))"

definition CBS_skip :: "cbs \<Rightarrow> nat \<Rightarrow> (cbs, unit) cres" where
  "CBS_skip c len = try_op (cbs_get c len) (\<lambda>dummy c. returns () c)"

definition CBS_len :: "cbs \<Rightarrow> nat" where
  "CBS_len c = length c"

text \<open>\<open>CBS_stow\<close> leaves a null pointer and a zero length for an empty string.\<close>

definition CBS_stow :: "(nat \<Rightarrow> bool) \<Rightarrow> cbs \<Rightarrow> bytes option" where
  "CBS_stow alloc c = (if length c = 0 then Some [] else OPENSSL_memdup alloc c)"

definition CBS_strdup :: "(nat \<Rightarrow> bool) \<Rightarrow> cbs \<Rightarrow> bytes option" where
  "CBS_strdup alloc c = OPENSSL_strndup alloc c"

definition CBS_contains_zero_byte :: "cbs \<Rightarrow> bool" where
  "CBS_contains_zero_byte c \<longleftrightarrow> OPENSSL_memchr c 0 \<noteq> None"

definition CBS_mem_equal :: "cbs \<Rightarrow> bytes \<Rightarrow> bool" where
  "CBS_mem_equal c data \<longleftrightarrow>
     (if length data \<noteq> length c then False else CRYPTO_memcmp c data (length data) = 0)"

definition cbs_get_u :: "cbs \<Rightarrow> nat \<Rightarrow> (cbs, u64) cres" where
  "cbs_get_u c len =
     try_op (cbs_get c len)
       (\<lambda>data c. returns (foldl (\<lambda>result b. push_bit 8 result OR ucast b) 0 data) c)"

definition CBS_get_u8 :: "cbs \<Rightarrow> (cbs, u8) cres" where
  "CBS_get_u8 c = try_op (cbs_get c 1) (\<lambda>v c. returns (v ! 0) c)"

definition CBS_get_u16 :: "cbs \<Rightarrow> (cbs, u16) cres" where
  "CBS_get_u16 c = try_op (cbs_get_u c 2) (\<lambda>v c. returns (ucast v) c)"

definition CBS_get_u16le :: "cbs \<Rightarrow> (cbs, u16) cres" where
  "CBS_get_u16le c = try_op (CBS_get_u16 c) (\<lambda>v c. returns (CRYPTO_bswap2 v) c)"

definition CBS_get_u24 :: "cbs \<Rightarrow> (cbs, u32) cres" where
  "CBS_get_u24 c = try_op (cbs_get_u c 3) (\<lambda>v c. returns (ucast v) c)"

definition CBS_get_u32 :: "cbs \<Rightarrow> (cbs, u32) cres" where
  "CBS_get_u32 c = try_op (cbs_get_u c 4) (\<lambda>v c. returns (ucast v) c)"

definition CBS_get_u32le :: "cbs \<Rightarrow> (cbs, u32) cres" where
  "CBS_get_u32le c = try_op (CBS_get_u32 c) (\<lambda>v c. returns (CRYPTO_bswap4 v) c)"

definition CBS_get_u64 :: "cbs \<Rightarrow> (cbs, u64) cres" where
  "CBS_get_u64 c = cbs_get_u c 8"

definition CBS_get_u64le :: "cbs \<Rightarrow> (cbs, u64) cres" where
  "CBS_get_u64le c = try_op (cbs_get_u c 8) (\<lambda>v c. returns (CRYPTO_bswap8 v) c)"

definition CBS_get_last_u8 :: "cbs \<Rightarrow> (cbs, u8) cres" where
  "CBS_get_last_u8 c =
     (if length c = 0 then fails c
      else returns (c ! (length c - 1)) (take (length c - 1) c))"

definition CBS_get_bytes :: "cbs \<Rightarrow> nat \<Rightarrow> (cbs, cbs) cres" where
  "CBS_get_bytes c len = try_op (cbs_get c len) (\<lambda>v c. returns (CBS_init v len) c)"

definition CBS_copy_bytes :: "cbs \<Rightarrow> nat \<Rightarrow> (cbs, bytes) cres" where
  "CBS_copy_bytes c len = try_op (cbs_get c len) (\<lambda>v c. returns (take len v) c)"

definition cbs_get_length_prefixed :: "cbs \<Rightarrow> nat \<Rightarrow> (cbs, cbs) cres" where
  "cbs_get_length_prefixed c len_len =
     try_op (cbs_get_u c len_len) (\<lambda>len c. CBS_get_bytes c (unat len))"

definition CBS_get_u8_length_prefixed :: "cbs \<Rightarrow> (cbs, cbs) cres" where
  "CBS_get_u8_length_prefixed c = cbs_get_length_prefixed c 1"

definition CBS_get_u16_length_prefixed :: "cbs \<Rightarrow> (cbs, cbs) cres" where
  "CBS_get_u16_length_prefixed c = cbs_get_length_prefixed c 2"

definition CBS_get_u24_length_prefixed :: "cbs \<Rightarrow> (cbs, cbs) cres" where
  "CBS_get_u24_length_prefixed c = cbs_get_length_prefixed c 3"

definition CBS_get_until_first :: "cbs \<Rightarrow> u8 \<Rightarrow> (cbs, cbs) cres" where
  "CBS_get_until_first c ch =
     (case OPENSSL_memchr c ch of
        None \<Rightarrow> fails c
      | Some split \<Rightarrow> CBS_get_bytes c split)"

section \<open>ASN.1 elements\<close>

definition CBS_ASN1_TAG_SHIFT :: nat where "CBS_ASN1_TAG_SHIFT = 24"

definition CBS_ASN1_CONSTRUCTED :: u32 where
  "CBS_ASN1_CONSTRUCTED = push_bit CBS_ASN1_TAG_SHIFT 0x20"

definition CBS_ASN1_CONTEXT_SPECIFIC :: u32 where
  "CBS_ASN1_CONTEXT_SPECIFIC = push_bit CBS_ASN1_TAG_SHIFT 0x80"

definition CBS_ASN1_TAG_NUMBER_MASK :: u32 where
  "CBS_ASN1_TAG_NUMBER_MASK = push_bit (5 + CBS_ASN1_TAG_SHIFT) 1 - 1"

definition CBS_ASN1_BOOLEAN :: u32 where "CBS_ASN1_BOOLEAN = 0x1"
definition CBS_ASN1_INTEGER :: u32 where "CBS_ASN1_INTEGER = 0x2"
definition CBS_ASN1_OCTETSTRING :: u32 where "CBS_ASN1_OCTETSTRING = 0x4"

definition CBS_ASN1_SEQUENCE :: u32 where
  "CBS_ASN1_SEQUENCE = 0x10 OR CBS_ASN1_CONSTRUCTED"

text \<open>
  The do-while loop of \<open>parse_base128_integer\<close>: each round reads one byte, so the
  recursion is on the bytes left.
\<close>

fun parse_base128_loop :: "u64 \<Rightarrow> cbs \<Rightarrow> (cbs, u64) cres" where
  "parse_base128_loop v [] = fails []"
| "parse_base128_loop v (b # c) =
     (if drop_bit (64 - 7) v \<noteq> 0 then fails c
      else if v = 0 \<and> b = 0x80 then fails c
      else
        let v' = push_bit 7 v OR ucast (b AND 0x7f) in
        if b AND 0x80 \<noteq> 0 then parse_base128_loop v' c else returns v' c)"

definition parse_base128_integer :: "cbs \<Rightarrow> (cbs, u64) cres" where
  "parse_base128_integer c = parse_base128_loop 0 c"

definition parse_asn1_tag :: "cbs \<Rightarrow> (cbs, u32) cres" where
  "parse_asn1_tag c =
     try_op (CBS_get_u8 c) (\<lambda>tag_byte c.
       let tag = push_bit CBS_ASN1_TAG_SHIFT (ucast tag_byte AND 0xe0 :: u32);
           tag_number = ucast (tag_byte AND 0x1f) :: u32 in
       if tag_number = 0x1f then
         try_op (parse_base128_integer c) (\<lambda>v c.
           if v > ucast CBS_ASN1_TAG_NUMBER_MASK \<or> v < 0x1f then fails c
           else returns (tag OR ucast v) c)
       else returns (tag OR tag_number) c)"

text \<open>
  The element parser works on a copy of the \<open>CBS\<close> (\<open>header\<close>) and moves the caller's
  only in its final \<open>CBS_get_bytes\<close>. The result is the element with its header, its
  tag, the header's length and whether a BER-only length form was met.
\<close>

definition cbs_get_any_asn1_element ::
    "bool \<Rightarrow> cbs \<Rightarrow> (cbs, cbs \<times> u32 \<times> nat \<times> bool) cres" where
  "cbs_get_any_asn1_element ber_ok c =
     (case parse_asn1_tag c of (None, _) \<Rightarrow> fails c | (Some tag, header) \<Rightarrow>
     (case CBS_get_u8 header of (None, _) \<Rightarrow> fails c | (Some length_byte, header) \<Rightarrow>
      let header_len = CBS_len c - CBS_len header in
      if length_byte AND 0x80 = 0 then
        try_op (CBS_get_bytes c (unat length_byte + header_len))
          (\<lambda>out c. returns (out, tag, header_len, False) c)
      else
        let num_bytes = unat (length_byte AND 0x7f) in
        if ber_ok \<and> tag AND CBS_ASN1_CONSTRUCTED \<noteq> 0 \<and> num_bytes = 0 then
          try_op (CBS_get_bytes c header_len)
            (\<lambda>out c. returns (out, tag, header_len, True) c)
        else if num_bytes = 0 \<or> num_bytes > 4 then fails c
        else
          (case cbs_get_u header num_bytes of (None, _) \<Rightarrow> fails c | (Some len64, _) \<Rightarrow>
           let non_minimal = (len64 < 128 \<or> drop_bit ((num_bytes - 1) * 8) len64 = 0) in
           if non_minimal \<and> \<not> ber_ok then fails c
           else
             let len = unat len64 in
             if size_add (size_add len header_len) num_bytes < len then fails c
             else
               try_op (CBS_get_bytes c (size_add len (size_add header_len num_bytes)))
                 (\<lambda>out c. returns (out, tag, header_len + num_bytes, non_minimal) c))))"

definition CBS_get_any_asn1_element :: "cbs \<Rightarrow> (cbs, cbs \<times> u32 \<times> nat) cres" where
  "CBS_get_any_asn1_element c =
     try_op (cbs_get_any_asn1_element False c)
       (\<lambda>(out, tag, header_len, ber) c. returns (out, tag, header_len) c)"

definition CBS_get_any_asn1 :: "cbs \<Rightarrow> (cbs, cbs \<times> u32) cres" where
  "CBS_get_any_asn1 c =
     try_op (CBS_get_any_asn1_element c) (\<lambda>(out, tag, header_len) c.
       case CBS_skip out header_len of
         (None, _) \<Rightarrow> fails c
       | (Some _, out) \<Rightarrow> returns (out, tag) c)"

definition CBS_get_any_ber_asn1_element ::
    "cbs \<Rightarrow> (cbs, cbs \<times> u32 \<times> nat \<times> bool) cres" where
  "CBS_get_any_ber_asn1_element c = cbs_get_any_asn1_element True c"

definition cbs_get_asn1 :: "cbs \<Rightarrow> u32 \<Rightarrow> bool \<Rightarrow> (cbs, cbs) cres" where
  "cbs_get_asn1 c tag_value skip_header =
     try_op (CBS_get_any_asn1_element c) (\<lambda>(out, tag, header_len) c.
       if tag \<noteq> tag_value then fails c
       else if skip_header then
         (case CBS_skip out header_len of
            (None, _) \<Rightarrow> fails c
          | (Some _, out) \<Rightarrow> returns out c)
       else returns out c)"

definition CBS_get_asn1 :: "cbs \<Rightarrow> u32 \<Rightarrow> (cbs, cbs) cres" where
  "CBS_get_asn1 c tag_value = cbs_get_asn1 c tag_value True"

definition CBS_get_asn1_element :: "cbs \<Rightarrow> u32 \<Rightarrow> (cbs, cbs) cres" where
  "CBS_get_asn1_element c tag_value = cbs_get_asn1 c tag_value False"

definition CBS_peek_asn1_tag :: "cbs \<Rightarrow> u32 \<Rightarrow> bool" where
  "CBS_peek_asn1_tag c tag_value \<longleftrightarrow>
     (if CBS_len c < 1 then False else fst (parse_asn1_tag c) = Some tag_value)"

section \<open>ASN.1 primitive values\<close>

text \<open>
  \<open>CBS_is_valid_asn1_integer\<close> returns whether the contents are a minimal INTEGER and
  sets \<open>*out_is_negative\<close>: \<open>Some negative\<close> for a return of 1.
\<close>

definition CBS_is_valid_asn1_integer :: "cbs \<Rightarrow> bool option" where
  "CBS_is_valid_asn1_integer c =
     (case CBS_get_u8 c of (None, _) \<Rightarrow> None | (Some first_byte, copy) \<Rightarrow>
      let is_negative = (first_byte AND 0x80 \<noteq> 0) in
      (case CBS_get_u8 copy of (None, _) \<Rightarrow> Some is_negative | (Some second_byte, _) \<Rightarrow>
       if (first_byte = 0x00 \<and> second_byte AND 0x80 = 0) \<or>
          (first_byte = 0xff \<and> second_byte AND 0x80 \<noteq> 0)
       then None else Some is_negative))"

definition CBS_is_unsigned_asn1_integer :: "cbs \<Rightarrow> bool" where
  "CBS_is_unsigned_asn1_integer c \<longleftrightarrow> CBS_is_valid_asn1_integer c = Some False"

fun asn1_uint64_loop :: "u64 \<Rightarrow> bytes \<Rightarrow> u64 option" where
  "asn1_uint64_loop out [] = Some out"
| "asn1_uint64_loop out (b # data) =
     (if drop_bit 56 out \<noteq> 0 then None
      else asn1_uint64_loop (push_bit 8 out OR ucast b) data)"

definition CBS_get_asn1_uint64 :: "cbs \<Rightarrow> (cbs, u64) cres" where
  "CBS_get_asn1_uint64 c =
     try_op (CBS_get_asn1 c CBS_ASN1_INTEGER) (\<lambda>data c.
       if \<not> CBS_is_unsigned_asn1_integer data then fails c
       else (asn1_uint64_loop 0 data, c))"

text \<open>
  The union of an \<open>int64_t\<close> and its bytes is read on a little-endian machine, as the
  code assumes: the sign byte fills all eight bytes, then the contents are stored from
  the least significant end.
\<close>

definition CBS_get_asn1_int64 :: "cbs \<Rightarrow> (cbs, u64) cres" where
  "CBS_get_asn1_int64 c =
     try_op (CBS_get_asn1 c CBS_ASN1_INTEGER) (\<lambda>data c.
       case CBS_is_valid_asn1_integer data of None \<Rightarrow> fails c | Some is_negative \<Rightarrow>
       if length data > 8 then fails c
       else
         let bytes = rev data @ replicate (8 - length data) (if is_negative then 0xff else 0) in
         returns (word_of_nat (le_nat bytes)) c)"

definition CBS_get_asn1_bool :: "cbs \<Rightarrow> (cbs, bool) cres" where
  "CBS_get_asn1_bool c =
     try_op (CBS_get_asn1 c CBS_ASN1_BOOLEAN) (\<lambda>data c.
       if CBS_len data \<noteq> 1 then fails c
       else
         let v = data ! 0 in
         if v \<noteq> 0 \<and> v \<noteq> 0xff then fails c else returns (v \<noteq> 0) c)"

text \<open>
  An optional element is \<open>Some None\<close> when it is absent (\<open>*out_present\<close> is 0 and
  \<open>*out\<close> is not written).
\<close>

definition CBS_get_optional_asn1 :: "cbs \<Rightarrow> u32 \<Rightarrow> (cbs, cbs option) cres" where
  "CBS_get_optional_asn1 c tag =
     (if CBS_peek_asn1_tag c tag
      then try_op (CBS_get_asn1 c tag) (\<lambda>out c. returns (Some out) c)
      else returns None c)"

definition CBS_get_optional_asn1_octet_string ::
    "cbs \<Rightarrow> u32 \<Rightarrow> (cbs, cbs \<times> bool) cres" where
  "CBS_get_optional_asn1_octet_string c tag =
     try_op (CBS_get_optional_asn1 c tag) (\<lambda>child c.
       case child of
         None \<Rightarrow> returns ([], False) c
       | Some child \<Rightarrow>
           (case CBS_get_asn1 child CBS_ASN1_OCTETSTRING of
              (None, _) \<Rightarrow> fails c
            | (Some out, child) \<Rightarrow>
                if CBS_len child \<noteq> 0 then fails c else returns (out, True) c))"

definition CBS_get_optional_asn1_uint64 :: "cbs \<Rightarrow> u32 \<Rightarrow> u64 \<Rightarrow> (cbs, u64) cres" where
  "CBS_get_optional_asn1_uint64 c tag default_value =
     try_op (CBS_get_optional_asn1 c tag) (\<lambda>child c.
       case child of
         None \<Rightarrow> returns default_value c
       | Some child \<Rightarrow>
           (case CBS_get_asn1_uint64 child of
              (None, _) \<Rightarrow> fails c
            | (Some out, child) \<Rightarrow>
                if CBS_len child \<noteq> 0 then fails c else returns out c))"

definition CBS_get_optional_asn1_bool :: "cbs \<Rightarrow> u32 \<Rightarrow> int \<Rightarrow> (cbs, int) cres" where
  "CBS_get_optional_asn1_bool c tag default_value =
     try_op (CBS_get_optional_asn1 c tag) (\<lambda>child c.
       case child of
         None \<Rightarrow> returns default_value c
       | Some child \<Rightarrow>
           (case CBS_get_asn1 child CBS_ASN1_BOOLEAN of
              (None, _) \<Rightarrow> fails c
            | (Some child2, child) \<Rightarrow>
                if CBS_len child2 \<noteq> 1 \<or> CBS_len child \<noteq> 0 then fails c
                else
                  let boolean = child2 ! 0 in
                  if boolean = 0 then returns 0 c
                  else if boolean = 0xff then returns 1 c
                  else fails c))"

definition CBS_is_valid_asn1_bitstring :: "cbs \<Rightarrow> bool" where
  "CBS_is_valid_asn1_bitstring c \<longleftrightarrow>
     (case CBS_get_u8 c of (None, _) \<Rightarrow> False | (Some num_unused_bits, inp) \<Rightarrow>
      if num_unused_bits > 7 then False
      else if num_unused_bits = 0 then True
      else
        (case CBS_get_last_u8 inp of (None, _) \<Rightarrow> False | (Some last_byte, _) \<Rightarrow>
         last_byte AND (push_bit (unat num_unused_bits) 1 - 1) = 0))"

definition CBS_asn1_bitstring_has_bit :: "cbs \<Rightarrow> u32 \<Rightarrow> bool" where
  "CBS_asn1_bitstring_has_bit c b \<longleftrightarrow>
     (if \<not> CBS_is_valid_asn1_bitstring c then False
      else
        let byte_num = drop_bit 3 b + 1; bit_num = 7 - (b AND 7) in
        unat byte_num < CBS_len c \<and>
        (c ! unat byte_num) AND push_bit (unat bit_num) 1 \<noteq> 0)"

section \<open>Characteristic equations of the readers\<close>

lemma CBS_get_u8_simps [simp]: "CBS_get_u8 [] = (None, [])" "CBS_get_u8 (b # c) = (Some b, c)"
  by (simp_all add: CBS_get_u8_def cbs_get_def)

lemma cbs_get_u_eq:
  "cbs_get_u c n = (if length c < n then (None, c) else (Some (word_of_nat (be_nat (take n c))), drop n c))"
  by (simp add: cbs_get_u_def cbs_get_def foldl_be_accumulate_0)

lemma CBS_get_bytes_eq:
  "CBS_get_bytes c n = (if length c < n then (None, c) else (Some (take n c), drop n c))"
  by (simp add: CBS_get_bytes_def cbs_get_def CBS_init_def)

lemma CBS_skip_eq:
  "CBS_skip c n = (if length c < n then (None, c) else (Some (), drop n c))"
  by (simp add: CBS_skip_def cbs_get_def)

lemma CBS_get_ints:
  "CBS_get_u16 c = (if length c < 2 then (None, c) else (Some (word_of_nat (be_nat (take 2 c))), drop 2 c))"
  "CBS_get_u24 c = (if length c < 3 then (None, c) else (Some (word_of_nat (be_nat (take 3 c))), drop 3 c))"
  "CBS_get_u32 c = (if length c < 4 then (None, c) else (Some (word_of_nat (be_nat (take 4 c))), drop 4 c))"
  "CBS_get_u64 c = (if length c < 8 then (None, c) else (Some (word_of_nat (be_nat (take 8 c))), drop 8 c))"
  by (simp_all add: CBS_get_u16_def CBS_get_u24_def CBS_get_u32_def CBS_get_u64_def cbs_get_u_eq ucast_word_of_nat)

lemma CBS_get_ints_le:
  "CBS_get_u16le c = (if length c < 2 then (None, c) else (Some (word_of_nat (le_nat (take 2 c))), drop 2 c))"
  "CBS_get_u32le c = (if length c < 4 then (None, c) else (Some (word_of_nat (le_nat (take 4 c))), drop 4 c))"
  "CBS_get_u64le c = (if length c < 8 then (None, c) else (Some (word_of_nat (le_nat (take 8 c))), drop 8 c))"
  using CBS_get_ints bswap_of_bytes
  by (simp_all add: CBS_get_u16le_def CBS_get_u32le_def CBS_get_u64le_def cbs_get_u_eq)

section \<open>Base-128 integers\<close>

text \<open>
  The specification of the encoding: seven bits a byte, most significant first, the high
  bit set on all but the last byte, no leading zero group.
\<close>

fun b128_hi :: "nat \<Rightarrow> bytes" where
  "b128_hi v = (if v = 0 then [] else b128_hi (v div 128) @ [word_of_nat (128 + v mod 128)])"

declare b128_hi.simps [simp del]

definition b128 :: "nat \<Rightarrow> bytes" where
  "b128 v = b128_hi (v div 128) @ [word_of_nat (v mod 128)]"

lemma b128_hi_0 [simp]: "b128_hi 0 = []"
  by (simp add: b128_hi.simps)

lemma unat_base128_step:
  fixes v :: u64 and b :: u8
  assumes "unat v < 2 ^ 57"
  shows "unat (push_bit 7 v OR ucast (b AND 0x7f)) = unat v * 128 + unat b mod 128"
proof -
  have "unat (ucast (b AND 0x7f) :: u64) = unat b mod 128"
    by (simp add: unat_ucast unat_u8_and_7f)
  then show ?thesis
    using assms by (simp add: unat_push_bit_or)
qed

lemma drop_bit_57: "drop_bit 57 v = 0 \<longleftrightarrow> unat v < 2 ^ 57" for v :: u64
  using unat_drop_bit [of 57 v] by (metis div_eq_0_iff unat_0_iff zero_neq_numeral power_not_zero)

lemma u8_eq_80: "b = 0x80 \<longleftrightarrow> unat b = 128" for b :: u8
  by (simp add: word_unat_eq_iff)

lemma parse_base128_loop_step:
  "parse_base128_loop v (b # c) =
     (if 2 ^ 57 \<le> unat v \<or> (v = 0 \<and> unat b = 128) then (None, c)
      else let v' = word_of_nat (unat v * 128 + unat b mod 128) in
        if unat b < 128 then (Some v', c) else parse_base128_loop v' c)"
proof (cases "unat v < 2 ^ 57")
  case True
  then have "push_bit 7 v OR ucast (b AND 0x7f) = word_of_nat (unat v * 128 + unat b mod 128)"
    by (simp add: unat_base128_step [symmetric])
  with True show ?thesis
    by (simp add: drop_bit_57 u8_and_80 u8_eq_80 Let_def)
qed (simp add: drop_bit_57)

declare parse_base128_loop.simps(2) [simp del]

lemma parse_base128_hi:
  assumes "u < 2 ^ 64"
  shows "parse_base128_loop 0 (b128_hi u @ c) = parse_base128_loop (word_of_nat u) c"
  using assms
proof (induction u arbitrary: c rule: b128_hi.induct)
  case (1 u)
  show ?case
  proof (cases "u = 0")
    case False
    have lt: "u div 128 < 2 ^ 57" using "1.prems" by simp
    have z: "(word_of_nat (u div 128) :: u64) = 0 \<longleftrightarrow> u div 128 = 0"
      using "1.prems" by (simp add: word_unat_eq_iff unat_of_nat)
    have nz: "\<not> (u div 128 = 0 \<and> u mod 128 = 0)"
      using False by (metis mod_div_trivial mod_less div_less mod_eq_self_iff_div_eq_0)
    have "parse_base128_loop 0 (b128_hi u @ c) =
        parse_base128_loop (word_of_nat (u div 128)) (word_of_nat (128 + u mod 128) # c)"
      using 1 False by (subst b128_hi.simps) simp
    also have "\<dots> = parse_base128_loop (word_of_nat u) c"
      using z nz lt "1.prems"
      by (auto simp: parse_base128_loop_step Let_def unat_of_nat)
    finally show ?thesis .
  qed simp
qed

lemma parse_base128_b128:
  assumes "v < 2 ^ 64"
  shows "parse_base128_integer (b128 v @ c) = (Some (word_of_nat v), c)"
proof -
  have "parse_base128_loop (word_of_nat (v div 128)) (word_of_nat (v mod 128) # c) = (Some (word_of_nat v), c)"
    using assms by (auto simp: parse_base128_loop_step Let_def unat_of_nat)
  moreover have "v div 128 < 2 ^ 64" using assms by simp
  ultimately show ?thesis
    by (simp add: parse_base128_integer_def b128_def parse_base128_hi)
qed

lemma parse_base128_loop_inv:
  "parse_base128_loop w c = (Some v, r) \<Longrightarrow> \<exists>p. c = p @ r \<and> b128_hi (unat w) @ p = b128 (unat v)"
proof (induction c arbitrary: w)
  case (Cons b c)
  have lt: "unat w < 2 ^ 57" and nz: "\<not> (w = 0 \<and> unat b = 128)"
    using Cons.prems by (auto simp: parse_base128_loop_step split: if_splits)
  define w' :: u64 where "w' = word_of_nat (unat w * 128 + unat b mod 128)"
  have uw': "unat w' = unat w * 128 + unat b mod 128"
    using lt mod_less_divisor [of 128 "unat b"]
    by (simp add: w'_def unat_of_nat)
  show ?case
  proof (cases "unat b < 128")
    case True
    then have "c = r" "v = w'"
      using Cons.prems lt nz by (auto simp: parse_base128_loop_step w'_def Let_def)
    with True uw' show ?thesis by (auto simp: b128_def)
  next
    case False
    then have "parse_base128_loop w' c = (Some v, r)"
      using Cons.prems lt nz by (auto simp: parse_base128_loop_step w'_def Let_def split: if_splits)
    then obtain p where p: "c = p @ r" "b128_hi (unat w') @ p = b128 (unat v)"
      using Cons.IH by blast
    have bb: "128 + unat b mod 128 = unat b"
      using False by (intro mod_128_high) simp_all
    have "unat w' \<noteq> 0"
      using nz uw' bb by (auto simp: unat_0_iff)
    then have "b128_hi (unat w') = b128_hi (unat w) @ [b]"
      using uw' bb by (subst b128_hi.simps) simp
    with p show ?thesis by auto
  qed
qed simp

lemma parse_base128_inv:
  "parse_base128_integer c = (Some v, r) \<Longrightarrow> c = b128 (unat v) @ r"
  using parse_base128_loop_inv [of 0 c v r] by (auto simp: parse_base128_integer_def)

text \<open>C13: \<open>parse_base128_integer\<close> accepts exactly the minimal base-128 encodings of 64-bit numbers and
  leaves the bytes behind them.\<close>

theorem parse_base128_exact:
  "parse_base128_integer c = (Some v, r) \<longleftrightarrow> c = b128 (unat v) @ r"
  using parse_base128_inv [of c v r] parse_base128_b128 [of "unat v" r] unat_u64_bound [of v] by auto

end
