(* ===== verification/DER.thy ===== *)
theory DER
  imports CBS
begin

text \<open>
  What the element parser of \<^verbatim>\<open>cbs.c\<close> reads, as mathematics: the one DER encoding of a tag,
  a length and an element, and the two's complement value of INTEGER contents. The lemmas
  say that the parsers accept these encodings and nothing else.
\<close>

unbundle bit_operations_syntax

section \<open>DER headers\<close>

definition der_tag :: "u32 \<Rightarrow> bytes" where
  "der_tag t =
     (let hi = unat t div 2 ^ 29; n = unat t mod 2 ^ 29 in
      if n < 31 then [word_of_nat (hi * 32 + n)] else word_of_nat (hi * 32 + 31) # b128 n)"

definition len_octets :: "nat \<Rightarrow> nat" where
  "len_octets n = (if n < 256 then 1 else if n < 65536 then 2 else if n < 16777216 then 3 else 4)"

definition der_len :: "nat \<Rightarrow> bytes" where
  "der_len n =
     (if n < 128 then [word_of_nat n]
      else word_of_nat (128 + len_octets n) # be_bytes (len_octets n) n)"

definition der_element :: "u32 \<Rightarrow> bytes \<Rightarrow> bytes" where
  "der_element t contents = der_tag t @ der_len (length contents) @ contents"

lemma and_push_bit_mask: "x AND push_bit n (mask m) = push_bit n (take_bit m (drop_bit n x))"
  for x :: "'a::len word"
  by (rule bit_word_eqI) (auto simp: bit_simps)

lemma asn1_tag_bits: "push_bit 24 (ucast b AND 0xe0 :: u32) = push_bit 29 (drop_bit 5 (ucast b))"
  for b :: u8
proof -
  have e: "(0xe0 :: u32) = push_bit 5 (mask 3)"
    by (simp add: push_bit_eq_mult mask_eq_exp_minus_1)
  have "unat (drop_bit 5 (ucast b :: u32)) < 2 ^ 3"
    using less_mult_imp_div_less [of "unat b" 8 32] by (simp add: unat_drop_bit unat_ucast)
  then have t: "take_bit 3 (drop_bit 5 (ucast b :: u32)) = drop_bit 5 (ucast b)"
    by (rule take_bit_small)
  show ?thesis unfolding e and_push_bit_mask t by (simp add: push_bit_push_bit)
qed

lemma asn1_tag_join:
  fixes b :: u8 and n :: u32
  assumes "unat n < 2 ^ 29"
  shows "push_bit 24 (ucast b AND 0xe0 :: u32) OR n = word_of_nat (unat b div 32 * 2 ^ 29 + unat n)"
proof -
  have "unat b div 32 < 8" by (rule less_mult_imp_div_less) simp
  then have "unat b div 32 * 2 ^ 29 + unat n < 2 ^ 32" using assms by simp
  then show ?thesis
    using assms unfolding asn1_tag_bits
    by (simp add: word_unat_eq_iff unat_push_bit_or unat_drop_bit unat_ucast unat_of_nat)
qed

lemma parse_asn1_tag_Nil [simp]: "parse_asn1_tag [] = (None, [])"
  by (simp add: parse_asn1_tag_def)

lemma parse_asn1_tag_Cons:
  "parse_asn1_tag (b # c) =
     (if unat b mod 32 = 31 then
        try_op (parse_base128_integer c) (\<lambda>v c.
          if 2 ^ 29 \<le> unat v \<or> unat v < 31 then (None, c)
          else (Some (word_of_nat (unat b div 32 * 2 ^ 29 + unat v)), c))
      else (Some (word_of_nat (unat b div 32 * 2 ^ 29 + unat b mod 32)), c))"
proof -
  have n: "unat (ucast (b AND 0x1f) :: u32) = unat b mod 32"
    by (simp add: unat_ucast unat_u8_and_1f)
  have eq31: "(ucast (b AND 0x1f) :: u32) = 31 \<longleftrightarrow> unat b mod 32 = 31"
    by (simp add: word_unat_eq_iff n)
  have low: "push_bit 24 (ucast b AND 0xe0 :: u32) OR ucast (b AND 0x1f) =
      word_of_nat (unat b div 32 * 2 ^ 29 + unat b mod 32)"
    using asn1_tag_join [of "ucast (b AND 0x1f)" b] n
    by (simp add: less_trans [OF mod_less_divisor])
  have mask: "ucast CBS_ASN1_TAG_NUMBER_MASK < v \<longleftrightarrow> 2 ^ 29 \<le> unat v" for v :: u64
    by (simp add: CBS_ASN1_TAG_NUMBER_MASK_def CBS_ASN1_TAG_SHIFT_def word_less_nat_alt unat_ucast)
      linarith
  have small: "v < 0x1f \<longleftrightarrow> unat v < 31" for v :: u64
    by (simp add: word_less_nat_alt)
  have high: "push_bit 24 (ucast b AND 0xe0 :: u32) OR ucast v =
      word_of_nat (unat b div 32 * 2 ^ 29 + unat v)" if "unat v < 2 ^ 29" for v :: u64
    using asn1_tag_join [of "ucast v" b] that by (simp add: unat_ucast)
  show ?thesis
    unfolding parse_asn1_tag_def CBS_get_u8_simps try_op_Some Let_def CBS_ASN1_TAG_SHIFT_def eq31 low mask small
    by (auto simp: high not_le split: try_op_splits simp del: push_bit_and)
qed

lemma unat_tag_hi: "unat t div 2 ^ 29 < 8" for t :: u32
  using unsigned_less [of t] by (intro less_mult_imp_div_less) simp

lemma tag_split: "(word_of_nat (unat t div 2 ^ 29 * 2 ^ 29 + unat t mod 2 ^ 29) :: u32) = t"
  by (simp only: div_mult_mod_eq word_of_nat_unat)

lemma parse_asn1_tag_der_tag: "parse_asn1_tag (der_tag t @ c) = (Some t, c)"
proof (cases "unat t mod 2 ^ 29 < 31")
  case True
  then show ?thesis
    using unat_tag_hi [of t] tag_split [of t] by (simp add: der_tag_def parse_asn1_tag_Cons)
next
  case False
  have "parse_base128_integer (b128 (unat t mod 2 ^ 29) @ c) = (Some (word_of_nat (unat t mod 2 ^ 29)), c)"
    by (rule parse_base128_b128) (rule less_trans [OF mod_less_divisor], simp_all)
  then show ?thesis
    using False unat_tag_hi [of t] tag_split [of t]
    by (simp add: der_tag_def parse_asn1_tag_Cons unat_of_nat)
qed

lemma der_tag_of_parts:
  assumes "h < 8" and "n < 2 ^ 29"
  shows "der_tag (word_of_nat (h * 2 ^ 29 + n)) =
    (if n < 31 then [word_of_nat (h * 32 + n)] else word_of_nat (h * 32 + 31) # b128 n)"
proof -
  have "unat (word_of_nat (h * 2 ^ 29 + n) :: u32) = h * 2 ^ 29 + n"
    using assms by (simp add: unat_of_nat)
  with assms(2) show ?thesis by (simp add: der_tag_def Let_def)
qed

lemma parse_asn1_tag_inv:
  assumes "parse_asn1_tag c = (Some t, r)"
  shows "c = der_tag t @ r"
proof (cases c)
  case (Cons b c')
  have hi: "unat b div 32 < 8" by (rule less_mult_imp_div_less) simp
  have join: "word_of_nat (unat b div 32 * 32 + unat b mod 32) = b"
    by (simp only: div_mult_mod_eq word_of_nat_unat)
  show ?thesis
  proof (cases "unat b mod 32 = 31")
    case True
    with assms Cons obtain v where v: "parse_base128_integer c' = (Some v, r)" "unat v < 2 ^ 29"
        "31 \<le> unat v" and t: "t = word_of_nat (unat b div 32 * 2 ^ 29 + unat v)"
      by (auto simp: parse_asn1_tag_Cons split: try_op_splits if_splits)
    show ?thesis
      using parse_base128_inv [OF v(1)] v(2,3) Cons join True der_tag_of_parts [OF hi v(2)]
      by (simp add: t)
  next
    case False
    then have t: "t = word_of_nat (unat b div 32 * 2 ^ 29 + unat b mod 32)" and "c' = r"
      using assms Cons by (simp_all add: parse_asn1_tag_Cons)
    moreover have "unat b mod 32 < 31"
      using False mod_less_divisor [of 32 "unat b"] by linarith
    ultimately show ?thesis
      using Cons join der_tag_of_parts [OF hi, of "unat b mod 32"] by simp
  qed
qed (use assms in simp)

lemma length_b128_hi: "v < 128 ^ n \<Longrightarrow> length (b128_hi v) \<le> n"
proof (induction n arbitrary: v)
  case (Suc n)
  then have "v div 128 < 128 ^ n" by (simp add: less_mult_imp_div_less mult.commute)
  with Suc.IH show ?case by (subst b128_hi.simps) simp
qed simp

lemma length_der_tag: "0 < length (der_tag t)" "length (der_tag t) \<le> 6"
proof -
  have "unat t mod 2 ^ 29 div 128 < 128 ^ 4"
    using mod_less_divisor [of "2 ^ 29" "unat t"] by (intro less_mult_imp_div_less) simp
  from length_b128_hi [OF this] show "0 < length (der_tag t)" "length (der_tag t) \<le> 6"
    by (simp_all add: der_tag_def b128_def Let_def)
qed


section \<open>DER elements\<close>

lemma len_octets_cases:
  assumes "n < 2 ^ 32"
  shows "len_octets n \<in> {1, 2, 3, 4}" "n < 256 ^ len_octets n"
    "128 \<le> n \<Longrightarrow> 256 ^ (len_octets n - 1) \<le> n"
  using assms by (auto simp: len_octets_def)

lemma len_octets_unique:
  assumes "k \<in> {1, 2, 3, 4}" "n < 256 ^ k" "256 ^ (k - 1) \<le> n"
  shows "len_octets n = k"
  using assms by (auto simp: len_octets_def)

lemma length_der_len: "n < 2 ^ 32 \<Longrightarrow> length (der_len n) = (if n < 128 then 1 else 1 + len_octets n)"
  by (simp add: der_len_def)

text \<open>The DER mode of the element parser, with the header split off.\<close>

lemma CBS_get_any_asn1_element_header:
  assumes tag: "parse_asn1_tag c = (Some t, b # h)" and len: "length c - length h \<le> 7"
    and c: "length h < length c"
  shows "CBS_get_any_asn1_element c =
    (let hl = length c - length h in
     if unat b < 128 then
       if length c < unat b + hl then (None, c)
       else (Some (take (unat b + hl) c, t, hl), drop (unat b + hl) c)
     else
       let k = unat b mod 128; n = be_nat (take k h) in
       if k = 0 \<or> 4 < k \<or> length h < k \<or> n < 128 \<or> n < 256 ^ (k - 1) then (None, c)
       else if length c < n + hl + k then (None, c)
       else (Some (take (n + hl + k) c, t, hl + k), drop (n + hl + k) c))"
proof (cases "unat b < 128")
  case True
  then show ?thesis
    using c by (simp add: CBS_get_any_asn1_element_def cbs_get_any_asn1_element_def tag Let_def
      u8_and_80 CBS_len_def CBS_get_bytes_eq)
next
  case False
  define k where "k = unat b mod 128"
  define n where "n = be_nat (take k h)"
  define hl where "hl = length c - length h"
  have kb: "unat (b AND 0x7f) = k" by (simp add: unat_u8_and_7f k_def)
  show ?thesis
  proof (cases "k = 0 \<or> 4 < k \<or> length h < k")
    case True
    then show ?thesis
      using False c by (auto simp: CBS_get_any_asn1_element_def cbs_get_any_asn1_element_def tag Let_def
        u8_and_80 CBS_len_def CBS_get_bytes_eq kb cbs_get_u_eq simp flip: k_def)
  next
    case k: False
    have nb: "n < 256 ^ k"
      using be_nat_bound [of "take k h"] k by (simp add: n_def)
    also have "(256 :: nat) ^ k \<le> 256 ^ 4" using k by (intro power_increasing) auto
    finally have n32: "n < 2 ^ 32" by simp
    have un: "unat (word_of_nat n :: u64) = n"
      using n32 by (simp add: unat_of_nat)
    have d: "drop_bit ((k - Suc 0) * 8) (word_of_nat n :: u64) = 0 \<longleftrightarrow> n < 256 ^ (k - Suc 0)"
      by (simp add: word_unat_eq_iff unat_drop_bit un power_mult mult.commute [of _ 8] div_eq_0_iff)
    have l: "(word_of_nat n :: u64) < 128 \<longleftrightarrow> n < 128"
      by (simp add: word_less_nat_alt un)
    have s: "size_add (size_add n hl) k = n + hl + k" "size_add n (size_add hl k) = n + hl + k"
      using n32 k len by (simp_all add: size_add_def hl_def)
    show ?thesis
      using False k by (auto simp: CBS_get_any_asn1_element_def cbs_get_any_asn1_element_def tag Let_def
        u8_and_80 CBS_len_def CBS_get_bytes_eq kb cbs_get_u_eq d l s un simp flip: k_def n_def hl_def)
  qed
qed

text \<open>Every DER element is read back, whatever follows it.\<close>

lemma CBS_get_any_asn1_element_der:
  assumes len: "length contents < 2 ^ 32"
  shows "CBS_get_any_asn1_element (der_element t contents @ r) =
    (Some (der_element t contents, t, length (der_tag t) + length (der_len (length contents))), r)"
proof (cases "length contents < 128")
  case True
  let ?c = "der_element t contents @ r"
  have p: "parse_asn1_tag ?c = (Some t, word_of_nat (length contents) # contents @ r)"
    using True parse_asn1_tag_der_tag [of t] by (simp add: der_element_def der_len_def)
  show ?thesis
    using CBS_get_any_asn1_element_header [OF p] True length_der_tag [of t]
    by (simp add: Let_def der_element_def der_len_def)
next
  case False
  let ?c = "der_element t contents @ r"
  define k where "k = len_octets (length contents)"
  define h where "h = be_bytes k (length contents) @ contents @ r"
  have k: "k \<in> {1, 2, 3, 4}" "length contents < 256 ^ k" "256 ^ (k - 1) \<le> length contents"
    using len_octets_cases [OF len] False by (simp_all add: k_def)
  have p: "parse_asn1_tag ?c = (Some t, word_of_nat (128 + k) # h)"
    using False parse_asn1_tag_der_tag [of t] by (simp add: der_element_def der_len_def k_def h_def)
  have n: "be_nat (take k h) = length contents"
    using k by (simp add: h_def be_nat_be_bytes)
  have b: "unat (word_of_nat (128 + k) :: u8) = 128 + k"
    using k(1) by auto
  have lc: "length ?c = length (der_tag t) + 1 + length h"
    using False by (simp add: der_element_def der_len_def h_def k_def)
  have m: "(128 + k) mod 128 = k" using k(1) by auto
  show ?thesis
    using CBS_get_any_asn1_element_header [OF p] length_der_tag [of t] False n b k lc m
    by (auto simp: Let_def der_element_def der_len_def h_def simp flip: k_def)
qed

lemma CBS_get_any_asn1_element_parts:
  assumes "CBS_get_any_asn1_element c = (Some res, r)"
  obtains t b h where "parse_asn1_tag c = (Some t, b # h)" "c = der_tag t @ b # h"
proof -
  from assms obtain t h' b h where "parse_asn1_tag c = (Some t, h')" "CBS_get_u8 h' = (Some b, h)"
    by (auto simp: CBS_get_any_asn1_element_def cbs_get_any_asn1_element_def
      split: try_op_splits prod.splits option.splits)
  moreover from this have "h' = b # h" by (cases h') auto
  ultimately show ?thesis using that parse_asn1_tag_inv by blast
qed

text \<open>Conversely, whatever the DER parser accepts is the one DER encoding of its result.\<close>

lemma CBS_get_any_asn1_element_inv:
  assumes "CBS_get_any_asn1_element c = (Some (out, t, hl), r)"
  shows "\<exists>contents. length contents < 2 ^ 32 \<and> out = der_element t contents \<and>
    c = out @ r \<and> hl = length (der_tag t) + length (der_len (length contents))"
proof -
  obtain t' b h where p: "parse_asn1_tag c = (Some t', b # h)" and c: "c = der_tag t' @ b # h"
    using CBS_get_any_asn1_element_parts [OF assms] by blast
  have lc: "length c - length h = length (der_tag t') + 1" "length h < length c"
    using c by simp_all
  note hd = CBS_get_any_asn1_element_header [OF p _ lc(2)]
  define m where "m = unat b"
  define k where "k = unat b mod 128"
  show ?thesis
  proof (cases "unat b < 128")
    case True
    with hd assms lc length_der_tag [of t']
    have "t = t'" and hl: "hl = length (der_tag t') + 1" and "m + hl \<le> length c"
      and out: "out = take (m + hl) c" and r: "r = drop (m + hl) c"
      by (auto simp: Let_def m_def split: if_splits)
    then have "out = der_tag t @ b # take m h" "length (take m h) = m"
      using c by simp_all
    moreover have "der_len m = [b]" using True by (simp add: der_len_def m_def)
    ultimately have "out = der_element t (take m h)" "length (take m h) < 2 ^ 32"
      using True by (simp_all add: der_element_def m_def)
    moreover have "c = out @ r" using out r by simp
    ultimately show ?thesis
      using hl \<open>t = t'\<close> \<open>der_len m = [b]\<close> \<open>length (take m h) = m\<close>
      by (intro exI [of _ "take m h"]) simp
  next
    case False
    define n where "n = be_nat (take k h)"
    from False hd [unfolded Let_def, folded k_def, folded n_def] assms lc length_der_tag [of t']
    have "t = t'" and k: "0 < k" "k \<le> 4" "k \<le> length h" and n: "128 \<le> n" "256 ^ (k - 1) \<le> n"
      and hl: "hl = length (der_tag t') + 1 + k" and nl: "n + hl \<le> length c"
      and out: "out = take (n + hl) c" and r: "r = drop (n + hl) c"
      by (auto simp: add.assoc split: if_splits)
    define contents where "contents = take n (drop k h)"
    have nb: "n < 256 ^ k" using be_nat_bound [of "take k h"] k by (simp add: n_def)
    also have "(256 :: nat) ^ k \<le> 256 ^ 4" using k by (intro power_increasing) auto
    finally have n32: "n < 2 ^ 32" by simp
    have lo: "len_octets n = k"
      using k n(2) nb by (intro len_octets_unique) auto
    have "be_bytes k n = take k h"
      using be_bytes_be_nat [of "take k h"] k by (simp add: n_def)
    moreover have "word_of_nat (128 + k) = b"
      using mod_128_high [of "unat b"] False by (simp add: k_def)
    ultimately have dl: "der_len n = b # take k h"
      using n by (simp add: der_len_def lo)
    have lcont: "length contents = n"
      using nl c hl \<open>t = t'\<close> k by (simp add: contents_def)
    have "out = der_tag t @ b # take (k + n) h"
      using out c hl \<open>t = t'\<close> by (simp add: add.commute)
    then have "out = der_element t contents"
      using dl lcont by (simp add: der_element_def contents_def take_add)
    moreover have "c = out @ r" using out r by simp
    ultimately show ?thesis
      using n32 lcont hl dl \<open>t = t'\<close> k by (intro exI [of _ contents]) simp
  qed
qed

lemma CBS_get_asn1_der:
  assumes "length contents < 2 ^ 32"
  shows "CBS_get_asn1 (der_element t contents @ r) t = (Some contents, r)"
  using CBS_get_any_asn1_element_der [OF assms]
  by (simp add: CBS_get_asn1_def cbs_get_asn1_def CBS_skip_eq der_element_def)

lemma CBS_get_asn1_inv:
  assumes "CBS_get_asn1 c t = (Some contents, r)"
  shows "c = der_element t contents @ r \<and> length contents < 2 ^ 32"
proof -
  from assms obtain out hl where e: "CBS_get_any_asn1_element c = (Some (out, t, hl), r)"
      and s: "CBS_skip out hl = (Some (), contents)"
    by (auto simp: CBS_get_asn1_def cbs_get_asn1_def split: try_op_splits prod.splits option.splits if_splits)
  from CBS_get_any_asn1_element_inv [OF e] obtain contents' where
      "length contents' < 2 ^ 32" "out = der_element t contents'" "c = out @ r"
      "hl = length (der_tag t) + length (der_len (length contents'))"
    by blast
  with s show ?thesis by (auto simp: CBS_skip_eq der_element_def split: if_splits)
qed

lemma CBS_get_asn1_iff:
  "CBS_get_asn1 c t = (Some contents, r) \<longleftrightarrow> c = der_element t contents @ r \<and> length contents < 2 ^ 32"
  using CBS_get_asn1_der CBS_get_asn1_inv by blast

section \<open>INTEGER contents\<close>
text \<open>The two's complement value of big-endian bytes.\<close>

fun tc_int :: "bytes \<Rightarrow> int" where
  "tc_int [] = 0"
| "tc_int (b # bs) = sint b * 256 ^ length bs + int (be_nat bs)"

lemma uint_u8_bounds: "0 \<le> uint b" "uint b < 256" for b :: u8
  using uint_bounded [of b] by auto

lemma unat_u8_uint: "unat b < 128 \<longleftrightarrow> uint b < 128" "128 \<le> unat b \<longleftrightarrow> 128 \<le> uint b"
    "unat b = 0 \<longleftrightarrow> uint b = 0" "unat b = 255 \<longleftrightarrow> uint b = 255" for b :: u8
  unfolding uint_nat by linarith+

lemma sint_u8: "sint b = (if uint b < 128 then uint b else uint b - 256)" for b :: u8
proof -
  have "sint b = (if bit b 7 then uint b - 256 else uint b)"
    using take_bit_int_eq_self [of "uint b" 8] uint_u8_bounds [of b]
    by (simp add: sint_uint signed_take_bit_eq_take_bit_minus bit_uint_iff)
  then show ?thesis by (simp add: bit_u8_7 unat_u8_uint)
qed

lemma sint_u8_bounds: "- 128 \<le> sint b" "sint b < 128" for b :: u8
  using uint_u8_bounds [of b] unfolding sint_u8 by (simp_all only: split: if_split) linarith+

lemma int_be_nat_bound: "int (be_nat bs) < 256 ^ length bs"
  using be_nat_bound [of bs] by (metis of_nat_less_iff of_nat_numeral of_nat_power)

lemma tc_int_bounds:
  "- 128 * 256 ^ length bs \<le> tc_int (b # bs)" "tc_int (b # bs) < 128 * 256 ^ length bs"
proof -
  have "- 128 * 256 ^ length bs \<le> sint b * 256 ^ length bs"
    using sint_u8_bounds [of b] by (intro mult_right_mono) auto
  then show "- 128 * 256 ^ length bs \<le> tc_int (b # bs)" by simp
  have "sint b * 256 ^ length bs + 256 ^ length bs = (sint b + 1) * 256 ^ length bs"
    by (simp add: algebra_simps)
  also have "\<dots> \<le> 128 * 256 ^ length bs"
    using sint_u8_bounds [of b] by (intro mult_right_mono) auto
  finally show "tc_int (b # bs) < 128 * 256 ^ length bs"
    unfolding tc_int.simps using int_be_nat_bound [of bs] by linarith
qed

lemma valid_integer_simps:
  "CBS_is_valid_asn1_integer [] = None"
  "CBS_is_valid_asn1_integer [b] = Some (128 \<le> unat b)"
  "CBS_is_valid_asn1_integer (b # b2 # bs) =
     (if unat b = 0 \<and> unat b2 < 128 \<or> unat b = 255 \<and> 128 \<le> unat b2 then None
      else Some (128 \<le> unat b))"
proof -
  have eqs: "x = 0 \<longleftrightarrow> unat x = 0" "x = 0xff \<longleftrightarrow> unat x = 255" for x :: u8
    by (simp_all add: word_unat_eq_iff)
  show "CBS_is_valid_asn1_integer (b # b2 # bs) =
     (if unat b = 0 \<and> unat b2 < 128 \<or> unat b = 255 \<and> 128 \<le> unat b2 then None
      else Some (128 \<le> unat b))"
    unfolding CBS_is_valid_asn1_integer_def CBS_get_u8_simps prod.case option.case u8_and_80 Let_def
    unfolding eqs by (simp add: not_less)
qed (simp_all add: CBS_is_valid_asn1_integer_def u8_and_80 Let_def not_less)

lemma tc_int_neg: "tc_int (b # bs) < 0 \<longleftrightarrow> 128 \<le> unat b"
proof (cases "128 \<le> unat b")
  case True
  then have "sint b * 256 ^ length bs \<le> - 1 * 256 ^ length bs"
    using uint_u8_bounds [of b] by (intro mult_right_mono) (auto simp: sint_u8 unat_u8_uint)
  then show ?thesis
    using int_be_nat_bound [of bs] True unfolding tc_int.simps by linarith
next
  case False
  then have "0 \<le> sint b * 256 ^ length bs" by (simp add: sint_u8 unat_u8_uint)
  with False show ?thesis unfolding tc_int.simps by linarith
qed

lemma valid_integer_sign: "CBS_is_valid_asn1_integer d = Some neg \<Longrightarrow> neg \<longleftrightarrow> tc_int d < 0"
  by (cases d rule: remdups_adj.cases)
    (auto simp: valid_integer_simps tc_int_neg simp del: tc_int.simps split: if_splits)

lemma nonredundant_arith:
  fixes u u2 :: int
  assumes "0 \<le> u" "u < 256" "0 \<le> u2" "u2 < 256"
    and "\<not> (u = 0 \<and> u2 < 128 \<or> u = 255 \<and> 128 \<le> u2)"
  shows "(if u < 128 then u else u - 256) * 256 + u2 < - 128 \<or>
    128 \<le> (if u < 128 then u else u - 256) * 256 + u2"
  using assms by (cases "u < 128") (simp_all, linarith+)

lemma valid_integer_not_short:
  assumes "CBS_is_valid_asn1_integer (b # b2 # bs) = Some neg"
  shows "\<not> (- 128 * 256 ^ length bs \<le> tc_int (b # b2 # bs) \<and> tc_int (b # b2 # bs) < 128 * 256 ^ length bs)"
proof -
  define x where "x = sint b * 256 + uint b2"
  have tc: "tc_int (b # b2 # bs) = x * 256 ^ length bs + int (be_nat bs)"
    by (simp add: x_def be_nat_Cons of_nat_add of_nat_mult algebra_simps)
  have "x < - 128 \<or> 128 \<le> x"
    using nonredundant_arith [OF uint_u8_bounds [of b] uint_u8_bounds [of b2]] assms
    by (auto simp: valid_integer_simps x_def sint_u8 unat_u8_uint split: if_splits)
  then show ?thesis
  proof
    assume "128 \<le> x"
    then have "128 * 256 ^ length bs \<le> x * 256 ^ length bs" by (intro mult_right_mono) auto
    then show ?thesis unfolding tc by linarith
  next
    assume "x < - 128"
    then have "(x + 1) * 256 ^ length bs \<le> - 128 * 256 ^ length bs" by (intro mult_right_mono) auto
    then have "x * 256 ^ length bs + 256 ^ length bs \<le> - 128 * 256 ^ length bs"
      by (simp add: algebra_simps)
    then show ?thesis using int_be_nat_bound [of bs] unfolding tc by linarith
  qed
qed

lemma valid_integer_length_le:
  assumes "CBS_is_valid_asn1_integer d = Some neg" "tc_int d = tc_int e" "e \<noteq> []"
  shows "length d \<le> length e"
proof (rule ccontr)
  assume longer: "\<not> length d \<le> length e"
  with assms(3) obtain b b2 bs where d: "d = b # b2 # bs"
    by (cases d rule: remdups_adj.cases) (auto simp: Suc_le_eq)
  obtain c cs where e: "e = c # cs" using assms(3) by (cases e) auto
  have "(256 :: int) ^ length cs \<le> 256 ^ length bs"
    using longer d e by (intro power_increasing) auto
  then have "- 128 * 256 ^ length bs \<le> tc_int e \<and> tc_int e < 128 * 256 ^ length bs"
    using tc_int_bounds [where b = c and bs = cs] unfolding e by linarith
  then show False
    using valid_integer_not_short assms(1,2) unfolding d by metis
qed

lemma mult_add_unique:
  fixes a b m :: int
  assumes "a * m + r = b * m + s" "0 \<le> r" "r < m" "0 \<le> s" "s < m"
  shows "a = b \<and> r = s"
proof -
  have "(a * m + r) div m = a" "(b * m + s) div m = b"
    using assms(2-5) by (simp_all add: div_pos_pos_trivial)
  with assms(1) have "a = b" by simp
  with assms(1) show ?thesis by simp
qed

lemma tc_int_inject:
  assumes "tc_int d = tc_int e" "length d = length e"
  shows "d = e"
proof (cases d)
  case (Cons b bs)
  with assms obtain c cs where e: "e = c # cs" "length cs = length bs" by (cases e) auto
  have "sint b * 256 ^ length bs + int (be_nat bs) = sint c * 256 ^ length bs + int (be_nat cs)"
    using assms Cons e by simp
  moreover have "0 \<le> int (be_nat bs)" "int (be_nat bs) < 256 ^ length bs"
      "0 \<le> int (be_nat cs)" "int (be_nat cs) < 256 ^ length bs"
    using int_be_nat_bound [of bs] int_be_nat_bound [of cs] e by auto
  ultimately have "sint b = sint c \<and> int (be_nat bs) = int (be_nat cs)"
    by (rule mult_add_unique)
  then have "b = c" "be_nat bs = be_nat cs" by (auto intro: signed_word_eqI)
  then show ?thesis
    using be_bytes_be_nat [of bs] be_bytes_be_nat [of cs] Cons e by simp
qed (use assms in auto)

lemma valid_integer_unique:
  assumes "CBS_is_valid_asn1_integer d = Some m" "CBS_is_valid_asn1_integer e = Some n"
    and "tc_int d = tc_int e"
  shows "d = e"
proof -
  have "d \<noteq> []" "e \<noteq> []" using assms(1,2) by (auto simp: valid_integer_simps)
  then have "length d = length e"
    using valid_integer_length_le [OF assms(1,3)] valid_integer_length_le [OF assms(2), of d] assms(3)
    by (intro le_antisym) auto
  then show ?thesis by (rule tc_int_inject [OF assms(3)])
qed

section \<open>INTEGER and BOOLEAN values\<close>

lemma asn1_uint64_loop_eq:
  "asn1_uint64_loop v data =
     (if unat v * 256 ^ length data + be_nat data < 2 ^ 64
      then Some (word_of_nat (unat v * 256 ^ length data + be_nat data)) else None)"
proof (induction data arbitrary: v)
  case (Cons b data)
  have big: "drop_bit 56 v \<noteq> 0 \<longleftrightarrow> 2 ^ 56 \<le> unat v"
    using unat_drop_bit [of 56 v] by (simp add: word_unat_eq_iff div_eq_0_iff not_less)
  have val: "unat v * 256 ^ length (b # data) + be_nat (b # data) =
      (unat v * 256 + unat b) * 256 ^ length data + be_nat data"
    by (simp add: be_nat_Cons algebra_simps)
  show ?case
  proof (cases "2 ^ 56 \<le> unat v")
    case True
    then have "2 ^ 64 * 1 \<le> (unat v * 256 + unat b) * 256 ^ length data"
      by (intro mult_le_mono) auto
    with True show ?thesis unfolding val by (simp add: big)
  next
    case False
    have ub: "unat (ucast b :: u64) = unat b"
      by (simp add: unat_ucast less_trans [OF unat_u8_bound])
    have "unat (push_bit 8 v OR ucast b) = unat v * 256 + unat b"
      using False unat_u8_bound [of b]
      by (subst unat_push_bit_or) (simp_all add: ub del: unat_u8_bound)
    with False Cons show ?thesis unfolding val by (simp add: big)
  qed
qed (simp add: unat_u64_bound)

lemma tc_int_unsigned: "\<not> tc_int d < 0 \<Longrightarrow> tc_int d = int (be_nat d)"
proof (cases d)
  case (Cons b bs)
  assume "\<not> tc_int d < 0"
  then have "uint b < 128" using Cons by (simp only: tc_int_neg unat_u8_uint not_le)
  then have "sint b = int (unat b)" by (simp add: sint_u8)
  then show ?thesis using Cons by (simp add: be_nat_Cons of_nat_add of_nat_mult del: of_nat_unat)
qed simp

lemma unsigned_integer_iff:
  "CBS_is_unsigned_asn1_integer d \<longleftrightarrow> CBS_is_valid_asn1_integer d \<noteq> None \<and> \<not> tc_int d < 0"
  using valid_integer_sign [of d] by (auto simp: CBS_is_unsigned_asn1_integer_def)

lemma CBS_get_asn1_uint64_iff:
  "CBS_get_asn1_uint64 c = (Some v, r) \<longleftrightarrow>
    (\<exists>d. c = der_element CBS_ASN1_INTEGER d @ r \<and> length d < 2 ^ 32 \<and>
         CBS_is_valid_asn1_integer d \<noteq> None \<and> tc_int d = uint v)"
  (is "?L \<longleftrightarrow> (\<exists>d. ?R d)")
proof
  assume ?L
  then obtain d where d: "CBS_get_asn1 c CBS_ASN1_INTEGER = (Some d, r)"
      "CBS_is_unsigned_asn1_integer d" "asn1_uint64_loop 0 d = Some v"
    by (auto simp: CBS_get_asn1_uint64_def split: try_op_splits if_splits)
  then have "be_nat d < 2 ^ 64" "v = word_of_nat (be_nat d)"
    by (auto simp: asn1_uint64_loop_eq split: if_splits)
  then have "uint v = int (be_nat d)"
    by (simp add: unsigned_of_nat take_bit_nat_eq_self)
  then show "\<exists>d. ?R d"
    using d CBS_get_asn1_inv [OF d(1)] tc_int_unsigned [of d] by (auto simp: unsigned_integer_iff)
next
  assume "\<exists>d. ?R d"
  then obtain d where d: "c = der_element CBS_ASN1_INTEGER d @ r" "length d < 2 ^ 32"
      "CBS_is_valid_asn1_integer d \<noteq> None" "tc_int d = uint v" by blast
  then have "int (be_nat d) = uint v" using tc_int_unsigned [of d] by simp
  then have "be_nat d = unat v" unfolding uint_nat by (rule of_nat_eq_iff [THEN iffD1])
  then show ?L
    using d CBS_get_asn1_der [OF d(2)]
    by (simp add: CBS_get_asn1_uint64_def unsigned_integer_iff asn1_uint64_loop_eq unsigned_less [of v, simplified])
qed

lemma le_nat_replicate: "le_nat (replicate k 0xff) = 256 ^ k - 1" "le_nat (replicate k 0) = 0"
proof -
  have "le_nat (replicate k 0xff) + 1 = 256 ^ k" by (induction k) auto
  then show "le_nat (replicate k 0xff) = 256 ^ k - 1" by simp
qed (induction k, auto)

lemma sign_extend_bytes:
  assumes "CBS_is_valid_asn1_integer d = Some neg" "length d \<le> 8"
  shows "sint (word_of_nat (le_nat (rev d @ replicate (8 - length d) (if neg then 0xff else 0))) :: u64) = tc_int d"
proof -
  obtain b bs where d: "d = b # bs" using assms by (cases d) (auto simp: valid_integer_simps)
  let ?x = "le_nat (rev d @ replicate (8 - length d) (if neg then 0xff else 0))"
  have be: "le_nat (rev d) = be_nat d" by (simp add: be_nat_eq_le_nat)
  have p: "(256 :: nat) ^ length d * 256 ^ (8 - length d) = 2 ^ 64"
    using assms(2) by (simp flip: power_add)
  have pos: "(256 :: nat) ^ length d \<le> 2 ^ 64"
    using power_increasing [OF assms(2), of "256 :: nat"] by simp
  have tcb: "tc_int d = int (be_nat d) - (if neg then 256 ^ length d else 0)"
  proof (cases neg)
    case True
    then have "\<not> uint b < 128"
      using valid_integer_sign [OF assms(1)] d by (simp only: tc_int_neg unat_u8_uint not_less)
    then have sb: "sint b = int (unat b) - 256" by (simp add: sint_u8)
    show ?thesis unfolding d tc_int.simps sb be_nat_Cons using True
      by (simp add: of_nat_add of_nat_mult algebra_simps del: of_nat_unat)
  qed (use valid_integer_sign [OF assms(1)] tc_int_unsigned in simp)
  have x: "int ?x = tc_int d + (if neg then 2 ^ 64 else 0)"
  proof (cases neg)
    case True
    then have "?x = be_nat d + (2 ^ 64 - 256 ^ length d)"
      using p by (simp add: le_nat_append be le_nat_replicate diff_mult_distrib2)
    then show ?thesis using True tcb pos by (simp add: of_nat_add of_nat_diff)
  next
    case False
    then show ?thesis using tcb by (simp add: le_nat_append be le_nat_replicate)
  qed
  have "(256 :: int) ^ length bs \<le> 256 ^ 7"
    using assms(2) d by (intro power_increasing) auto
  then have "- (2 ^ 63) \<le> tc_int d" "tc_int d < 2 ^ 63"
    using tc_int_bounds [where b = b and bs = bs] unfolding d by auto
  moreover have "(word_of_nat ?x :: u64) = word_of_int (tc_int d)"
    using x by (auto simp: word_uint_eq_iff uint_word_of_int unsigned_of_nat take_bit_eq_mod of_nat_mod)
  ultimately show ?thesis by (simp add: int_word_sint)
qed

lemma valid_integer_length_8:
  fixes v :: u64
  assumes "CBS_is_valid_asn1_integer d = Some neg" "tc_int d = sint v"
  shows "length d \<le> 8"
proof (rule ccontr)
  assume "\<not> length d \<le> 8"
  then obtain b b2 bs where d: "d = b # b2 # bs" "7 \<le> length bs"
    by (cases d rule: remdups_adj.cases) auto
  have "(256 :: int) ^ 7 \<le> 256 ^ length bs" using d(2) by (intro power_increasing) auto
  moreover have "- (2 ^ 63) \<le> sint v" "sint v < 2 ^ 63"
    using sint_greater_eq [of v] sint_less [of v] by simp_all
  ultimately have "- 128 * 256 ^ length bs \<le> sint v \<and> sint v < 128 * 256 ^ length bs"
    by auto
  then show False using valid_integer_not_short assms unfolding d(1) by metis
qed

lemma CBS_get_asn1_int64_iff:
  "CBS_get_asn1_int64 c = (Some v, r) \<longleftrightarrow>
    (\<exists>d. c = der_element CBS_ASN1_INTEGER d @ r \<and> length d < 2 ^ 32 \<and>
         CBS_is_valid_asn1_integer d \<noteq> None \<and> tc_int d = sint v)"
  (is "?L \<longleftrightarrow> (\<exists>d. ?R d)")
proof
  assume ?L
  then obtain d neg where d: "CBS_get_asn1 c CBS_ASN1_INTEGER = (Some d, r)"
      "CBS_is_valid_asn1_integer d = Some neg" "length d \<le> 8"
      "v = word_of_nat (le_nat (rev d @ replicate (8 - length d) (if neg then 0xff else 0)))"
    by (auto simp: CBS_get_asn1_int64_def Let_def split: try_op_splits if_splits option.splits)
  then have "tc_int d = sint v" using sign_extend_bytes [OF d(2,3)] by simp
  then show "\<exists>d. ?R d" using d CBS_get_asn1_inv [OF d(1)] by auto
next
  assume "\<exists>d. ?R d"
  then obtain d neg where d: "c = der_element CBS_ASN1_INTEGER d @ r" "length d < 2 ^ 32"
      "CBS_is_valid_asn1_integer d = Some neg" "tc_int d = sint v" by auto
  have l: "length d \<le> 8" using valid_integer_length_8 [OF d(3,4)] .
  then have "v = word_of_nat (le_nat (rev d @ replicate (8 - length d) (if neg then 0xff else 0)))"
    using sign_extend_bytes [OF d(3) l] d(4) signed_word_eqI by metis
  then show ?L
    using d l CBS_get_asn1_der [OF d(2), of CBS_ASN1_INTEGER r]
    by (simp add: CBS_get_asn1_int64_def Let_def)
qed

lemma CBS_get_asn1_bool_iff:
  "CBS_get_asn1_bool c = (Some v, r) \<longleftrightarrow> c = der_element CBS_ASN1_BOOLEAN [if v then 0xff else 0] @ r"
proof
  assume "CBS_get_asn1_bool c = (Some v, r)"
  then obtain d where d: "CBS_get_asn1 c CBS_ASN1_BOOLEAN = (Some d, r)" "length d = 1"
      "d ! 0 = 0 \<or> d ! 0 = 0xff" "v = (d ! 0 \<noteq> 0)"
    by (auto simp: CBS_get_asn1_bool_def CBS_len_def Let_def split: try_op_splits if_splits)
  then obtain x where "d = [x]" by (metis length_0_conv length_Suc_conv One_nat_def)
  then show "c = der_element CBS_ASN1_BOOLEAN [if v then 0xff else 0] @ r"
    using d CBS_get_asn1_inv [OF d(1)] by auto
next
  assume c: "c = der_element CBS_ASN1_BOOLEAN [if v then 0xff else 0] @ r"
  show "CBS_get_asn1_bool c = (Some v, r)"
    unfolding c by (simp add: CBS_get_asn1_bool_def CBS_get_asn1_der CBS_len_def Let_def)
qed

section \<open>The readers against DER\<close>

text \<open>C3: \<open>CBS_get_any_asn1_element\<close> accepts exactly the DER encodings: the shortest tag form, the shortest
  definite length below \<open>2 ^ 32\<close>, and that many bytes of contents.\<close>

theorem get_any_asn1_element_exact:
  "CBS_get_any_asn1_element c = (Some (out, t, hl), r) \<longleftrightarrow>
    (\<exists>contents. length contents < 2 ^ 32 \<and> out = der_element t contents \<and> c = out @ r \<and>
       hl = length (der_tag t) + length (der_len (length contents)))"
  using CBS_get_any_asn1_element_inv [of c out t hl r] CBS_get_any_asn1_element_der by auto



text \<open>C10: \<open>CBS_is_valid_asn1_integer\<close> leaves one encoding per number: two contents it accepts that denote the
  same integer are the same bytes.\<close>

theorem valid_asn1_integer_canonical:
  assumes "CBS_is_valid_asn1_integer d = Some m" "CBS_is_valid_asn1_integer e = Some n" "tc_int d = tc_int e"
  shows "d = e \<and> m = n \<and> (m \<longleftrightarrow> tc_int d < 0)"
  using valid_integer_unique [OF assms] valid_integer_sign [OF assms(1)] assms(1,2) by simp

theorem valid_asn1_integer_canonical_witness:
  "CBS_is_valid_asn1_integer [0x80, 0] = Some True \<and> (True \<longleftrightarrow> tc_int [0x80, 0] < 0)"
proof -
  have "CBS_is_valid_asn1_integer [0x80, 0] = Some True" by code_simp
  with valid_asn1_integer_canonical [of "[0x80, 0]" True "[0x80, 0]" True] show ?thesis by simp
qed

end
