(* ===== verification/CBB.thy ===== *)
theory CBB
  imports DER
begin

text \<open>
  The byte-string builder of \<^verbatim>\<open>crypto/bytestring/cbb.c\<close>. A top-level \<open>CBB\<close> owns a growable
  buffer; a child \<open>CBB\<close> is a pending length prefix in it. The state of one builder is its
  buffer and the chain of its pending children, outermost first; a \<open>CBB\<close> of the chain is
  named by its depth, the top-level one by 0, and every function takes the depth of the
  \<open>CBB\<close> it is called on. \<open>buf\<close> holds the valid bytes (\<open>len\<close> is its length). The
  parameter \<open>alloc\<close> says which allocation sizes \<open>OPENSSL_malloc\<close> and
  \<open>OPENSSL_realloc\<close> grant.
\<close>

unbundle bit_operations_syntax

section \<open>State\<close>

record cbb_buffer =
  buf :: bytes
  cap :: nat
  can_resize :: bool
  error :: bool

record cbb_child =
  offset :: nat
  pending_len_len :: nat
  pending_is_asn1 :: bool

record cbb =
  base :: cbb_buffer
  children :: "cbb_child list"

type_synonym allocator = "nat \<Rightarrow> bool"

section \<open>The buffer\<close>

definition sizeof_cbb_buffer :: nat where "sizeof_cbb_buffer = 32"

definition cbb_init :: "allocator \<Rightarrow> bytes \<Rightarrow> nat \<Rightarrow> bool \<Rightarrow> cbb option" where
  "cbb_init alloc b c resize =
     (if \<not> alloc sizeof_cbb_buffer then None
      else Some \<lparr>base = \<lparr>buf = b, cap = c, can_resize = resize, error = False\<rparr>, children = []\<rparr>)"

definition CBB_init :: "allocator \<Rightarrow> nat \<Rightarrow> cbb option" where
  "CBB_init alloc initial_capacity =
     (if initial_capacity > 0 \<and> \<not> alloc initial_capacity then None
      else cbb_init alloc [] initial_capacity True)"

definition CBB_init_fixed :: "allocator \<Rightarrow> nat \<Rightarrow> cbb option" where
  "CBB_init_fixed alloc len = cbb_init alloc [] len False"

definition cbb_buffer_reserve :: "allocator \<Rightarrow> cbb_buffer \<Rightarrow> nat \<Rightarrow> (cbb_buffer, unit) cres" where
  "cbb_buffer_reserve alloc b len =
     (let newlen = size_add (length (buf b)) len in
      if newlen < length (buf b) then fails (b\<lparr>error := True\<rparr>)
      else if newlen > cap b then
        if \<not> can_resize b then fails (b\<lparr>error := True\<rparr>)
        else
          let newcap = size_mult (cap b) 2;
              newcap = (if newcap < cap b \<or> newcap < newlen then newlen else newcap) in
          if \<not> alloc newcap then fails (b\<lparr>error := True\<rparr>)
          else returns () (b\<lparr>cap := newcap\<rparr>)
      else returns () b)"

text \<open>
  \<open>cbb_buffer_add\<close> hands out a pointer to new space, which every caller fills at once;
  \<open>data\<close> is what is stored there.
\<close>

definition cbb_buffer_add :: "allocator \<Rightarrow> cbb_buffer \<Rightarrow> bytes \<Rightarrow> (cbb_buffer, unit) cres" where
  "cbb_buffer_add alloc b data =
     try_op (cbb_buffer_reserve alloc b (length data))
       (\<lambda>_ b. returns () (b\<lparr>buf := buf b @ data\<rparr>))"

text \<open>
  The loops that store a number from its last byte to its first: the bytes stored and what
  is left of the number.
\<close>

fun store_be :: "nat \<Rightarrow> u64 \<Rightarrow> bytes \<times> u64" where
  "store_be 0 v = ([], v)"
| "store_be (Suc n) v = (case store_be n (drop_bit 8 v) of (bs, v') \<Rightarrow> (bs @ [ucast v], v'))"

definition cbb_buffer_add_u :: "allocator \<Rightarrow> cbb_buffer \<Rightarrow> u64 \<Rightarrow> nat \<Rightarrow> (cbb_buffer, unit) cres" where
  "cbb_buffer_add_u alloc b v len_len =
     (if len_len = 0 then returns () b
      else
        (case store_be len_len v of (bs, v') \<Rightarrow>
           try_op (cbb_buffer_add alloc b bs)
             (\<lambda>_ b. if v' \<noteq> 0 then fails (b\<lparr>error := True\<rparr>) else returns () b)))"

section \<open>Flushing\<close>

definition poke :: "bytes \<Rightarrow> nat \<Rightarrow> bytes \<Rightarrow> bytes" where
  "poke m off bs = take off m @ bs @ drop (off + length bs) m"

definition OPENSSL_memmove :: "bytes \<Rightarrow> nat \<Rightarrow> nat \<Rightarrow> nat \<Rightarrow> bytes" where
  "OPENSSL_memmove m dst src n = poke m dst (take n (drop src m))"

text \<open>
  The second half of \<open>CBB_flush\<close>: the pending prefix of a child whose contents are
  \<open>len\<close> bytes long is filled in, after an ASN.1 child has been moved along when its
  length needs more than the one byte reserved for it.
\<close>

definition asn1_len_form :: "nat \<Rightarrow> nat \<times> u8 \<times> nat" where
  "asn1_len_form len =
     (if len > 0xffffff then (5, 0x80 OR 4, len)
      else if len > 0xffff then (4, 0x80 OR 3, len)
      else if len > 0xff then (3, 0x80 OR 2, len)
      else if len > 0x7f then (2, 0x80 OR 1, len)
      else (1, word_of_nat len, 0))"

text \<open>Evaluated on a short length, the large bounds need not be written out.\<close>

lemma asn1_len_form_code [code]:
  "asn1_len_form len =
     (if len \<le> 0x7f then (1, word_of_nat len, 0)
      else if len \<le> 0xff then (2, 0x80 OR 1, len)
      else if len > 0xffffff then (5, 0x80 OR 4, len)
      else if len > 0xffff then (4, 0x80 OR 3, len)
      else (3, 0x80 OR 2, len))"
  by (auto simp: asn1_len_form_def)

definition cbb_write_prefix :: "cbb_buffer \<Rightarrow> nat \<Rightarrow> nat \<Rightarrow> nat \<Rightarrow> (cbb_buffer, unit) cres" where
  "cbb_write_prefix b off len_len len =
     (case store_be len_len (word_of_nat len) of (bs, left) \<Rightarrow>
        let b = b\<lparr>buf := poke (buf b) off bs\<rparr> in
        if left \<noteq> 0 then fails (b\<lparr>error := True\<rparr>) else returns () b)"

definition cbb_close_child :: "allocator \<Rightarrow> cbb_buffer \<Rightarrow> cbb_child \<Rightarrow> nat \<Rightarrow> (cbb_buffer, unit) cres" where
  "cbb_close_child alloc b f child_start =
     (let len = length (buf b) - child_start in
      if pending_is_asn1 f then
        if len > 0xfffffffe then fails (b\<lparr>error := True\<rparr>)
        else
          (case asn1_len_form len of (len_len, initial_length_byte, len') \<Rightarrow>
             try_op
               (if len_len \<noteq> 1 then
                  try_op (cbb_buffer_add alloc b (replicate (len_len - 1) 0)) (\<lambda>_ b.
                    returns () (b\<lparr>buf := OPENSSL_memmove (buf b)
                      (child_start + (len_len - 1)) child_start len\<rparr>))
                else returns () b)
               (\<lambda>_ b. cbb_write_prefix (b\<lparr>buf := (buf b)[offset f := initial_length_byte]\<rparr>)
                        (offset f + 1) (len_len - 1) len'))
      else cbb_write_prefix b (offset f) (pending_len_len f) len)"

lemma cbb_close_child_code [code]:
  "cbb_close_child alloc b f child_start =
     (let len = length (buf b) - child_start in
      if pending_is_asn1 f then
        if (if len \<le> 0xff then False else len > 0xfffffffe) then fails (b\<lparr>error := True\<rparr>)
        else
          (case asn1_len_form len of (len_len, initial_length_byte, len') \<Rightarrow>
             try_op
               (if len_len \<noteq> 1 then
                  try_op (cbb_buffer_add alloc b (replicate (len_len - 1) 0)) (\<lambda>_ b.
                    returns () (b\<lparr>buf := OPENSSL_memmove (buf b)
                      (child_start + (len_len - 1)) child_start len\<rparr>))
                else returns () b)
               (\<lambda>_ b. cbb_write_prefix (b\<lparr>buf := (buf b)[offset f := initial_length_byte]\<rparr>)
                        (offset f + 1) (len_len - 1) len'))
      else cbb_write_prefix b (offset f) (pending_len_len f) len)"
proof -
  have "(if len \<le> 0xff then False else len > 0xfffffffe) \<longleftrightarrow> len > 0xfffffffe" for len :: nat by auto
  then show ?thesis by (simp only: cbb_close_child_def)
qed

fun flush_children :: "allocator \<Rightarrow> cbb_buffer \<Rightarrow> cbb_child list
    \<Rightarrow> (cbb_buffer \<times> cbb_child list, unit) cres" where
  "flush_children alloc b [] = (if error b then fails (b, []) else returns () (b, []))"
| "flush_children alloc b (f # fs) =
     (if error b then fails (b, f # fs)
      else if pending_len_len f = 0 then returns () (b, f # fs)
      else
        let child_start = size_add (offset f) (pending_len_len f) in
        (case flush_children alloc b fs of
           (None, (b, fs)) \<Rightarrow> fails (b\<lparr>error := True\<rparr>, f # fs)
         | (Some _, (b, fs)) \<Rightarrow>
             if child_start < offset f \<or> length (buf b) < child_start
             then fails (b\<lparr>error := True\<rparr>, f # fs)
             else
               (case cbb_close_child alloc b f child_start of
                  (None, b) \<Rightarrow> fails (b\<lparr>error := True\<rparr>, f # fs)
                | (Some _, b) \<Rightarrow> returns () (b, []))))"

definition CBB_flush :: "allocator \<Rightarrow> nat \<Rightarrow> cbb \<Rightarrow> (cbb, unit) cres" where
  "CBB_flush alloc d s =
     (case flush_children alloc (base s) (drop d (children s)) of
        (r, (b, fs)) \<Rightarrow> (r, s\<lparr>base := b, children := take d (children s) @ fs\<rparr>))"

definition with_base :: "cbb \<Rightarrow> (cbb_buffer, 'a) cres \<Rightarrow> (cbb, 'a) cres" where
  "with_base s r = (fst r, s\<lparr>base := snd r\<rparr>)"

text \<open>
  \<open>CBB_finish\<close> gives the buffer up; \<open>outs_null\<close> says that a caller passed a null
  \<open>out_data\<close> or \<open>out_len\<close>, which only a fixed \<open>CBB\<close> allows.
\<close>

definition CBB_finish :: "allocator \<Rightarrow> nat \<Rightarrow> bool \<Rightarrow> cbb \<Rightarrow> (cbb, bytes) cres" where
  "CBB_finish alloc d outs_null s =
     (if d \<noteq> 0 then fails s
      else
        try_op (CBB_flush alloc d s) (\<lambda>_ s.
          if can_resize (base s) \<and> outs_null then fails s
          else returns (buf (base s)) s))"

definition CBB_start :: "nat \<Rightarrow> cbb \<Rightarrow> nat" where
  "CBB_start d s =
     (if d = 0 then 0
      else offset (children s ! (d - 1)) + pending_len_len (children s ! (d - 1)))"

definition CBB_data :: "nat \<Rightarrow> cbb \<Rightarrow> bytes" where
  "CBB_data d s = drop (CBB_start d s) (buf (base s))"

definition CBB_len :: "nat \<Rightarrow> cbb \<Rightarrow> nat" where
  "CBB_len d s = length (buf (base s)) - CBB_start d s"

section \<open>Adding\<close>

definition cbb_add_length_prefixed :: "allocator \<Rightarrow> nat \<Rightarrow> nat \<Rightarrow> cbb \<Rightarrow> (cbb, unit) cres" where
  "cbb_add_length_prefixed alloc d len_len s =
     try_op (CBB_flush alloc d s) (\<lambda>_ s.
       let off = length (buf (base s)) in
       try_op (with_base s (cbb_buffer_add alloc (base s) (replicate len_len 0))) (\<lambda>_ s.
         returns () (s\<lparr>children := take d (children s) @
           [\<lparr>offset = off, pending_len_len = len_len, pending_is_asn1 = False\<rparr>]\<rparr>)))"

definition CBB_add_u8_length_prefixed :: "allocator \<Rightarrow> nat \<Rightarrow> cbb \<Rightarrow> (cbb, unit) cres" where
  "CBB_add_u8_length_prefixed alloc d s = cbb_add_length_prefixed alloc d 1 s"

definition CBB_add_u16_length_prefixed :: "allocator \<Rightarrow> nat \<Rightarrow> cbb \<Rightarrow> (cbb, unit) cres" where
  "CBB_add_u16_length_prefixed alloc d s = cbb_add_length_prefixed alloc d 2 s"

definition CBB_add_u24_length_prefixed :: "allocator \<Rightarrow> nat \<Rightarrow> cbb \<Rightarrow> (cbb, unit) cres" where
  "CBB_add_u24_length_prefixed alloc d s = cbb_add_length_prefixed alloc d 3 s"

definition CBB_add_bytes :: "allocator \<Rightarrow> nat \<Rightarrow> bytes \<Rightarrow> cbb \<Rightarrow> (cbb, unit) cres" where
  "CBB_add_bytes alloc d data s =
     try_op (CBB_flush alloc d s) (\<lambda>_ s. with_base s (cbb_buffer_add alloc (base s) data))"

text \<open>\<open>CBB_add_space\<close> and \<open>CBB_did_write\<close>: \<open>data\<close> is what the caller writes there.\<close>

definition CBB_add_space :: "allocator \<Rightarrow> nat \<Rightarrow> bytes \<Rightarrow> cbb \<Rightarrow> (cbb, unit) cres" where
  "CBB_add_space alloc d data s =
     try_op (CBB_flush alloc d s) (\<lambda>_ s. with_base s (cbb_buffer_add alloc (base s) data))"

definition CBB_add_zeros :: "allocator \<Rightarrow> nat \<Rightarrow> nat \<Rightarrow> cbb \<Rightarrow> (cbb, unit) cres" where
  "CBB_add_zeros alloc d len s = CBB_add_space alloc d (replicate len 0) s"

definition CBB_reserve :: "allocator \<Rightarrow> nat \<Rightarrow> nat \<Rightarrow> cbb \<Rightarrow> (cbb, unit) cres" where
  "CBB_reserve alloc d len s =
     try_op (CBB_flush alloc d s) (\<lambda>_ s. with_base s (cbb_buffer_reserve alloc (base s) len))"

definition CBB_did_write :: "nat \<Rightarrow> bytes \<Rightarrow> cbb \<Rightarrow> (cbb, unit) cres" where
  "CBB_did_write d data s =
     (let newlen = size_add (length (buf (base s))) (length data) in
      if length (children s) > d \<or> newlen < length (buf (base s)) \<or> newlen > cap (base s)
      then fails s
      else returns () (s\<lparr>base := (base s)\<lparr>buf := buf (base s) @ data\<rparr>\<rparr>))"

definition cbb_add_u :: "allocator \<Rightarrow> nat \<Rightarrow> u64 \<Rightarrow> nat \<Rightarrow> cbb \<Rightarrow> (cbb, unit) cres" where
  "cbb_add_u alloc d v n s =
     try_op (CBB_flush alloc d s) (\<lambda>_ s. with_base s (cbb_buffer_add_u alloc (base s) v n))"

definition CBB_add_u8 :: "allocator \<Rightarrow> nat \<Rightarrow> u8 \<Rightarrow> cbb \<Rightarrow> (cbb, unit) cres" where
  "CBB_add_u8 alloc d v s = cbb_add_u alloc d (ucast v) 1 s"

definition CBB_add_u16 :: "allocator \<Rightarrow> nat \<Rightarrow> u16 \<Rightarrow> cbb \<Rightarrow> (cbb, unit) cres" where
  "CBB_add_u16 alloc d v s = cbb_add_u alloc d (ucast v) 2 s"

definition CBB_add_u16le :: "allocator \<Rightarrow> nat \<Rightarrow> u16 \<Rightarrow> cbb \<Rightarrow> (cbb, unit) cres" where
  "CBB_add_u16le alloc d v s = CBB_add_u16 alloc d (CRYPTO_bswap2 v) s"

definition CBB_add_u24 :: "allocator \<Rightarrow> nat \<Rightarrow> u32 \<Rightarrow> cbb \<Rightarrow> (cbb, unit) cres" where
  "CBB_add_u24 alloc d v s = cbb_add_u alloc d (ucast v) 3 s"

definition CBB_add_u32 :: "allocator \<Rightarrow> nat \<Rightarrow> u32 \<Rightarrow> cbb \<Rightarrow> (cbb, unit) cres" where
  "CBB_add_u32 alloc d v s = cbb_add_u alloc d (ucast v) 4 s"

definition CBB_add_u32le :: "allocator \<Rightarrow> nat \<Rightarrow> u32 \<Rightarrow> cbb \<Rightarrow> (cbb, unit) cres" where
  "CBB_add_u32le alloc d v s = CBB_add_u32 alloc d (CRYPTO_bswap4 v) s"

definition CBB_add_u64 :: "allocator \<Rightarrow> nat \<Rightarrow> u64 \<Rightarrow> cbb \<Rightarrow> (cbb, unit) cres" where
  "CBB_add_u64 alloc d v s = cbb_add_u alloc d v 8 s"

definition CBB_add_u64le :: "allocator \<Rightarrow> nat \<Rightarrow> u64 \<Rightarrow> cbb \<Rightarrow> (cbb, unit) cres" where
  "CBB_add_u64le alloc d v s = CBB_add_u64 alloc d (CRYPTO_bswap8 v) s"

text \<open>The child at depth \<open>d + 1\<close> is dropped with its prefix.\<close>

definition CBB_discard_child :: "nat \<Rightarrow> cbb \<Rightarrow> cbb" where
  "CBB_discard_child d s =
     (if length (children s) \<le> d then s
      else s\<lparr>base := (base s)\<lparr>buf := take (offset (children s ! d)) (buf (base s))\<rparr>,
             children := take d (children s)\<rparr>)"

section \<open>ASN.1\<close>

function base128_len :: "u64 \<Rightarrow> nat" where
  "base128_len copy = (if copy > 0 then Suc (base128_len (drop_bit 7 copy)) else 0)"
  by pat_completeness auto
termination
  by (relation "measure unat") (simp_all add: unat_drop_bit word_less_nat_alt)

declare base128_len.simps [simp del]

text \<open>The loop that emits the groups \<open>i - 1, ..., 0\<close>.\<close>

fun add_base128_loop :: "allocator \<Rightarrow> nat \<Rightarrow> u64 \<Rightarrow> nat \<Rightarrow> cbb \<Rightarrow> (cbb, unit) cres" where
  "add_base128_loop alloc d v 0 s = returns () s"
| "add_base128_loop alloc d v (Suc i) s =
     (let byte = ucast (drop_bit (7 * i) v AND 0x7f) :: u8;
          byte = (if i \<noteq> 0 then byte OR 0x80 else byte) in
      try_op (CBB_add_u8 alloc d byte s) (\<lambda>_ s. add_base128_loop alloc d v i s))"

definition add_base128_integer :: "allocator \<Rightarrow> nat \<Rightarrow> u64 \<Rightarrow> cbb \<Rightarrow> (cbb, unit) cres" where
  "add_base128_integer alloc d v s =
     (let len_len = base128_len v in
      add_base128_loop alloc d v (if len_len = 0 then 1 else len_len) s)"

definition CBB_add_asn1 :: "allocator \<Rightarrow> nat \<Rightarrow> u32 \<Rightarrow> cbb \<Rightarrow> (cbb, unit) cres" where
  "CBB_add_asn1 alloc d tag s =
     try_op (CBB_flush alloc d s) (\<lambda>_ s.
       let tag_bits = ucast (drop_bit CBS_ASN1_TAG_SHIFT tag AND 0xe0) :: u8;
           tag_number = tag AND CBS_ASN1_TAG_NUMBER_MASK in
       try_op
         (if tag_number \<ge> 0x1f then
            try_op (CBB_add_u8 alloc d (tag_bits OR 0x1f) s)
              (\<lambda>_ s. add_base128_integer alloc d (ucast tag_number) s)
          else CBB_add_u8 alloc d (tag_bits OR ucast tag_number) s)
         (\<lambda>_ s.
           let off = length (buf (base s)) in
           try_op (CBB_add_u8 alloc d 0 s) (\<lambda>_ s.
             returns () (s\<lparr>children := take d (children s) @
               [\<lparr>offset = off, pending_len_len = 1, pending_is_asn1 = True\<rparr>]\<rparr>))))"

text \<open>
  The loop of \<open>CBB_add_asn1_uint64\<close> over the bytes \<open>n - 1, ..., 0\<close> of the value,
  which skips leading zeros; its result is \<open>started\<close>.
\<close>

fun asn1_uint64_bytes :: "allocator \<Rightarrow> nat \<Rightarrow> u64 \<Rightarrow> nat \<Rightarrow> bool \<Rightarrow> cbb \<Rightarrow> (cbb, bool) cres" where
  "asn1_uint64_bytes alloc d v 0 started s = returns started s"
| "asn1_uint64_bytes alloc d v (Suc n) started s =
     (let byte = ucast (drop_bit (8 * n) v AND 0xff) :: u8 in
      if \<not> started \<and> byte = 0 then asn1_uint64_bytes alloc d v n started s
      else
        try_op (if \<not> started \<and> byte AND 0x80 \<noteq> 0 then CBB_add_u8 alloc d 0 s else returns () s)
          (\<lambda>_ s. try_op (CBB_add_u8 alloc d byte s)
            (\<lambda>_ s. asn1_uint64_bytes alloc d v n True s)))"

definition CBB_add_asn1_uint64 :: "allocator \<Rightarrow> nat \<Rightarrow> u64 \<Rightarrow> cbb \<Rightarrow> (cbb, unit) cres" where
  "CBB_add_asn1_uint64 alloc d v s =
     try_op (CBB_add_asn1 alloc d CBS_ASN1_INTEGER s) (\<lambda>_ s.
     try_op (asn1_uint64_bytes alloc (d + 1) v 8 False s) (\<lambda>started s.
     try_op (if \<not> started then CBB_add_u8 alloc (d + 1) 0 s else returns () s) (\<lambda>_ s.
     CBB_flush alloc d s)))"

fun int64_start :: "bytes \<Rightarrow> nat \<Rightarrow> nat" where
  "int64_start bs 0 = 0"
| "int64_start bs (Suc start) =
     (if bs ! Suc start = 0xff \<and> bs ! start AND 0x80 \<noteq> 0 then int64_start bs start else Suc start)"

fun asn1_int64_bytes :: "allocator \<Rightarrow> nat \<Rightarrow> bytes \<Rightarrow> nat \<Rightarrow> cbb \<Rightarrow> (cbb, unit) cres" where
  "asn1_int64_bytes alloc d bs 0 s = CBB_add_u8 alloc d (bs ! 0) s"
| "asn1_int64_bytes alloc d bs (Suc i) s =
     try_op (CBB_add_u8 alloc d (bs ! Suc i) s) (\<lambda>_ s. asn1_int64_bytes alloc d bs i s)"

definition CBB_add_asn1_int64 :: "allocator \<Rightarrow> nat \<Rightarrow> u64 \<Rightarrow> cbb \<Rightarrow> (cbb, unit) cres" where
  "CBB_add_asn1_int64 alloc d v s =
     (if sint v \<ge> 0 then CBB_add_asn1_uint64 alloc d v s
      else
        let bs = le_bytes 8 (unat v); start = int64_start bs 7 in
        try_op (CBB_add_asn1 alloc d CBS_ASN1_INTEGER s) (\<lambda>_ s.
        try_op (asn1_int64_bytes alloc (d + 1) bs start s) (\<lambda>_ s.
        CBB_flush alloc d s)))"

definition CBB_add_asn1_octet_string :: "allocator \<Rightarrow> nat \<Rightarrow> bytes \<Rightarrow> cbb \<Rightarrow> (cbb, unit) cres" where
  "CBB_add_asn1_octet_string alloc d data s =
     try_op (CBB_add_asn1 alloc d CBS_ASN1_OCTETSTRING s) (\<lambda>_ s.
     try_op (CBB_add_bytes alloc (d + 1) data s) (\<lambda>_ s.
     CBB_flush alloc d s))"

definition CBB_add_asn1_bool :: "allocator \<Rightarrow> nat \<Rightarrow> int \<Rightarrow> cbb \<Rightarrow> (cbb, unit) cres" where
  "CBB_add_asn1_bool alloc d v s =
     try_op (CBB_add_asn1 alloc d CBS_ASN1_BOOLEAN s) (\<lambda>_ s.
     try_op (CBB_add_u8 alloc (d + 1) (if v \<noteq> 0 then 0xff else 0) s) (\<lambda>_ s.
     CBB_flush alloc d s))"

section \<open>Object identifiers from text\<close>

text \<open>
  \<open>parse_dotted_decimal\<close>: \<open>0x2e\<close> is the dot, \<open>0x30\<close> to \<open>0x39\<close> the digits.
  The loop ends at the end of the text or at a dot that is not the last character.
\<close>

fun parse_dotted_decimal_loop :: "u64 \<Rightarrow> bool \<Rightarrow> cbs \<Rightarrow> (cbs, u64) cres" where
  "parse_dotted_decimal_loop out seen_digit [] =
     (if seen_digit then returns out [] else fails [])"
| "parse_dotted_decimal_loop out seen_digit (u # c) =
     (if u = 0x2e \<and> CBS_len c > 0 then
        if seen_digit then returns out c else fails c
      else if u < 0x30 \<or> u > 0x39 \<or> (seen_digit \<and> out = 0) \<or>
        out > 0xffffffffffffffff div 10 \<or>
        out * 10 > 0xffffffffffffffff - ucast (u - 0x30)
      then fails c
      else parse_dotted_decimal_loop (out * 10 + ucast (u - 0x30)) True c)"

definition parse_dotted_decimal :: "cbs \<Rightarrow> (cbs, u64) cres" where
  "parse_dotted_decimal c = parse_dotted_decimal_loop 0 False c"

lemma parse_dotted_decimal_loop_length:
  "parse_dotted_decimal_loop out seen c = (r, c') \<Longrightarrow> length c' \<le> length c"
  by (induction out seen c rule: parse_dotted_decimal_loop.induct) (auto split: if_splits)

lemma parse_dotted_decimal_length:
  "parse_dotted_decimal c = (r, c') \<Longrightarrow> c \<noteq> [] \<Longrightarrow> length c' < length c"
  using parse_dotted_decimal_loop_length
  by (cases c) (fastforce simp: parse_dotted_decimal_def less_Suc_eq_le split: if_splits)+

function oid_text_rest :: "allocator \<Rightarrow> nat \<Rightarrow> cbs \<Rightarrow> cbb \<Rightarrow> (cbb, unit) cres" where
  "oid_text_rest alloc d c s =
     (if CBS_len c > 0 then
        (case parse_dotted_decimal c of
           (None, _) \<Rightarrow> fails s
         | (Some a, c) \<Rightarrow>
             try_op (add_base128_integer alloc d a s) (\<lambda>_ s. oid_text_rest alloc d c s))
      else returns () s)"
  by pat_completeness auto
termination
  by (relation "measure (\<lambda>(alloc, d, c, s). length c)")
    (auto simp: CBS_len_def dest: parse_dotted_decimal_length [OF sym])

declare oid_text_rest.simps [simp del]

definition CBB_add_asn1_oid_from_text :: "allocator \<Rightarrow> nat \<Rightarrow> bytes \<Rightarrow> cbb \<Rightarrow> (cbb, unit) cres" where
  "CBB_add_asn1_oid_from_text alloc d text s =
     try_op (CBB_flush alloc d s) (\<lambda>_ s.
       case parse_dotted_decimal text of (None, _) \<Rightarrow> fails s | (Some a, c) \<Rightarrow>
       (case parse_dotted_decimal c of (None, _) \<Rightarrow> fails s | (Some b, c) \<Rightarrow>
        if a > 2 \<or> (a < 2 \<and> b > 39) \<or> b > 0xffffffffffffffff - 80 then fails s
        else
          try_op (add_base128_integer alloc d (40 * a + b) s)
            (\<lambda>_ s. oid_text_rest alloc d c s)))"

end
