(* ===== verification/ByteIO.thy ===== *)
theory ByteIO
  imports CPrelude
begin

text \<open>
  The two interfaces the codecs are written against. A byte sink takes byte strings and
  keeps them in order (\<open>CBB\<close>, the output stream of nanopb); a byte source hands out the
  next bytes of what it has left (\<open>CBS\<close>, the input stream of nanopb). What is proved here
  of a sequence of calls holds for every component that meets the laws.
\<close>

section \<open>Running an operation over a list\<close>

fun each :: "('b \<Rightarrow> 's \<Rightarrow> ('s, unit) cres) \<Rightarrow> 'b list \<Rightarrow> 's \<Rightarrow> ('s, unit) cres" where
  "each f [] s = returns () s"
| "each f (x # xs) s = try_op (f x s) (\<lambda>_ s. each f xs s)"

lemma each_append:
  "each f (xs @ ys) s = try_op (each f xs s) (\<lambda>_ s. each f ys s)"
  by (induction xs arbitrary: s) (auto split: try_op_splits)

lemma each_map: "each f (map g xs) s = each (\<lambda>x. f (g x)) xs s"
  by (induction xs arbitrary: s) (auto split: try_op_splits)

lemma try_op_each_Nil [simp]: "try_op r (\<lambda>_. each f []) = r"
  by (auto split: try_op_splits)

section \<open>Byte sinks\<close>

locale byte_sink =
  fixes add :: "bytes \<Rightarrow> 's \<Rightarrow> ('s, unit) cres"
    and content :: "'s \<Rightarrow> bytes"
    and inv :: "'s \<Rightarrow> bool"
  assumes add_content:
      "inv s \<Longrightarrow> length bs < 2 ^ 64 \<Longrightarrow> add bs s = (Some u, s') \<Longrightarrow> content s' = content s @ bs"
    and add_inv: "inv s \<Longrightarrow> length bs < 2 ^ 64 \<Longrightarrow> add bs s = (Some u, s') \<Longrightarrow> inv s'"
begin

lemma each_content:
  assumes "inv s" "\<And>bs. bs \<in> set bss \<Longrightarrow> length bs < 2 ^ 64" "each add bss s = (Some u, s')"
  shows "content s' = content s @ concat bss \<and> inv s'"
  using assms
proof (induction bss arbitrary: s)
  case (Cons bs bss)
  then obtain s1 where s1: "add bs s = (Some (), s1)" "each add bss s1 = (Some u, s')"
    by (auto split: try_op_splits)
  have "content s1 = content s @ bs" "inv s1"
    using add_content [OF Cons.prems(1) _ s1(1)] add_inv [OF Cons.prems(1) _ s1(1)] Cons.prems(2) [of bs]
    by auto
  with Cons.IH [of s1] Cons.prems s1 show ?case by auto
qed auto

lemma each_byte_content:
  assumes "inv s" "each (\<lambda>b. add [b]) bs s = (Some u, s')"
  shows "content s' = content s @ bs \<and> inv s'"
proof -
  have "concat (map (\<lambda>b. [b]) bs) = bs" by (induction bs) auto
  moreover have "length x < 2 ^ 64" if "x \<in> set (map (\<lambda>b. [b]) bs)" for x
    using that by auto
  ultimately show ?thesis
    using assms each_content [of s "map (\<lambda>b. [b]) bs" u s'] by (simp add: each_map)
qed

end

text \<open>A sink that never fails while its contents fit in a \<open>size_t\<close>.\<close>

locale roomy_sink = byte_sink add content inv
  for add :: "bytes \<Rightarrow> 's \<Rightarrow> ('s, unit) cres" and content :: "'s \<Rightarrow> bytes" and inv :: "'s \<Rightarrow> bool" +
  fixes room :: "'s \<Rightarrow> bool"
  assumes add_room:
    "inv s \<Longrightarrow> room s \<Longrightarrow> length (content s @ bs) < 2 ^ 64 \<Longrightarrow> \<exists>s'. add bs s = (Some (), s') \<and> room s'"
begin

lemma each_room:
  assumes "inv s" "room s" "length (content s @ concat bss) < 2 ^ 64"
  shows "\<exists>s'. each add bss s = (Some (), s') \<and> room s'"
  using assms
proof (induction bss arbitrary: s)
  case (Cons bs bss)
  then obtain s1 where s1: "add bs s = (Some (), s1)" "room s1"
    using add_room [of s bs] by auto
  moreover have "content s1 = content s @ bs" "inv s1"
    using Cons.prems s1 add_content [of s bs] add_inv [of s bs] by auto
  ultimately show ?case using Cons.IH [of s1] Cons.prems by auto
qed auto

lemma each_byte_room:
  assumes "inv s" "room s" "length (content s @ bs) < 2 ^ 64"
  shows "\<exists>s'. each (\<lambda>b. add [b]) bs s = (Some (), s') \<and> room s'"
proof -
  have "concat (map (\<lambda>b. [b]) bs) = bs" by (induction bs) auto
  with assms each_room [of s "map (\<lambda>b. [b]) bs"] show ?thesis by (simp add: each_map)
qed

end

section \<open>Byte sources\<close>

locale byte_source =
  fixes get :: "'s \<Rightarrow> nat \<Rightarrow> ('s, bytes) cres"
    and rest :: "'s \<Rightarrow> bytes"
    and inv :: "'s \<Rightarrow> bool"
  assumes get_enough:
      "inv s \<Longrightarrow> n \<le> length (rest s) \<Longrightarrow> \<exists>s'. get s n = (Some (take n (rest s)), s')"
    and get_short: "inv s \<Longrightarrow> length (rest s) < n \<Longrightarrow> fst (get s n) = None"
    and get_rest: "inv s \<Longrightarrow> get s n = (Some bs, s') \<Longrightarrow> rest s' = drop n (rest s) \<and> inv s'"
begin

lemma get_iff:
  assumes "inv s"
  shows "(\<exists>s'. get s n = (Some bs, s')) \<longleftrightarrow> length bs = n \<and> (\<exists>r. rest s = bs @ r)"
proof (cases "n \<le> length (rest s)")
  case True
  with get_enough [OF assms this] show ?thesis
    by (auto simp: min_def) (metis append_take_drop_id)
next
  case False
  with get_short [OF assms, of n] show ?thesis by (cases "get s n") auto
qed

text \<open>Two reads in a row are one read of both lengths.\<close>

lemma get_twice:
  assumes "inv s" "get s m = (Some xs, s1)" "get s1 n = (Some ys, s2)"
  shows "rest s = xs @ ys @ rest s2 \<and> inv s2"
proof -
  have s1: "rest s1 = drop m (rest s)" "inv s1" using get_rest [OF assms(1,2)] by auto
  have s2: "rest s2 = drop n (rest s1)" "inv s2" using get_rest [OF s1(2) assms(3)] by auto
  have "xs = take m (rest s)" "ys = take n (rest s1)"
    using get_iff [OF assms(1), of m xs] get_iff [OF s1(2), of n ys] assms by auto
  with s1 s2 show ?thesis by (metis append_take_drop_id)
qed

end

end
