(* ===== verification/CBB_Flush.thy ===== *)
theory CBB_Flush
  imports CBB ByteIO
begin

text \<open>
  What the buffer of a builder and a flush of it do. \<open>extends\<close> says what a successful
  addition leaves; \<open>flat\<close> is the specification of a flush, the buffer with every pending
  length prefix filled in; the lemmas show that \<open>CBB_flush\<close> computes it, and that it only
  fails when memory, the fixed capacity or the width of a prefix is exceeded.
\<close>

unbundle bit_operations_syntax

section \<open>The buffer: lemmas\<close>

definition buffer_inv :: "cbb_buffer \<Rightarrow> bool" where
  "buffer_inv b \<longleftrightarrow> length (buf b) \<le> cap b \<and> cap b < 2 ^ 64"

definition growable :: "allocator \<Rightarrow> cbb_buffer \<Rightarrow> bool" where
  "growable alloc b \<longleftrightarrow> can_resize b \<and> (\<forall>n. alloc n)"

lemma size_mult_less: "size_mult a b < 2 ^ 64"
  by (simp add: size_mult_def)

lemma reserve_Some:
  assumes inv: "buffer_inv b" and n: "n < 2 ^ 64"
    and r: "cbb_buffer_reserve alloc b n = (Some u, b')"
  shows "buffer_inv b' \<and> buf b' = buf b \<and> error b' = error b \<and> can_resize b' = can_resize b \<and>
    length (buf b) + n \<le> cap b'"
proof -
  have l: "length (buf b) < 2 ^ 64" using inv by (simp add: buffer_inv_def)
  note w = size_add_no_wrap [OF l n]
  from r have s: "length (buf b) + n < 2 ^ 64"
    using w(1) by (auto simp: cbb_buffer_reserve_def Let_def split: if_splits)
  show ?thesis
    using r w(2) [OF s] s inv size_mult_less [of "cap b" 2]
    by (auto simp: cbb_buffer_reserve_def Let_def buffer_inv_def split: if_splits)
qed

lemma reserve_None:
  assumes "cbb_buffer_reserve alloc b n = (None, b')"
  shows "b' = b\<lparr>error := True\<rparr>"
  using assms by (auto simp: cbb_buffer_reserve_def Let_def split: if_splits)

lemma reserve_growable:
  assumes inv: "buffer_inv b" and n: "n < 2 ^ 64" and g: "growable alloc b"
    and s: "length (buf b) + n < 2 ^ 64"
  shows "\<exists>b'. cbb_buffer_reserve alloc b n = (Some (), b')"
proof -
  have l: "length (buf b) < 2 ^ 64" using inv by (simp add: buffer_inv_def)
  show ?thesis
    using g size_add_no_wrap(2) [OF l n s]
    by (auto simp: cbb_buffer_reserve_def Let_def growable_def)
qed

text \<open>What every successful addition to the buffer guarantees.\<close>

definition extends :: "cbb_buffer \<Rightarrow> bytes \<Rightarrow> cbb_buffer \<Rightarrow> bool" where
  "extends b bs b' \<longleftrightarrow> buffer_inv b' \<and> buf b' = bs \<and> error b' = error b \<and> can_resize b' = can_resize b"

lemma buffer_add_Some:
  assumes "buffer_inv b" "length data < 2 ^ 64" "cbb_buffer_add alloc b data = (Some u, b')"
  shows "extends b (buf b @ data) b'"
proof -
  from assms(3) obtain b1 u1 where b1: "cbb_buffer_reserve alloc b (length data) = (Some u1, b1)"
      and b': "b' = b1\<lparr>buf := buf b1 @ data\<rparr>"
    by (auto simp: cbb_buffer_add_def split: try_op_splits)
  from reserve_Some [OF assms(1,2) b1] b' show ?thesis
    by (auto simp: buffer_inv_def extends_def)
qed

lemma buffer_add_None:
  "cbb_buffer_add alloc b data = (None, b') \<Longrightarrow> b' = b\<lparr>error := True\<rparr>"
  by (auto simp: cbb_buffer_add_def split: try_op_splits dest: reserve_None)

lemma buffer_add_growable:
  assumes "buffer_inv b" "growable alloc b" "length (buf b @ data) < 2 ^ 64"
  shows "\<exists>b'. cbb_buffer_add alloc b data = (Some (), b')"
  using reserve_growable [OF assms(1) _ assms(2), of "length data"] assms(3)
  by (auto simp: cbb_buffer_add_def)

lemma store_be_eq: "store_be n v = (be_bytes n (unat v), drop_bit (8 * n) v)"
proof (induction n arbitrary: v)
  case (Suc n)
  have "(ucast v :: u8) = word_of_nat (unat v)"
    by (simp add: word_unat_eq_iff unat_ucast)
  with Suc show ?case by (simp add: be_bytes_def unat_drop_bit add.commute)
qed (simp add: be_bytes_def)

lemma drop_bit_eq_0: "drop_bit n v = 0 \<longleftrightarrow> unat v < 2 ^ n" for v :: "'a::len word"
  using unat_drop_bit [of n v] by (simp add: word_unat_eq_iff div_eq_0_iff)

lemma pow_256: "(2 :: nat) ^ (8 * n) = 256 ^ n"
  by (simp add: power_mult)

lemma buffer_add_u_Some:
  assumes "buffer_inv b" "n < 2 ^ 64" "cbb_buffer_add_u alloc b v n = (Some u, b')" "0 < n"
  shows "extends b (buf b @ be_bytes n (unat v)) b' \<and> unat v < 256 ^ n"
  using assms buffer_add_Some [OF assms(1), of "be_bytes n (unat v)" alloc]
  by (auto simp: cbb_buffer_add_u_def store_be_eq drop_bit_eq_0 pow_256 split: try_op_splits if_splits)

lemma buffer_add_u_growable:
  assumes "buffer_inv b" "growable alloc b" "length (buf b) + n < 2 ^ 64" "unat v < 256 ^ n" "0 < n"
  shows "\<exists>b'. cbb_buffer_add_u alloc b v n = (Some (), b')"
  using buffer_add_growable [OF assms(1,2), of "be_bytes n (unat v)"] assms(3-5)
  by (auto simp: cbb_buffer_add_u_def store_be_eq drop_bit_eq_0 pow_256)

section \<open>Flushing: lemmas\<close>

fun children_ok :: "nat \<Rightarrow> nat \<Rightarrow> cbb_child list \<Rightarrow> bool" where
  "children_ok lo len [] \<longleftrightarrow> lo \<le> len"
| "children_ok lo len (f # fs) \<longleftrightarrow>
     lo \<le> offset f \<and> 1 \<le> pending_len_len f \<and> pending_len_len f \<le> 3 \<and>
     (pending_is_asn1 f \<longrightarrow> pending_len_len f = 1) \<and>
     children_ok (offset f + pending_len_len f) len fs"

definition child_prefix :: "cbb_child \<Rightarrow> nat \<Rightarrow> bytes" where
  "child_prefix f n = (if pending_is_asn1 f then der_len n else be_bytes (pending_len_len f) n)"

definition prefix_fits :: "cbb_child \<Rightarrow> nat \<Rightarrow> bool" where
  "prefix_fits f n \<longleftrightarrow> (if pending_is_asn1 f then n \<le> 0xfffffffe else n < 256 ^ pending_len_len f)"

text \<open>The specification of a flush: the contents of every pending child behind its prefix.\<close>

fun flat :: "bytes \<Rightarrow> cbb_child list \<Rightarrow> bytes" where
  "flat m [] = m"
| "flat m (f # fs) =
     (let body = drop (offset f + pending_len_len f) (flat m fs) in
      take (offset f) m @ child_prefix f (length body) @ body)"

fun flat_fits :: "bytes \<Rightarrow> cbb_child list \<Rightarrow> bool" where
  "flat_fits m [] \<longleftrightarrow> True"
| "flat_fits m (f # fs) \<longleftrightarrow>
     flat_fits m fs \<and> length (flat m (f # fs)) < 2 ^ 64 \<and>
     prefix_fits f (length (flat m fs) - (offset f + pending_len_len f))"

lemma children_ok_le: "children_ok lo len fs \<Longrightarrow> lo \<le> len"
  by (induction fs arbitrary: lo) fastforce+

lemma flat_prefix: "children_ok lo (length m) fs \<Longrightarrow> take lo (flat m fs) = take lo m \<and> lo \<le> length (flat m fs)"
proof (induction fs arbitrary: lo)
  case (Cons f fs)
  have "offset f \<le> length m"
    using Cons.prems children_ok_le [of "offset f + pending_len_len f" "length m" fs] by simp
  with Cons.prems show ?case by (auto simp: Let_def min_absorb1)
qed auto

lemma write_prefix_eq:
  assumes "len < 2 ^ 64"
  shows "cbb_write_prefix b off n len =
    (let b' = b\<lparr>buf := poke (buf b) off (be_bytes n len)\<rparr> in
     if len < 256 ^ n then (Some (), b') else (None, b'\<lparr>error := True\<rparr>))"
  using assms by (simp add: cbb_write_prefix_def store_be_eq drop_bit_eq_0 pow_256 unat_of_nat Let_def)

lemma asn1_len_form_eq:
  assumes "len \<le> 0xfffffffe" "asn1_len_form len = (len_len, ini, len')"
  shows "der_len len = ini # be_bytes (len_len - 1) len' \<and> length (der_len len) = len_len \<and>
    len' < 256 ^ (len_len - 1) \<and> 1 \<le> len_len \<and> len_len \<le> 5 \<and> len' \<le> len"
  using assms by (auto simp: asn1_len_form_def der_len_def len_octets_def be_bytes_def split: if_splits)

lemma poke_append: "length A = off \<Longrightarrow> length J = length bs \<Longrightarrow> poke (A @ J @ C) off bs = A @ bs @ C"
  by (simp add: poke_def)

text \<open>The move of an ASN.1 child makes room for the longer length.\<close>

lemma asn1_move:
  assumes "length Z = k"
  shows "poke ((OPENSSL_memmove ((A @ [x] @ C) @ Z) (length A + 1 + k) (length A + 1) (length C))[length A := ini])
    (length A + 1) (be_bytes k n) = A @ (ini # be_bytes k n) @ C"
proof -
  define J where "J = take k (C @ Z)"
  have "OPENSSL_memmove ((A @ [x] @ C) @ Z) (length A + 1 + k) (length A + 1) (length C) = A @ [x] @ J @ C"
    using assms by (simp add: OPENSSL_memmove_def poke_def J_def)
  then have m: "(OPENSSL_memmove ((A @ [x] @ C) @ Z) (length A + 1 + k) (length A + 1) (length C))[length A := ini] =
      (A @ [ini]) @ J @ C"
    by simp
  show ?thesis
    unfolding m using assms by (subst poke_append) (simp_all add: J_def)
qed

lemma split_at: "k < length m \<Longrightarrow> m = take k m @ [m ! k] @ drop (k + 1) m"
  by (simp add: id_take_nth_drop)

lemma buffer_add_buf: "cbb_buffer_add alloc b data = (Some u, b') \<Longrightarrow> buf b' = buf b @ data"
  by (auto simp: cbb_buffer_add_def cbb_buffer_reserve_def Let_def split: try_op_splits if_splits)

definition closed_buf :: "cbb_buffer \<Rightarrow> cbb_child \<Rightarrow> bytes" where
  "closed_buf b f =
     (let body = drop (offset f + pending_len_len f) (buf b) in
      take (offset f) (buf b) @ child_prefix f (length body) @ body)"

lemma close_child_asn1_eq:
  assumes asn1: "pending_is_asn1 f" "pending_len_len f = 1" and cs: "offset f + 1 \<le> length (buf b)"
  defines "len \<equiv> length (buf b) - (offset f + 1)"
  assumes small: "len \<le> 0xfffffffe"
  shows "cbb_close_child alloc b f (offset f + 1) =
    (if length (der_len len) = 1 then (Some (), b\<lparr>buf := closed_buf b f\<rparr>)
     else try_op (cbb_buffer_add alloc b (replicate (length (der_len len) - 1) 0))
       (\<lambda>_ b1. (Some (), b1\<lparr>buf := closed_buf b f\<rparr>)))"
proof -
  obtain ll ini len' where form: "asn1_len_form len = (ll, ini, len')" by (metis prod_cases3)
  note F = asn1_len_form_eq [OF small form]
  let ?A = "take (offset f) (buf b)" and ?C = "drop (offset f + 1) (buf b)"
  have A: "length ?A = offset f" "length ?C = len" using cs by (simp_all add: len_def)
  have B: "buf b = ?A @ [buf b ! offset f] @ ?C" using cs by (intro split_at) simp
  have cl: "closed_buf b f = ?A @ (ini # be_bytes (ll - 1) len') @ ?C"
    using asn1 F A by (simp add: closed_buf_def child_prefix_def Let_def)
  have l64: "len' < 2 ^ 64" using F small by simp
  have len2: "length (buf b) - Suc (offset f) = len" by (simp add: len_def)
  have w: "cbb_write_prefix b1 (Suc (offset f)) (ll - Suc 0) len' =
      (Some (), b1\<lparr>buf := poke (buf b1) (Suc (offset f)) (be_bytes (ll - Suc 0) len')\<rparr>)" for b1
    using F by (simp add: write_prefix_eq [OF l64] Let_def)
  show ?thesis
  proof (cases "ll = 1")
    case True
    have "poke ((buf b)[offset f := ini]) (offset f + 1) (be_bytes (ll - 1) len') = closed_buf b f"
      unfolding cl using True cs
      by (simp add: poke_def be_bytes_def take_Suc_conv_app_nth upd_conv_take_nth_drop)
    then show ?thesis
      using asn1 small form F True w by (simp add: cbb_close_child_def Let_def len2)
  next
    case False
    let ?Z = "replicate (ll - 1) (0 :: u8)"
    have mv: "poke ((OPENSSL_memmove (buf b @ ?Z) (offset f + 1 + (ll - 1)) (offset f + 1) len)[offset f := ini])
        (offset f + 1) (be_bytes (ll - 1) len') = closed_buf b f"
      using asn1_move [of ?Z "ll - 1" ?A "buf b ! offset f" ?C ini len', folded B]
      unfolding A cl by simp
    have "try_op (try_op (cbb_buffer_add alloc b ?Z)
          (\<lambda>_ b. (Some (), b\<lparr>buf := OPENSSL_memmove (buf b) (offset f + 1 + (ll - 1)) (offset f + 1) len\<rparr>)))
        (\<lambda>_ b. cbb_write_prefix (b\<lparr>buf := (buf b)[offset f := ini]\<rparr>) (offset f + 1) (ll - 1) len') =
      try_op (cbb_buffer_add alloc b ?Z) (\<lambda>_ b1. (Some (), b1\<lparr>buf := closed_buf b f\<rparr>))"
      using mv w by (auto simp: w dest!: buffer_add_buf split: try_op_splits)
    then show ?thesis
      using asn1 small form F False by (simp add: cbb_close_child_def Let_def len2)
  qed
qed

lemma close_child_fixed_eq:
  assumes "\<not> pending_is_asn1 f" and cs: "offset f + pending_len_len f \<le> length (buf b)"
    and inv: "buffer_inv b"
  shows "cbb_close_child alloc b f (offset f + pending_len_len f) =
    (if prefix_fits f (length (buf b) - (offset f + pending_len_len f))
     then (Some (), b\<lparr>buf := closed_buf b f\<rparr>)
     else (None, b\<lparr>buf := closed_buf b f, error := True\<rparr>))"
proof -
  have l: "length (buf b) - (offset f + pending_len_len f) < 2 ^ 64"
    using inv by (intro le_less_trans [OF diff_le_self]) (simp add: buffer_inv_def)
  show ?thesis
    using assms(1) by (simp add: cbb_close_child_def write_prefix_eq [OF l] Let_def closed_buf_def
      child_prefix_def prefix_fits_def poke_def)
qed

lemma length_der_len_small: "n \<le> 0xfffffffe \<Longrightarrow> 1 \<le> length (der_len n) \<and> length (der_len n) \<le> 5"
  by (auto simp: der_len_def len_octets_def)

lemma closed_buf_asn1_length:
  assumes "pending_is_asn1 f" "pending_len_len f = 1" "offset f + 1 \<le> length (buf b)"
  shows "length (closed_buf b f) = length (buf b) + length (der_len (length (buf b) - (offset f + 1))) - 1"
  using assms by (simp add: closed_buf_def child_prefix_def Let_def)

lemma close_child_Some:
  assumes inv: "buffer_inv b" and cs: "offset f + pending_len_len f \<le> length (buf b)"
    and f: "pending_is_asn1 f \<longrightarrow> pending_len_len f = 1"
    and r: "cbb_close_child alloc b f (offset f + pending_len_len f) = (Some u, b')"
  shows "extends b (closed_buf b f) b' \<and> prefix_fits f (length (buf b) - (offset f + pending_len_len f))"
proof (cases "pending_is_asn1 f")
  case True
  define len where "len = length (buf b) - (offset f + 1)"
  have pll: "pending_len_len f = 1" using f True by simp
  have small: "len \<le> 0xfffffffe"
    using r True pll by (auto simp: cbb_close_child_def Let_def len_def split: if_splits)
  note eq = close_child_asn1_eq [OF True pll, of b alloc, folded len_def, OF _ small]
  have cs': "offset f + 1 \<le> length (buf b)" using cs pll by simp
  have lc: "length (closed_buf b f) = length (buf b) + length (der_len len) - 1"
    using closed_buf_asn1_length [OF True pll cs'] by (simp add: len_def)
  have dl: "1 \<le> length (der_len len) \<and> length (der_len len) \<le> 5"
    using small by (rule length_der_len_small)
  show ?thesis
  proof (cases "length (der_len len) = 1")
    case True': True
    then show ?thesis
      using r eq [OF cs'] pll lc inv small True by (auto simp: extends_def buffer_inv_def prefix_fits_def len_def)
  next
    case False
    then obtain b1 where b1: "cbb_buffer_add alloc b (replicate (length (der_len len) - 1) 0) = (Some (), b1)"
        and b': "b' = b1\<lparr>buf := closed_buf b f\<rparr>"
      using r eq [OF cs'] pll by (auto split: try_op_splits)
    have "extends b (buf b @ replicate (length (der_len len) - 1) 0) b1"
      using dl by (intro buffer_add_Some [OF inv _ b1]) (simp, linarith)
    then show ?thesis
      using b' lc dl small True pll by (auto simp: extends_def buffer_inv_def prefix_fits_def len_def)
  qed
next
  case False
  have "length (closed_buf b f) = length (buf b)"
    using False cs by (simp add: closed_buf_def child_prefix_def Let_def)
  then show ?thesis
    using r False inv by (auto simp: close_child_fixed_eq [OF False cs inv] extends_def buffer_inv_def split: if_splits)
qed

lemma close_child_growable:
  assumes inv: "buffer_inv b" and cs: "offset f + pending_len_len f \<le> length (buf b)"
    and f: "pending_is_asn1 f \<longrightarrow> pending_len_len f = 1" and g: "growable alloc b"
    and fit: "prefix_fits f (length (buf b) - (offset f + pending_len_len f))"
    and l: "length (closed_buf b f) < 2 ^ 64"
  shows "\<exists>b'. cbb_close_child alloc b f (offset f + pending_len_len f) = (Some (), b')"
proof (cases "pending_is_asn1 f")
  case True
  define len where "len = length (buf b) - (offset f + 1)"
  have pll: "pending_len_len f = 1" using f True by simp
  have small: "len \<le> 0xfffffffe" using fit True pll by (simp add: prefix_fits_def len_def)
  have cs': "offset f + 1 \<le> length (buf b)" using cs pll by simp
  note eq = close_child_asn1_eq [OF True pll cs', of alloc, folded len_def, OF small]
  have "length (buf b @ replicate (length (der_len len) - 1) (0::u8)) < 2 ^ 64"
    using closed_buf_asn1_length [OF True pll cs'] l length_der_len_small [OF small] by (simp add: len_def)
  from buffer_add_growable [OF inv g this] show ?thesis
    using eq pll by auto
next
  case False
  with fit show ?thesis by (simp add: close_child_fixed_eq [OF False cs inv])
qed

section \<open>Flushing a chain of children\<close>

lemma closed_buf_flat:
  assumes "children_ok lo (length m) (f # fs)" "buf b = flat m fs"
  shows "closed_buf b f = flat m (f # fs)"
proof -
  have ok: "children_ok (offset f + pending_len_len f) (length m) fs" using assms(1) by simp
  have "take (offset f) (flat m fs) = take (offset f) (take (offset f + pending_len_len f) (flat m fs))"
    by simp
  also have "\<dots> = take (offset f) m" using flat_prefix [OF ok] by (metis min_add_distrib_right take_take min.commute min_add_distrib_left add_0_right min_0L min_absorb1 le_add1)
  finally show ?thesis by (simp add: closed_buf_def assms(2) Let_def)
qed

lemma child_start_no_wrap:
  assumes "children_ok lo len (f # fs)" "len < 2 ^ 64"
  shows "size_add (offset f) (pending_len_len f) = offset f + pending_len_len f"
  using assms children_ok_le [of "offset f + pending_len_len f" len fs]
  by (simp add: size_add_def)

lemma flush_children_Some:
  assumes "buffer_inv b" "children_ok lo (length (buf b)) fs"
    "flush_children alloc b fs = (Some u, (b', fs'))"
  shows "fs' = [] \<and> extends b (flat (buf b) fs) b' \<and> \<not> error b \<and> flat_fits (buf b) fs"
  using assms
proof (induction fs arbitrary: lo b' fs' u)
  case Nil
  then show ?case by (auto simp: extends_def split: if_splits)
next
  case (Cons f fs)
  let ?cs = "offset f + pending_len_len f"
  have ok: "children_ok ?cs (length (buf b)) fs" "pending_len_len f \<noteq> 0"
      "pending_is_asn1 f \<longrightarrow> pending_len_len f = 1"
    using Cons.prems(2) by auto
  have nw: "size_add (offset f) (pending_len_len f) = ?cs"
    using Cons.prems(1,2) by (intro child_start_no_wrap) (auto simp: buffer_inv_def)
  obtain b1 fs1 u1 b2 u2 where b1: "flush_children alloc b fs = (Some u1, (b1, fs1))"
      and cl: "cbb_close_child alloc b1 f ?cs = (Some u2, b2)" and r: "b' = b2" "fs' = []"
      and e: "\<not> error b"
    using Cons.prems(3) ok(2) nw by (auto simp: Let_def split: if_splits prod.splits option.splits)
  have IH: "extends b (flat (buf b) fs) b1" "flat_fits (buf b) fs"
    using Cons.IH [OF Cons.prems(1) ok(1) b1] by auto
  have b1': "buffer_inv b1" "buf b1 = flat (buf b) fs" using IH by (auto simp: extends_def)
  have "?cs \<le> length (buf b1)" using flat_prefix [OF ok(1)] b1' by simp
  from close_child_Some [OF b1'(1) this ok(3) cl]
  have c: "extends b1 (flat (buf b) (f # fs)) b2" "prefix_fits f (length (flat (buf b) fs) - ?cs)"
    using closed_buf_flat [OF Cons.prems(2) b1'(2)] b1'(2) by auto
  have "length (flat (buf b) (f # fs)) < 2 ^ 64" using c(1) by (auto simp: extends_def buffer_inv_def)
  with c IH r e show ?case by (simp add: extends_def)
qed

lemma flush_children_growable:
  assumes "buffer_inv b" "children_ok lo (length (buf b)) fs" "\<not> error b" "growable alloc b"
    "flat_fits (buf b) fs"
  shows "\<exists>b'. flush_children alloc b fs = (Some (), (b', []))"
  using assms
proof (induction fs arbitrary: lo)
  case (Cons f fs)
  let ?cs = "offset f + pending_len_len f"
  have ok: "children_ok ?cs (length (buf b)) fs" "pending_len_len f \<noteq> 0"
      "pending_is_asn1 f \<longrightarrow> pending_len_len f = 1"
    using Cons.prems(2) by auto
  have nw: "size_add (offset f) (pending_len_len f) = ?cs"
    using Cons.prems(1,2) by (intro child_start_no_wrap) (auto simp: buffer_inv_def)
  obtain b1 where b1: "flush_children alloc b fs = (Some (), (b1, []))"
    using Cons.IH [OF Cons.prems(1) ok(1)] Cons.prems by auto
  have b1': "buffer_inv b1" "buf b1 = flat (buf b) fs" "growable alloc b1"
    using flush_children_Some [OF Cons.prems(1) ok(1) b1] Cons.prems(4)
    by (auto simp: extends_def growable_def)
  have le: "?cs \<le> length (buf b1)" using flat_prefix [OF ok(1)] b1' by simp
  have "\<exists>b'. cbb_close_child alloc b1 f ?cs = (Some (), b')"
    using close_child_growable [OF b1'(1) le ok(3) b1'(3)] b1'(2) Cons.prems(5)
      closed_buf_flat [OF Cons.prems(2) b1'(2)] by auto
  then show ?case using Cons.prems(3) ok(2) nw b1 le by (auto simp: Let_def)
qed simp

lemma flush_children_error: "error b \<Longrightarrow> flush_children alloc b fs = fails (b, fs)"
  by (cases fs) auto

lemma flush_children_None:
  assumes "flush_children alloc b fs = (None, (b', fs'))"
  shows "error b'"
  using assms by (cases fs) (auto simp: Let_def split: if_splits prod.splits option.splits)

section \<open>The builder at a depth\<close>

text \<open>
  \<open>cbb_at cs s\<close>: the builder \<open>s\<close> is well formed and the ancestors of the \<open>CBB\<close> in use are
  \<open>cs\<close>, so that its depth is the length of \<open>cs\<close>. Its contents are the buffer with every
  child below it closed.
\<close>

definition child_end :: "nat \<Rightarrow> cbb_child list \<Rightarrow> nat" where
  "child_end lo fs = (if fs = [] then lo else offset (last fs) + pending_len_len (last fs))"

definition cbb_at :: "cbb_child list \<Rightarrow> cbb \<Rightarrow> bool" where
  "cbb_at cs s \<longleftrightarrow> buffer_inv (base s) \<and> children_ok 0 (length (buf (base s))) (children s) \<and>
     take (length cs) (children s) = cs"

definition cbb_content :: "nat \<Rightarrow> cbb \<Rightarrow> bytes" where
  "cbb_content d s = flat (buf (base s)) (drop d (children s))"

definition cbb_room :: "allocator \<Rightarrow> nat \<Rightarrow> cbb \<Rightarrow> bool" where
  "cbb_room alloc d s \<longleftrightarrow> growable alloc (base s) \<and> \<not> error (base s) \<and>
     flat_fits (buf (base s)) (drop d (children s))"

lemma children_ok_append:
  "children_ok lo len (xs @ ys) \<longleftrightarrow>
     children_ok lo (child_end lo xs) xs \<and> children_ok (child_end lo xs) len ys"
  by (induction xs arbitrary: lo) (auto simp: child_end_def dest: children_ok_le)

lemma children_ok_mono: "children_ok lo len fs \<Longrightarrow> len \<le> len' \<Longrightarrow> children_ok lo len' fs"
  by (induction fs arbitrary: lo) auto

lemma children_ok_lower: "children_ok lo len fs \<Longrightarrow> lo' \<le> lo \<Longrightarrow> children_ok lo' len fs"
  by (cases fs) auto

lemma flat_append:
  "children_ok lo (length m) (xs @ ys) \<Longrightarrow> flat m (xs @ ys) = flat (flat m ys) xs"
proof (induction xs arbitrary: lo)
  case (Cons f xs)
  have ok: "children_ok (offset f) (length m) ys"
    using Cons.prems [unfolded children_ok_append]
    by (auto dest!: children_ok_le elim!: children_ok_lower)
  have "take (offset f) (flat m ys) = take (offset f) m"
    using flat_prefix [OF ok] by simp
  with Cons show ?case by (auto simp: Let_def)
qed simp

lemma cbb_at_children:
  assumes "cbb_at cs s"
  shows "children_ok 0 (child_end 0 cs) cs"
    "children_ok (child_end 0 cs) (length (buf (base s))) (drop (length cs) (children s))"
    "buffer_inv (base s)" "take (length cs) (children s) = cs"
proof -
  show tk: "take (length cs) (children s) = cs" and "buffer_inv (base s)"
    using assms by (simp_all add: cbb_at_def)
  have "children_ok 0 (length (buf (base s))) (cs @ drop (length cs) (children s))"
    using assms append_take_drop_id [of "length cs" "children s", unfolded tk] by (simp add: cbb_at_def)
  then show "children_ok 0 (child_end 0 cs) cs"
    "children_ok (child_end 0 cs) (length (buf (base s))) (drop (length cs) (children s))"
    by (auto simp: children_ok_append)
qed

lemma CBB_flush_Some:
  assumes "cbb_at cs s" "CBB_flush alloc (length cs) s = (Some u, s')"
  shows "cbb_at cs s'" "children s' = cs" "buf (base s') = cbb_content (length cs) s"
    "\<not> error (base s)" "error (base s') = error (base s)" "can_resize (base s') = can_resize (base s)"
    "flat_fits (buf (base s)) (drop (length cs) (children s))"
proof -
  let ?d = "length cs"
  note at = cbb_at_children [OF assms(1)]
  obtain b fs where f: "flush_children alloc (base s) (drop ?d (children s)) = (Some u, (b, fs))"
      and s': "s' = s\<lparr>base := b, children := cs @ fs\<rparr>"
    using assms(2) at(4) by (auto simp: CBB_flush_def split: prod.splits)
  note F = flush_children_Some [OF at(3,2) f]
  have "child_end 0 cs \<le> length (flat (buf (base s)) (drop ?d (children s)))"
    using flat_prefix [OF at(2)] by blast
  then have "children_ok 0 (length (flat (buf (base s)) (drop ?d (children s)))) cs"
    using at(1) children_ok_mono by blast
  then show "cbb_at cs s'" "children s' = cs" "buf (base s') = cbb_content ?d s"
    "\<not> error (base s)" "error (base s') = error (base s)" "can_resize (base s') = can_resize (base s)"
    "flat_fits (buf (base s)) (drop ?d (children s))"
    using F s' by (auto simp: cbb_at_def cbb_content_def extends_def)
qed

lemma CBB_flush_room:
  assumes "cbb_at cs s" "cbb_room alloc (length cs) s"
  shows "\<exists>s'. CBB_flush alloc (length cs) s = (Some (), s')"
proof -
  note at = cbb_at_children [OF assms(1)]
  have "\<exists>b'. flush_children alloc (base s) (drop (length cs) (children s)) = (Some (), (b', []))"
    using assms(2) by (intro flush_children_growable [OF at(3,2)]) (auto simp: cbb_room_def)
  then show ?thesis by (auto simp: CBB_flush_def)
qed

lemma CBB_flush_content:
  assumes "cbb_at cs s" "CBB_flush alloc (length cs) s = (Some u, s')"
  shows "cbb_content (length cs) s' = cbb_content (length cs) s"
  using CBB_flush_Some [OF assms] by (simp add: cbb_content_def)

lemma CBB_add_bytes_Some:
  assumes "cbb_at cs s" "length data < 2 ^ 64" "CBB_add_bytes alloc (length cs) data s = (Some u, s')"
  shows "cbb_at cs s'" "children s' = cs" "buf (base s') = cbb_content (length cs) s @ data"
    "\<not> error (base s')" "can_resize (base s') = can_resize (base s)"
proof -
  obtain s1 b u1 where s1: "CBB_flush alloc (length cs) s = (Some u1, s1)"
      and b: "cbb_buffer_add alloc (base s1) data = (Some u, b)" and s': "s' = s1\<lparr>base := b\<rparr>"
    using assms(3) by (auto simp: CBB_add_bytes_def with_base_def split: try_op_splits)
      (metis prod.collapse)
  note F = CBB_flush_Some [OF assms(1) s1]
  have "extends (base s1) (buf (base s1) @ data) b"
    using F(1) assms(2) b by (intro buffer_add_Some) (auto simp: cbb_at_def)
  moreover have "children_ok 0 (length (buf (base s1 )) + length data) cs"
    using F(1,2) by (auto simp: cbb_at_def intro: children_ok_mono)
  ultimately show "cbb_at cs s'" "children s' = cs" "buf (base s') = cbb_content (length cs) s @ data"
    "\<not> error (base s')" "can_resize (base s') = can_resize (base s)"
    using F s' by (auto simp: cbb_at_def extends_def)
qed

interpretation cbb_sink: roomy_sink "CBB_add_bytes alloc (length cs)" "cbb_content (length cs)" "cbb_at cs"
  "cbb_room alloc (length cs)" for alloc cs
proof
  fix s bs u s'
  assume a: "cbb_at cs s" "length bs < 2 ^ 64" "CBB_add_bytes alloc (length cs) bs s = (Some u, s')"
  show "cbb_content (length cs) s' = cbb_content (length cs) s @ bs" "cbb_at cs s'"
    using CBB_add_bytes_Some [OF a] by (simp_all add: cbb_content_def)
next
  fix s bs
  assume a: "cbb_at cs s" "cbb_room alloc (length cs) s" "length (cbb_content (length cs) s @ bs) < 2 ^ 64"
  obtain s1 where s1: "CBB_flush alloc (length cs) s = (Some (), s1)"
    using CBB_flush_room [OF a(1,2)] by auto
  note F = CBB_flush_Some [OF a(1) s1]
  have "growable alloc (base s1)" using F(6) a(2) by (simp add: cbb_room_def growable_def)
  then obtain b where b: "cbb_buffer_add alloc (base s1) bs = (Some (), b)"
    using buffer_add_growable [of "base s1" alloc bs] F(1,3) a(3) by (auto simp: cbb_at_def)
  have r: "CBB_add_bytes alloc (length cs) bs s = (Some (), s1\<lparr>base := b\<rparr>)"
    using s1 b by (simp add: CBB_add_bytes_def with_base_def)
  have "length bs < 2 ^ 64" using a(3) by simp
  note G = CBB_add_bytes_Some [OF a(1) this r]
  show "\<exists>s'. CBB_add_bytes alloc (length cs) bs s = (Some (), s') \<and> cbb_room alloc (length cs) s'"
    using r G a(2) by (auto simp: cbb_room_def growable_def)
qed

section \<open>What a builder promises\<close>



text \<open>C2: with memory to spare, a builder without an error whose pending prefixes fit takes any bytes at any
  depth: they are appended to its contents, and it stays in that state.\<close>

theorem add_bytes_appends:
  assumes "cbb_at cs s" "cbb_room alloc (length cs) s" "length (cbb_content (length cs) s @ data) < 2 ^ 64"
  shows "\<exists>s'. CBB_add_bytes alloc (length cs) data s = (Some (), s') \<and>
    cbb_content (length cs) s' = cbb_content (length cs) s @ data \<and> cbb_at cs s' \<and> cbb_room alloc (length cs) s'"
proof -
  obtain s' where s': "CBB_add_bytes alloc (length cs) data s = (Some (), s')" "cbb_room alloc (length cs) s'"
    using cbb_sink.add_room [OF assms] by blast
  have "length data < 2 ^ 64" using assms(3) by simp
  from CBB_add_bytes_Some [OF assms(1) this s'(1)] s' show ?thesis by (simp add: cbb_content_def)
qed

theorem add_bytes_appends_witness:
  "\<exists>s'. CBB_add_bytes (\<lambda>_. True) 0 [7, 8]
      \<lparr>base = \<lparr>buf = [1, 2], cap = 2, can_resize = True, error = False\<rparr>, children = []\<rparr> = (Some (), s') \<and>
    cbb_content 0 s' = [1, 2, 7, 8]"
  using add_bytes_appends [of "[]" "\<lparr>base = \<lparr>buf = [1, 2], cap = 2, can_resize = True, error = False\<rparr>, children = []\<rparr>"
      "\<lambda>_. True" "[7, 8]"]
  by (auto simp: cbb_at_def buffer_inv_def cbb_room_def growable_def cbb_content_def)

end
