(* ===== verification/CBB_Codec.thy ===== *)
theory CBB_Codec
  imports CBB_Flush
begin

text \<open>
  What the writers of \<^verbatim>\<open>cbb.c\<close> write: each of them is a sequence of
  \<open>CBB_add_bytes\<close>, so the laws of the sink give its contents, and a child that is opened,
  filled and flushed is a DER element, which the readers of \<^verbatim>\<open>cbs.c\<close> read back.
\<close>

unbundle bit_operations_syntax

section \<open>Integers as byte strings\<close>

lemma cbb_add_u_eq:
  assumes "0 < n" "unat v < 256 ^ n"
  shows "cbb_add_u alloc d v n s = CBB_add_bytes alloc d (be_bytes n (unat v)) s"
proof -
  have "cbb_buffer_add_u alloc b v n = cbb_buffer_add alloc b (be_bytes n (unat v))" for b
    using assms by (auto simp: cbb_buffer_add_u_def store_be_eq drop_bit_eq_0 pow_256 split: try_op_splits)
  then show ?thesis by (simp add: cbb_add_u_def CBB_add_bytes_def)
qed

lemma CBB_add_u8_eq: "CBB_add_u8 alloc d v s = CBB_add_bytes alloc d [v] s"
proof -
  have "unat (ucast v :: u64) = unat v" by (simp add: unat_ucast_up)
  then show ?thesis
    using cbb_add_u_eq [of 1 "ucast v" alloc d s] by (simp add: CBB_add_u8_def be_bytes_def)
qed

lemma CBB_add_ints:
  "CBB_add_u16 alloc d v16 s = CBB_add_bytes alloc d (be_bytes 2 (unat v16)) s"
  "unat v24 < 2 ^ 24 \<Longrightarrow> CBB_add_u24 alloc d v24 s = CBB_add_bytes alloc d (be_bytes 3 (unat v24)) s"
  "CBB_add_u32 alloc d v32 s = CBB_add_bytes alloc d (be_bytes 4 (unat v32)) s"
  "CBB_add_u64 alloc d v64 s = CBB_add_bytes alloc d (be_bytes 8 (unat v64)) s"
proof -
  have "unat v16 < 65536" "unat v32 < 4294967296"
    using unsigned_less [of v16] unsigned_less [of v32] by simp_all
  then show "CBB_add_u16 alloc d v16 s = CBB_add_bytes alloc d (be_bytes 2 (unat v16)) s"
    "unat v24 < 2 ^ 24 \<Longrightarrow> CBB_add_u24 alloc d v24 s = CBB_add_bytes alloc d (be_bytes 3 (unat v24)) s"
    "CBB_add_u32 alloc d v32 s = CBB_add_bytes alloc d (be_bytes 4 (unat v32)) s"
    "CBB_add_u64 alloc d v64 s = CBB_add_bytes alloc d (be_bytes 8 (unat v64)) s"
    using unat_u64_bound [of v64]
    by (simp_all add: CBB_add_u16_def CBB_add_u24_def CBB_add_u32_def CBB_add_u64_def cbb_add_u_eq unat_ucast)
qed

lemma CBB_add_u24_wide:
  assumes "2 ^ 24 \<le> unat v"
  shows "fst (CBB_add_u24 alloc d v s) = None"
proof -
  have "unat (ucast v :: u64) = unat v"
    by (simp add: unat_ucast_up)
  with assms have "drop_bit 24 (ucast v :: u64) \<noteq> 0" by (simp add: drop_bit_eq_0)
  then show ?thesis
    by (auto simp: CBB_add_u24_def cbb_add_u_def with_base_def cbb_buffer_add_u_def store_be_eq
      split: try_op_splits)
qed

section \<open>Base-128 integers\<close>

abbreviation add_each :: "allocator \<Rightarrow> nat \<Rightarrow> bytes \<Rightarrow> cbb \<Rightarrow> (cbb, unit) cres" where
  "add_each alloc d bs s \<equiv> each (\<lambda>b. CBB_add_bytes alloc d [b]) bs s"

lemma group_bytes:
  fixes v :: u64
  shows "(ucast (drop_bit k v AND 0x7f) :: u8) = word_of_nat (unat v div 2 ^ k mod 128)"
    "(ucast (drop_bit k v AND 0x7f) :: u8) OR 0x80 = word_of_nat (128 + unat v div 2 ^ k mod 128)"
proof -
  have 7: "unat (drop_bit k v AND 0x7f) = unat v div 2 ^ k mod 128"
    using unat_and_mask [of "drop_bit k v" 7] by (simp add: mask_eq_exp_minus_1 unat_drop_bit)
  define m where "m = unat v div 2 ^ k mod 128"
  have m: "m < 128" by (simp add: m_def)
  have u: "unat (ucast (drop_bit k v AND 0x7f) :: u8) = m"
    using m 7 by (simp add: unat_ucast m_def)
  then show eq: "(ucast (drop_bit k v AND 0x7f) :: u8) = word_of_nat (unat v div 2 ^ k mod 128)"
    using m by (simp add: word_unat_eq_iff m_def)
  have "unat (push_bit 7 1 OR (ucast (drop_bit k v AND 0x7f) :: u8)) = 128 + m"
    using u m by (subst unat_push_bit_or) simp_all
  then show "(ucast (drop_bit k v AND 0x7f) :: u8) OR 0x80 = word_of_nat (128 + unat v div 2 ^ k mod 128)"
    using m by (simp add: word_unat_eq_iff or.commute m_def)
qed

definition group_hi :: "u64 \<Rightarrow> nat \<Rightarrow> u8" where
  "group_hi v i = word_of_nat (128 + unat v div 128 ^ i mod 128)"

lemma rev_upt_Suc: "rev [0..<Suc n] = map Suc (rev [0..<n]) @ [0]"
  by (simp only: upt_conv_Cons zero_less_Suc map_Suc_upt [symmetric] rev.simps rev_map)

lemma group_hi_Suc: "group_hi v (Suc i) = group_hi (drop_bit 7 v) i"
  by (simp add: group_hi_def unat_drop_bit div_mult2_eq)

lemma groups_b128_hi: "map (group_hi v) (rev [0..<base128_len v]) = b128_hi (unat v)"
proof (induction v rule: base128_len.induct)
  case (1 v)
  show ?case
  proof (cases "v = 0")
    case True
    then show ?thesis by (simp add: base128_len.simps)
  next
    case False
    then have "base128_len v = Suc (base128_len (drop_bit 7 v))"
      by (subst base128_len.simps) (simp add: word_gt_0)
    then have "map (group_hi v) (rev [0..<base128_len v]) = b128_hi (unat v div 128) @ [group_hi v 0]"
      using 1 False by (simp only: rev_upt_Suc) (simp add: group_hi_Suc comp_def word_gt_0 unat_drop_bit)
    with False show ?thesis by (subst b128_hi.simps) (simp add: group_hi_def unat_0_iff)
  qed
qed

definition group_byte :: "u64 \<Rightarrow> nat \<Rightarrow> u8" where
  "group_byte v i = (if i \<noteq> 0 then group_hi v i else word_of_nat (unat v mod 128))"

lemma add_base128_loop_eq:
  "add_base128_loop alloc d v n s = add_each alloc d (map (group_byte v) (rev [0..<n])) s"
proof (induction n arbitrary: s)
  case (Suc n)
  let ?b = "ucast (drop_bit (7 * n) v AND 0x7f) :: u8"
  have "(if n \<noteq> 0 then ?b OR 0x80 else ?b) = group_byte v n"
    using group_bytes [of "7 * n" v] power_mult [of "2 :: nat" 7 n]
    by (cases "n = 0") (simp_all add: group_byte_def group_hi_def)
  moreover have "add_base128_loop alloc d v n = add_each alloc d (map (group_byte v) (rev [0..<n]))"
    by (rule ext) (rule Suc)
  ultimately show ?case by (simp add: CBB_add_u8_eq Let_def)
qed simp

lemma add_base128_integer_eq: "add_base128_integer alloc d v s = add_each alloc d (b128 (unat v)) s"
proof -
  have n: "(if base128_len v = 0 then 1 else base128_len v) = Suc (base128_len (drop_bit 7 v))"
    using base128_len.simps [of v] base128_len.simps [of 0] by (cases "v = 0") (auto simp: word_gt_0)
  have "map (group_byte v) (rev [0..<Suc (base128_len (drop_bit 7 v))]) = b128 (unat v)"
    unfolding rev_upt_Suc b128_def
    using groups_b128_hi [of "drop_bit 7 v"]
    by (simp add: group_byte_def group_hi_Suc comp_def unat_drop_bit)
  then show ?thesis by (simp add: add_base128_integer_def n add_base128_loop_eq del: upt_Suc)
qed

section \<open>ASN.1 elements\<close>

lemma tag_byte_eqs:
  fixes tag :: u32
  defines "hi \<equiv> unat tag div 2 ^ 29" and "n \<equiv> unat tag mod 2 ^ 29"
  shows "unat (tag AND CBS_ASN1_TAG_NUMBER_MASK) = n"
    "m < 32 \<Longrightarrow> (ucast (drop_bit CBS_ASN1_TAG_SHIFT tag AND 0xe0) :: u8) OR word_of_nat m = word_of_nat (hi * 32 + m)"
proof -
  show "unat (tag AND CBS_ASN1_TAG_NUMBER_MASK) = n"
    using unat_and_mask [of tag 29]
    by (simp add: CBS_ASN1_TAG_NUMBER_MASK_def CBS_ASN1_TAG_SHIFT_def n_def mask_eq_exp_minus_1)
  assume m: "m < 32"
  have e: "(0xe0 :: u32) = push_bit 5 (mask 3)"
    by (simp add: push_bit_eq_mult mask_eq_exp_minus_1)
  have hi: "hi < 8" unfolding hi_def by (rule unat_tag_hi)
  have "drop_bit CBS_ASN1_TAG_SHIFT tag AND 0xe0 = push_bit 5 (take_bit 3 (drop_bit 29 tag))"
    unfolding e and_push_bit_mask CBS_ASN1_TAG_SHIFT_def by simp
  also have "take_bit 3 (drop_bit 29 tag) = word_of_nat hi"
    using hi by (simp add: word_unat_eq_iff unat_take_bit unat_drop_bit unat_of_nat hi_def)
  finally have p: "(ucast (drop_bit CBS_ASN1_TAG_SHIFT tag AND 0xe0) :: u8) = push_bit 5 (word_of_nat hi)"
    using hi by (simp add: word_unat_eq_iff unat_ucast unat_push_bit unat_of_nat)
  have "unat (push_bit 5 (word_of_nat hi) OR word_of_nat m :: u8) = hi * 32 + m"
    using m hi by (simp add: unat_push_bit_or)
  then show "(ucast (drop_bit CBS_ASN1_TAG_SHIFT tag AND 0xe0) :: u8) OR word_of_nat m = word_of_nat (hi * 32 + m)"
    unfolding p using m hi by (simp add: word_unat_eq_iff)
qed


text \<open>\<open>CBB_add_asn1\<close>: the tag, a byte for the length, and a pending child.\<close>

definition asn1_child :: "nat \<Rightarrow> cbb_child" where
  "asn1_child off = \<lparr>offset = off, pending_len_len = 1, pending_is_asn1 = True\<rparr>"

lemma CBB_add_asn1_eq:
  "CBB_add_asn1 alloc d tag s =
     try_op (CBB_flush alloc d s) (\<lambda>_ s.
     try_op (add_each alloc d (der_tag tag) s) (\<lambda>_ s.
     try_op (CBB_add_bytes alloc d [0] s) (\<lambda>_ s'.
       returns () (s'\<lparr>children := take d (children s') @ [asn1_child (length (buf (base s)))]\<rparr>))))"
proof -
  define n where "n = unat tag mod 2 ^ 29"
  have n: "unat (tag AND CBS_ASN1_TAG_NUMBER_MASK) = n" "n < 2 ^ 29"
    using tag_byte_eqs(1) [of tag] by (simp_all add: n_def)
  have big: "0x1f \<le> tag AND CBS_ASN1_TAG_NUMBER_MASK \<longleftrightarrow> \<not> n < 31"
    using n by (simp add: word_le_nat_alt not_less)
  have u64: "unat (ucast (tag AND CBS_ASN1_TAG_NUMBER_MASK) :: u64) = n"
    using n by (simp add: unat_ucast_up)
  have low: "n < 31 \<Longrightarrow> (ucast (tag AND CBS_ASN1_TAG_NUMBER_MASK) :: u8) = word_of_nat n"
    using n by (simp add: word_unat_eq_iff unat_ucast)
  have dt: "der_tag tag = (if n < 31 then [word_of_nat (unat tag div 2 ^ 29 * 32 + n)]
      else word_of_nat (unat tag div 2 ^ 29 * 32 + 31) # b128 n)"
    by (simp add: der_tag_def Let_def n_def)
  have hi31: "(ucast (drop_bit CBS_ASN1_TAG_SHIFT tag AND 0xe0) :: u8) OR 0x1f =
      word_of_nat (unat tag div 2 ^ 29 * 32 + 31)"
    using tag_byte_eqs(2) [of 31 tag] by simp
  have b128: "add_base128_integer alloc d (ucast (tag AND CBS_ASN1_TAG_NUMBER_MASK)) = add_each alloc d (b128 n)"
    by (rule ext) (simp add: add_base128_integer_eq u64)
  have "(if tag AND CBS_ASN1_TAG_NUMBER_MASK \<ge> 0x1f then
       try_op (CBB_add_u8 alloc d (ucast (drop_bit CBS_ASN1_TAG_SHIFT tag AND 0xe0) OR 0x1f) s)
         (\<lambda>_ s. add_base128_integer alloc d (ucast (tag AND CBS_ASN1_TAG_NUMBER_MASK)) s)
     else CBB_add_u8 alloc d (ucast (drop_bit CBS_ASN1_TAG_SHIFT tag AND 0xe0) OR
       ucast (tag AND CBS_ASN1_TAG_NUMBER_MASK)) s) = add_each alloc d (der_tag tag) s" for s
    unfolding big dt hi31 using tag_byte_eqs(2) [of n tag]
    by (cases "n < 31") (simp_all add: CBB_add_u8_eq b128 low)
  then show ?thesis
    by (simp add: CBB_add_asn1_def Let_def CBB_add_u8_eq asn1_child_def)
qed
section \<open>A child that is opened, filled and closed\<close>

lemma cbb_at_close:
  assumes "cbb_at (cs @ [c]) s"
  shows "cbb_at cs s"
proof -
  have e: "take (Suc (length cs)) (children s) = cs @ [c]" using assms by (simp add: cbb_at_def)
  have "take (length cs) (children s) = take (length cs) (take (Suc (length cs)) (children s))"
    by (simp add: min_def)
  also have "\<dots> = cs" unfolding e by simp
  finally show ?thesis using assms by (simp add: cbb_at_def)
qed

lemma cbb_content_child:
  assumes "cbb_at (cs @ [c]) s"
  shows "cbb_content (length cs) s =
    (let body = drop (offset c + pending_len_len c) (cbb_content (Suc (length cs)) s) in
     take (offset c) (cbb_content (Suc (length cs)) s) @ child_prefix c (length body) @ body)"
proof -
  have tk: "take (Suc (length cs)) (children s) = cs @ [c]" using assms by (simp add: cbb_at_def)
  have dr: "drop (length cs) (children s) = c # drop (Suc (length cs)) (children s)"
    using tk by (metis append_Cons append_Nil append_eq_conv_conj append_take_drop_id append.assoc)
  have ok: "children_ok (child_end 0 cs) (length (buf (base s))) ([c] @ drop (Suc (length cs)) (children s))"
    using cbb_at_children(2) [OF cbb_at_close [OF assms]] dr by simp
  show ?thesis
    using flat_append [OF ok] dr by (simp add: cbb_content_def)
qed

lemma cbb_room_child:
  assumes "cbb_at (cs @ [c]) s" "cbb_room alloc (Suc (length cs)) s"
    and "length (cbb_content (length cs) s) < 2 ^ 64"
    and "prefix_fits c (length (cbb_content (Suc (length cs)) s) - (offset c + pending_len_len c))"
  shows "cbb_room alloc (length cs) s"
proof -
  have tk: "take (Suc (length cs)) (children s) = cs @ [c]" using assms(1) by (simp add: cbb_at_def)
  have dr: "drop (length cs) (children s) = c # drop (Suc (length cs)) (children s)"
    using tk by (metis append_Cons append_Nil append_eq_conv_conj append_take_drop_id append.assoc)
  then show ?thesis using assms by (simp add: cbb_room_def cbb_content_def)
qed

definition cbb_flushed :: "cbb_child list \<Rightarrow> cbb \<Rightarrow> bool" where
  "cbb_flushed cs s \<longleftrightarrow> cbb_at cs s \<and> children s = cs"

interpretation cbb_flushed: byte_sink "CBB_add_bytes alloc (length cs)" "cbb_content (length cs)"
  "cbb_flushed cs" for alloc cs
proof
  fix s bs u s'
  assume a: "cbb_flushed cs s" "length bs < 2 ^ 64" "CBB_add_bytes alloc (length cs) bs s = (Some u, s')"
  then have at: "cbb_at cs s" by (simp add: cbb_flushed_def)
  show "cbb_content (length cs) s' = cbb_content (length cs) s @ bs" "cbb_flushed cs s'"
    using CBB_add_bytes_Some [OF at a(2,3)] by (simp_all add: cbb_flushed_def cbb_content_def)
qed

lemma CBB_add_asn1_Some:
  assumes "cbb_at cs s" "CBB_add_asn1 alloc (length cs) tag s = (Some u, s')"
  defines "c \<equiv> asn1_child (length (cbb_content (length cs) s @ der_tag tag))"
  shows "cbb_at (cs @ [c]) s' \<and>
    cbb_content (Suc (length cs)) s' = cbb_content (length cs) s @ der_tag tag @ [0]"
proof -
  obtain s1 s2 s3 u1 u2 u3 where s1: "CBB_flush alloc (length cs) s = (Some u1, s1)"
      and s2: "add_each alloc (length cs) (der_tag tag) s1 = (Some u2, s2)"
      and s3: "CBB_add_bytes alloc (length cs) [0] s2 = (Some u3, s3)"
      and s': "s' = s3\<lparr>children := take (length cs) (children s3) @ [asn1_child (length (buf (base s2)))]\<rparr>"
    using assms(2) by (auto simp: CBB_add_asn1_eq try_op_eq_Some)
  note F1 = CBB_flush_Some [OF assms(1) s1] and C1 = CBB_flush_content [OF assms(1) s1]
  have fl1: "cbb_flushed cs s1" using F1(1,2) by (simp add: cbb_flushed_def)
  note F2 = cbb_flushed.each_byte_content [OF fl1 s2]
  have at2: "cbb_at cs s2" "children s2 = cs" using F2 by (simp_all add: cbb_flushed_def)
  have b2: "buf (base s2) = cbb_content (length cs) s @ der_tag tag"
    using F2 C1 at2(2) by (simp add: cbb_content_def)
  have F3: "cbb_at cs s3" "children s3 = cs" "buf (base s3) = cbb_content (length cs) s @ der_tag tag @ [0]"
    using CBB_add_bytes_Some [OF at2(1) _ s3] b2 at2(2) by (simp_all add: cbb_content_def)
  have c: "s' = s3\<lparr>children := cs @ [c]\<rparr>" using s' F3(2) b2 by (simp add: c_def)
  have "child_end 0 cs \<le> offset c"
    using cbb_at_children(2) [OF at2(1)] at2(2) b2 by (simp add: c_def asn1_child_def)
  then have "children_ok 0 (length (buf (base s3))) (cs @ [c])"
    using cbb_at_children(1) [OF F3(1)] F3(3) by (simp add: children_ok_append c_def asn1_child_def)
  then show ?thesis
    using F3 c by (simp add: cbb_at_def cbb_content_def)
qed

text \<open>What is written between \<open>CBB_add_asn1\<close> and the flush becomes the contents of the element.\<close>

lemma asn1_element_content:
  assumes at: "cbb_at cs s" and op: "CBB_add_asn1 alloc (length cs) tag s = (Some u, s1)"
  defines "c \<equiv> asn1_child (length (cbb_content (length cs) s @ der_tag tag))"
  assumes body: "cbb_at (cs @ [c]) s2"
      "cbb_content (Suc (length cs)) s2 = cbb_content (Suc (length cs)) s1 @ bs"
    and fl: "CBB_flush alloc (length cs) s2 = (Some u', s')"
  shows "cbb_at cs s' \<and> cbb_content (length cs) s' = cbb_content (length cs) s @ der_element tag bs"
proof -
  have "cbb_content (Suc (length cs)) s2 = cbb_content (length cs) s @ der_tag tag @ [0] @ bs"
    using CBB_add_asn1_Some [OF at op] body(2) by simp
  then have "cbb_content (length cs) s2 = cbb_content (length cs) s @ der_element tag bs"
    using cbb_content_child [OF body(1)] by (simp add: c_def asn1_child_def child_prefix_def der_element_def)
  moreover have "cbb_at cs s2" using body(1) by (rule cbb_at_close)
  ultimately show ?thesis
    using CBB_flush_Some(1) [OF _ fl] CBB_flush_content [OF _ fl] by simp
qed

lemma CBB_add_asn1_room:
  assumes "cbb_at cs s" "cbb_room alloc (length cs) s" "length (cbb_content (length cs) s @ der_tag tag @ [0]) < 2 ^ 64"
  shows "\<exists>s'. CBB_add_asn1 alloc (length cs) tag s = (Some (), s') \<and> cbb_room alloc (Suc (length cs)) s'"
proof -
  obtain s1 where s1: "CBB_flush alloc (length cs) s = (Some (), s1)"
    using CBB_flush_room [OF assms(1,2)] by auto
  note F1 = CBB_flush_Some [OF assms(1) s1] and C1 = CBB_flush_content [OF assms(1) s1]
  have r1: "cbb_room alloc (length cs) s1"
    using F1 assms(2) by (simp add: cbb_room_def growable_def)
  obtain s2 where s2: "add_each alloc (length cs) (der_tag tag) s1 = (Some (), s2)" "cbb_room alloc (length cs) s2"
    using cbb_sink.each_byte_room [OF F1(1) r1, of "der_tag tag"] C1 assms(3) by auto
  have F2: "cbb_at cs s2" "cbb_content (length cs) s2 = cbb_content (length cs) s @ der_tag tag"
    using cbb_sink.each_byte_content [OF F1(1) s2(1)] C1 by simp_all
  obtain s3 where s3: "CBB_add_bytes alloc (length cs) [0] s2 = (Some (), s3)" "cbb_room alloc (length cs) s3"
    using cbb_sink.add_room [OF F2(1) s2(2), of "[0]"] F2(2) assms(3) by auto
  have "children s3 = cs" using CBB_add_bytes_Some(2) [OF F2(1) _ s3(1)] by simp
  then show ?thesis using s1 s2 s3 by (simp add: CBB_add_asn1_eq cbb_room_def)
qed

lemma asn1_element_room:
  assumes at: "cbb_at cs s" and op: "CBB_add_asn1 alloc (length cs) tag s = (Some u, s1)"
  defines "c \<equiv> asn1_child (length (cbb_content (length cs) s @ der_tag tag))"
  assumes body: "cbb_at (cs @ [c]) s2" "cbb_room alloc (Suc (length cs)) s2"
      "cbb_content (Suc (length cs)) s2 = cbb_content (Suc (length cs)) s1 @ bs"
    and fit: "length bs \<le> 0xfffffffe" "length (cbb_content (length cs) s @ der_element tag bs) < 2 ^ 64"
  shows "\<exists>s'. CBB_flush alloc (length cs) s2 = (Some (), s') \<and> cbb_room alloc (length cs) s'"
proof -
  have "cbb_content (Suc (length cs)) s2 = cbb_content (length cs) s @ der_tag tag @ [0] @ bs"
    using CBB_add_asn1_Some [OF at op] body(3) by simp
  then have "cbb_room alloc (length cs) s2"
    using cbb_content_child [OF body(1)] fit
    by (intro cbb_room_child [OF body(1,2)])
      (simp_all add: c_def asn1_child_def child_prefix_def der_element_def prefix_fits_def)
  moreover have at2: "cbb_at cs s2" using body(1) by (rule cbb_at_close)
  ultimately obtain s' where s': "CBB_flush alloc (length cs) s2 = (Some (), s')"
    using CBB_flush_room by blast
  with CBB_flush_Some [OF at2 s'] \<open>cbb_room alloc (length cs) s2\<close> show ?thesis
    by (simp add: cbb_room_def growable_def)
qed

end
