(* ===== verification/CBB_ASN1.thy ===== *)
theory CBB_ASN1
  imports CBB_Codec
begin

text \<open>
  The writers of ASN.1 elements in \<^verbatim>\<open>cbb.c\<close> (octet strings, booleans and integers): each
  is \<open>asn1_write\<close> on a list of chunks, and the integer contents they choose are the minimal
  two's complement ones the readers of \<^verbatim>\<open>cbs.c\<close> accept.
\<close>

unbundle bit_operations_syntax

section \<open>Elements\<close>

definition asn1_write :: "allocator \<Rightarrow> nat \<Rightarrow> u32 \<Rightarrow> bytes list \<Rightarrow> cbb \<Rightarrow> (cbb, unit) cres" where
  "asn1_write alloc d tag bss s =
     try_op (CBB_add_asn1 alloc d tag s) (\<lambda>_ s.
     try_op (each (CBB_add_bytes alloc (Suc d)) bss s) (\<lambda>_ s.
     CBB_flush alloc d s))"

lemma asn1_write_Some:
  assumes at: "cbb_at cs s" and small: "\<And>bs. bs \<in> set bss \<Longrightarrow> length bs < 2 ^ 64"
    and w: "asn1_write alloc (length cs) tag bss s = (Some u, s')"
  shows "cbb_at cs s'"
    and "cbb_content (length cs) s' = cbb_content (length cs) s @ der_element tag (concat bss)"
proof -
  obtain s1 s2 u1 u2 where s1: "CBB_add_asn1 alloc (length cs) tag s = (Some u1, s1)"
      and s2: "each (CBB_add_bytes alloc (Suc (length cs))) bss s1 = (Some u2, s2)"
      and s': "CBB_flush alloc (length cs) s2 = (Some u, s')"
    using w by (auto simp: asn1_write_def try_op_eq_Some)
  let ?c = "asn1_child (length (cbb_content (length cs) s @ der_tag tag))"
  have at1: "cbb_at (cs @ [?c]) s1" using CBB_add_asn1_Some [OF at s1] by simp
  have "cbb_at (cs @ [?c]) s2"
    "cbb_content (Suc (length cs)) s2 = cbb_content (Suc (length cs)) s1 @ concat bss"
    using cbb_sink.each_content [OF at1 small, of bss alloc u2 s2] s2 by auto
  from asn1_element_content [OF at s1 this s']
  show "cbb_at cs s'" "cbb_content (length cs) s' = cbb_content (length cs) s @ der_element tag (concat bss)"
    by auto
qed

lemma asn1_write_room:
  assumes at: "cbb_at cs s" and room: "cbb_room alloc (length cs) s"
    and fit: "length (concat bss) \<le> 0xfffffffe"
      "length (cbb_content (length cs) s @ der_element tag (concat bss)) < 2 ^ 64"
  shows "\<exists>s'. asn1_write alloc (length cs) tag bss s = (Some (), s') \<and> cbb_room alloc (length cs) s'"
proof -
  have dl: "1 \<le> length (der_len (length (concat bss)))" using length_der_len_small [OF fit(1)] by simp
  have l: "length (cbb_content (length cs) s @ der_tag tag @ [0] @ concat bss) < 2 ^ 64"
    using fit(2) dl by (simp add: der_element_def)
  obtain s1 where s1: "CBB_add_asn1 alloc (length cs) tag s = (Some (), s1)" "cbb_room alloc (Suc (length cs)) s1"
    using CBB_add_asn1_room [OF at room, of tag] l by auto
  let ?c = "asn1_child (length (cbb_content (length cs) s @ der_tag tag))"
  have at1: "cbb_at (cs @ [?c]) s1"
      "cbb_content (Suc (length cs)) s1 = cbb_content (length cs) s @ der_tag tag @ [0]"
    using CBB_add_asn1_Some [OF at s1(1)] by simp_all
  obtain s2 where s2: "each (CBB_add_bytes alloc (Suc (length cs))) bss s1 = (Some (), s2)"
      "cbb_room alloc (Suc (length cs)) s2"
    using cbb_sink.each_room [OF at1(1), of alloc bss] s1(2) at1(2) l by auto
  have small: "length bs < 2 ^ 64" if "bs \<in> set bss" for bs
  proof -
    have "length bs \<le> sum_list (map length bss)"
      using that by (intro member_le_sum_list) auto
    then show ?thesis using fit(1) by (simp add: length_concat)
  qed
  have at2: "cbb_at (cs @ [?c]) s2"
    "cbb_content (Suc (length cs)) s2 = cbb_content (Suc (length cs)) s1 @ concat bss"
    using cbb_sink.each_content [OF at1(1) small, of bss alloc "()" s2] s2 by auto
  show ?thesis
    using asn1_element_room [OF at s1(1) at2(1) s2(2) at2(2) fit] s1 s2 by (simp add: asn1_write_def)
qed

lemma CBB_add_asn1_octet_string_eq:
  "CBB_add_asn1_octet_string alloc d data s = asn1_write alloc d CBS_ASN1_OCTETSTRING [data] s"
  by (simp add: CBB_add_asn1_octet_string_def asn1_write_def)

lemma CBB_add_asn1_bool_eq:
  "CBB_add_asn1_bool alloc d v s = asn1_write alloc d CBS_ASN1_BOOLEAN [[if v \<noteq> 0 then 0xff else 0]] s"
  by (simp add: CBB_add_asn1_bool_def asn1_write_def CBB_add_u8_eq)

section \<open>INTEGER contents\<close>

definition pad_positive :: "bytes \<Rightarrow> bytes" where
  "pad_positive bs = (if bs \<noteq> [] \<and> 128 \<le> unat (hd bs) then 0 # bs else bs)"

definition uint64_contents :: "u64 \<Rightarrow> bytes" where
  "uint64_contents v =
     (if v = 0 then [0] else pad_positive (dropWhile (\<lambda>b. b = 0) (be_bytes 8 (unat v))))"

lemma be_bytes_Suc: "be_bytes (Suc n) v = word_of_nat (v div 256 ^ n) # be_bytes n v"
proof -
  have "le_bytes (Suc n) v = le_bytes n v @ [word_of_nat (v div 256 ^ n)]"
    by (induction n arbitrary: v) (simp_all add: div_mult2_eq)
  then show ?thesis by (simp add: be_bytes_def)
qed

lemma byte_of_u64: "(ucast (drop_bit (8 * n) v AND 0xff) :: u8) = word_of_nat (unat v div 256 ^ n)" for v :: u64
proof -
  have "unat (drop_bit (8 * n) v AND 0xff) = unat v div 256 ^ n mod 256"
    using unat_and_mask [of "drop_bit (8 * n) v" 8] by (simp add: mask_eq_exp_minus_1 unat_drop_bit pow_256)
  then show ?thesis by (simp add: word_unat_eq_iff unat_ucast)
qed

lemma try_op_assoc: "try_op (try_op r f) g = try_op r (\<lambda>x s. try_op (f x s) g)"
  by (auto simp: try_op_def split: prod.splits option.splits)

lemma asn1_uint64_bytes_eq:
  "asn1_uint64_bytes alloc d v n started s =
     (let bs = be_bytes n (unat v) in
      try_op (add_each alloc d (if started then bs else pad_positive (dropWhile (\<lambda>b. b = 0) bs)) s)
        (\<lambda>_ s. returns (started \<or> (\<exists>b \<in> set bs. b \<noteq> 0)) s))"
proof (induction n arbitrary: started s)
  case 0
  then show ?case by (simp add: be_bytes_def pad_positive_def)
next
  case (Suc n)
  define b :: u8 where "b = word_of_nat (unat v div 256 ^ n)"
  have be: "be_bytes (Suc n) (unat v) = b # be_bytes n (unat v)" by (simp add: be_bytes_Suc b_def)
  have IH: "asn1_uint64_bytes alloc d v n True = (\<lambda>s. try_op (add_each alloc d (be_bytes n (unat v)) s)
      (\<lambda>_ s. returns True s))"
    by (rule ext) (simp add: Suc Let_def)
  show ?case
  proof (cases "\<not> started \<and> b = 0")
    case True
    then show ?thesis by (simp add: byte_of_u64 b_def [symmetric] be Suc Let_def)
  next
    case False
    then show ?thesis
      by (cases "started"; cases "unat b < 128")
        (simp_all add: byte_of_u64 b_def [symmetric] be Let_def IH CBB_add_u8_eq u8_and_80 pad_positive_def try_op_assoc)
  qed
qed

lemma be_bytes_zero: "(\<forall>b \<in> set (be_bytes n v). b = 0) \<longleftrightarrow> v mod 256 ^ n = 0"
proof
  assume "\<forall>b \<in> set (be_bytes n v). b = 0"
  then have "be_bytes n v = replicate n 0" by (metis length_be_bytes replicate_eqI)
  then have "be_nat (be_bytes n v) = be_nat (rev (replicate n 0))" by simp
  then show "v mod 256 ^ n = 0" by (simp only: be_nat_be_bytes be_nat_rev le_nat_replicate)
next
  assume "v mod 256 ^ n = 0"
  then have "be_nat (be_bytes n v) = 0" by (simp add: be_nat_be_bytes)
  moreover have "be_nat bs = 0 \<Longrightarrow> \<forall>b \<in> set bs. b = 0" for bs
    by (induction bs rule: rev_induct) (auto simp: unat_0_iff)
  ultimately show "\<forall>b \<in> set (be_bytes n v). b = 0" by blast
qed

lemma each_bytes_chunks: "each (CBB_add_bytes alloc d) (map (\<lambda>b. [b]) bs) s = add_each alloc d bs s"
  by (simp add: each_map)

lemma CBB_add_asn1_uint64_eq:
  "CBB_add_asn1_uint64 alloc d v s =
     asn1_write alloc d CBS_ASN1_INTEGER (map (\<lambda>b. [b]) (uint64_contents v)) s"
proof -
  let ?bs = "be_bytes 8 (unat v)"
  have z: "(\<exists>b \<in> set ?bs. b \<noteq> 0) \<longleftrightarrow> v \<noteq> 0"
    using be_bytes_zero [of 8 "unat v"] unat_u64_bound [of v] by (auto simp: unat_0_iff)
  have "try_op (asn1_uint64_bytes alloc (d + 1) v 8 False s) (\<lambda>started s.
      try_op (if \<not> started then CBB_add_u8 alloc (d + 1) 0 s else returns () s) k) =
    try_op (each (CBB_add_bytes alloc (Suc d)) (map (\<lambda>b. [b]) (uint64_contents v)) s) k"
    for s and k :: "unit \<Rightarrow> cbb \<Rightarrow> (cbb, unit) cres"
  proof (cases "v = 0")
    case True
    then have dw: "dropWhile (\<lambda>b. b = 0) (be_bytes 8 0) = ([] :: bytes)" using z by simp
    with True z show ?thesis
      by (simp add: asn1_uint64_bytes_eq uint64_contents_def CBB_add_u8_eq pad_positive_def Let_def dw
        del: dropWhile_eq_Nil_conv)
  next
    case False
    then show ?thesis
      by (simp add: asn1_uint64_bytes_eq z uint64_contents_def each_bytes_chunks try_op_assoc Let_def)
  qed
  then show ?thesis unfolding CBB_add_asn1_uint64_def asn1_write_def by (simp only:)
qed


lemma be_nat_dropWhile_0: "be_nat (dropWhile (\<lambda>b. b = 0) bs) = be_nat bs"
  by (induction bs) (auto simp: be_nat_Cons)

lemma tc_int_nonneg: "unat b < 128 \<Longrightarrow> tc_int (b # bs) = int (be_nat (b # bs))"
  using tc_int_unsigned [of "b # bs"] tc_int_neg [of b bs] by simp

lemma pad_positive_valid:
  assumes "bs \<noteq> []" "hd bs \<noteq> 0"
  shows "CBS_is_valid_asn1_integer (pad_positive bs) \<noteq> None \<and> tc_int (pad_positive bs) = int (be_nat bs)"
proof -
  obtain b r where bs: "bs = b # r" using assms(1) by (cases bs) auto
  have b: "unat b \<noteq> 0" using assms bs by (simp add: unat_0_iff)
  show ?thesis
  proof (cases "unat b < 128")
    case True
    with b bs show ?thesis
      by (cases r) (simp_all add: pad_positive_def valid_integer_simps tc_int_nonneg del: tc_int.simps)
  next
    case False
    have "be_nat (0 # bs) = be_nat bs" by (simp add: be_nat_Cons [of 0])
    with False bs tc_int_nonneg [of 0 bs] show ?thesis
      by (simp add: pad_positive_def valid_integer_simps del: tc_int.simps)
  qed
qed

lemma uint64_contents_valid:
  "CBS_is_valid_asn1_integer (uint64_contents v) \<noteq> None \<and> tc_int (uint64_contents v) = uint v"
proof (cases "v = 0")
  case True
  then show ?thesis by (simp add: uint64_contents_def valid_integer_simps)
next
  case False
  let ?bs = "dropWhile (\<lambda>b. b = 0) (be_bytes 8 (unat v))"
  have be: "be_nat ?bs = unat v"
    using unat_u64_bound [of v] by (simp add: be_nat_dropWhile_0 be_nat_be_bytes)
  have ne: "?bs \<noteq> []" using be False by (metis be_nat_Nil unat_eq_zero)
  have "hd ?bs \<noteq> 0" using hd_dropWhile [OF ne] by simp
  from pad_positive_valid [OF ne this] be False show ?thesis
    by (simp add: uint64_contents_def)
qed

lemma length_uint64_contents: "length (uint64_contents v) \<le> 9"
  using length_dropWhile_le [of "\<lambda>b. b = 0" "be_bytes 8 (unat v)"]
  by (simp add: uint64_contents_def pad_positive_def)

section \<open>Negative INTEGER contents\<close>

lemma asn1_int64_bytes_eq:
  "start < length bs \<Longrightarrow> asn1_int64_bytes alloc d bs start s = add_each alloc d (rev (take (Suc start) bs)) s"
proof (induction start arbitrary: s)
  case 0
  then show ?case by (cases bs) (simp_all add: CBB_add_u8_eq)
next
  case (Suc i)
  then have "asn1_int64_bytes alloc d bs i = add_each alloc d (rev (take (Suc i) bs))"
    by (intro ext) simp
  moreover have "rev (take (Suc (Suc i)) bs) = bs ! Suc i # rev (take (Suc i) bs)"
    using Suc.prems by (simp add: take_Suc_conv_app_nth)
  ultimately show ?case by (simp add: CBB_add_u8_eq)
qed

lemma tc_int_drop_ff:
  assumes "128 \<le> unat b"
  shows "tc_int (0xff # b # r) = tc_int (b # r)"
proof -
  have s: "sint b = int (unat b) - 256" using assms by (simp add: sint_u8 unat_u8_uint)
  have ff: "sint (0xff :: u8) = -1" by (simp add: sint_u8)
  show ?thesis unfolding tc_int.simps s ff be_nat_Cons
    by (simp add: of_nat_add of_nat_mult algebra_simps del: of_nat_unat)
qed

lemma tc_int_cases:
  "tc_int (b # bs) = int (be_nat (b # bs)) - (if 128 \<le> unat b then 256 ^ Suc (length bs) else 0)"
proof (cases "128 \<le> unat b")
  case True
  then have s: "sint b = int (unat b) - 256" by (simp add: sint_u8 unat_u8_uint)
  show ?thesis unfolding tc_int.simps s be_nat_Cons using True
    by (simp add: of_nat_add of_nat_mult algebra_simps del: of_nat_unat)
qed (simp add: tc_int_nonneg del: tc_int.simps)

definition int64_neg_contents :: "u64 \<Rightarrow> bytes" where
  "int64_neg_contents v = (let bs = le_bytes 8 (unat v) in rev (take (Suc (int64_start bs 7)) bs))"

lemma int64_start_le: "int64_start bs n \<le> n"
  by (induction n) auto

lemma rev_take_Suc: "i < length bs \<Longrightarrow> rev (take (Suc i) bs) = bs ! i # rev (take i bs)"
  by (simp add: take_Suc_conv_app_nth)

lemma int64_start_tc:
  "n < length bs \<Longrightarrow> tc_int (rev (take (Suc (int64_start bs n)) bs)) = tc_int (rev (take (Suc n) bs))"
proof (induction n)
  case (Suc n)
  then show ?case
    using tc_int_drop_ff [of "bs ! n" "rev (take n bs)"]
    by (simp add: rev_take_Suc u8_and_80 not_less del: take_Suc tc_int.simps)
qed simp

lemma int64_start_valid:
  assumes "n < length bs" "tc_int (rev (take (Suc n) bs)) < 0"
  shows "CBS_is_valid_asn1_integer (rev (take (Suc (int64_start bs n)) bs)) \<noteq> None"
  using assms
proof (induction n)
  case 0
  then show ?case by (cases bs) (simp_all add: valid_integer_simps)
next
  case (Suc n)
  have e: "rev (take (Suc (Suc n)) bs) = bs ! Suc n # bs ! n # rev (take n bs)"
    using Suc.prems(1) by (simp add: rev_take_Suc)
  then have h: "128 \<le> unat (bs ! Suc n)" using Suc.prems(2) by (simp only: tc_int_neg)
  show ?case
  proof (cases "bs ! Suc n = 0xff \<and> bs ! n AND 0x80 \<noteq> 0")
    case True
    then have "tc_int (rev (take (Suc n) bs)) < 0"
      using Suc.prems e tc_int_drop_ff [of "bs ! n" "rev (take n bs)"]
      by (simp add: rev_take_Suc u8_and_80 not_less del: tc_int.simps)
    moreover have "int64_start bs (Suc n) = int64_start bs n" using True by simp
    ultimately show ?thesis using Suc.IH Suc.prems(1) by (simp only:) simp
  next
    case False
    have "bs ! Suc n = 0xff \<longleftrightarrow> unat (bs ! Suc n) = 255" by (simp add: word_unat_eq_iff)
    with False have "\<not> (unat (bs ! Suc n) = 0 \<and> unat (bs ! n) < 128 \<or>
        unat (bs ! Suc n) = 255 \<and> 128 \<le> unat (bs ! n))"
      using h by (simp add: u8_and_80 not_less)
    moreover have "int64_start bs (Suc n) = Suc n"
      by (simp only: int64_start.simps False if_False)
    ultimately show ?thesis unfolding e using e by (simp only: valid_integer_simps) simp
  qed
qed

lemma tc_int_u64: "tc_int (be_bytes 8 (unat v)) = sint v" for v :: u64
proof -
  obtain b bs where d: "be_bytes 8 (unat v) = b # bs" "length bs = 7"
    using length_be_bytes [of 8 "unat v"] by (cases "be_bytes 8 (unat v)") auto
  have be: "be_nat (b # bs) = unat v"
    using be_nat_be_bytes [of 8 "unat v"] unat_u64_bound [of v] d by simp
  have m: "(int (unat v) - (if 128 \<le> unat b then 256 ^ Suc 7 else 0)) mod 2 ^ LENGTH(64) = uint v"
    using unat_u64_bound [of v] minus_mod_self2 [of "int (unat v)" "2 ^ 64"] by (simp add: uint_nat del: of_nat_unat)
  have "word_of_int (tc_int (b # bs)) = (word_of_nat (unat v) :: u64)"
    using m unfolding tc_int_cases be d(2)
    by (simp only: word_uint_eq_iff uint_word_of_int word_of_nat_unat)
  then have v: "v = word_of_int (tc_int (b # bs))" by simp
  have "- (2 ^ 63) \<le> tc_int (b # bs)" "tc_int (b # bs) < 2 ^ 63"
    using tc_int_bounds [where b = b and bs = bs] d(2) by auto
  then have "sint (word_of_int (tc_int (b # bs)) :: u64) = tc_int (b # bs)"
    unfolding int_word_sint by simp
  with v d(1) show ?thesis by (simp del: tc_int.simps)
qed

lemma int64_neg_contents_valid:
  assumes "sint v < 0"
  shows "CBS_is_valid_asn1_integer (int64_neg_contents v) \<noteq> None \<and> tc_int (int64_neg_contents v) = sint v"
proof -
  have t: "rev (take (Suc 7) (le_bytes 8 (unat v))) = be_bytes 8 (unat v)" by (simp add: be_bytes_def)
  have "tc_int (rev (take (Suc 7) (le_bytes 8 (unat v)))) < 0"
    unfolding t tc_int_u64 by (rule assms)
  from int64_start_valid [OF _ this] int64_start_tc [of 7 "le_bytes 8 (unat v)"] show ?thesis
    unfolding t tc_int_u64 int64_neg_contents_def by (simp add: Let_def)
qed

lemma length_int64_neg_contents: "length (int64_neg_contents v) \<le> 8"
  by (simp add: int64_neg_contents_def Let_def)

definition int64_contents :: "u64 \<Rightarrow> bytes" where
  "int64_contents v = (if sint v < 0 then int64_neg_contents v else uint64_contents v)"

lemma int64_contents_valid:
  "CBS_is_valid_asn1_integer (int64_contents v) \<noteq> None \<and> tc_int (int64_contents v) = sint v"
proof (cases "sint v < 0")
  case True
  then show ?thesis using int64_neg_contents_valid by (simp add: int64_contents_def)
next
  case False
  then have "sint v = int (be_nat (be_bytes 8 (unat v)))"
    using tc_int_unsigned [of "be_bytes 8 (unat v)"] by (simp add: tc_int_u64)
  then have "uint v = sint v" using unat_u64_bound [of v] by (simp add: be_nat_be_bytes)
  then show ?thesis using uint64_contents_valid [of v] False by (simp add: int64_contents_def)
qed

lemma length_int64_contents: "length (int64_contents v) \<le> 9"
  using length_uint64_contents [of v] length_int64_neg_contents [of v] by (simp add: int64_contents_def)

lemma CBB_add_asn1_int64_eq:
  "CBB_add_asn1_int64 alloc d v s =
     asn1_write alloc d CBS_ASN1_INTEGER (map (\<lambda>b. [b]) (int64_contents v)) s"
proof (cases "sint v < 0")
  case True
  have "asn1_int64_bytes alloc (Suc d) (le_bytes 8 (unat v)) (int64_start (le_bytes 8 (unat v)) 7) =
      each (CBB_add_bytes alloc (Suc d)) (map (\<lambda>b. [b]) (int64_neg_contents v))"
    using int64_start_le [of "le_bytes 8 (unat v)" 7]
    by (intro ext) (simp add: asn1_int64_bytes_eq each_bytes_chunks int64_neg_contents_def Let_def)
  with True show ?thesis
    by (simp add: CBB_add_asn1_int64_def asn1_write_def int64_contents_def Let_def)
qed (simp add: CBB_add_asn1_int64_def CBB_add_asn1_uint64_eq int64_contents_def)

section \<open>Elements written by a fresh builder\<close>

lemma concat_singletons [simp]: "concat (map (\<lambda>b. [b]) bs) = bs"
  by (induction bs) auto

lemma CBB_init_at:
  assumes "CBB_init alloc n = Some s" "n < 2 ^ 64"
  shows "cbb_at [] s" "cbb_content 0 s = []" "(\<And>m. alloc m) \<Longrightarrow> cbb_room alloc 0 s"
  using assms
  by (auto simp: CBB_init_def cbb_init_def cbb_at_def cbb_content_def cbb_room_def growable_def buffer_inv_def
    split: if_splits)

lemma CBB_finish_Some:
  assumes "cbb_at [] s" "CBB_finish alloc 0 False s = (Some out, s')"
  shows "out = cbb_content 0 s"
  using assms CBB_flush_Some(3) [of "[]" s alloc]
  by (auto simp: CBB_finish_def split: try_op_splits if_splits)

lemma CBB_finish_room:
  assumes "cbb_at [] s" "cbb_room alloc 0 s"
  shows "\<exists>s'. CBB_finish alloc 0 False s = (Some (cbb_content 0 s), s')"
proof -
  obtain s' where s': "CBB_flush alloc 0 s = (Some (), s')"
    using CBB_flush_room [of "[]" s alloc] assms by auto
  then show ?thesis
    using CBB_flush_Some(3) [of "[]" s alloc "()" s'] assms(1) by (simp add: CBB_finish_def)
qed

lemma asn1_write_fresh:
  assumes "\<And>m. alloc m" "n < 2 ^ 64" "length (concat bss) \<le> 0xfffffffe"
  shows "\<exists>s s1 s2. CBB_init alloc n = Some s \<and> asn1_write alloc 0 tag bss s = (Some (), s1) \<and>
    CBB_finish alloc 0 False s1 = (Some (der_element tag (concat bss)), s2)"
proof -
  obtain s where s: "CBB_init alloc n = Some s"
    using assms(1) by (auto simp: CBB_init_def cbb_init_def)
  note I = CBB_init_at [OF s assms(2)]
  have dl: "length (der_element tag (concat bss)) < 2 ^ 64"
    using length_der_len_small [OF assms(3)] length_der_tag [of tag] assms(3) by (simp add: der_element_def)
  obtain s1 where s1: "asn1_write alloc 0 tag bss s = (Some (), s1)" "cbb_room alloc 0 s1"
    using asn1_write_room [of "[]" s alloc bss tag] I assms(1,3) dl by auto
  have small: "length bs < 2 ^ 64" if "bs \<in> set bss" for bs
  proof -
    have "length bs \<le> sum_list (map length bss)"
      using that by (intro member_le_sum_list) auto
    then show ?thesis using assms(3) by (simp add: length_concat)
  qed
  have "cbb_at [] s1" "cbb_content 0 s1 = der_element tag (concat bss)"
    using asn1_write_Some [of "[]" s bss alloc tag "()" s1] small s1(1) I by auto
  with CBB_finish_room [of s1 alloc] s s1 show ?thesis by auto
qed

section \<open>Round trips\<close>

text \<open>C4: every \<open>uint64_t\<close> that \<open>CBB_add_asn1_uint64\<close> writes into a fresh builder is read back by
  \<open>CBS_get_asn1_uint64\<close>, which leaves exactly what follows.\<close>

theorem asn1_uint64_roundtrip:
  assumes "\<forall>m. alloc m" "n < 2 ^ 64"
  shows "\<exists>s s1 s2 out. CBB_init alloc n = Some s \<and> CBB_add_asn1_uint64 alloc 0 v s = (Some (), s1) \<and>
    CBB_finish alloc 0 False s1 = (Some out, s2) \<and> CBS_get_asn1_uint64 (out @ r) = (Some v, r)"
proof -
  have "length (concat (map (\<lambda>b. [b]) (uint64_contents v))) \<le> 0xfffffffe"
    using length_uint64_contents [of v] by simp
  moreover have "CBS_get_asn1_uint64 (der_element CBS_ASN1_INTEGER (uint64_contents v) @ r) = (Some v, r)"
    using uint64_contents_valid [of v] length_uint64_contents [of v]
    by (subst CBS_get_asn1_uint64_iff) (auto intro!: exI [of _ "uint64_contents v"])
  ultimately show ?thesis
    using asn1_write_fresh [of alloc n "map (\<lambda>b. [b]) (uint64_contents v)" CBS_ASN1_INTEGER] assms
    by (auto simp: CBB_add_asn1_uint64_eq)
qed

theorem asn1_uint64_roundtrip_witness:
  "\<exists>s s1 s2 out. CBB_init (\<lambda>_. True) 2 = Some s \<and> CBB_add_asn1_uint64 (\<lambda>_. True) 0 300 s = (Some (), s1) \<and>
    CBB_finish (\<lambda>_. True) 0 False s1 = (Some out, s2) \<and> CBS_get_asn1_uint64 (out @ [7]) = (Some 300, [7])"
  using asn1_uint64_roundtrip [of "\<lambda>_. True" 2 300 "[7]"] by simp

text \<open>C5: every \<open>int64_t\<close> that \<open>CBB_add_asn1_int64\<close> writes into a fresh builder, negative ones included, is
  read back by \<open>CBS_get_asn1_int64\<close>.\<close>

theorem asn1_int64_roundtrip:
  assumes "\<forall>m. alloc m" "n < 2 ^ 64"
  shows "\<exists>s s1 s2 out. CBB_init alloc n = Some s \<and> CBB_add_asn1_int64 alloc 0 v s = (Some (), s1) \<and>
    CBB_finish alloc 0 False s1 = (Some out, s2) \<and> CBS_get_asn1_int64 (out @ r) = (Some v, r)"
proof -
  have "length (concat (map (\<lambda>b. [b]) (int64_contents v))) \<le> 0xfffffffe"
    using length_int64_contents [of v] by simp
  moreover have "CBS_get_asn1_int64 (der_element CBS_ASN1_INTEGER (int64_contents v) @ r) = (Some v, r)"
    using int64_contents_valid [of v] length_int64_contents [of v]
    by (subst CBS_get_asn1_int64_iff) (auto intro!: exI [of _ "int64_contents v"])
  ultimately show ?thesis
    using asn1_write_fresh [of alloc n "map (\<lambda>b. [b]) (int64_contents v)" CBS_ASN1_INTEGER] assms
    by (auto simp: CBB_add_asn1_int64_eq)
qed

theorem asn1_int64_roundtrip_witness:
  "\<exists>s s1 s2 out. CBB_init (\<lambda>_. True) 2 = Some s \<and> CBB_add_asn1_int64 (\<lambda>_. True) 0 (-129) s = (Some (), s1) \<and>
    CBB_finish (\<lambda>_. True) 0 False s1 = (Some out, s2) \<and> CBS_get_asn1_int64 (out @ [7]) = (Some (-129), [7])"
  using asn1_int64_roundtrip [of "\<lambda>_. True" 2 "-129" "[7]"] by simp

text \<open>An octet string of at most \<open>0xfffffffe\<close> bytes written by \<open>CBB_add_asn1_octet_string\<close> is read back
  unchanged by \<open>CBS_get_asn1\<close>, whatever length form it needs.\<close>

theorem asn1_octet_string_roundtrip:
  assumes "\<forall>m. alloc m" "n < 2 ^ 64" "length data \<le> 0xfffffffe"
  shows "\<exists>s s1 s2 out. CBB_init alloc n = Some s \<and> CBB_add_asn1_octet_string alloc 0 data s = (Some (), s1) \<and>
    CBB_finish alloc 0 False s1 = (Some out, s2) \<and> CBS_get_asn1 (out @ r) CBS_ASN1_OCTETSTRING = (Some data, r)"
proof -
  have "CBS_get_asn1 (der_element CBS_ASN1_OCTETSTRING data @ r) CBS_ASN1_OCTETSTRING = (Some data, r)"
    using assms(3) by (intro CBS_get_asn1_der) simp
  with asn1_write_fresh [of alloc n "[data]" CBS_ASN1_OCTETSTRING] assms show ?thesis
    by (auto simp: CBB_add_asn1_octet_string_eq)
qed

theorem asn1_octet_string_roundtrip_witness:
  "\<exists>s s1 s2 out. CBB_init (\<lambda>_. True) 0 = Some s \<and>
    CBB_add_asn1_octet_string (\<lambda>_. True) 0 (replicate 200 5) s = (Some (), s1) \<and>
    CBB_finish (\<lambda>_. True) 0 False s1 = (Some out, s2) \<and>
    CBS_get_asn1 (out @ [7]) CBS_ASN1_OCTETSTRING = (Some (replicate 200 5), [7])"
  using asn1_octet_string_roundtrip [of "\<lambda>_. True" 0 "replicate 200 5" "[7]"] by simp

end
