(* ===== verification/OID_Text.thy ===== *)
theory OID_Text
  imports CBB_ASN1
begin

text \<open>
  Object identifiers as text: \<open>CBS_asn1_oid_to_text\<close> of \<^verbatim>\<open>cbs.c\<close> prints the contents of an
  OBJECT IDENTIFIER as dotted decimals, \<open>CBB_add_asn1_oid_from_text\<close> of \<^verbatim>\<open>cbb.c\<close> writes
  the contents from such a text. The text that is accepted is exactly the one that is printed.
\<close>

section \<open>Printing\<close>

text \<open>What \<open>BIO_snprintf\<close> writes for the format of a \<open>uint64_t\<close>.\<close>

fun decimal :: "nat \<Rightarrow> bytes" where
  "decimal n = (if n < 10 then [word_of_nat (48 + n)] else decimal (n div 10) @ [word_of_nat (48 + n mod 10)])"

declare decimal.simps [simp del]

definition add_decimal :: "allocator \<Rightarrow> nat \<Rightarrow> u64 \<Rightarrow> cbb \<Rightarrow> (cbb, unit) cres" where
  "add_decimal alloc d v s = CBB_add_bytes alloc d (decimal (unat v)) s"

lemma parse_base128_length: "parse_base128_integer c = (Some v, r) \<Longrightarrow> length r < length c"
  by (drule parse_base128_inv) (simp add: b128_def)

function oid_to_text_rest :: "allocator \<Rightarrow> cbs \<Rightarrow> cbb \<Rightarrow> (cbb, unit) cres" where
  "oid_to_text_rest alloc c s =
     (if CBS_len c \<noteq> 0 then
        (case parse_base128_integer c of
           (None, _) \<Rightarrow> fails s
         | (Some v, c) \<Rightarrow>
             try_op (CBB_add_u8 alloc 0 0x2e s) (\<lambda>_ s.
             try_op (add_decimal alloc 0 v s) (\<lambda>_ s. oid_to_text_rest alloc c s)))
      else returns () s)"
  by pat_completeness auto
termination
  by (relation "measure (\<lambda>(alloc, c, s). length c)") (auto dest: parse_base128_length [OF sym])

declare oid_to_text_rest.simps [simp del]

text \<open>The result is the returned string with its terminating zero.\<close>

definition CBS_asn1_oid_to_text :: "allocator \<Rightarrow> cbs \<Rightarrow> bytes option" where
  "CBS_asn1_oid_to_text alloc c =
     (case CBB_init alloc 32 of None \<Rightarrow> None | Some s \<Rightarrow>
     (case parse_base128_integer c of (None, _) \<Rightarrow> None | (Some v, copy) \<Rightarrow>
      fst (try_op
        (if v \<ge> 80 then
           try_op (CBB_add_bytes alloc 0 [0x32, 0x2e] s) (\<lambda>_ s. add_decimal alloc 0 (v - 80) s)
         else
           try_op (add_decimal alloc 0 (v div 40) s) (\<lambda>_ s.
           try_op (CBB_add_u8 alloc 0 0x2e s) (\<lambda>_ s. add_decimal alloc 0 (v mod 40) s)))
        (\<lambda>_ s. try_op (oid_to_text_rest alloc copy s) (\<lambda>_ s.
               try_op (CBB_add_u8 alloc 0 0 s) (\<lambda>_ s. CBB_finish alloc 0 False s))))))"

section \<open>Dotted decimals\<close>

lemma decimal_snoc: "n \<noteq> 0 \<Longrightarrow> m < 10 \<Longrightarrow> decimal (n * 10 + m) = decimal n @ [word_of_nat (48 + m)]"
  by (subst decimal.simps) simp

lemma digit_eq:
  fixes u :: u8
  assumes "\<not> (u < 0x30 \<or> u > 0x39)"
  shows "unat (u - 0x30) < 10" "word_of_nat (48 + unat (u - 0x30)) = u"
proof -
  have "48 \<le> unat u" "unat u \<le> 57" using assms by (simp_all add: word_less_nat_alt not_less word_le_nat_alt)
  then have "unat (u - 0x30) = unat u - 48" by (subst unat_sub) (simp_all add: word_le_nat_alt)
  then show "unat (u - 0x30) < 10" "word_of_nat (48 + unat (u - 0x30)) = u"
    using \<open>48 \<le> unat u\<close> \<open>unat u \<le> 57\<close> by simp_all
qed

lemma decimal_step:
  fixes out :: u64 and u :: u8
  assumes "\<not> out > 0xffffffffffffffff div 10" "\<not> out * 10 > 0xffffffffffffffff - ucast (u - 0x30)" "unat (u - 0x30) < 10"
  shows "unat (out * 10 + ucast (u - 0x30)) = unat out * 10 + unat (u - 0x30)"
proof -
  have uu: "unat (ucast (u - 0x30) :: u64) = unat (u - 0x30)" by (rule unat_ucast_up) simp
  have "unat (0xffffffffffffffff div 10 :: u64) = 0xffffffffffffffff div 10"
    by (simp add: unat_div)
  then have o: "unat out \<le> 1844674407370955161" using assms(1) by (simp add: not_less word_le_nat_alt)
  then have m: "unat (out * 10) = unat out * 10" by (simp add: unat_word_ariths)
  have d: "unat (0xffffffffffffffff - ucast (u - 0x30) :: u64) = 0xffffffffffffffff - unat (u - 0x30)"
    using assms(3) uu by (subst unat_sub) (simp_all add: word_le_nat_alt)
  have "unat out * 10 \<le> 0xffffffffffffffff - unat (u - 0x30)"
    using assms(2) m d by (simp only: not_less word_le_nat_alt)
  then have "unat out * 10 + unat (u - 0x30) < 2 ^ 64" using assms(3) by simp
  then show ?thesis using m uu by (simp add: unat_word_ariths)
qed

text \<open>What a parse that has seen the digits of \<open>out\<close> leaves: no digit seen means an empty prefix.\<close>

lemma parse_dotted_loop_inv:
  assumes "parse_dotted_decimal_loop out seen c = (Some v, r)"
  shows "(if seen then decimal (unat out) else []) @ c = decimal (unat v) @ (if r = [] then [] else 0x2e # r)
    \<or> (\<not> seen \<and> out \<noteq> 0)"
  using assms
proof (induction out seen c rule: parse_dotted_decimal_loop.induct)
  case (2 out seen u c)
  show ?case
  proof (cases "u = 0x2e \<and> CBS_len c > 0")
    case True
    with "2.prems" show ?thesis by (auto simp: CBS_len_def split: if_splits)
  next
    case False
    then have ok: "\<not> (u < 0x30 \<or> u > 0x39)" "\<not> (seen \<and> out = 0)"
        "\<not> out > 0xffffffffffffffff div 10" "\<not> out * 10 > 0xffffffffffffffff - ucast (u - 0x30)"
      and rec: "parse_dotted_decimal_loop (out * 10 + ucast (u - 0x30)) True c = (Some v, r)"
      using "2.prems" by (auto split: if_splits)
    note dg = digit_eq [OF ok(1)] and st = decimal_step [OF ok(3,4) digit_eq(1) [OF ok(1)]]
    have IH: "decimal (unat out * 10 + unat (u - 0x30)) @ c = decimal (unat v) @ (if r = [] then [] else 0x2e # r)"
      using "2.IH" [OF False] ok rec st by auto
    have "decimal (unat out * 10 + unat (u - 0x30)) = (if seen then decimal (unat out) else []) @ [u]" if "seen \<or> out = 0"
    proof (cases "out = 0")
      case True
      then show ?thesis using that ok(2) dg by (subst decimal.simps) simp
    next
      case False
      then show ?thesis using that dg decimal_snoc [of "unat out" "unat (u - 0x30)"] by (simp add: unat_0_iff)
    qed
    with IH show ?thesis by auto
  qed
qed (auto split: if_splits)

lemma parse_dotted_decimal_inv:
  "parse_dotted_decimal c = (Some v, r) \<Longrightarrow> c = decimal (unat v) @ (if r = [] then [] else 0x2e # r)"
  using parse_dotted_loop_inv [of 0 False c v r] by (simp add: parse_dotted_decimal_def)

section \<open>From text to contents\<close>

definition dots :: "u64 list \<Rightarrow> bytes" where
  "dots vs = concat (map (\<lambda>v. 0x2e # decimal (unat v)) vs)"

definition arcs :: "u64 list \<Rightarrow> bytes" where
  "arcs vs = concat (map (\<lambda>v. b128 (unat v)) vs)"

lemma add_base128_content:
  assumes "cbb_at cs s" "add_base128_integer alloc (length cs) v s = (Some u, s')"
  shows "cbb_content (length cs) s' = cbb_content (length cs) s @ b128 (unat v) \<and> cbb_at cs s'"
  using cbb_sink.each_byte_content [OF assms(1)] assms(2) by (simp add: add_base128_integer_eq)

lemma oid_text_rest_Some:
  assumes "cbb_at cs s" "oid_text_rest alloc (length cs) c s = (Some u, s')"
  shows "\<exists>vs. (if c = [] then [] else 0x2e # c) = dots vs \<and>
    cbb_content (length cs) s' = cbb_content (length cs) s @ arcs vs \<and> cbb_at cs s'"
  using assms
proof (induction c arbitrary: s rule: length_induct)
  case (1 c)
  show ?case
  proof (cases "c = []")
    case True
    with 1 show ?thesis by (auto simp: oid_text_rest.simps [of _ _ "[]"] CBS_len_def dots_def arcs_def intro: exI [of _ "[]"])
  next
    case False
    then obtain a r s1 u1 where a: "parse_dotted_decimal c = (Some a, r)"
        and s1: "add_base128_integer alloc (length cs) a s = (Some u1, s1)"
        and s': "oid_text_rest alloc (length cs) r s1 = (Some u, s')"
      using "1.prems"(2) by (subst (asm) oid_text_rest.simps)
        (auto simp: CBS_len_def split: prod.splits option.splits try_op_splits)
    note A = add_base128_content [OF "1.prems"(1) s1]
    obtain vs where vs: "(if r = [] then [] else 0x2e # r) = dots vs"
        "cbb_content (length cs) s' = cbb_content (length cs) s1 @ arcs vs" "cbb_at cs s'"
      using "1.IH" A s' parse_dotted_decimal_length [OF a False] by blast
    have "0x2e # c = dots (a # vs)"
      using parse_dotted_decimal_inv [OF a] vs(1) by (simp add: dots_def)
    moreover have "cbb_content (length cs) s' = cbb_content (length cs) s @ arcs (a # vs)"
      using A vs by (simp add: arcs_def)
    ultimately show ?thesis using False vs(3) by (intro exI [of _ "a # vs"]) simp
  qed
qed

lemma oid_from_text_Some:
  assumes "cbb_at cs s" "CBB_add_asn1_oid_from_text alloc (length cs) t s = (Some u, s')"
  shows "\<exists>(a :: u64) b vs. t = decimal (unat a) @ dots (b # vs) \<and> unat a \<le> 2 \<and> (unat a < 2 \<longrightarrow> unat b \<le> 39) \<and>
    unat b \<le> 2 ^ 64 - 81 \<and> cbb_at cs s' \<and>
    cbb_content (length cs) s' = cbb_content (length cs) s @ b128 (40 * unat a + unat b) @ arcs vs"
proof -
  obtain s1 u1 a c b r s2 u2 where s1: "CBB_flush alloc (length cs) s = (Some u1, s1)"
      and a: "parse_dotted_decimal t = (Some a, c)" and b: "parse_dotted_decimal c = (Some b, r)"
      and ok: "\<not> (a > 2 \<or> (a < 2 \<and> b > 39) \<or> b > 0xffffffffffffffff - 80)"
      and s2: "add_base128_integer alloc (length cs) (40 * a + b) s1 = (Some u2, s2)"
      and s': "oid_text_rest alloc (length cs) r s2 = (Some u, s')"
    using assms(2) by (auto simp: CBB_add_asn1_oid_from_text_def try_op_eq_Some case_res_eq_Some split: if_splits)
  note F = CBB_flush_Some(1) [OF assms(1) s1] CBB_flush_content [OF assms(1) s1]
  note A = add_base128_content [OF F(1) s2]
  obtain vs where vs: "(if r = [] then [] else 0x2e # r) = dots vs"
      "cbb_content (length cs) s' = cbb_content (length cs) s2 @ arcs vs" "cbb_at cs s'"
    using oid_text_rest_Some [OF _ s'] A by blast
  have u: "unat a \<le> 2" "unat a < 2 \<longrightarrow> unat b \<le> 39" "unat b \<le> 2 ^ 64 - 81"
    using ok by (auto simp: word_less_nat_alt word_le_nat_alt not_less)
  have ab: "unat (40 * a + b) = 40 * unat a + unat b"
  proof -
    have "40 * unat a + unat b < 2 ^ 64" using u by simp
    then show ?thesis using u(1) by (simp add: unat_word_ariths)
  qed
  have "c \<noteq> []" using b by (auto simp: parse_dotted_decimal_def)
  then have "t = decimal (unat a) @ dots (b # vs)"
    using parse_dotted_decimal_inv [OF a] parse_dotted_decimal_inv [OF b] vs(1) by (simp add: dots_def)
  moreover have "cbb_content (length cs) s' = cbb_content (length cs) s @ b128 (40 * unat a + unat b) @ arcs vs"
    using ab A F vs by simp
  ultimately show ?thesis using u vs(3) by blast
qed


section \<open>From contents to text\<close>

lemma oid_to_text_rest_room:
  assumes "cbb_at [] s" "cbb_room alloc 0 s" "length (cbb_content 0 s @ dots vs) < 2 ^ 64"
  shows "\<exists>s'. oid_to_text_rest alloc (arcs vs) s = (Some (), s') \<and> cbb_room alloc 0 s' \<and> cbb_at [] s' \<and>
    cbb_content 0 s' = cbb_content 0 s @ dots vs"
  using assms
proof (induction vs arbitrary: s)
  case Nil
  then show ?case by (simp add: arcs_def dots_def oid_to_text_rest.simps [of _ "[]"] CBS_len_def)
next
  case (Cons v vs)
  let ?bss = "[[0x2e], decimal (unat v)]"
  have l: "length (cbb_content 0 s @ concat ?bss) < 2 ^ 64" using Cons.prems(3) by (simp add: dots_def)
  obtain s1 where s1: "each (CBB_add_bytes alloc 0) ?bss s = (Some (), s1)" "cbb_room alloc 0 s1"
    using cbb_sink.each_room [of "[]" s alloc ?bss] Cons.prems(1,2) l by auto
  have small: "\<And>bs. bs \<in> set ?bss \<Longrightarrow> length bs < 2 ^ 64" using l by auto
  have s1': "cbb_at [] s1" "cbb_content 0 s1 = cbb_content 0 s @ 0x2e # decimal (unat v)"
    using cbb_sink.each_content [of "[]" s ?bss alloc "()" s1] small s1(1) Cons.prems(1) by auto
  have p: "parse_base128_integer (arcs (v # vs)) = (Some v, arcs vs)"
    using parse_base128_b128 [of "unat v" "arcs vs"] unat_u64_bound [of v] by (simp add: arcs_def)
  have ne: "CBS_len (arcs (v # vs)) \<noteq> 0" by (simp add: CBS_len_def arcs_def b128_def)
  have "oid_to_text_rest alloc (arcs (v # vs)) s = oid_to_text_rest alloc (arcs vs) s1"
    using s1(1) ne by (subst oid_to_text_rest.simps)
      (auto simp: p CBB_add_u8_eq add_decimal_def split: try_op_splits)
  moreover have "length (cbb_content 0 s1 @ dots vs) < 2 ^ 64"
    using Cons.prems(3) s1'(2) by (simp add: dots_def)
  ultimately show ?case
    using Cons.IH [OF s1'(1) s1(2)] s1'(2) by (simp add: dots_def)
qed

lemma oid_head_text:
  assumes a: "unat a \<le> 2" "unat a < 2 \<longrightarrow> unat b \<le> 39" "unat b \<le> 2 ^ 64 - 81"
  defines "v \<equiv> word_of_nat (40 * unat a + unat b) :: u64"
  shows "(if v \<ge> 80 then
           try_op (CBB_add_bytes alloc 0 [0x32, 0x2e] s) (\<lambda>_ s. add_decimal alloc 0 (v - 80) s)
         else
           try_op (add_decimal alloc 0 (v div 40) s) (\<lambda>_ s.
           try_op (CBB_add_u8 alloc 0 0x2e s) (\<lambda>_ s. add_decimal alloc 0 (v mod 40) s))) =
    each (CBB_add_bytes alloc 0) (if v \<ge> 80 then [decimal (unat a) @ [0x2e], decimal (unat b)]
      else [decimal (unat a), [0x2e], decimal (unat b)]) s"
proof -
  have v: "unat v = 40 * unat a + unat b" using a by (simp add: v_def unat_of_nat)
  have ge: "v \<ge> 80 \<longleftrightarrow> unat a = 2" using a v by (auto simp: word_le_nat_alt)
  show ?thesis
  proof (cases "unat a = 2")
    case True
    then have "unat (v - 80) = unat b" using v by (subst unat_sub) (simp_all add: word_le_nat_alt)
    moreover have "decimal (unat a) = [0x32]" using True by (simp add: decimal.simps)
    ultimately show ?thesis using True ge by (auto simp: add_decimal_def split: try_op_splits)
  next
    case False
    then have "unat (v div 40) = unat a" "unat (v mod 40) = unat b" using v a by (simp_all add: unat_div unat_mod)
    then show ?thesis using False ge by (auto simp: add_decimal_def CBB_add_u8_eq split: try_op_splits)
  qed
qed

lemma oid_to_text_arcs:
  assumes alloc: "\<And>m. alloc m"
    and a: "unat a \<le> 2" "unat a < 2 \<longrightarrow> unat b \<le> 39" "unat b \<le> 2 ^ 64 - 81"
    and l: "length (decimal (unat a) @ dots (b # vs)) + 1 < 2 ^ 64"
  shows "CBS_asn1_oid_to_text alloc (b128 (40 * unat a + unat b) @ arcs vs) =
    Some (decimal (unat a) @ dots (b # vs) @ [0])"
proof -
  define v :: u64 where "v = word_of_nat (40 * unat a + unat b)"
  obtain s where s: "CBB_init alloc 32 = Some s" using alloc by (simp add: CBB_init_def cbb_init_def)
  have I: "cbb_at [] s" "cbb_content 0 s = []" "cbb_room alloc 0 s"
    using CBB_init_at [OF s] alloc by simp_all
  have p: "parse_base128_integer (b128 (40 * unat a + unat b) @ arcs vs) = (Some v, arcs vs)"
    unfolding v_def using a by (intro parse_base128_b128) simp
  define bss where "bss = (if v \<ge> 80 then [decimal (unat a) @ [0x2e], decimal (unat b)]
      else [decimal (unat a), [0x2e], decimal (unat b)])"
  have c: "concat bss = decimal (unat a) @ dots [b]" by (simp add: bss_def dots_def)
  have l': "length (concat bss) < 2 ^ 64" using l by (simp add: c dots_def)
  have small: "\<And>bs. bs \<in> set bss \<Longrightarrow> length bs < 2 ^ 64"
    using l by (auto simp: bss_def dots_def split: if_splits)
  obtain s1 where s1: "each (CBB_add_bytes alloc 0) bss s = (Some (), s1)" "cbb_room alloc 0 s1"
    using cbb_sink.each_room [of "[]" s alloc bss] I l' by auto
  have s1': "cbb_at [] s1" "cbb_content 0 s1 = decimal (unat a) @ dots [b]"
    using cbb_sink.each_content [of "[]" s bss alloc "()" s1] small s1(1) I c by auto
  have "length (cbb_content 0 s1 @ dots vs) < 2 ^ 64" using l s1'(2) by (simp add: dots_def)
  then obtain s2 where s2: "oid_to_text_rest alloc (arcs vs) s1 = (Some (), s2)" "cbb_room alloc 0 s2" "cbb_at [] s2"
      "cbb_content 0 s2 = decimal (unat a) @ dots (b # vs)"
    using oid_to_text_rest_room [OF s1'(1) s1(2)] s1'(2) by (auto simp: dots_def)
  have l2: "length (cbb_content 0 s2 @ [0 :: u8]) < 2 ^ 64" unfolding s2(4) using l by simp
  obtain s3 where s3: "CBB_add_bytes alloc 0 [0] s2 = (Some (), s3)" "cbb_room alloc 0 s3"
    using cbb_sink.add_room [of "[]" s2 alloc "[0]"] s2 l2 by auto
  have s3': "cbb_at [] s3" "cbb_content 0 s3 = decimal (unat a) @ dots (b # vs) @ [0]"
    using cbb_sink.add_content [of "[]" s2 "[0]" alloc "()" s3]
      cbb_sink.add_inv [of "[]" s2 "[0]" alloc "()" s3] s3(1) s2(3,4) by simp_all
  obtain s4 where "CBB_finish alloc 0 False s3 = (Some (cbb_content 0 s3), s4)"
    using CBB_finish_room [OF s3'(1) s3(2)] by blast
  moreover note h = trans [OF oid_head_text [OF a, of alloc s, folded v_def] s1(1) [unfolded bss_def]]
  ultimately show ?thesis
    unfolding CBS_asn1_oid_to_text_def
    by (simp only: s p option.case prod.case h try_op_Some s2(1) CBB_add_u8_eq s3(1) s3'(2) fst_conv)
qed


section \<open>Round trip\<close>

text \<open>C6: an object identifier text that \<open>CBB_add_asn1_oid_from_text\<close> accepts is
  printed back, with its terminating zero, by \<open>CBS_asn1_oid_to_text\<close> from the bytes written.\<close>

theorem oid_text_roundtrip:
  assumes "\<forall>m. alloc m" "n < 2 ^ 64" "CBB_init alloc n = Some s"
    and "CBB_add_asn1_oid_from_text alloc 0 t s = (Some u, s1)"
    and "CBB_finish alloc 0 False s1 = (Some out, s2)" "length t + 1 < 2 ^ 64"
  shows "CBS_asn1_oid_to_text alloc out = Some (t @ [0])"
proof -
  note I = CBB_init_at [OF assms(3,2)]
  obtain a :: u64 and b vs where t: "t = decimal (unat a) @ dots (b # vs)"
      and ab: "unat a \<le> 2" "unat a < 2 \<longrightarrow> unat b \<le> 39" "unat b \<le> 2 ^ 64 - 81"
      and s1: "cbb_at [] s1" "cbb_content 0 s1 = b128 (40 * unat a + unat b) @ arcs vs"
    using oid_from_text_Some [of "[]" s alloc t u s1] I assms(4) by auto
  have "out = b128 (40 * unat a + unat b) @ arcs vs"
    using CBB_finish_Some [OF s1(1) assms(5)] s1(2) by simp
  with oid_to_text_arcs [of alloc, OF _ ab] assms(1,6) t show ?thesis by simp
qed

theorem oid_text_roundtrip_witness:
  "CBS_asn1_oid_to_text (\<lambda>_. True) [0x2a, 0x86, 0x48] = Some [0x31, 0x2e, 0x32, 0x2e, 0x38, 0x34, 0x30, 0]"
proof -
  let ?a = "\<lambda>_ :: nat. True" and ?t = "[0x31, 0x2e, 0x32, 0x2e, 0x38, 0x34, 0x30] :: bytes"
  let ?s = "\<lparr>base = \<lparr>buf = [], cap = 0, can_resize = True, error = False\<rparr>, children = []\<rparr>"
  let ?s1 = "\<lparr>base = \<lparr>buf = [0x2a, 0x86, 0x48], cap = 4, can_resize = True, error = False\<rparr>, children = []\<rparr>"
  have "CBB_init ?a 0 = Some ?s" by code_simp
  moreover have "CBB_add_asn1_oid_from_text ?a 0 ?t ?s = (Some (), ?s1)" by code_simp
  moreover have "CBB_finish ?a 0 False ?s1 = (Some [0x2a, 0x86, 0x48], ?s1)" by code_simp
  ultimately show ?thesis using oid_text_roundtrip [of ?a 0 ?s ?t "()" ?s1] by simp
qed

end
