(* ===== verification/Set_Of.thy ===== *)
theory Set_Of
  imports CBB_ASN1 "HOL-Library.List_Lexorder" "HOL-Library.Multiset"
begin

text \<open>
  \<open>CBB_flush_asn1_set_of\<close> of \<^verbatim>\<open>cbb.c\<close>, which puts the elements of a SET OF into the order
  DER asks for. The comparison is shown to be the lexicographic order of byte strings, so that
  \<open>qsort\<close> is the library's \<open>sort\<close> and the result does not depend on the order of writing.
\<close>

section \<open>Model\<close>

text \<open>\<open>memcmp\<close> of the first \<open>n\<close> bytes; only the sign of its result is specified.\<close>

fun OPENSSL_memcmp :: "bytes \<Rightarrow> bytes \<Rightarrow> nat \<Rightarrow> int" where
  "OPENSSL_memcmp (a # as) (b # bs) (Suc n) =
     (if a < b then -1 else if b < a then 1 else OPENSSL_memcmp as bs n)"
| "OPENSSL_memcmp _ _ _ = 0"

definition compare_set_of_element :: "cbs \<Rightarrow> cbs \<Rightarrow> int" where
  "compare_set_of_element a b =
     (let a_len = CBS_len a; b_len = CBS_len b;
          min_len = (if a_len < b_len then a_len else b_len);
          ret = OPENSSL_memcmp a b min_len in
      if ret \<noteq> 0 then ret
      else if a_len = b_len then 0
      else if a_len < b_len then -1 else 1)"

text \<open>The C library's \<open>qsort\<close>: here as an insertion sort with the comparison it is given.\<close>

fun qsort_insert :: "('a \<Rightarrow> 'a \<Rightarrow> int) \<Rightarrow> 'a \<Rightarrow> 'a list \<Rightarrow> 'a list" where
  "qsort_insert cmp x [] = [x]"
| "qsort_insert cmp x (y # ys) = (if cmp x y \<le> 0 then x # y # ys else y # qsort_insert cmp x ys)"

definition qsort :: "('a \<Rightarrow> 'a \<Rightarrow> int) \<Rightarrow> 'a list \<Rightarrow> 'a list" where
  "qsort cmp xs = foldr (qsort_insert cmp) xs []"

lemma get_element_length:
  "CBS_get_any_asn1_element c = (Some (e, t, hl), r) \<Longrightarrow> length r < length c"
  using CBS_get_any_asn1_element_inv [of c e t hl r] length_der_tag(1) [of t] by (auto simp: der_element_def)

function count_elements :: "cbs \<Rightarrow> nat option" where
  "count_elements c =
     (if CBS_len c \<noteq> 0 then
        (case CBS_get_any_asn1_element c of
           (None, _) \<Rightarrow> None
         | (Some (e, tag, header_len), c) \<Rightarrow> map_option Suc (count_elements c))
      else Some 0)"
  by pat_completeness auto
termination
  by (relation "measure length") (auto dest: get_element_length [OF sym])

declare count_elements.simps [simp del]

fun split_elements :: "nat \<Rightarrow> cbs \<Rightarrow> cbs list option" where
  "split_elements 0 c = Some []"
| "split_elements (Suc n) c =
     (case CBS_get_any_asn1_element c of
        (None, _) \<Rightarrow> None
      | (Some (e, tag, header_len), c) \<Rightarrow> map_option (\<lambda>es. e # es) (split_elements n c))"

definition sizeof_CBS :: nat where "sizeof_CBS = 16"

definition CBB_flush_asn1_set_of :: "allocator \<Rightarrow> nat \<Rightarrow> cbb \<Rightarrow> (cbb, unit) cres" where
  "CBB_flush_asn1_set_of alloc d s =
     try_op (CBB_flush alloc d s) (\<lambda>_ s.
       case count_elements (CBS_init (CBB_data d s) (CBB_len d s)) of None \<Rightarrow> fails s | Some num_children \<Rightarrow>
       if num_children < 2 then returns () s
       else if (word_of_nat num_children :: u64) > 0xffffffffffffffff div word_of_nat sizeof_CBS then fails s
       else
         (case OPENSSL_memdup alloc (CBB_data d s) of None \<Rightarrow> fails s | Some buffer \<Rightarrow>
          if \<not> alloc (num_children * sizeof_CBS) then fails s
          else
            (case split_elements num_children buffer of None \<Rightarrow> fails s | Some elements \<Rightarrow>
             each (CBB_add_bytes alloc d) (qsort compare_set_of_element elements)
               (s\<lparr>base := (base s)\<lparr>buf := take (CBB_start d s) (buf (base s))\<rparr>\<rparr>))))"

section \<open>The order\<close>

lemma compare_Cons:
  "compare_set_of_element (a # as) (b # bs) =
     (if a < b then -1 else if b < a then 1 else compare_set_of_element as bs)"
  by (simp add: compare_set_of_element_def CBS_len_def Let_def)

lemma compare_le_iff: "compare_set_of_element a b \<le> 0 \<longleftrightarrow> a \<le> b"
proof (induction a arbitrary: b)
  case Nil
  show ?case by (cases b) (simp_all add: compare_set_of_element_def CBS_len_def)
next
  case (Cons x xs)
  show ?case
  proof (cases b)
    case Nil
    then show ?thesis by (simp add: compare_set_of_element_def CBS_len_def)
  next
    case b: (Cons y ys)
    then show ?thesis using Cons by (auto simp: compare_Cons)
  qed
qed

lemma qsort_insert_insort: "qsort_insert compare_set_of_element x xs = insort x xs"
  by (induction xs) (simp_all add: compare_le_iff)

lemma qsort_sort: "qsort compare_set_of_element xs = sort xs"
  by (induction xs) (simp_all add: qsort_def qsort_insert_insort)

section \<open>The elements\<close>

lemma split_elements_Some:
  "split_elements n c = Some es \<Longrightarrow>
     \<exists>r. c = concat es @ r \<and> length es = n \<and> (\<forall>e \<in> set es. \<exists>t contents. e = der_element t contents)"
proof (induction n arbitrary: c es)
  case (Suc n)
  then obtain e t hl c' es' where e: "CBS_get_any_asn1_element c = (Some (e, t, hl), c')"
      and es': "split_elements n c' = Some es'" "es = e # es'"
    by (auto split: prod.splits option.splits)
  with Suc.IH [of c' es'] CBS_get_any_asn1_element_inv [OF e] show ?case by auto
qed simp

lemma count_split:
  "count_elements c = Some n \<Longrightarrow> \<exists>es. split_elements n c = Some es \<and> concat es = c"
proof (induction c arbitrary: n rule: count_elements.induct)
  case (1 c)
  show ?case
  proof (cases "c = []")
    case True
    with "1.prems" show ?thesis by (simp add: count_elements.simps [of "[]"] CBS_len_def)
  next
    case False
    then obtain e t hl c' m where e: "CBS_get_any_asn1_element c = (Some (e, t, hl), c')"
        and m: "count_elements c' = Some m" "n = Suc m"
      using "1.prems" by (subst (asm) count_elements.simps) (auto simp: CBS_len_def split: prod.splits option.splits)
    have "\<exists>es. split_elements m c' = Some es \<and> concat es = c'"
      using "1.IH" e m(1) False by (auto simp: CBS_len_def)
    then show ?thesis using e m(2) CBS_get_any_asn1_element_inv [OF e] by auto
  qed
qed

lemma CBB_start_end: "children s = cs \<Longrightarrow> CBB_start (length cs) s = child_end 0 cs"
  by (cases cs rule: rev_cases) (simp_all add: CBB_start_def child_end_def)

lemma count_single:
  assumes "split_elements n c = Some es" "n < 2"
  shows "sort es = es"
  using assms split_elements_Some [OF assms(1)] by (cases es) auto


lemma set_of_Some:
  assumes at: "cbb_at cs s" and r: "CBB_flush_asn1_set_of alloc (length cs) s = (Some u, s')"
  shows "\<exists>pre es. length pre = child_end 0 cs \<and> cbb_content (length cs) s = pre @ concat es \<and>
    (\<forall>e \<in> set es. \<exists>t contents. e = der_element t contents) \<and>
    cbb_content (length cs) s' = pre @ concat (sort es) \<and> cbb_at cs s'"
proof -
  obtain s1 u1 where s1: "CBB_flush alloc (length cs) s = (Some u1, s1)"
    using r unfolding CBB_flush_asn1_set_of_def try_op_eq_Some by blast
  obtain n where n: "count_elements (CBB_data (length cs) s1) = Some n"
    using r s1 by (cases "count_elements (CBB_data (length cs) s1)")
      (auto simp: CBB_flush_asn1_set_of_def CBS_init_def CBB_data_def CBB_len_def)
  note F = CBB_flush_Some [OF at s1]
  have start: "CBB_start (length cs) s1 = child_end 0 cs" using F(2) by (rule CBB_start_end)
  define pre where "pre = take (child_end 0 cs) (buf (base s1))"
  have le: "child_end 0 cs \<le> length (buf (base s1))"
    using cbb_at_children(2) [OF F(1)] by (rule children_ok_le)
  then have pre: "length pre = child_end 0 cs" "buf (base s1) = pre @ CBB_data (length cs) s1"
    by (simp_all add: pre_def CBB_data_def start)
  obtain es where es: "split_elements n (CBB_data (length cs) s1) = Some es" "concat es = CBB_data (length cs) s1"
    using count_split [OF n] by blast
  have der: "\<forall>e \<in> set es. \<exists>t contents. e = der_element t contents" and len: "length es = n"
    using split_elements_Some [OF es(1)] by auto
  have c: "cbb_content (length cs) s = pre @ concat es" using F(3) pre es by simp
  have "cbb_content (length cs) s' = pre @ concat (sort es) \<and> cbb_at cs s'"
  proof (cases "n < 2")
    case True
    then have "s' = s1"
      using r s1 n by (simp add: CBB_flush_asn1_set_of_def CBS_init_def CBB_data_def CBB_len_def)
    then show ?thesis
      using CBB_flush_content [OF at s1] F(1) c count_single [OF es(1) True] by simp
  next
    case False
    define s2 where "s2 = s1\<lparr>base := (base s1)\<lparr>buf := pre\<rparr>\<rparr>"
    have s': "each (CBB_add_bytes alloc (length cs)) (sort es) s2 = (Some u, s')"
      using r s1 n es(1) False start
      by (auto simp: CBB_flush_asn1_set_of_def CBS_init_def CBB_data_def CBB_len_def OPENSSL_memdup_def
        qsort_sort s2_def pre_def split: if_splits option.splits)
    have at2: "cbb_at cs s2" "cbb_content (length cs) s2 = pre"
      using F(1,2) pre(1) cbb_at_children(1) [OF F(1)] le
      by (auto simp: cbb_at_def s2_def buffer_inv_def cbb_content_def)
    have "length e < 2 ^ 64" if "e \<in> set (sort es)" for e
    proof -
      have "length e \<le> sum_list (map length es)" using that by (intro member_le_sum_list) auto
      also have "\<dots> \<le> length (buf (base s1))" using pre es(2) by (metis le_add2 length_append length_concat)
      also have "\<dots> < 2 ^ 64" using F(1) by (auto simp: cbb_at_def buffer_inv_def)
      finally show ?thesis .
    qed
    from cbb_sink.each_content [OF at2(1) this s'] at2(2) show ?thesis by simp
  qed
  with c der pre show ?thesis by blast
qed

section \<open>SET OF is canonical\<close>

text \<open>C7: \<open>CBB_flush_asn1_set_of\<close> keeps what stands before the SET OF's contents, finds DER elements there and
  leaves the same elements in ascending order of their encodings.\<close>

theorem set_of_sorts:
  assumes "cbb_at cs s" "CBB_flush_asn1_set_of alloc (length cs) s = (Some u, s')"
  shows "\<exists>pre es. length pre = child_end 0 cs \<and> cbb_content (length cs) s = pre @ concat es \<and>
    (\<forall>e \<in> set es. \<exists>t contents. e = der_element t contents) \<and>
    cbb_content (length cs) s' = pre @ concat (sort es) \<and> cbb_at cs s'"
  using assms by (rule set_of_Some)

theorem set_of_sorts_witness:
  "\<exists>es. concat es = [4, 1, 9, 2, 1, 7 :: u8] \<and> concat (sort es) = [2, 1, 7, 4, 1, 9]"
proof -
  let ?a = "\<lambda>_ :: nat. True"
  let ?s = "\<lparr>base = \<lparr>buf = [4, 1, 9, 2, 1, 7], cap = 8, can_resize = True, error = False\<rparr>, children = []\<rparr>"
  let ?s' = "\<lparr>base = \<lparr>buf = [2, 1, 7, 4, 1, 9], cap = 8, can_resize = True, error = False\<rparr>, children = []\<rparr>"
  have "cbb_at [] ?s" by (simp add: cbb_at_def buffer_inv_def)
  moreover have "CBB_flush_asn1_set_of ?a 0 ?s = (Some (), ?s')" by code_simp
  ultimately show ?thesis
    using set_of_sorts [of "[]" ?s ?a "()" ?s'] by (auto simp: cbb_content_def child_end_def)
qed

end
