(* ===== verification/Unicode.thy ===== *)
theory Unicode
  imports CBB_ASN1
begin

text \<open>
  The character readers and writers of \<^verbatim>\<open>crypto/bytestring/unicode.c\<close>: UTF-8, Latin-1,
  UCS-2 and UTF-32. The UTF-8 reader accepts exactly the shortest encodings of valid code
  points, which are the ones the writer produces.
\<close>

unbundle bit_operations_syntax

section \<open>Model\<close>

definition is_valid_code_point :: "u32 \<Rightarrow> bool" where
  "is_valid_code_point v \<longleftrightarrow>
     \<not> (v > 0x10ffff \<or> v AND 0xfffe = 0xfffe \<or> (v \<ge> 0xfdd0 \<and> v \<le> 0xfdef) \<or>
        (v \<ge> 0xd800 \<and> v \<le> 0xdfff))"

definition BOTTOM_BITS :: "nat \<Rightarrow> u8" where
  "BOTTOM_BITS n = ucast (push_bit n 1 - 1 :: u32)"

definition TOP_BITS :: "nat \<Rightarrow> u8" where
  "TOP_BITS n = NOT (BOTTOM_BITS (8 - n))"

fun cbs_get_utf8_loop :: "nat \<Rightarrow> u32 \<Rightarrow> cbs \<Rightarrow> (cbs, u32) cres" where
  "cbs_get_utf8_loop 0 v c = returns v c"
| "cbs_get_utf8_loop (Suc n) v c =
     try_op (CBS_get_u8 c) (\<lambda>b c.
       if b AND TOP_BITS 2 \<noteq> TOP_BITS 1 then fails c
       else cbs_get_utf8_loop n (push_bit 6 v OR ucast (b AND BOTTOM_BITS 6)) c)"

definition cbs_get_utf8_finish :: "nat \<Rightarrow> u32 \<Rightarrow> u32 \<Rightarrow> cbs \<Rightarrow> (cbs, u32) cres" where
  "cbs_get_utf8_finish len v lower_bound c =
     try_op (cbs_get_utf8_loop len v c) (\<lambda>v c.
       if \<not> is_valid_code_point v \<or> v < lower_bound then fails c else returns v c)"

definition cbs_get_utf8 :: "cbs \<Rightarrow> (cbs, u32) cres" where
  "cbs_get_utf8 c =
     try_op (CBS_get_u8 c) (\<lambda>b c.
       if b \<le> 0x7f then returns (ucast b) c
       else if b AND TOP_BITS 3 = TOP_BITS 2 then cbs_get_utf8_finish 1 (ucast (b AND BOTTOM_BITS 5)) 0x80 c
       else if b AND TOP_BITS 4 = TOP_BITS 3 then cbs_get_utf8_finish 2 (ucast (b AND BOTTOM_BITS 4)) 0x800 c
       else if b AND TOP_BITS 5 = TOP_BITS 4 then cbs_get_utf8_finish 3 (ucast (b AND BOTTOM_BITS 3)) 0x10000 c
       else fails c)"

definition cbs_get_latin1 :: "cbs \<Rightarrow> (cbs, u32) cres" where
  "cbs_get_latin1 c = try_op (CBS_get_u8 c) (\<lambda>b c. returns (ucast b) c)"

definition cbs_get_ucs2_be :: "cbs \<Rightarrow> (cbs, u32) cres" where
  "cbs_get_ucs2_be c =
     try_op (CBS_get_u16 c) (\<lambda>b c. if \<not> is_valid_code_point (ucast b) then fails c else returns (ucast b) c)"

definition cbs_get_utf32_be :: "cbs \<Rightarrow> (cbs, u32) cres" where
  "cbs_get_utf32_be c =
     try_op (CBS_get_u32 c) (\<lambda>b c. if is_valid_code_point b then returns b c else fails c)"

definition cbb_get_utf8_len :: "u32 \<Rightarrow> nat" where
  "cbb_get_utf8_len u = (if u \<le> 0x7f then 1 else if u \<le> 0x7ff then 2 else if u \<le> 0xffff then 3 else 4)"

definition cbb_add_utf8 :: "allocator \<Rightarrow> nat \<Rightarrow> u32 \<Rightarrow> cbb \<Rightarrow> (cbb, unit) cres" where
  "cbb_add_utf8 alloc d u s =
     (let cont = (\<lambda>k. ucast (ucast (TOP_BITS 1) OR (drop_bit k u AND ucast (BOTTOM_BITS 6))) :: u8);
          lead = (\<lambda>n k. ucast (ucast (TOP_BITS n) OR drop_bit k u) :: u8) in
      if \<not> is_valid_code_point u then fails s
      else if u \<le> 0x7f then CBB_add_u8 alloc d (ucast u) s
      else if u \<le> 0x7ff then
        try_op (CBB_add_u8 alloc d (lead 2 6) s) (\<lambda>_ s. CBB_add_u8 alloc d (cont 0) s)
      else if u \<le> 0xffff then
        try_op (CBB_add_u8 alloc d (lead 3 12) s) (\<lambda>_ s.
        try_op (CBB_add_u8 alloc d (cont 6) s) (\<lambda>_ s. CBB_add_u8 alloc d (cont 0) s))
      else if u \<le> 0x10ffff then
        try_op (CBB_add_u8 alloc d (lead 4 18) s) (\<lambda>_ s.
        try_op (CBB_add_u8 alloc d (cont 12) s) (\<lambda>_ s.
        try_op (CBB_add_u8 alloc d (cont 6) s) (\<lambda>_ s. CBB_add_u8 alloc d (cont 0) s)))
      else fails s)"

definition cbb_add_latin1 :: "allocator \<Rightarrow> nat \<Rightarrow> u32 \<Rightarrow> cbb \<Rightarrow> (cbb, unit) cres" where
  "cbb_add_latin1 alloc d u s = (if u \<le> 0xff then CBB_add_u8 alloc d (ucast u) s else fails s)"

definition cbb_add_ucs2_be :: "allocator \<Rightarrow> nat \<Rightarrow> u32 \<Rightarrow> cbb \<Rightarrow> (cbb, unit) cres" where
  "cbb_add_ucs2_be alloc d u s =
     (if u \<le> 0xffff \<and> is_valid_code_point u then CBB_add_u16 alloc d (ucast u) s else fails s)"

definition cbb_add_utf32_be :: "allocator \<Rightarrow> nat \<Rightarrow> u32 \<Rightarrow> cbb \<Rightarrow> (cbb, unit) cres" where
  "cbb_add_utf32_be alloc d u s = (if is_valid_code_point u then CBB_add_u32 alloc d u s else fails s)"

section \<open>The encoding\<close>

definition utf8 :: "nat \<Rightarrow> bytes" where
  "utf8 n =
     (if n < 0x80 then [word_of_nat n]
      else if n < 0x800 then [word_of_nat (192 + n div 64), word_of_nat (128 + n mod 64)]
      else if n < 0x10000 then
        [word_of_nat (224 + n div 4096), word_of_nat (128 + n div 64 mod 64), word_of_nat (128 + n mod 64)]
      else
        [word_of_nat (240 + n div 262144), word_of_nat (128 + n div 4096 mod 64),
         word_of_nat (128 + n div 64 mod 64), word_of_nat (128 + n mod 64)])"

lemma BOTTOM_BITS_mask: "n \<le> 8 \<Longrightarrow> BOTTOM_BITS n = mask n"
proof -
  have "push_bit n 1 - 1 = (mask n :: u32)" by (simp add: mask_eq_exp_minus_1 push_bit_eq_mult)
  then show "BOTTOM_BITS n = mask n" if "n \<le> 8"
    using that by (intro bit_word_eqI) (auto simp: BOTTOM_BITS_def bit_simps)
qed

lemma unat_and_not_mask: "unat (b AND NOT (mask n)) = unat b div 2 ^ n * 2 ^ n" for b :: "'a::len word"
proof -
  have "b AND NOT (mask n) = push_bit n (drop_bit n b)"
    by (rule bit_word_eqI) (auto simp: bit_simps)
  moreover have "unat b div 2 ^ n * 2 ^ n < 2 ^ LENGTH('a)"
    using unsigned_less [of b] by (metis div_times_less_eq_dividend le_less_trans)
  ultimately show ?thesis by (simp add: unat_push_bit unat_drop_bit)
qed

lemma lead_tests:
  "b AND TOP_BITS 2 = TOP_BITS 1 \<longleftrightarrow> unat b div 64 = 2"
  "b AND TOP_BITS 3 = TOP_BITS 2 \<longleftrightarrow> unat b div 32 = 6"
  "b AND TOP_BITS 4 = TOP_BITS 3 \<longleftrightarrow> unat b div 16 = 14"
  "b AND TOP_BITS 5 = TOP_BITS 4 \<longleftrightarrow> unat b div 8 = 30"
proof -
  have t: "unat (b AND TOP_BITS n) = unat b div 2 ^ (8 - n) * 2 ^ (8 - n)" if "n \<le> 8" for n
    by (simp add: TOP_BITS_def BOTTOM_BITS_mask unat_and_not_mask)
  have "unat (TOP_BITS 1) = 128" "unat (TOP_BITS 2) = 192" "unat (TOP_BITS 3) = 224" "unat (TOP_BITS 4) = 240"
    by (simp_all add: TOP_BITS_def BOTTOM_BITS_def)
  then show "b AND TOP_BITS 2 = TOP_BITS 1 \<longleftrightarrow> unat b div 64 = 2"
    "b AND TOP_BITS 3 = TOP_BITS 2 \<longleftrightarrow> unat b div 32 = 6"
    "b AND TOP_BITS 4 = TOP_BITS 3 \<longleftrightarrow> unat b div 16 = 14"
    "b AND TOP_BITS 5 = TOP_BITS 4 \<longleftrightarrow> unat b div 8 = 30"
    by (simp_all add: word_unat_eq_iff t)
qed

lemma bottom_bits: "n \<le> 8 \<Longrightarrow> unat (ucast (b AND BOTTOM_BITS n) :: u32) = unat b mod 2 ^ n"
  by (simp add: unat_ucast_up BOTTOM_BITS_mask unat_and_mask)


section \<open>Reading\<close>

lemma utf8_loop_Suc:
  assumes "unat v < 2 ^ 26"
  shows "cbs_get_utf8_loop (Suc n) v (b # c) =
    (if unat b div 64 = 2 then cbs_get_utf8_loop n (word_of_nat (unat v * 64 + unat b mod 64)) c else (None, c))"
proof -
  have "unat (push_bit 6 v OR ucast (b AND BOTTOM_BITS 6)) = unat v * 64 + unat b mod 64"
    using assms bottom_bits [of 6 b] by (simp add: unat_push_bit_or)
  then have "push_bit 6 v OR ucast (b AND BOTTOM_BITS 6) = word_of_nat (unat v * 64 + unat b mod 64)"
    by (metis word_of_nat_unat)
  then show ?thesis by (simp add: lead_tests(1) [unfolded One_nat_def])
qed

lemma valid_code_point_le: "is_valid_code_point v \<Longrightarrow> unat v \<le> 0x10ffff"
  by (simp add: is_valid_code_point_def word_less_nat_alt not_less)

lemma valid_ascii:
  assumes "unat v < 0x80"
  shows "is_valid_code_point v"
proof -
  have "v AND 0xfffe \<noteq> 0xfffe"
    using word_and_le2 [of v "0xfffe"] assms by (auto simp: word_le_nat_alt)
  with assms show ?thesis by (simp add: is_valid_code_point_def word_less_nat_alt word_le_nat_alt)
qed

lemma byte_split: "unat b div 2 ^ k = m \<Longrightarrow> b = word_of_nat (m * 2 ^ k + unat b mod 2 ^ k)" for b :: u8
  using div_mult_mod_eq [of "unat b" "2 ^ k"] by auto


lemma utf8_lead:
  "unat b div 32 = 6 \<Longrightarrow> b = word_of_nat (192 + unat b mod 32)"
  "unat b div 16 = 14 \<Longrightarrow> b = word_of_nat (224 + unat b mod 16)"
  "unat b div 8 = 30 \<Longrightarrow> b = word_of_nat (240 + unat b mod 8)"
  "unat b div 64 = 2 \<Longrightarrow> b = word_of_nat (128 + unat b mod 64)" for b :: u8
  using byte_split [of b 5 6] byte_split [of b 4 14] byte_split [of b 3 30] byte_split [of b 6 2] by simp_all

lemma cbs_get_utf8_Cons:
  "cbs_get_utf8 (b # c) =
     (if unat b < 128 then (Some (ucast b), c)
      else if unat b div 32 = 6 then cbs_get_utf8_finish 1 (word_of_nat (unat b mod 32)) 0x80 c
      else if unat b div 16 = 14 then cbs_get_utf8_finish 2 (word_of_nat (unat b mod 16)) 0x800 c
      else if unat b div 8 = 30 then cbs_get_utf8_finish 3 (word_of_nat (unat b mod 8)) 0x10000 c
      else (None, c))"
proof -
  have le: "b \<le> 0x7f \<longleftrightarrow> unat b < 128" by (simp add: word_le_nat_alt) linarith
  have u: "(ucast (b AND BOTTOM_BITS n) :: u32) = word_of_nat (unat b mod 2 ^ n)" if "n \<le> 8" for n
    using bottom_bits [OF that, of b] by (metis word_of_nat_unat)
  show ?thesis
    using u [of 5] u [of 4] u [of 3] by (simp add: cbs_get_utf8_def le lead_tests)
qed

lemma utf8_loop_inv:
  assumes "cbs_get_utf8_loop n v c = (Some w, r)" "(unat v + 1) * 64 ^ n \<le> 2 ^ 32"
  shows "\<exists>bs. c = bs @ r \<and> length bs = n \<and> (\<forall>b \<in> set bs. unat b div 64 = 2) \<and>
    unat w = foldl (\<lambda>a b. a * 64 + unat b mod 64) (unat v) bs"
  using assms
proof (induction n arbitrary: v c)
  case (Suc n)
  then obtain b c' where c: "c = b # c'" by (cases c) auto
  have "(unat v + 1) * 64 \<le> (unat v + 1) * 64 ^ Suc n" by (intro mult_le_mono2) simp
  then have "(unat v + 1) * 64 \<le> 2 ^ 32" using Suc.prems(2) by (rule le_trans)
  then have v: "unat v < 2 ^ 26" by simp
  let ?v = "word_of_nat (unat v * 64 + unat b mod 64) :: u32"
  have uv: "unat ?v = unat v * 64 + unat b mod 64"
    using v mod_less_divisor [of 64 "unat b"] by (simp add: unat_of_nat)
  have b: "unat b div 64 = 2" and rec: "cbs_get_utf8_loop n ?v c' = (Some w, r)"
    using Suc.prems(1) v unfolding c by (auto simp: utf8_loop_Suc simp del: cbs_get_utf8_loop.simps split: if_splits)
  have "(unat ?v + 1) * 64 ^ n \<le> 2 ^ 32"
  proof -
    have "unat ?v + 1 \<le> (unat v + 1) * 64" using uv mod_less_divisor [of 64 "unat b"] by simp
    then have "(unat ?v + 1) * 64 ^ n \<le> (unat v + 1) * 64 * 64 ^ n" by (rule mult_le_mono1)
    also have "\<dots> = (unat v + 1) * 64 ^ Suc n" by (simp only: power_Suc mult.assoc)
    finally show ?thesis using Suc.prems(2) by (rule le_trans)
  qed
  from Suc.IH [OF rec this] obtain bs where "c' = bs @ r" "length bs = n" "\<forall>b \<in> set bs. unat b div 64 = 2"
    "unat w = foldl (\<lambda>a b. a * 64 + unat b mod 64) (unat ?v) bs" by blast
  with b c uv show ?case by (intro exI [of _ "b # bs"]) simp
qed simp


lemma utf8_finish_inv:
  assumes "cbs_get_utf8_finish n (word_of_nat m) low c = (Some w, r)" "m < 32" "n \<in> {1, 2, 3}"
  shows "\<exists>bs. c = bs @ r \<and> length bs = n \<and> (\<forall>b \<in> set bs. unat b div 64 = 2) \<and>
    unat w = foldl (\<lambda>a b. a * 64 + unat b mod 64) m bs \<and> is_valid_code_point w \<and> low \<le> w"
proof -
  have m: "unat (word_of_nat m :: u32) = m" using assms(2) by (simp add: unat_of_nat)
  have "(m + 1) * 64 ^ n \<le> 2 ^ 32" using assms(2,3) by auto
  with utf8_loop_inv [of n "word_of_nat m" c w r] m assms(1) show ?thesis
    by (auto simp: cbs_get_utf8_finish_def not_less split: try_op_splits if_splits)
qed

lemma utf8_fold_digits:
  fixes x y z m :: nat
  assumes "x < 64" "y < 64" "z < 64"
  shows "(m * 64 + x) div 64 = m" "((m * 64 + x) * 64 + y) div 4096 = m" "((m * 64 + x) * 64 + y) div 64 mod 64 = x"
    "(((m * 64 + x) * 64 + y) * 64 + z) div 262144 = m" "(((m * 64 + x) * 64 + y) * 64 + z) div 4096 mod 64 = x"
    "(((m * 64 + x) * 64 + y) * 64 + z) div 64 mod 64 = y"
proof -
  have d: "(a * 64 + b) div 64 = a" "(a * 64 + b) mod 64 = b" if "b < 64" for a b :: nat
    using that by simp_all
  have 2: "n div 4096 = n div 64 div 64" "n div 262144 = n div 64 div 64 div 64" for n :: nat
    by (simp_all add: div_mult2_eq [symmetric])
  show "(m * 64 + x) div 64 = m" "((m * 64 + x) * 64 + y) div 4096 = m" "((m * 64 + x) * 64 + y) div 64 mod 64 = x"
    "(((m * 64 + x) * 64 + y) * 64 + z) div 262144 = m" "(((m * 64 + x) * 64 + y) * 64 + z) div 4096 mod 64 = x"
    "(((m * 64 + x) * 64 + y) * 64 + z) div 64 mod 64 = y"
    unfolding 2 by (simp_all only: d assms)
qed

lemma mod_lt_32: "x mod 32 < 32" "x mod 16 < 32" "x mod 8 < 32" for x :: nat
  by (simp_all add: less_trans [OF mod_less_divisor])

lemma mod_16_64: "x mod 16 < 16" "y mod 64 < 64" "z mod 64 < 64" for x y z :: nat
  by simp_all

lemma utf8_bound: "p < 16 \<Longrightarrow> q < 64 \<Longrightarrow> s < 64 \<Longrightarrow> (p * 64 + q) * 64 + s < 65536" for p q s :: nat
  by simp

lemma cbs_get_utf8_inv:
  assumes "cbs_get_utf8 c = (Some u, r)"
  shows "is_valid_code_point u \<and> c = utf8 (unat u) @ r"
proof -
  obtain b c' where c: "c = b # c'" using assms by (cases c) (auto simp: cbs_get_utf8_def)
  note r = assms [unfolded c cbs_get_utf8_Cons]
  consider "unat b < 128" | "128 \<le> unat b" "unat b div 32 = 6" "cbs_get_utf8_finish 1 (word_of_nat (unat b mod 32)) 0x80 c' = (Some u, r)"
    | "128 \<le> unat b" "unat b div 16 = 14" "cbs_get_utf8_finish 2 (word_of_nat (unat b mod 16)) 0x800 c' = (Some u, r)"
    | "128 \<le> unat b" "unat b div 8 = 30" "cbs_get_utf8_finish 3 (word_of_nat (unat b mod 8)) 0x10000 c' = (Some u, r)"
    using r by (auto simp: not_less split: if_splits)
  then show ?thesis
  proof cases
    case 1
    then have "u = ucast b" "c' = r" using r by auto
    with 1 c show ?thesis by (simp add: unat_ucast_up utf8_def valid_ascii)
  next
    case 2
    obtain x where x: "c' = x # r" "unat x div 64 = 2" "unat u = unat b mod 32 * 64 + unat x mod 64"
        "is_valid_code_point u" "0x80 \<le> u"
      using utf8_finish_inv [OF 2(3) mod_lt_32(1)] by (auto simp: length_Suc_conv)
    have "unat u < 0x800" using x(3) mod_less_divisor [of 32 "unat b"] mod_less_divisor [of 64 "unat x"] by linarith
    then have "utf8 (unat u) = [word_of_nat (192 + unat b mod 32), word_of_nat (128 + unat x mod 64)]"
      using x(3,5) by (simp add: utf8_def word_le_nat_alt)
    then show ?thesis using x(1,2,4) c utf8_lead(1) [OF 2(2)] utf8_lead(4) [OF x(2)] by simp
  next
    case 3
    obtain x y where x: "c' = x # y # r" "unat x div 64 = 2" "unat y div 64 = 2"
        "unat u = (unat b mod 16 * 64 + unat x mod 64) * 64 + unat y mod 64" "is_valid_code_point u" "0x800 \<le> u"
      using utf8_finish_inv [OF 3(3) mod_lt_32(2)] by (auto simp: numeral_2_eq_2 length_Suc_conv)
    have "unat u < 0x10000"
      unfolding x(4) by (rule utf8_bound [OF mod_16_64])
    moreover have "unat u div 4096 = unat b mod 16" "unat u div 64 mod 64 = unat x mod 64" "unat u mod 64 = unat y mod 64"
      unfolding x(4) by (rule utf8_fold_digits, (rule mod_16_64)+)+ (simp_all only: mod_mult_self3 mod_mod_trivial)
    ultimately have "utf8 (unat u) = [word_of_nat (224 + unat b mod 16), word_of_nat (128 + unat x mod 64),
        word_of_nat (128 + unat y mod 64)]"
      using x(6) by (simp add: utf8_def word_le_nat_alt)
    then show ?thesis
      using x(1,5) c utf8_lead(2) [OF 3(2)] utf8_lead(4) [OF x(2)] utf8_lead(4) [OF x(3)] by simp
  next
    case 4
    obtain x y z where x: "c' = x # y # z # r" "unat x div 64 = 2" "unat y div 64 = 2" "unat z div 64 = 2"
        "unat u = ((unat b mod 8 * 64 + unat x mod 64) * 64 + unat y mod 64) * 64 + unat z mod 64"
        "is_valid_code_point u" "0x10000 \<le> u"
      using utf8_finish_inv [OF 4(3) mod_lt_32(3)] by (auto simp: numeral_3_eq_3 length_Suc_conv)
    have "unat u div 262144 = unat b mod 8" "unat u div 4096 mod 64 = unat x mod 64"
        "unat u div 64 mod 64 = unat y mod 64" "unat u mod 64 = unat z mod 64"
      unfolding x(5) by (rule utf8_fold_digits, (rule mod_16_64)+)+ (simp_all only: mod_mult_self3 mod_mod_trivial)
    then have "utf8 (unat u) = [word_of_nat (240 + unat b mod 8), word_of_nat (128 + unat x mod 64),
        word_of_nat (128 + unat y mod 64), word_of_nat (128 + unat z mod 64)]"
      using x(7) by (simp add: utf8_def word_le_nat_alt)
    then show ?thesis
      using x(1,6) c utf8_lead(3) [OF 4(2)] utf8_lead(4) [OF x(2)] utf8_lead(4) [OF x(3)] utf8_lead(4) [OF x(4)] by simp
  qed
qed


lemma utf8_loop_cont:
  assumes "m < 2 ^ 26" "x < 64"
  shows "cbs_get_utf8_loop (Suc n) (word_of_nat m) (word_of_nat (128 + x) # c) =
    cbs_get_utf8_loop n (word_of_nat (m * 64 + x)) c"
proof -
  have m: "unat (word_of_nat m :: u32) = m" using assms(1) by (simp add: unat_of_nat)
  have "(128 + x) div 64 = 2" "(128 + x) mod 64 = x"
    using assms(2) mod_mult_self3 [of 2 64 x] by simp_all
  then show ?thesis
    using utf8_loop_Suc [of "word_of_nat m" n "word_of_nat (128 + x)" c] assms m by simp
qed

lemma div_digits: "n div 4096 * 64 + n div 64 mod 64 = n div 64" "n div 262144 * 64 + n div 4096 mod 64 = n div 4096"
  "n div 64 * 64 + n mod 64 = n" for n :: nat
proof -
  have "n div 4096 = n div 64 div 64" "n div 262144 = n div 4096 div 64"
    by (simp_all add: div_mult2_eq [symmetric])
  then show "n div 4096 * 64 + n div 64 mod 64 = n div 64" "n div 262144 * 64 + n div 4096 mod 64 = n div 4096"
    "n div 64 * 64 + n mod 64 = n"
    by simp_all
qed

lemma lead_digits:
  "m < 32 \<Longrightarrow> (192 + m) div 32 = 6" "m < 32 \<Longrightarrow> (192 + m) mod 32 = m"
  "m < 16 \<Longrightarrow> (224 + m) div 32 = 7" "m < 16 \<Longrightarrow> (224 + m) div 16 = 14" "m < 16 \<Longrightarrow> (224 + m) mod 16 = m"
  "m < 8 \<Longrightarrow> (240 + m) div 32 = 7" "m < 8 \<Longrightarrow> (240 + m) div 16 = 15" "m < 8 \<Longrightarrow> (240 + m) div 8 = 30"
  "m < 8 \<Longrightarrow> (240 + m) mod 8 = m" for m :: nat
  using mod_mult_self3 [of 6 32 m] mod_mult_self3 [of 14 16 m] mod_mult_self3 [of 30 8 m] by simp_all

lemma cbs_get_utf8_utf8:
  assumes valid: "is_valid_code_point u"
  shows "cbs_get_utf8 (utf8 (unat u) @ r) = (Some u, r)"
proof -
  define n where "n = unat u"
  have u: "word_of_nat n = u" by (simp add: n_def)
  have n: "n \<le> 0x10ffff" using valid_code_point_le [OF valid] by (simp add: n_def)
  note m64 = mod_16_64(2)
  have low: "low \<le> u \<longleftrightarrow> unat low \<le> n" for low by (simp add: word_le_nat_alt n_def)
  consider "n < 0x80" | "0x80 \<le> n" "n < 0x800" | "0x800 \<le> n" "n < 0x10000" | "0x10000 \<le> n" by linarith
  then show ?thesis
  proof cases
    case 1
    then have "unat (ucast (word_of_nat n :: u8) :: u32) = n" by (simp add: unat_ucast_up)
    then have "ucast (word_of_nat n :: u8) = u" by (metis u word_of_nat_unat)
    with 1 show ?thesis by (simp add: utf8_def cbs_get_utf8_Cons flip: n_def)
  next
    case 2
    have q: "n div 64 < 32" using 2 by simp
    have "cbs_get_utf8 (utf8 n @ r) = cbs_get_utf8_finish 1 (word_of_nat (n div 64)) 0x80 (word_of_nat (128 + n mod 64) # r)"
      using 2 q by (simp add: utf8_def cbs_get_utf8_Cons lead_digits)
    also have "\<dots> = (Some u, r)"
      using valid 2 q utf8_loop_cont [of "n div 64" "n mod 64" 0 r] low [of "0x80"]
      by (simp add: cbs_get_utf8_finish_def u div_digits not_less del: cbs_get_utf8_loop.simps(2) One_nat_def)
        (simp add: u)
    finally show ?thesis by (simp add: n_def)
  next
    case 3
    have q: "n div 4096 < 16" using 3 by simp
    have "cbs_get_utf8 (utf8 n @ r) = cbs_get_utf8_finish (Suc (Suc 0)) (word_of_nat (n div 4096)) 0x800
        (word_of_nat (128 + n div 64 mod 64) # word_of_nat (128 + n mod 64) # r)"
      using 3 q by (simp add: utf8_def cbs_get_utf8_Cons lead_digits numeral_2_eq_2)
    also have "\<dots> = (Some u, r)"
      using valid 3 q
      by (simp add: cbs_get_utf8_finish_def u utf8_loop_cont div_digits not_less low
        del: cbs_get_utf8_loop.simps(2))
    finally show ?thesis by (simp add: n_def)
  next
    case 4
    have q: "n div 262144 < 8" using 4 n by simp
    have "cbs_get_utf8 (utf8 n @ r) = cbs_get_utf8_finish (Suc (Suc (Suc 0))) (word_of_nat (n div 262144)) 0x10000
        (word_of_nat (128 + n div 4096 mod 64) # word_of_nat (128 + n div 64 mod 64) # word_of_nat (128 + n mod 64) # r)"
      using 4 q by (simp add: utf8_def cbs_get_utf8_Cons lead_digits numeral_3_eq_3)
    also have "\<dots> = (Some u, r)"
      using valid 4 q n
      by (simp add: cbs_get_utf8_finish_def u utf8_loop_cont div_digits not_less low
        del: cbs_get_utf8_loop.simps(2))
    finally show ?thesis by (simp add: n_def)
  qed
qed


section \<open>Writing\<close>

lemma ucast_push_bit_or:
  fixes x a :: u32
  assumes "unat x < 2 ^ k" "unat a * 2 ^ k + 2 ^ k \<le> 256"
  shows "(ucast (push_bit k a OR x) :: u8) = word_of_nat (unat a * 2 ^ k + unat x)"
proof -
  have "unat a * 2 ^ k + unat x < 256" using assms by linarith
  then show ?thesis
    by (simp only: word_unat_eq_iff unat_ucast unat_push_bit_or [OF assms(1)]) simp
qed

lemma top_bits_values:
  "(ucast (TOP_BITS 1) :: u32) = push_bit 6 2" "(ucast (TOP_BITS 2) :: u32) = push_bit 5 6"
  "(ucast (TOP_BITS 3) :: u32) = push_bit 4 14" "(ucast (TOP_BITS 4) :: u32) = push_bit 3 30"
  by (simp_all add: TOP_BITS_def BOTTOM_BITS_def push_bit_eq_mult)

lemma utf8_cont_byte:
  "(ucast (ucast (TOP_BITS 1) OR (drop_bit k u AND ucast (BOTTOM_BITS 6))) :: u8) =
     word_of_nat (128 + unat u div 2 ^ k mod 64)" for u :: u32
proof -
  have m: "(ucast (BOTTOM_BITS 6) :: u32) = mask 6"
    by (simp add: BOTTOM_BITS_def mask_eq_exp_minus_1)
  have x: "unat (drop_bit k u AND ucast (BOTTOM_BITS 6)) = unat u div 2 ^ k mod 64"
    unfolding m by (simp add: unat_and_mask unat_drop_bit)
  show ?thesis
    unfolding top_bits_values using ucast_push_bit_or [of "drop_bit k u AND ucast (BOTTOM_BITS 6)" 6 2] x by simp
qed

lemma utf8_lead_byte:
  fixes u :: u32
  shows "unat u < 0x800 \<Longrightarrow> (ucast (ucast (TOP_BITS 2) OR drop_bit 6 u) :: u8) = word_of_nat (192 + unat u div 64)"
    "unat u < 0x10000 \<Longrightarrow> (ucast (ucast (TOP_BITS 3) OR drop_bit 12 u) :: u8) = word_of_nat (224 + unat u div 4096)"
    "unat u < 0x200000 \<Longrightarrow> (ucast (ucast (TOP_BITS 4) OR drop_bit 18 u) :: u8) = word_of_nat (240 + unat u div 262144)"
  unfolding top_bits_values
  using ucast_push_bit_or [of "drop_bit 6 u" 5 6] ucast_push_bit_or [of "drop_bit 12 u" 4 14]
    ucast_push_bit_or [of "drop_bit 18 u" 3 30]
  by (simp_all add: unat_drop_bit)

lemma add_u8_fun: "CBB_add_u8 alloc d v = CBB_add_bytes alloc d [v]"
  by (rule ext) (rule CBB_add_u8_eq)

lemma each_one: "each f [x] = f x" "each f (x # y # xs) = (\<lambda>s. try_op (f x s) (\<lambda>_. each f (y # xs)))"
  by (rule ext, simp)+

lemma cbb_add_utf8_eq:
  "cbb_add_utf8 alloc d u s =
     (if is_valid_code_point u then add_each alloc d (utf8 (unat u)) s else (None, s))"
proof (cases "is_valid_code_point u")
  case True
  have le: "u \<le> 0x7f \<longleftrightarrow> unat u < 0x80" "u \<le> 0x7ff \<longleftrightarrow> unat u < 0x800" "u \<le> 0xffff \<longleftrightarrow> unat u < 0x10000"
      "u \<le> 0x10ffff"
    using valid_code_point_le [OF True] by (auto simp: word_le_nat_alt)
  have big: "unat u < 0x200000" using valid_code_point_le [OF True] by simp
  have ascii: "unat u < 0x80 \<Longrightarrow> (ucast u :: u8) = word_of_nat (unat u)"
    by (simp add: word_unat_eq_iff unat_ucast)
  note bytes = utf8_cont_byte [of 0 u] utf8_cont_byte [of 6 u] utf8_cont_byte [of 12 u] utf8_lead_byte
  consider "unat u < 0x80" | "0x80 \<le> unat u" "unat u < 0x800" | "0x800 \<le> unat u" "unat u < 0x10000"
    | "0x10000 \<le> unat u" by linarith
  then show ?thesis
    by cases (use True le big ascii bytes in
      \<open>simp_all add: cbb_add_utf8_def utf8_def add_u8_fun each_one Let_def\<close>)
qed (simp add: cbb_add_utf8_def)


text \<open>C12: on a builder with room, \<open>cbb_add_utf8\<close> appends the UTF-8 encoding of a valid code point, which
  \<open>cbs_get_utf8\<close> reads back.\<close>

theorem cbb_add_utf8_roundtrip:
  assumes "cbb_at cs s" "cbb_room alloc (length cs) s" "is_valid_code_point u"
    and "length (cbb_content (length cs) s) + cbb_get_utf8_len u < 2 ^ 64"
  shows "\<exists>s' bs. cbb_add_utf8 alloc (length cs) u s = (Some (), s') \<and>
    cbb_content (length cs) s' = cbb_content (length cs) s @ bs \<and> length bs = cbb_get_utf8_len u \<and>
    cbs_get_utf8 (bs @ r) = (Some u, r)"
proof -
  have len: "length (utf8 (unat u)) = cbb_get_utf8_len u"
    by (auto simp: utf8_def cbb_get_utf8_len_def word_le_nat_alt)
  obtain s' where s': "add_each alloc (length cs) (utf8 (unat u)) s = (Some (), s')"
    using cbb_sink.each_byte_room [OF assms(1,2), of "utf8 (unat u)"] assms(4) len by auto
  with cbb_sink.each_byte_content [OF assms(1) s'] cbs_get_utf8_utf8 [OF assms(3)] assms(3) len show ?thesis
    by (auto simp: cbb_add_utf8_eq)
qed

theorem cbb_add_utf8_roundtrip_witness:
  "\<exists>s' bs. cbb_add_utf8 (\<lambda>_. True) 0 0x20ac
      \<lparr>base = \<lparr>buf = [1], cap = 2, can_resize = True, error = False\<rparr>, children = []\<rparr> = (Some (), s') \<and>
    cbb_content 0 s' = [1] @ bs \<and> length bs = 3 \<and> cbs_get_utf8 (bs @ [7]) = (Some 0x20ac, [7])"
proof -
  let ?s = "\<lparr>base = \<lparr>buf = [1], cap = 2, can_resize = True, error = False\<rparr>, children = []\<rparr>"
  have "is_valid_code_point 0x20ac" "cbb_get_utf8_len 0x20ac = 3" by code_simp+
  then show ?thesis
    using cbb_add_utf8_roundtrip [of "[]" ?s "\<lambda>_. True" "0x20ac" "[7]"]
    by (simp add: cbb_at_def buffer_inv_def cbb_room_def growable_def cbb_content_def)
qed

end
