(* ===== verification/Nanopb_Fields.thy ===== *)
theory Nanopb_Fields
  imports CPrelude
begin

text \<open>
  Field descriptors and the field iterator of nanopb (\<^verbatim>\<open>pb.h\<close>, \<^verbatim>\<open>pb_common.c\<close>). A
  descriptor array is the list of its entries; the terminator \<open>PB_LAST_FIELD\<close> stands at every
  index behind it. Memory is a function from addresses to bytes, a pointer its address, and the
  null pointer 0. Layouts are those of a 64-bit little-endian target.
\<close>

unbundle bit_operations_syntax

section \<open>Descriptors\<close>

type_synonym mem = "nat \<Rightarrow> u8"

record pb_field =
  tag :: u32
  ftype :: u8
  data_offset :: u32
  size_offset :: u32
  data_size :: u32
  array_size :: u32
  ptr :: nat

definition PB_LAST_FIELD :: pb_field where
  "PB_LAST_FIELD =
     \<lparr>tag = 0, ftype = 0, data_offset = 0, size_offset = 0, data_size = 0, array_size = 0, ptr = 0\<rparr>"

definition PB_SIZE_MAX :: u32 where "PB_SIZE_MAX = 0xFFFFFFFF"

definition PB_LTYPE :: "u8 \<Rightarrow> u8" where "PB_LTYPE t = t AND 0x0F"
definition PB_HTYPE :: "u8 \<Rightarrow> u8" where "PB_HTYPE t = t AND 0x30"
definition PB_ATYPE :: "u8 \<Rightarrow> u8" where "PB_ATYPE t = t AND 0xC0"

definition PB_LTYPE_BOOL :: u8 where "PB_LTYPE_BOOL = 0x00"
definition PB_LTYPE_VARINT :: u8 where "PB_LTYPE_VARINT = 0x01"
definition PB_LTYPE_UVARINT :: u8 where "PB_LTYPE_UVARINT = 0x02"
definition PB_LTYPE_SVARINT :: u8 where "PB_LTYPE_SVARINT = 0x03"
definition PB_LTYPE_FIXED32 :: u8 where "PB_LTYPE_FIXED32 = 0x04"
definition PB_LTYPE_FIXED64 :: u8 where "PB_LTYPE_FIXED64 = 0x05"
definition PB_LTYPE_LAST_PACKABLE :: u8 where "PB_LTYPE_LAST_PACKABLE = 0x05"
definition PB_LTYPE_BYTES :: u8 where "PB_LTYPE_BYTES = 0x06"
definition PB_LTYPE_STRING :: u8 where "PB_LTYPE_STRING = 0x07"
definition PB_LTYPE_SUBMESSAGE :: u8 where "PB_LTYPE_SUBMESSAGE = 0x08"
definition PB_LTYPE_EXTENSION :: u8 where "PB_LTYPE_EXTENSION = 0x09"
definition PB_LTYPE_FIXED_LENGTH_BYTES :: u8 where "PB_LTYPE_FIXED_LENGTH_BYTES = 0x0A"

definition PB_HTYPE_REQUIRED :: u8 where "PB_HTYPE_REQUIRED = 0x00"
definition PB_HTYPE_OPTIONAL :: u8 where "PB_HTYPE_OPTIONAL = 0x10"
definition PB_HTYPE_REPEATED :: u8 where "PB_HTYPE_REPEATED = 0x20"
definition PB_HTYPE_ONEOF :: u8 where "PB_HTYPE_ONEOF = 0x30"

definition PB_ATYPE_STATIC :: u8 where "PB_ATYPE_STATIC = 0x00"
definition PB_ATYPE_POINTER :: u8 where "PB_ATYPE_POINTER = 0x80"
definition PB_ATYPE_CALLBACK :: u8 where "PB_ATYPE_CALLBACK = 0x40"

definition fld :: "pb_field list \<Rightarrow> nat \<Rightarrow> pb_field" where
  "fld fs i = (if i < length fs then fs ! i else PB_LAST_FIELD)"

text \<open>A pointer plus a signed offset.\<close>

definition addr_add :: "nat \<Rightarrow> int \<Rightarrow> nat" where
  "addr_add a off = nat ((int a + off) mod 2 ^ 64)"

definition sizeof_ptr :: nat where "sizeof_ptr = 8"

section \<open>The iterator\<close>

record pb_field_iter =
  start :: "pb_field list"
  pos :: nat
  required_field_index :: u32
  dest_struct :: nat
  pData :: nat
  pSize :: nat

abbreviation cur :: "pb_field_iter \<Rightarrow> pb_field" where
  "cur iter \<equiv> fld (start iter) (pos iter)"

definition pb_field_iter_begin :: "pb_field list \<Rightarrow> nat \<Rightarrow> bool \<times> pb_field_iter" where
  "pb_field_iter_begin fs dest =
     (let f = fld fs 0;
          d = (if dest = 0 then 0 else addr_add dest (int (unat (data_offset f))));
          z = (if dest = 0 then 0 else addr_add d (sint (size_offset f))) in
      (tag f \<noteq> 0,
       \<lparr>start = fs, pos = 0, required_field_index = 0, dest_struct = dest, pData = d, pSize = z\<rparr>))"

definition prev_size_of :: "pb_field \<Rightarrow> nat" where
  "prev_size_of prev_field =
     (if PB_ATYPE (ftype prev_field) = PB_ATYPE_STATIC \<and> PB_HTYPE (ftype prev_field) = PB_HTYPE_REPEATED
      then size_mult (unat (data_size prev_field)) (unat (array_size prev_field))
      else if PB_ATYPE (ftype prev_field) = PB_ATYPE_POINTER then sizeof_ptr
      else unat (data_size prev_field))"

definition pb_field_iter_next :: "pb_field_iter \<Rightarrow> bool \<times> pb_field_iter" where
  "pb_field_iter_next iter =
     (let prev_field = cur iter in
      if tag prev_field = 0 then (False, iter)
      else
        let f = fld (start iter) (pos iter + 1) in
        if tag f = 0 then (False, snd (pb_field_iter_begin (start iter) (dest_struct iter)))
        else if PB_HTYPE (ftype prev_field) = PB_HTYPE_ONEOF \<and> PB_HTYPE (ftype f) = PB_HTYPE_ONEOF \<and>
          data_offset f = PB_SIZE_MAX
        then (True, iter\<lparr>pos := pos iter + 1\<rparr>)
        else
          let r = (if PB_HTYPE (ftype prev_field) = PB_HTYPE_REQUIRED
                   then required_field_index iter + 1 else required_field_index iter);
              d = addr_add (pData iter) (int (prev_size_of prev_field) + int (unat (data_offset f)));
              z = addr_add d (sint (size_offset f)) in
          (True, iter\<lparr>pos := pos iter + 1, required_field_index := r, pData := d, pSize := z\<rparr>))"

text \<open>
  The do-while loop of \<open>pb_field_iter_find\<close>, with the number of rounds it may take: one round per
  entry of the array is enough.
\<close>

fun iter_find_loop :: "nat \<Rightarrow> nat \<Rightarrow> u32 \<Rightarrow> pb_field_iter \<Rightarrow> bool \<times> pb_field_iter" where
  "iter_find_loop 0 stop t iter = (False, iter)"
| "iter_find_loop (Suc n) stop t iter =
     (if tag (cur iter) = t \<and> PB_LTYPE (ftype (cur iter)) \<noteq> PB_LTYPE_EXTENSION then (True, iter)
      else
        let iter = snd (pb_field_iter_next iter) in
        if pos iter \<noteq> stop then iter_find_loop n stop t iter else (False, iter))"

definition pb_field_iter_find :: "u32 \<Rightarrow> pb_field_iter \<Rightarrow> bool \<times> pb_field_iter" where
  "pb_field_iter_find t iter = iter_find_loop (Suc (length (start iter))) (pos iter) t iter"

section \<open>Walking and searching\<close>

text \<open>Arrays as the generator writes them: no terminator inside.\<close>

definition fields_ok :: "pb_field list \<Rightarrow> bool" where
  "fields_ok fs \<longleftrightarrow> (\<forall>f \<in> set fs. tag f \<noteq> 0)"

lemma fld_in: "i < length fs \<Longrightarrow> fld fs i = fs ! i"
  by (simp add: fld_def)

lemma fld_tag: "fields_ok fs \<Longrightarrow> tag (fld fs i) = 0 \<longleftrightarrow> length fs \<le> i"
  by (auto simp: fld_def fields_ok_def PB_LAST_FIELD_def)

lemma iter_begin_pos: "pos (snd (pb_field_iter_begin fs d)) = 0" "start (snd (pb_field_iter_begin fs d)) = fs"
  "dest_struct (snd (pb_field_iter_begin fs d)) = d"
  by (simp_all add: pb_field_iter_begin_def Let_def)

lemma iter_next_pos:
  assumes "fields_ok (start iter)" "pos iter < length (start iter)"
  shows "pos (snd (pb_field_iter_next iter)) = (if Suc (pos iter) < length (start iter) then Suc (pos iter) else 0)"
    and "fst (pb_field_iter_next iter) \<longleftrightarrow> Suc (pos iter) < length (start iter)"
  using fld_tag [OF assms(1)] assms(2)
  by (auto simp: pb_field_iter_next_def Let_def iter_begin_pos)

lemma iter_next_start: "start (snd (pb_field_iter_next iter)) = start iter"
  "dest_struct (snd (pb_field_iter_next iter)) = dest_struct iter"
  by (auto simp: pb_field_iter_next_def Let_def iter_begin_pos)

definition matches :: "u32 \<Rightarrow> pb_field \<Rightarrow> bool" where
  "matches t f \<longleftrightarrow> tag f = t \<and> PB_LTYPE (ftype f) \<noteq> PB_LTYPE_EXTENSION"

text \<open>How many rounds are left before the walk is back at \<open>stop\<close>.\<close>

definition rounds :: "nat \<Rightarrow> nat \<Rightarrow> nat \<Rightarrow> nat" where
  "rounds n stop p = (if p < stop then stop - p else n - p + stop)"

lemma iter_find_loop_found:
  assumes "fields_ok (start iter)" "pos iter < length (start iter)" "stop < length (start iter)"
    and "iter_find_loop k stop t iter = (True, iter')"
  shows "start iter' = start iter \<and> pos iter' < length (start iter) \<and> matches t (start iter ! pos iter')"
  using assms
proof (induction k arbitrary: iter)
  case (Suc k)
  show ?case
  proof (cases "matches t (cur iter)")
    case True
    then have "iter' = iter" using Suc.prems(4) by (simp add: matches_def)
    with True Suc.prems(2) show ?thesis by (simp add: fld_in)
  next
    case False
    let ?n = "snd (pb_field_iter_next iter)"
    have r: "iter_find_loop k stop t ?n = (True, iter')"
      using Suc.prems(4) False by (auto simp: matches_def Let_def split: if_splits)
    have "pos ?n < length (start iter)" using iter_next_pos(1) [OF Suc.prems(1,2)] Suc.prems(2) by auto
    with Suc.IH [OF _ _ _ r] Suc.prems show ?thesis by (simp add: iter_next_start)
  qed
qed simp

lemma iter_find_loop_not_found:
  assumes "fields_ok (start iter)" "pos iter < length (start iter)" "stop < length (start iter)"
    and "rounds (length (start iter)) stop (pos iter) \<le> k"
    and "iter_find_loop k stop t iter = (False, iter')"
  shows "pos iter' = stop \<and> start iter' = start iter \<and>
    (\<forall>i < length (start iter). (if pos iter < stop then pos iter \<le> i \<and> i < stop else pos iter \<le> i \<or> i < stop)
       \<longrightarrow> \<not> matches t (start iter ! i))"
  using assms
proof (induction k arbitrary: iter)
  case 0
  then show ?case by (auto simp: rounds_def split: if_splits)
next
  case (Suc k)
  let ?n = "snd (pb_field_iter_next iter)"
  have nm: "\<not> matches t (start iter ! pos iter)"
    using Suc.prems(2,5) by (auto simp: matches_def fld_in split: if_splits)
  have np: "pos ?n = (if Suc (pos iter) < length (start iter) then Suc (pos iter) else 0)"
    using iter_next_pos(1) [OF Suc.prems(1,2)] .
  show ?case
  proof (cases "pos ?n = stop")
    case True
    then have "iter' = ?n" using Suc.prems(2,5) nm by (auto simp: matches_def fld_in Let_def split: if_splits)
    moreover have "\<not> matches t (start iter ! i)" if "i < length (start iter)"
        "if pos iter < stop then pos iter \<le> i \<and> i < stop else pos iter \<le> i \<or> i < stop" for i
    proof -
      have "i = pos iter" using True np that Suc.prems(2,3) by (auto split: if_splits)
      with nm show ?thesis by simp
    qed
    ultimately show ?thesis using True iter_next_start(1) [of iter] by blast
  next
    case False
    then have r: "iter_find_loop k stop t ?n = (False, iter')"
      using Suc.prems(2,5) nm by (auto simp: matches_def fld_in Let_def split: if_splits)
    have n: "pos ?n < length (start iter)" using np Suc.prems(2) by auto
    have "rounds (length (start iter)) stop (pos ?n) \<le> k"
      using Suc.prems(2-4) np False by (auto simp: rounds_def split: if_splits)
    with Suc.IH [OF _ _ _ _ r] n Suc.prems(1,3)
    have IH: "pos iter' = stop" "start iter' = start iter"
      "\<forall>i < length (start iter). (if pos ?n < stop then pos ?n \<le> i \<and> i < stop else pos ?n \<le> i \<or> i < stop)
         \<longrightarrow> \<not> matches t (start iter ! i)"
      by (simp_all add: iter_next_start)
    have "\<not> matches t (start iter ! i)" if "i < length (start iter)"
        "if pos iter < stop then pos iter \<le> i \<and> i < stop else pos iter \<le> i \<or> i < stop" for i
    proof (cases "i = pos iter")
      case False
      then have "if pos ?n < stop then pos ?n \<le> i \<and> i < stop else pos ?n \<le> i \<or> i < stop"
        using that np \<open>pos ?n \<noteq> stop\<close> Suc.prems(2,3) by (auto split: if_splits)
      with IH(3) that(1) show ?thesis by blast
    qed (use nm in simp)
    with IH show ?thesis by blast
  qed
qed


text \<open>C17: \<open>pb_field_iter_find\<close> goes once around the descriptor array from wherever the iterator stands: it finds
  an entry exactly when one with the tag exists, stops on such an entry, and otherwise is back where it began.\<close>

theorem pb_field_iter_find_correct:
  assumes "fields_ok (start iter)" "pos iter < length (start iter)"
  shows "if \<exists>f \<in> set (start iter). matches t f
    then fst (pb_field_iter_find t iter) \<and> matches t (cur (snd (pb_field_iter_find t iter)))
    else \<not> fst (pb_field_iter_find t iter) \<and> pos (snd (pb_field_iter_find t iter)) = pos iter"
proof -
  let ?n = "length (start iter)"
  obtain found iter' where r: "iter_find_loop (Suc ?n) (pos iter) t iter = (found, iter')" by fastforce
  then have find: "pb_field_iter_find t iter = (found, iter')" by (simp only: pb_field_iter_find_def)
  show ?thesis
  proof (cases found)
    case True
    then have f: "start iter' = start iter" "pos iter' < ?n" "matches t (start iter ! pos iter')"
      using iter_find_loop_found [OF assms assms(2), of "Suc ?n" t iter'] r by auto
    then have "\<exists>f \<in> set (start iter). matches t f" using nth_mem by blast
    with f True find show ?thesis by (simp add: fld_in)
  next
    case False
    have "rounds ?n (pos iter) (pos iter) \<le> Suc ?n" using assms(2) by (simp add: rounds_def)
    with False have nf: "pos iter' = pos iter" "\<forall>i < ?n. pos iter \<le> i \<or> i < pos iter \<longrightarrow> \<not> matches t (start iter ! i)"
      using iter_find_loop_not_found [OF assms assms(2), of "Suc ?n" t iter'] r by auto
    then have "\<not> (\<exists>f \<in> set (start iter). matches t f)"
      by (metis in_set_conv_nth linorder_le_less_linear)
    with nf False find show ?thesis by simp
  qed
qed

theorem pb_field_iter_find_correct_witness:
  "fst (pb_field_iter_find 7 \<lparr>start = [PB_LAST_FIELD\<lparr>tag := 7\<rparr>, PB_LAST_FIELD\<lparr>tag := 9\<rparr>], pos = 1,
     required_field_index = 0, dest_struct = 0, pData = 0, pSize = 0\<rparr>)"
  using pb_field_iter_find_correct [of "\<lparr>start = [PB_LAST_FIELD\<lparr>tag := 7\<rparr>, PB_LAST_FIELD\<lparr>tag := 9\<rparr>], pos = 1,
     required_field_index = 0, dest_struct = 0, pData = 0, pSize = 0\<rparr>" 7]
  by (simp add: fields_ok_def matches_def PB_LAST_FIELD_def PB_LTYPE_def PB_LTYPE_EXTENSION_def)

end
