(* ===== verification/Nanopb_Stream.thy ===== *)
theory Nanopb_Stream
  imports ByteIO
begin

text \<open>
  The streams of nanopb (\<^verbatim>\<open>pb_encode.c\<close>, \<^verbatim>\<open>pb_decode.c\<close>) and the wire primitives on them:
  varints, zigzag, fixed-width values, tags, strings and the skipping of fields. A stream
  carries a callback, the callback's state, its byte counts and the first error message. The
  callback is a function of the state, as the documentation asks; the library's own
  \<open>buf_write\<close> keeps the bytes stored so far, \<open>buf_read\<close> the memory from the pointer on. The
  build sets \<open>PB_FIELD_32BIT\<close>, \<open>PB_NO_PACKED_STRUCTS\<close> and \<open>PB_ENABLE_MALLOC\<close>.
\<close>

unbundle bit_operations_syntax

section \<open>Output streams\<close>

record 'st pb_ostream =
  ocallback :: "('st \<Rightarrow> bytes \<Rightarrow> bool \<times> 'st) option"
  ostate :: 'st
  max_size :: nat
  bytes_written :: nat
  oerrmsg :: "string option"

text \<open>\<open>PB_SET_ERROR\<close> keeps the first message.\<close>

definition pb_set_oerror :: "string \<Rightarrow> 'st pb_ostream \<Rightarrow> 'st pb_ostream" where
  "pb_set_oerror msg s = s\<lparr>oerrmsg := (case oerrmsg s of None \<Rightarrow> Some msg | Some m \<Rightarrow> Some m)\<rparr>"

definition buf_write :: "bytes \<Rightarrow> bytes \<Rightarrow> bool \<times> bytes" where
  "buf_write dest buffer = (True, dest @ buffer)"

definition pb_ostream_from_buffer :: "nat \<Rightarrow> bytes pb_ostream" where
  "pb_ostream_from_buffer bufsize =
     \<lparr>ocallback = Some buf_write, ostate = [], max_size = bufsize, bytes_written = 0, oerrmsg = None\<rparr>"

text \<open>The state of a sizing stream is a null pointer nobody reads: any value stands for it.\<close>

definition PB_OSTREAM_SIZING :: "'st \<Rightarrow> 'st pb_ostream" where
  "PB_OSTREAM_SIZING null =
     \<lparr>ocallback = None, ostate = null, max_size = 0, bytes_written = 0, oerrmsg = None\<rparr>"

definition pb_write :: "bytes \<Rightarrow> nat \<Rightarrow> 'st pb_ostream \<Rightarrow> ('st pb_ostream, unit) cres" where
  "pb_write buffer count s =
     try_op
       (case ocallback s of
          Some cb \<Rightarrow>
            if count > 0 then
              if size_add (bytes_written s) count < bytes_written s \<or>
                 size_add (bytes_written s) count > max_size s
              then fails (pb_set_oerror ''stream full'' s)
              else
                (case cb (ostate s) (take count buffer) of (ok, st) \<Rightarrow>
                   if ok then returns () (s\<lparr>ostate := st\<rparr>)
                   else fails (pb_set_oerror ''io error'' (s\<lparr>ostate := st\<rparr>)))
            else returns () s
        | None \<Rightarrow> returns () s)
       (\<lambda>_ s. returns () (s\<lparr>bytes_written := size_add (bytes_written s) count\<rparr>))"

section \<open>Wire primitives: writing\<close>

function encode_varint_loop :: "u64 \<Rightarrow> bytes" where
  "encode_varint_loop value =
     (if value \<noteq> 0 then (ucast (value AND 0x7F) OR 0x80) # encode_varint_loop (drop_bit 7 value) else [])"
  by pat_completeness auto
termination
  by (relation "measure unat") (auto simp: unat_drop_bit unat_gt_0)

declare encode_varint_loop.simps [simp del]

definition pb_encode_varint :: "u64 \<Rightarrow> 'st pb_ostream \<Rightarrow> ('st pb_ostream, unit) cres" where
  "pb_encode_varint value s =
     (if value \<le> 0x7F then pb_write [ucast value] 1 s
      else
        let buffer = encode_varint_loop value; i = length buffer in
        pb_write (buffer[i - 1 := buffer ! (i - 1) AND 0x7F]) i s)"

text \<open>The argument is the \<open>int64_t\<close> as its 64 bits.\<close>

definition zigzag :: "u64 \<Rightarrow> u64" where
  "zigzag value = (if sint value < 0 then NOT (push_bit 1 value) else push_bit 1 value)"

definition pb_encode_svarint :: "u64 \<Rightarrow> 'st pb_ostream \<Rightarrow> ('st pb_ostream, unit) cres" where
  "pb_encode_svarint value s = pb_encode_varint (zigzag value) s"

definition pb_encode_fixed32 :: "u32 \<Rightarrow> 'st pb_ostream \<Rightarrow> ('st pb_ostream, unit) cres" where
  "pb_encode_fixed32 val s =
     pb_write [ucast (val AND 0xFF), ucast (drop_bit 8 val AND 0xFF), ucast (drop_bit 16 val AND 0xFF),
       ucast (drop_bit 24 val AND 0xFF)] 4 s"

definition pb_encode_fixed64 :: "u64 \<Rightarrow> 'st pb_ostream \<Rightarrow> ('st pb_ostream, unit) cres" where
  "pb_encode_fixed64 val s =
     pb_write [ucast (val AND 0xFF), ucast (drop_bit 8 val AND 0xFF), ucast (drop_bit 16 val AND 0xFF),
       ucast (drop_bit 24 val AND 0xFF), ucast (drop_bit 32 val AND 0xFF), ucast (drop_bit 40 val AND 0xFF),
       ucast (drop_bit 48 val AND 0xFF), ucast (drop_bit 56 val AND 0xFF)] 8 s"

definition PB_WT_VARINT :: u32 where "PB_WT_VARINT = 0"
definition PB_WT_64BIT :: u32 where "PB_WT_64BIT = 1"
definition PB_WT_STRING :: u32 where "PB_WT_STRING = 2"
definition PB_WT_32BIT :: u32 where "PB_WT_32BIT = 5"

definition pb_encode_tag :: "u32 \<Rightarrow> u32 \<Rightarrow> 'st pb_ostream \<Rightarrow> ('st pb_ostream, unit) cres" where
  "pb_encode_tag wiretype field_number s =
     pb_encode_varint (push_bit 3 (ucast field_number) OR ucast wiretype) s"

definition pb_encode_string :: "bytes \<Rightarrow> nat \<Rightarrow> 'st pb_ostream \<Rightarrow> ('st pb_ostream, unit) cres" where
  "pb_encode_string buffer len s =
     try_op (pb_encode_varint (word_of_nat len) s) (\<lambda>_ s. pb_write buffer len s)"

section \<open>Input streams\<close>

text \<open>
  \<open>is_buf_read\<close> says that the callback is \<open>buf_read\<close> itself, which \<open>pb_read\<close> tests. A
  callback returns the bytes it stores into the buffer, or \<open>None\<close> for an error.
\<close>

record 'st pb_istream =
  icallback :: "'st \<Rightarrow> nat \<Rightarrow> bytes option \<times> 'st"
  is_buf_read :: bool
  istate :: 'st
  bytes_left :: nat
  ierrmsg :: "string option"

definition pb_set_ierror :: "string \<Rightarrow> 'st pb_istream \<Rightarrow> 'st pb_istream" where
  "pb_set_ierror msg s = s\<lparr>ierrmsg := (case ierrmsg s of None \<Rightarrow> Some msg | Some m \<Rightarrow> Some m)\<rparr>"

definition buf_read :: "bytes \<Rightarrow> nat \<Rightarrow> bytes option \<times> bytes" where
  "buf_read source count = (Some (take count source), drop count source)"

definition pb_istream_from_buffer :: "bytes \<Rightarrow> nat \<Rightarrow> bytes pb_istream" where
  "pb_istream_from_buffer buffer bufsize =
     \<lparr>icallback = buf_read, is_buf_read = True, istate = buffer, bytes_left = bufsize, ierrmsg = None\<rparr>"

text \<open>The part of \<open>pb_read\<close> that calls the callback; \<open>pb_read\<close> with a null buffer skips in pieces of 16.\<close>

definition pb_read_callback :: "nat \<Rightarrow> 'st pb_istream \<Rightarrow> ('st pb_istream, bytes) cres" where
  "pb_read_callback count s =
     (if bytes_left s < count then fails (pb_set_ierror ''end-of-stream'' s)
      else
        (case icallback s (istate s) count of
           (None, st) \<Rightarrow> fails (pb_set_ierror ''io error'' (s\<lparr>istate := st\<rparr>))
         | (Some bs, st) \<Rightarrow> returns bs (s\<lparr>istate := st, bytes_left := bytes_left s - count\<rparr>)))"

definition pb_read_into :: "nat \<Rightarrow> 'st pb_istream \<Rightarrow> ('st pb_istream, bytes) cres" where
  "pb_read_into count s = (if count = 0 then returns [] s else pb_read_callback count s)"

function pb_read_skip :: "nat \<Rightarrow> 'st pb_istream \<Rightarrow> ('st pb_istream, bytes) cres" where
  "pb_read_skip count s =
     (if count > 16 then try_op (pb_read_into 16 s) (\<lambda>tmp s. pb_read_skip (count - 16) s)
      else pb_read_into count s)"
  by pat_completeness auto
termination by (relation "measure fst") auto

declare pb_read_skip.simps [simp del]

definition pb_read :: "bool \<Rightarrow> nat \<Rightarrow> 'st pb_istream \<Rightarrow> ('st pb_istream, bytes) cres" where
  "pb_read buf_null count s =
     (if count = 0 then returns [] s
      else if buf_null \<and> \<not> is_buf_read s then pb_read_skip count s
      else pb_read_callback count s)"

definition pb_readbyte :: "'st pb_istream \<Rightarrow> ('st pb_istream, u8) cres" where
  "pb_readbyte s =
     (if bytes_left s = 0 then fails (pb_set_ierror ''end-of-stream'' s)
      else
        (case icallback s (istate s) 1 of
           (None, st) \<Rightarrow> fails (pb_set_ierror ''io error'' (s\<lparr>istate := st\<rparr>))
         | (Some bs, st) \<Rightarrow> returns (bs ! 0) (s\<lparr>istate := st, bytes_left := bytes_left s - 1\<rparr>)))"

lemma pb_readbyte_bytes_left: "pb_readbyte s = (Some b, s') \<Longrightarrow> bytes_left s' < bytes_left s"
  by (auto simp: pb_readbyte_def split: if_splits prod.splits option.splits)

lemma pb_read_1_bytes_left: "pb_read False 1 s = (Some b, s') \<Longrightarrow> bytes_left s' < bytes_left s"
  by (auto simp: pb_read_def pb_read_callback_def split: if_splits prod.splits option.splits)

section \<open>Wire primitives: reading\<close>

text \<open>
  The do-while loop of \<open>pb_decode_varint32_eof\<close>; \<open>bitpos\<close> is a \<open>uint_fast8_t\<close>, 8 bits
  wide. The result is the value so far with the last byte and the position behind it.
\<close>

function decode_varint32_loop :: "u8 \<Rightarrow> u32 \<Rightarrow> 'st pb_istream \<Rightarrow> ('st pb_istream, u32 \<times> u8 \<times> u8) cres" where
  "decode_varint32_loop bitpos result s =
     (case pb_readbyte s of
        (None, s) \<Rightarrow> fails s
      | (Some byte, s) \<Rightarrow>
          if bitpos \<ge> 32 \<and> byte AND 0x7F \<noteq> 0 \<and>
             (drop_bit 31 result = 0 \<or> byte \<noteq> (if bitpos < 63 then 0xFF else 0x01))
          then fails (pb_set_ierror ''varint overflow'' s)
          else
            let result = (if bitpos \<ge> 32 then result
                          else result OR push_bit (unat bitpos) (ucast (byte AND 0x7F))) in
            if byte AND 0x80 \<noteq> 0 then decode_varint32_loop (bitpos + 7) result s
            else returns (result, byte, bitpos + 7) s)"
  by pat_completeness auto
termination
  by (relation "measure (\<lambda>(bitpos, result, s). bytes_left s)") (auto dest: pb_readbyte_bytes_left [OF sym])

declare decode_varint32_loop.simps [simp del]

text \<open>The second component of the result is \<open>*eof\<close>, which is only set to true on a failure.\<close>

definition pb_decode_varint32_eof :: "'st pb_istream \<Rightarrow> ('st pb_istream, u32) cres \<times> bool" where
  "pb_decode_varint32_eof s =
     (case pb_readbyte s of
        (None, s) \<Rightarrow> (fails s, bytes_left s = 0)
      | (Some byte, s) \<Rightarrow>
          (if byte AND 0x80 = 0 then returns (ucast byte) s
           else
             try_op (decode_varint32_loop 7 (ucast (byte AND 0x7F)) s) (\<lambda>(result, byte, bitpos) s.
               if bitpos = 35 \<and> byte AND 0x70 \<noteq> 0 then fails (pb_set_ierror ''varint overflow'' s)
               else returns result s), False))"

definition pb_decode_varint32 :: "'st pb_istream \<Rightarrow> ('st pb_istream, u32) cres" where
  "pb_decode_varint32 s = fst (pb_decode_varint32_eof s)"

function decode_varint_loop :: "nat \<Rightarrow> u64 \<Rightarrow> 'st pb_istream \<Rightarrow> ('st pb_istream, u64) cres" where
  "decode_varint_loop bitpos result s =
     (if bitpos \<ge> 64 then fails (pb_set_ierror ''varint overflow'' s)
      else
        (case pb_readbyte s of
           (None, s) \<Rightarrow> fails s
         | (Some byte, s) \<Rightarrow>
             let result = result OR push_bit bitpos (ucast (byte AND 0x7F)) in
             if byte AND 0x80 \<noteq> 0 then decode_varint_loop (bitpos + 7) result s
             else returns result s))"
  by pat_completeness auto
termination
  by (relation "measure (\<lambda>(bitpos, result, s). bytes_left s)") (auto dest: pb_readbyte_bytes_left [OF sym])

declare decode_varint_loop.simps [simp del]

definition pb_decode_varint :: "'st pb_istream \<Rightarrow> ('st pb_istream, u64) cres" where
  "pb_decode_varint s = decode_varint_loop 0 0 s"

function pb_skip_varint :: "'st pb_istream \<Rightarrow> ('st pb_istream, unit) cres" where
  "pb_skip_varint s =
     (case pb_read False 1 s of
        (None, s) \<Rightarrow> fails s
      | (Some buffer, s) \<Rightarrow> if buffer ! 0 AND 0x80 \<noteq> 0 then pb_skip_varint s else returns () s)"
  by pat_completeness auto
termination
  by (relation "measure bytes_left") (auto dest: pb_read_1_bytes_left [OF sym, unfolded One_nat_def])

declare pb_skip_varint.simps [simp del]

definition pb_skip_string :: "'st pb_istream \<Rightarrow> ('st pb_istream, unit) cres" where
  "pb_skip_string s =
     try_op (pb_decode_varint32 s) (\<lambda>len s. try_op (pb_read True (unat len) s) (\<lambda>_ s. returns () s))"

text \<open>The second component is \<open>*eof\<close>; \<open>*wire_type\<close> and \<open>*tag\<close> are 0 on a failure.\<close>

definition pb_decode_tag :: "'st pb_istream \<Rightarrow> ('st pb_istream, u32 \<times> u32) cres \<times> bool" where
  "pb_decode_tag s =
     (case pb_decode_varint32_eof s of
        ((None, s), eof) \<Rightarrow> (fails s, eof)
      | ((Some temp, s), eof) \<Rightarrow>
          if temp = 0 then (fails s, True)
          else (returns (temp AND 7, drop_bit 3 temp) s, eof))"

definition pb_skip_field :: "u32 \<Rightarrow> 'st pb_istream \<Rightarrow> ('st pb_istream, unit) cres" where
  "pb_skip_field wire_type s =
     (if wire_type = PB_WT_VARINT then pb_skip_varint s
      else if wire_type = PB_WT_64BIT then try_op (pb_read True 8 s) (\<lambda>_ s. returns () s)
      else if wire_type = PB_WT_STRING then pb_skip_string s
      else if wire_type = PB_WT_32BIT then try_op (pb_read True 4 s) (\<lambda>_ s. returns () s)
      else fails (pb_set_ierror ''invalid wire_type'' s))"

fun read_raw_varint :: "nat \<Rightarrow> 'st pb_istream \<Rightarrow> ('st pb_istream, bytes) cres" where
  "read_raw_varint 0 s = fails s"
| "read_raw_varint (Suc room) s =
     try_op (pb_read False 1 s) (\<lambda>buffer s.
       if buffer ! 0 AND 0x80 \<noteq> 0
       then try_op (read_raw_varint room s) (\<lambda>more s. returns (buffer ! 0 # more) s)
       else returns [buffer ! 0] s)"

definition read_raw_value :: "u32 \<Rightarrow> nat \<Rightarrow> 'st pb_istream \<Rightarrow> ('st pb_istream, bytes) cres" where
  "read_raw_value wire_type room s =
     (if wire_type = PB_WT_VARINT then read_raw_varint room s
      else if wire_type = PB_WT_64BIT then pb_read False 8 s
      else if wire_type = PB_WT_32BIT then pb_read False 4 s
      else fails (pb_set_ierror ''invalid wire_type'' s))"

text \<open>The result is the substream; the stream itself only gives up the bytes.\<close>

definition pb_make_string_substream :: "'st pb_istream \<Rightarrow> ('st pb_istream, 'st pb_istream) cres" where
  "pb_make_string_substream s =
     try_op (pb_decode_varint32 s) (\<lambda>size s.
       if bytes_left s < unat size then fails (pb_set_ierror ''parent stream too short'' s)
       else returns (s\<lparr>bytes_left := unat size\<rparr>) (s\<lparr>bytes_left := bytes_left s - unat size\<rparr>))"

definition pb_close_string_substream :: "'st pb_istream \<Rightarrow> 'st pb_istream \<Rightarrow> ('st pb_istream, unit) cres" where
  "pb_close_string_substream substream s =
     (case (if bytes_left substream \<noteq> 0 then pb_read True (bytes_left substream) substream
            else returns [] substream) of
        (None, substream) \<Rightarrow> fails s
      | (Some _, substream) \<Rightarrow> returns () (s\<lparr>istate := istate substream, ierrmsg := ierrmsg substream\<rparr>))"

definition pb_decode_svarint :: "'st pb_istream \<Rightarrow> ('st pb_istream, u64) cres" where
  "pb_decode_svarint s =
     try_op (pb_decode_varint s) (\<lambda>value s.
       returns (if value AND 1 \<noteq> 0 then NOT (drop_bit 1 value) else drop_bit 1 value) s)"

definition pb_decode_fixed32 :: "'st pb_istream \<Rightarrow> ('st pb_istream, u32) cres" where
  "pb_decode_fixed32 s =
     try_op (pb_read False 4 s) (\<lambda>bytes s.
       returns (push_bit 0 (ucast (bytes ! 0)) OR push_bit 8 (ucast (bytes ! 1)) OR
                push_bit 16 (ucast (bytes ! 2)) OR push_bit 24 (ucast (bytes ! 3))) s)"

definition pb_decode_fixed64 :: "'st pb_istream \<Rightarrow> ('st pb_istream, u64) cres" where
  "pb_decode_fixed64 s =
     try_op (pb_read False 8 s) (\<lambda>bytes s.
       returns (push_bit 0 (ucast (bytes ! 0)) OR push_bit 8 (ucast (bytes ! 1)) OR
                push_bit 16 (ucast (bytes ! 2)) OR push_bit 24 (ucast (bytes ! 3)) OR
                push_bit 32 (ucast (bytes ! 4)) OR push_bit 40 (ucast (bytes ! 5)) OR
                push_bit 48 (ucast (bytes ! 6)) OR push_bit 56 (ucast (bytes ! 7))) s)"

end
