(* ===== verification/Nanopb_Wire.thy ===== *)
theory Nanopb_Wire
  imports Nanopb_Stream
begin

text \<open>
  What the wire primitives of nanopb write and read. \<open>emits f bs\<close> says that the encoder \<open>f\<close>
  writes \<open>bs\<close>: on a sizing stream it counts them, on a buffer stream it stores them when they
  fit and fails when they do not. \<open>src bs rest e\<close> is an input stream over \<open>bs\<close>. The readers
  invert the writers.
\<close>

unbundle bit_operations_syntax

section \<open>Encoders and the bytes they emit\<close>

definition ostream_ok :: "bytes pb_ostream \<Rightarrow> bool" where
  "ostream_ok s \<longleftrightarrow> bytes_written s < 2 ^ 64 \<and> oerrmsg s = None \<and>
     (case ocallback s of None \<Rightarrow> True
      | Some cb \<Rightarrow> cb = buf_write \<and> bytes_written s \<le> max_size s \<and> max_size s < 2 ^ 63)"

definition after :: "bytes \<Rightarrow> bytes pb_ostream \<Rightarrow> bytes pb_ostream" where
  "after bs s =
     s\<lparr>ostate := (if ocallback s = None then ostate s else ostate s @ bs),
       bytes_written := size_add (bytes_written s) (length bs)\<rparr>"

definition fits :: "bytes \<Rightarrow> bytes pb_ostream \<Rightarrow> bool" where
  "fits bs s \<longleftrightarrow> ocallback s = None \<or> bytes_written s + length bs \<le> max_size s"

definition emits :: "(bytes pb_ostream \<Rightarrow> (bytes pb_ostream, unit) cres) \<Rightarrow> bytes \<Rightarrow> bool" where
  "emits f bs \<longleftrightarrow> (\<forall>s. ostream_ok s \<longrightarrow> length bs < 2 ^ 63 \<longrightarrow>
     (if fits bs s then f s = (Some (), after bs s) else fst (f s) = None))"

lemma emitsD:
  assumes "emits f bs" "ostream_ok s" "length bs < 2 ^ 63"
  shows "fits bs s \<Longrightarrow> f s = (Some (), after bs s)" "\<not> fits bs s \<Longrightarrow> fst (f s) = None"
  using assms by (auto simp: emits_def)

lemma size_add_small: "a + b < 2 ^ 64 \<Longrightarrow> size_add a b = a + b"
  by (simp add: size_add_def)

lemma size_add_bound: "size_add a b < 2 ^ 64"
  by (simp add: size_add_def)

lemma size_add_assoc: "size_add (size_add a b) c = size_add a (b + c)"
  by (simp add: size_add_def mod_add_left_eq add.assoc)

lemma after_ok:
  assumes "ostream_ok s" "fits bs s"
  shows "ostream_ok (after bs s)"
  using assms size_add_bound [of "bytes_written s" "length bs"]
  by (auto simp: ostream_ok_def after_def fits_def size_add_small split: option.splits)

lemma after_after: "after bs (after as s) = after (as @ bs) s"
  by (simp add: after_def size_add_assoc)

lemma fits_append:
  assumes "ostream_ok s"
  shows "fits (as @ bs) s \<longleftrightarrow> fits as s \<and> fits bs (after as s)"
  using assms
  by (cases "ocallback s")
    (auto simp: fits_def after_def ostream_ok_def size_add_small)

lemma emits_return: "emits (\<lambda>s. returns () s) []"
  by (auto simp: emits_def fits_def after_def ostream_ok_def size_add_def split: option.splits)

lemma emits_bind:
  assumes f: "emits f as" and g: "emits g bs"
  shows "emits (\<lambda>s. try_op (f s) (\<lambda>_ s. g s)) (as @ bs)"
  unfolding emits_def
proof (intro allI impI)
  fix s assume ok: "ostream_ok s" and len: "length (as @ bs) < 2 ^ 63"
  then have la: "length as < 2 ^ 63" and lb: "length bs < 2 ^ 63" by simp_all
  show "if fits (as @ bs) s then try_op (f s) (\<lambda>_. g) = returns () (after (as @ bs) s)
    else fst (try_op (f s) (\<lambda>_. g)) = None"
  proof (cases "fits as s")
    case True
    then have "f s = (Some (), after as s)" "ostream_ok (after as s)"
      using emitsD(1) [OF f ok la] after_ok [OF ok] by simp_all
    then show ?thesis
      using emitsD [OF g _ lb, of "after as s"] fits_append [OF ok, of as bs] True by (simp add: after_after)
  next
    case False
    then show ?thesis
      using emitsD(2) [OF f ok la] fits_append [OF ok, of as bs]
      by (auto split: try_op_splits)
  qed
qed

lemma emits_write:
  assumes "n = length (take n bs)"
  shows "emits (pb_write bs n) (take n bs)"
  unfolding emits_def
proof (intro allI impI)
  fix s assume ok: "ostream_ok s" and len: "length (take n bs) < 2 ^ 63"
  have n: "min (length bs) n = n" using assms by simp
  show "if fits (take n bs) s then pb_write bs n s = returns () (after (take n bs) s)
    else fst (pb_write bs n s) = None"
  proof (cases "ocallback s")
    case None
    then show ?thesis using n by (simp add: pb_write_def fits_def after_def)
  next
    case (Some cb)
    then have cb: "cb = buf_write" "bytes_written s \<le> max_size s" "max_size s < 2 ^ 63"
      using ok by (simp_all add: ostream_ok_def)
    have lt: "bytes_written s < 2 ^ 64" "n < 2 ^ 64" using ok len n by (simp_all add: ostream_ok_def)
    note wrap = size_add_no_wrap(1) [OF lt]
    show ?thesis
    proof (cases "bytes_written s + n \<le> max_size s")
      case True
      then have "bytes_written s + n < 2 ^ 64" using cb by simp
      with True show ?thesis
        using Some cb n wrap by (cases "n = 0")
          (simp_all add: pb_write_def fits_def after_def buf_write_def size_add_small)
    next
      case False
      then have "n > 0" using cb by simp
      moreover have "size_add (bytes_written s) n < bytes_written s \<or> size_add (bytes_written s) n > max_size s"
        using False wrap by (cases "bytes_written s + n < 2 ^ 64") (simp_all add: size_add_small)
      ultimately show ?thesis using False Some n by (simp add: pb_write_def fits_def)
    qed
  qed
qed

lemma emits_write_all: "emits (pb_write bs (length bs)) bs"
  using emits_write [of "length bs" bs] by simp

interpretation pb_sink: byte_sink "\<lambda>bs. pb_write bs (length bs)" ostate "\<lambda>s. ocallback s = Some buf_write"
  by unfold_locales
    (auto simp: pb_write_def buf_write_def split: try_op_splits if_splits)


section \<open>Varints\<close>

text \<open>The specification: seven bits a byte, least significant first, the high bit on all but the last.\<close>

fun leb128 :: "nat \<Rightarrow> bytes" where
  "leb128 n = (if n < 128 then [word_of_nat n] else word_of_nat (128 + n mod 128) # leb128 (n div 128))"

declare leb128.simps [simp del]

lemma length_leb128: "n < 128 ^ k \<Longrightarrow> 0 < k \<Longrightarrow> 0 < length (leb128 n) \<and> length (leb128 n) \<le> k"
proof (induction k arbitrary: n)
  case (Suc k)
  show ?case
  proof (cases "n < 128")
    case False
    then have "k \<noteq> 0" using Suc.prems by (intro notI) simp
    moreover have "n div 128 < 128 ^ k" using Suc.prems by (simp add: less_mult_imp_div_less mult.commute)
    ultimately show ?thesis using Suc.IH [of "n div 128"] False by (subst (1 2) leb128.simps) simp
  qed (simp add: leb128.simps)
qed simp

lemma length_leb128_u64: "0 < length (leb128 (unat v)) \<and> length (leb128 (unat v)) \<le> 10" for v :: u64
  using length_leb128 [of "unat v" 10] unat_u64_bound [of v] by simp

lemma varint_group:
  "(ucast (v AND 0x7F) :: u8) OR 0x80 = word_of_nat (128 + unat v mod 128)"
  "((ucast (v AND 0x7F) :: u8) OR 0x80) AND 0x7F = word_of_nat (unat v mod 128)" for v :: u64
proof -
  define m where "m = unat v mod 128"
  have m: "m < 128" by (simp add: m_def)
  have u: "unat (ucast (v AND 0x7F) :: u8) = m"
    using unat_and_mask [of v 7] m by (simp add: mask_eq_exp_minus_1 unat_ucast m_def)
  have "unat (push_bit 7 1 OR (ucast (v AND 0x7F) :: u8)) = 128 + m"
    using u m by (subst unat_push_bit_or) simp_all
  then have o: "unat ((ucast (v AND 0x7F) :: u8) OR 0x80) = 128 + m" by (simp add: or.commute)
  then show "(ucast (v AND 0x7F) :: u8) OR 0x80 = word_of_nat (128 + unat v mod 128)"
    by (metis m_def word_of_nat_unat)
  have "unat (((ucast (v AND 0x7F) :: u8) OR 0x80) AND 0x7F) = (128 + m) mod 128"
    unfolding unat_u8_and_7f o by simp
  then have "unat (((ucast (v AND 0x7F) :: u8) OR 0x80) AND 0x7F) = m" using m by simp
  then show "((ucast (v AND 0x7F) :: u8) OR 0x80) AND 0x7F = word_of_nat (unat v mod 128)"
    by (metis m_def word_of_nat_unat)
qed

lemma encode_varint_loop_leb128:
  assumes "v \<noteq> 0"
  shows "encode_varint_loop v \<noteq> [] \<and>
    (encode_varint_loop v)[length (encode_varint_loop v) - 1 := encode_varint_loop v ! (length (encode_varint_loop v) - 1) AND 0x7F] =
      leb128 (unat v)"
  using assms
proof (induction v rule: encode_varint_loop.induct)
  case (1 v)
  have l: "encode_varint_loop v = (ucast (v AND 0x7F) OR 0x80) # encode_varint_loop (drop_bit 7 v)"
    using "1.prems" by (subst encode_varint_loop.simps) simp
  show ?case
  proof (cases "unat v < 128")
    case True
    then have z: "drop_bit 7 v = 0" by (simp add: word_unat_eq_iff unat_drop_bit)
    have "encode_varint_loop (drop_bit 7 v) = []" unfolding z by (simp add: encode_varint_loop.simps)
    then show ?thesis using True varint_group(2) [of v] by (simp add: l leb128.simps [of "unat v"])
  next
    case False
    then have nz: "drop_bit 7 v \<noteq> 0" by (simp add: word_unat_eq_iff unat_drop_bit div_eq_0_iff)
    let ?w = "encode_varint_loop (drop_bit 7 v)"
    obtain k where k: "length ?w = Suc k" using "1.IH" "1.prems" nz by (cases ?w) auto
    have "leb128 (unat v) = word_of_nat (128 + unat v mod 128) # leb128 (unat (drop_bit 7 v))"
      using False by (subst leb128.simps) (simp add: unat_drop_bit)
    moreover have "?w[k := ?w ! k AND 0x7F] = leb128 (unat (drop_bit 7 v))"
      using "1.IH" "1.prems" nz k by simp
    ultimately show ?thesis using k varint_group(1) [of v] by (simp add: l)
  qed
qed

lemma emits_varint: "emits (pb_encode_varint v) (leb128 (unat v))"
proof (cases "v \<le> 0x7F")
  case True
  then have "unat v < 128" by (simp add: word_le_nat_alt)
  then have "leb128 (unat v) = [ucast v]"
    by (simp add: leb128.simps word_unat_eq_iff unat_ucast)
  moreover have "(pb_encode_varint v :: bytes pb_ostream \<Rightarrow> _) = pb_write [ucast v] 1"
    using True by (intro ext) (simp add: pb_encode_varint_def)
  ultimately show ?thesis using emits_write_all [of "[ucast v]"] by simp
next
  case False
  then have nz: "v \<noteq> 0" by auto
  let ?b = "encode_varint_loop v"
  have "(pb_encode_varint v :: bytes pb_ostream \<Rightarrow> _) = pb_write (?b[length ?b - 1 := ?b ! (length ?b - 1) AND 0x7F]) (length ?b)"
    using False by (intro ext) (simp add: pb_encode_varint_def Let_def)
  then show ?thesis
    using emits_write_all [of "?b[length ?b - 1 := ?b ! (length ?b - 1) AND 0x7F]"] encode_varint_loop_leb128 [OF nz]
    by simp
qed

section \<open>Reading from a buffer\<close>

definition src :: "bytes \<Rightarrow> bytes \<Rightarrow> string option \<Rightarrow> bytes pb_istream" where
  "src bs rest e = \<lparr>icallback = buf_read, is_buf_read = True, istate = bs @ rest, bytes_left = length bs, ierrmsg = e\<rparr>"

lemma istream_from_buffer_src:
  "n \<le> length b \<Longrightarrow> pb_istream_from_buffer b n = src (take n b) (drop n b) None"
  by (simp add: pb_istream_from_buffer_def src_def)

lemma src_sel [simp]: "bytes_left (src bs rest e) = length bs" "is_buf_read (src bs rest e)"
  by (simp_all add: src_def)

lemma readbyte_src [simp]: "pb_readbyte (src (b # bs) rest e) = (Some b, src bs rest e)"
  by (simp add: pb_readbyte_def src_def buf_read_def)

lemma read_src:
  "n \<le> length bs \<Longrightarrow> pb_read nul n (src bs rest e) = (Some (take n bs), src (drop n bs) rest e)"
  by (auto simp: pb_read_def pb_read_callback_def src_def buf_read_def)

lemma read_src_append [simp]:
  "pb_read nul (length as) (src (as @ bs) rest e) = (Some as, src bs rest e)"
  by (simp add: read_src)

lemma push_bit_accumulate:
  fixes r x :: "'a::len word"
  assumes "unat r < 2 ^ k" "unat r + unat x * 2 ^ k < 2 ^ LENGTH('a)"
  shows "unat (r OR push_bit k x) = unat r + unat x * 2 ^ k"
  using assms unat_push_bit_or [of r k x] by (simp add: or.commute add.commute)

lemma unat_ucast_7f: "unat (ucast (b AND 0x7F) :: 'a::len word) = unat b mod 128" if "8 \<le> LENGTH('a)" for b :: u8
  using that by (simp add: unat_ucast_up unat_u8_and_7f)

text \<open>One step of a varint reader: a continuation byte, and the last byte.\<close>

lemma varint_byte:
  "n < 128 \<Longrightarrow> unat (word_of_nat n :: u8) = n" "unat (word_of_nat (128 + n mod 128) :: u8) = 128 + n mod 128"
  by simp_all

lemma varint_step:
  fixes r :: "'a::len word"
  assumes "unat r < 2 ^ k" "unat r + n * 2 ^ k < 2 ^ LENGTH('a)" "\<not> n < 128" "8 \<le> LENGTH('a)"
  defines "r' \<equiv> r OR push_bit k (ucast ((word_of_nat (128 + n mod 128) :: u8) AND 0x7F))"
  shows "unat r' < 2 ^ (k + 7)" "unat r' + n div 128 * 2 ^ (k + 7) = unat r + n * 2 ^ k" "k + 7 < LENGTH('a)"
proof -
  define m where "m = n mod 128"
  have m: "m < 128" "m \<le> n" "n = n div 128 * 128 + m" by (simp_all add: m_def)
  have x: "unat (ucast ((word_of_nat (128 + m) :: u8) AND 0x7F) :: 'a word) = m"
    using m(1) assms(4) by (simp add: unat_ucast_7f)
  have "unat r + m * 2 ^ k \<le> unat r + n * 2 ^ k" using m by simp
  then have "unat r + m * 2 ^ k < 2 ^ LENGTH('a)" using assms(2) by (rule le_less_trans)
  then have r': "unat r' = unat r + m * 2 ^ k"
    unfolding r'_def using assms(1) x by (simp only: m_def [symmetric]) (simp add: push_bit_accumulate)
  have "unat r' < 2 ^ k + m * 2 ^ k" using r' assms(1) by simp
  also have "\<dots> \<le> 2 ^ k * 128" using m(1) mult_le_mono1 [of "m + 1" 128 "2 ^ k"] by (simp add: algebra_simps)
  finally show "unat r' < 2 ^ (k + 7)" by (simp add: power_add)
  have "n * 2 ^ k = n div 128 * 2 ^ (k + 7) + m * 2 ^ k"
    by (subst m(3)) (simp add: power_add algebra_simps)
  then show total: "unat r' + n div 128 * 2 ^ (k + 7) = unat r + n * 2 ^ k" using r' by simp
  show "k + 7 < LENGTH('a)"
  proof (rule ccontr)
    assume "\<not> k + 7 < LENGTH('a)"
    then have "(2 :: nat) ^ LENGTH('a) \<le> 2 ^ (k + 7)" by (intro power_increasing) simp_all
    also have "\<dots> \<le> n div 128 * 2 ^ (k + 7)" using assms(3) by simp
    finally show False using total assms(2) by linarith
  qed
qed

lemma varint_last:
  fixes r :: "'a::len word"
  assumes "unat r < 2 ^ k" "unat r + n * 2 ^ k < 2 ^ LENGTH('a)" "n < 128" "8 \<le> LENGTH('a)"
  shows "r OR push_bit k (ucast ((word_of_nat n :: u8) AND 0x7F)) = word_of_nat (unat r + n * 2 ^ k)"
proof -
  have "unat (ucast ((word_of_nat n :: u8) AND 0x7F) :: 'a word) = n"
    using assms(3,4) by (simp add: unat_ucast_7f)
  then have "unat (r OR push_bit k (ucast ((word_of_nat n :: u8) AND 0x7F))) = unat r + n * 2 ^ k"
    using push_bit_accumulate [OF assms(1)] assms(2) by simp
  then show ?thesis by (metis word_of_nat_unat)
qed

lemma decode_varint_loop_leb128:
  assumes "unat r < 2 ^ k" "unat r + n * 2 ^ k < 2 ^ 64" "k < 64"
  shows "decode_varint_loop k r (src (leb128 n @ bs) rest e) = (Some (word_of_nat (unat r + n * 2 ^ k)), src bs rest e)"
  using assms
proof (induction n arbitrary: k r rule: leb128.induct)
  case (1 n)
  show ?case
  proof (cases "n < 128")
    case True
    then show ?thesis
      using varint_last [of r k n] "1.prems" varint_byte(1) [OF True]
      by (subst decode_varint_loop.simps) (simp add: leb128.simps [of n] Let_def u8_and_80)
  next
    case False
    let ?b = "word_of_nat (128 + n mod 128) :: u8"
    note S = varint_step [of r k n, OF _ _ False, simplified, OF "1.prems"(1)]
    have "decode_varint_loop k r (src (leb128 n @ bs) rest e) =
        decode_varint_loop (k + 7) (r OR push_bit k (ucast (?b AND 0x7F))) (src (leb128 (n div 128) @ bs) rest e)"
      using False "1.prems"(3) varint_byte(2) [of n]
      by (subst decode_varint_loop.simps) (simp add: leb128.simps [of n] Let_def u8_and_80)
    also have "\<dots> = (Some (word_of_nat (unat r + n * 2 ^ k)), src bs rest e)"
      using "1.IH" [OF False, of "r OR push_bit k (ucast (?b AND 0x7F))" "k + 7"] S "1.prems"(2) by simp
    finally show ?thesis .
  qed
qed

lemma decode_varint_leb128:
  "pb_decode_varint (src (leb128 (unat v) @ bs) rest e) = (Some v, src bs rest e)"
  using decode_varint_loop_leb128 [of 0 0 "unat v" bs rest e] unat_u64_bound [of v]
  by (simp add: pb_decode_varint_def)

text \<open>The 32-bit reader on an encoding of a number below \<open>2 ^ 32\<close>; the position never reaches 36 there.\<close>

lemma last_varint32_byte:
  assumes "n * 2 ^ k < 2 ^ 32" "k < 32" "word_of_nat k + 7 = (35 :: u8)" "n < 128"
  shows "(word_of_nat n :: u8) AND 0x70 = 0"
proof -
  have "unat (word_of_nat k + 7 :: u8) = k + 7" using assms(2) by (simp add: unat_word_ariths)
  then have "k = 28" using assms(3) by simp
  then have "n < 16" using assms(1) by simp
  then have "push_bit 4 7 AND (word_of_nat n :: u8) = 0" by (intro push_bit_and_small) simp
  then show ?thesis by (simp add: and.commute push_bit_eq_mult)
qed

lemma varint32_pos:
  assumes "k < 32"
  shows "\<not> (32 \<le> (word_of_nat k :: u8))" "unat (word_of_nat k :: u8) = k" "word_of_nat k + 7 = (word_of_nat (k + 7) :: u8)"
  using assms by (simp_all add: word_le_nat_alt of_nat_add)

lemma decode_varint32_loop_leb128:
  assumes "unat r < 2 ^ k" "unat r + n * 2 ^ k < 2 ^ 32" "k < 32"
  shows "\<exists>byte bitpos. decode_varint32_loop (word_of_nat k) r (src (leb128 n @ bs) rest e) =
      (Some (word_of_nat (unat r + n * 2 ^ k), byte, bitpos), src bs rest e) \<and>
    (bitpos = 35 \<longrightarrow> byte AND 0x70 = 0)"
  using assms
proof (induction n arbitrary: k r rule: leb128.induct)
  case (1 n)
  note pos = varint32_pos [OF "1.prems"(3)]
  show ?case
  proof (cases "n < 128")
    case True
    have "decode_varint32_loop (word_of_nat k) r (src (leb128 n @ bs) rest e) =
        (Some (word_of_nat (unat r + n * 2 ^ k), word_of_nat n, word_of_nat k + 7), src bs rest e)"
      using True pos(1,2) varint_last [of r k n] "1.prems" varint_byte(1) [OF True]
      by (subst decode_varint32_loop.simps) (simp add: leb128.simps [of n] Let_def u8_and_80)
    moreover have "n * 2 ^ k < 2 ^ 32" using "1.prems"(2) by linarith
    ultimately show ?thesis using last_varint32_byte [OF _ "1.prems"(3) _ True] by blast
  next
    case False
    let ?b = "word_of_nat (128 + n mod 128) :: u8"
    note S = varint_step [of r k n, OF _ _ False, simplified, OF "1.prems"(1)]
    have "decode_varint32_loop (word_of_nat k) r (src (leb128 n @ bs) rest e) =
        decode_varint32_loop (word_of_nat k + 7) (r OR push_bit k (ucast (?b AND 0x7F))) (src (leb128 (n div 128) @ bs) rest e)"
      using False pos(1,2) varint_byte(2) [of n]
      by (subst decode_varint32_loop.simps) (simp add: leb128.simps [of n] Let_def u8_and_80)
    with "1.IH" [OF False, of "r OR push_bit k (ucast (?b AND 0x7F))" "k + 7"] S "1.prems"(2) pos(3)
    show ?thesis by simp
  qed
qed

lemma decode_varint32_eof_leb128:
  assumes "n < 2 ^ 32"
  shows "pb_decode_varint32_eof (src (leb128 n @ bs) rest e) = ((Some (word_of_nat n), src bs rest e), False)"
proof (cases "n < 128")
  case True
  have "unat (ucast (word_of_nat n :: u8) :: u32) = n" using True by (simp add: unat_ucast_up)
  then have "(ucast (word_of_nat n :: u8) :: u32) = word_of_nat n" by (metis word_of_nat_unat)
  then show ?thesis
    using True by (simp add: pb_decode_varint32_eof_def leb128.simps [of n] u8_and_80)
next
  case False
  let ?b = "word_of_nat (128 + n mod 128) :: u8"
  note S = varint_step [of "0 :: u32" 0 n, OF _ _ False, simplified] and b = varint_byte(2) [of n]
  obtain byte bitpos where "decode_varint32_loop 7 (ucast (?b AND 0x7F)) (src (leb128 (n div 128) @ bs) rest e) =
      (Some (word_of_nat n, byte, bitpos), src bs rest e)" "bitpos = 35 \<longrightarrow> byte AND 0x70 = 0"
    using decode_varint32_loop_leb128 [of "ucast (?b AND 0x7F)" 7 "n div 128" bs rest e] S assms by auto
  then show ?thesis
    using False b by (auto simp: pb_decode_varint32_eof_def leb128.simps [of n] u8_and_80)
qed

lemma decode_varint32_leb128:
  "n < 2 ^ 32 \<Longrightarrow> pb_decode_varint32 (src (leb128 n @ bs) rest e) = (Some (word_of_nat n), src bs rest e)"
  by (simp add: pb_decode_varint32_def decode_varint32_eof_leb128)

section \<open>Zigzag, fixed-width values, tags and strings\<close>

lemma zigzag_bits:
  "bit (zigzag v) 0 \<longleftrightarrow> sint v < 0"
  "(if zigzag v AND 1 \<noteq> 0 then NOT (drop_bit 1 (zigzag v)) else drop_bit 1 (zigzag v)) = v"
proof -
  have last: "bit v 63 \<longleftrightarrow> sint v < 0" using bit_last_iff [of v] by simp
  show 0: "bit (zigzag v) 0 \<longleftrightarrow> sint v < 0"
    by (simp add: zigzag_def bit_0)
  have "zigzag v AND 1 \<noteq> 0 \<longleftrightarrow> sint v < 0"
    using and_exp_eq_0_iff_not_bit [of "zigzag v" 0] 0 by simp
  moreover have "NOT (drop_bit 1 (NOT (push_bit 1 v))) = v" if "bit v 63"
  proof (rule bit_word_eqI)
    fix i assume "i < LENGTH(64)"
    then show "bit (NOT (drop_bit 1 (NOT (push_bit 1 v)))) i = bit v i"
      using that by (cases "i = 63") (auto simp: bit_simps simp del: push_bit_Suc drop_bit_Suc)
  qed
  moreover have "drop_bit 1 (push_bit 1 v) = v" if "\<not> bit v 63"
  proof (rule bit_word_eqI)
    fix i assume "i < LENGTH(64)"
    then show "bit (drop_bit 1 (push_bit 1 v)) i = bit v i"
      using that by (cases "i = 63") (auto simp: bit_simps simp del: push_bit_Suc drop_bit_Suc)
  qed
  ultimately show "(if zigzag v AND 1 \<noteq> 0 then NOT (drop_bit 1 (zigzag v)) else drop_bit 1 (zigzag v)) = v"
    using last by (simp add: zigzag_def)
qed

lemma emits_svarint: "emits (pb_encode_svarint v) (leb128 (unat (zigzag v)))"
proof -
  have "pb_encode_svarint v = (pb_encode_varint (zigzag v) :: bytes pb_ostream \<Rightarrow> _)"
    by (intro ext) (simp add: pb_encode_svarint_def)
  then show ?thesis by (simp add: emits_varint)
qed

lemma decode_svarint_leb128:
  "pb_decode_svarint (src (leb128 (unat (zigzag v)) @ bs) rest e) = (Some v, src bs rest e)"
  using zigzag_bits(2) [of v] by (simp add: pb_decode_svarint_def decode_varint_leb128)

lemma le_byte: "(ucast (drop_bit k v AND 0xFF) :: u8) = word_of_nat (unat v div 2 ^ k)" for v :: "'a::len word"
proof -
  have "(0xFF :: 'a word) = mask 8" by (simp add: mask_eq_exp_minus_1)
  then have "unat (drop_bit k v AND 0xFF) = unat v div 2 ^ k mod 256"
    by (simp only: unat_and_mask unat_drop_bit) simp
  then show ?thesis by (simp add: word_unat_eq_iff unat_ucast)
qed

lemma le_bytes_map: "le_bytes n v = map (\<lambda>i. word_of_nat (v div 2 ^ (8 * i))) [0..<n]"
proof (induction n arbitrary: v)
  case (Suc n)
  have "[0..<Suc n] = 0 # map Suc [0..<n]" by (simp only: upt_conv_Cons zero_less_Suc map_Suc_upt)
  moreover have "v div 256 div 2 ^ (8 * i) = v div 2 ^ (8 * Suc i)" for i
    by (simp add: div_mult2_eq power_add)
  ultimately show ?case using Suc by (simp only: le_bytes.simps list.map map_map comp_def) simp
qed simp

lemma le_bytes_4_8:
  "le_bytes 4 n = [word_of_nat n, word_of_nat (n div 2 ^ 8), word_of_nat (n div 2 ^ 16), word_of_nat (n div 2 ^ 24)]"
  "le_bytes 8 n = [word_of_nat n, word_of_nat (n div 2 ^ 8), word_of_nat (n div 2 ^ 16), word_of_nat (n div 2 ^ 24),
     word_of_nat (n div 2 ^ 32), word_of_nat (n div 2 ^ 40), word_of_nat (n div 2 ^ 48), word_of_nat (n div 2 ^ 56)]"
  unfolding le_bytes_map by (simp_all add: upt_conv_Cons del: upt_Suc)

lemma le_byte_0: "(ucast (v AND 0xFF) :: u8) = word_of_nat (unat v)" for v :: "'a::len word"
  using le_byte [of 0 v] by (simp only: drop_bit_0 power_0 div_by_1 id_apply)

lemma emits_fixed32: "emits (pb_encode_fixed32 v) (le_bytes 4 (unat v))"
proof -
  have "pb_encode_fixed32 v = (pb_write (le_bytes 4 (unat v)) 4 :: bytes pb_ostream \<Rightarrow> _)"
    by (intro ext) (simp only: pb_encode_fixed32_def le_byte le_byte_0 unat_drop_bit le_bytes_4_8)
  then show ?thesis using emits_write_all [of "le_bytes 4 (unat v)"] by simp
qed

lemma emits_fixed64: "emits (pb_encode_fixed64 v) (le_bytes 8 (unat v))"
proof -
  have "pb_encode_fixed64 v = (pb_write (le_bytes 8 (unat v)) 8 :: bytes pb_ostream \<Rightarrow> _)"
    by (intro ext) (simp only: pb_encode_fixed64_def le_byte le_byte_0 unat_drop_bit le_bytes_4_8)
  then show ?thesis using emits_write_all [of "le_bytes 8 (unat v)"] by simp
qed

text \<open>The readers of fixed-width values put the bytes together again.\<close>

lemma le_word_step:
  fixes r :: "'a::len word"
  assumes "unat r < 2 ^ k" "k + 8 \<le> LENGTH('a)"
  shows "r OR push_bit k (ucast (b :: u8)) = word_of_nat (unat r + unat b * 2 ^ k)"
    "unat r + unat b * 2 ^ k < 2 ^ (k + 8)"
proof -
  have "unat r + unat b * 2 ^ k < 2 ^ k + unat b * 2 ^ k" using assms(1) by simp
  also have "\<dots> \<le> 256 * 2 ^ k" using mult_le_mono1 [of "unat b + 1" 256 "2 ^ k"] unat_u8_bound [of b] by (simp add: algebra_simps del: unat_u8_bound)
  finally show lt: "unat r + unat b * 2 ^ k < 2 ^ (k + 8)" by (simp add: power_add)
  also have "\<dots> \<le> 2 ^ LENGTH('a)" using assms(2) by (intro power_increasing) simp_all
  finally have "unat r + unat b * 2 ^ k < 2 ^ LENGTH('a)" .
  moreover have "unat (ucast b :: 'a word) = unat b" using assms(2) by (intro unat_ucast_up) simp
  ultimately have "unat (r OR push_bit k (ucast b)) = unat r + unat b * 2 ^ k"
    using push_bit_accumulate [OF assms(1), of "ucast b"] by simp
  then show "r OR push_bit k (ucast b) = word_of_nat (unat r + unat b * 2 ^ k)" by (metis word_of_nat_unat)
qed

lemma le_word_bound:
  fixes r :: "'a::len word"
  assumes "unat r < 2 ^ k" "k + 8 \<le> LENGTH('a)"
  shows "unat (r OR push_bit k (ucast (b :: u8))) = unat r + unat b * 2 ^ k"
    "unat (r OR push_bit k (ucast b)) < 2 ^ (k + 8)"
proof -
  note S = le_word_step [OF assms, of b]
  have "unat r + unat b * 2 ^ k < 2 ^ LENGTH('a)"
    using S(2) power_increasing [OF assms(2), of "2 :: nat"] by (rule less_le_trans) simp
  then show "unat (r OR push_bit k (ucast b)) = unat r + unat b * 2 ^ k"
    unfolding S(1) by (simp add: unat_of_nat)
  with S(2) show "unat (r OR push_bit k (ucast b)) < 2 ^ (k + 8)" by simp
qed

fun le_or :: "nat \<Rightarrow> bytes \<Rightarrow> 'a::len word \<Rightarrow> 'a word" where
  "le_or k [] r = r"
| "le_or k (b # bs) r = le_or (k + 8) bs (r OR push_bit k (ucast b))"

lemma le_or_le_nat:
  assumes "unat r < 2 ^ k" "k + 8 * length bs \<le> LENGTH('a)"
  shows "unat (le_or k bs (r :: 'a::len word)) = unat r + le_nat bs * 2 ^ k"
  using assms
proof (induction bs arbitrary: k r)
  case (Cons b bs)
  have "unat r < 2 ^ k" "k + 8 \<le> LENGTH('a)" using Cons.prems by simp_all
  note B = le_word_bound [OF this, of b]
  have "unat (le_or (k + 8) bs (r OR push_bit k (ucast b))) = unat (r OR push_bit k (ucast b)) + le_nat bs * 2 ^ (k + 8)"
    using Cons.prems B(2) by (intro Cons.IH) simp_all
  also have "\<dots> = unat r + le_nat (b # bs) * 2 ^ k" unfolding B(1) by (simp add: power_add algebra_simps)
  finally show ?case by simp
qed simp

lemma decode_fixed32_le:
  assumes "length bs = 4"
  shows "pb_decode_fixed32 (src (bs @ cs) rest e) = (Some (word_of_nat (le_nat bs)), src cs rest e)"
proof -
  obtain b0 b1 b2 b3 where bs: "bs = [b0, b1, b2, b3]"
    using assms by (auto simp: numeral_eq_Suc length_Suc_conv)
  have "unat (le_or 0 bs (0 :: u32)) = le_nat bs" using le_or_le_nat [of "0 :: u32" 0 bs] bs by simp
  then have "le_or 0 bs (0 :: u32) = word_of_nat (le_nat bs)" by (metis word_of_nat_unat)
  then show ?thesis
    using read_src [of 4 "bs @ cs" False rest e] assms by (simp add: pb_decode_fixed32_def bs or.assoc)
qed

lemma decode_fixed64_le:
  assumes "length bs = 8"
  shows "pb_decode_fixed64 (src (bs @ cs) rest e) = (Some (word_of_nat (le_nat bs)), src cs rest e)"
proof -
  obtain b0 b1 b2 b3 b4 b5 b6 b7 where bs: "bs = [b0, b1, b2, b3, b4, b5, b6, b7]"
    using assms by (auto simp: numeral_eq_Suc length_Suc_conv)
  have "unat (le_or 0 bs (0 :: u64)) = le_nat bs" using le_or_le_nat [of "0 :: u64" 0 bs] bs by simp
  then have "le_or 0 bs (0 :: u64) = word_of_nat (le_nat bs)" by (metis word_of_nat_unat)
  then show ?thesis
    using read_src [of 8 "bs @ cs" False rest e] assms by (simp add: pb_decode_fixed64_def bs or.assoc)
qed

lemma emits_tag:
  assumes "unat wt < 8"
  shows "emits (pb_encode_tag wt num) (leb128 (unat num * 8 + unat wt))"
proof -
  have n: "unat (ucast num :: u64) = unat num" "unat (ucast wt :: u64) = unat wt" by (simp_all add: unat_ucast_up)
  have lt: "unat num < 2 ^ 32" using unsigned_less [of num] by simp
  have "unat (push_bit 3 (ucast num) OR ucast wt :: u64) = unat num * 8 + unat wt"
    using assms n lt by (subst unat_push_bit_or) simp_all
  then show ?thesis
    using emits_varint [of "push_bit 3 (ucast num) OR ucast wt"]
    by (simp add: pb_encode_tag_def [abs_def])
qed

lemma decode_tag_leb128:
  assumes "unat wt < 8" "unat num < 2 ^ 29" "unat num * 8 + unat wt \<noteq> 0"
  shows "pb_decode_tag (src (leb128 (unat num * 8 + unat wt) @ bs) rest e) = ((Some (wt, num), src bs rest e), False)"
proof -
  define n where "n = unat num * 8 + unat wt"
  have n: "n < 2 ^ 32" using assms(1,2) by (simp add: n_def)
  have u: "unat (word_of_nat n :: u32) = n" using n by (simp add: unat_of_nat)
  have "unat (word_of_nat n AND 7 :: u32) = unat wt"
    using unat_and_mask [of "word_of_nat n :: u32" 3] u assms(1) by (simp add: mask_eq_exp_minus_1 n_def)
  moreover have "unat (drop_bit 3 (word_of_nat n :: u32)) = unat num"
    using u assms(1) by (simp add: unat_drop_bit n_def)
  moreover have "(word_of_nat n :: u32) \<noteq> 0" using u assms(3) by (metis n_def unat_0)
  ultimately show ?thesis
    using decode_varint32_eof_leb128 [OF n, of bs rest e]
    by (simp add: pb_decode_tag_def word_unat_eq_iff flip: n_def)
qed

lemma emits_string:
  assumes "length data < 2 ^ 64"
  shows "emits (pb_encode_string data (length data)) (leb128 (length data) @ data)"
proof -
  have "unat (word_of_nat (length data) :: u64) = length data" using assms by (simp add: unat_of_nat)
  then show ?thesis
    using emits_bind [OF emits_varint [of "word_of_nat (length data)"] emits_write_all [of data]]
    by (simp add: pb_encode_string_def [abs_def])
qed

text \<open>A string becomes a substream over its contents, and closing that leaves the stream behind it.\<close>

lemma make_string_substream_leb128:
  assumes "length data < 2 ^ 32"
  shows "pb_make_string_substream (src (leb128 (length data) @ data @ bs) rest e) =
    (Some (src data (bs @ rest) e), src bs rest e \<lparr>istate := data @ bs @ rest\<rparr>)"
proof -
  have "unat (word_of_nat (length data) :: u32) = length data" using assms by (simp add: unat_of_nat)
  then show ?thesis
    by (simp add: pb_make_string_substream_def decode_varint32_leb128 [OF assms]) (simp add: src_def)
qed

lemma close_string_substream_src:
  "pb_close_string_substream (src left (bs @ rest) e') (src bs rest e \<lparr>istate := any\<rparr>) = (Some (), src bs rest e')"
  using read_src [of "length left" left True "bs @ rest" e']
  by (simp add: pb_close_string_substream_def src_def)

lemma skip_varint_leb128: "pb_skip_varint (src (leb128 n @ bs) rest e) = (Some (), src bs rest e)"
proof (induction n rule: leb128.induct)
  case (1 n)
  have r: "pb_read False (Suc 0) (src (b # cs) rest e) = (Some [b], src cs rest e)" for b cs
    using read_src [of 1 "b # cs" False rest e] by simp
  show ?case
  proof (cases "n < 128")
    case True
    then show ?thesis by (subst pb_skip_varint.simps) (simp add: leb128.simps [of n] r u8_and_80)
  next
    case False
    then show ?thesis
      using 1 varint_byte(2) [of n] by (subst pb_skip_varint.simps) (simp add: leb128.simps [of n] r u8_and_80)
  qed
qed

lemma skip_string_leb128:
  assumes "length data < 2 ^ 32"
  shows "pb_skip_string (src (leb128 (length data) @ data @ bs) rest e) = (Some (), src bs rest e)"
proof -
  have "unat (word_of_nat (length data) :: u32) = length data" using assms by (simp add: unat_of_nat)
  then show ?thesis by (simp add: pb_skip_string_def decode_varint32_leb128 [OF assms])
qed

definition istream_ok :: "bytes pb_istream \<Rightarrow> bool" where
  "istream_ok s \<longleftrightarrow> icallback s = buf_read \<and> is_buf_read s \<and> bytes_left s \<le> length (istate s)"

interpretation pb_source: byte_source "\<lambda>s n. pb_read False n s" "\<lambda>s. take (bytes_left s) (istate s)" istream_ok
  by unfold_locales
    (auto simp: istream_ok_def pb_read_def pb_read_callback_def buf_read_def min_def drop_take
      split: if_splits)


section \<open>Streams stay in bounds, writers and readers agree\<close>

text \<open>C14: an output stream over a buffer of \<open>max_size\<close> bytes never stores more than that, whatever is written
  and whether the write succeeds or not; the count kept is the number of bytes stored.\<close>

theorem pb_write_in_bounds:
  assumes "ocallback s = Some buf_write" "length (ostate s) = bytes_written s" "bytes_written s \<le> max_size s"
    and "max_size s < 2 ^ 64" "count \<le> length buffer" "count < 2 ^ 64"
  shows "length (ostate (snd (pb_write buffer count s))) = bytes_written (snd (pb_write buffer count s)) \<and>
    bytes_written (snd (pb_write buffer count s)) \<le> max_size s \<and>
    (fst (pb_write buffer count s) = Some () \<longleftrightarrow> bytes_written s + count \<le> max_size s)"
proof -
  have lt: "bytes_written s < 2 ^ 64" using assms(3,4) by simp
  note wrap = size_add_no_wrap [OF lt assms(6)]
  show ?thesis
  proof (cases "bytes_written s + count \<le> max_size s")
    case True
    then have "bytes_written s + count < 2 ^ 64" using assms(4) by simp
    with True wrap show ?thesis
      using assms by (cases "count = 0") (simp_all add: pb_write_def buf_write_def)
  next
    case False
    then have "count > 0" using assms(3) by simp
    moreover have "size_add (bytes_written s) count < bytes_written s \<or> size_add (bytes_written s) count > max_size s"
      using False wrap by (cases "bytes_written s + count < 2 ^ 64") auto
    ultimately show ?thesis using False assms by (simp add: pb_write_def pb_set_oerror_def)
  qed
qed

theorem pb_write_in_bounds_witness:
  "fst (pb_write [1, 2, 3] 3 (pb_ostream_from_buffer 2)) \<noteq> Some () \<and>
    bytes_written (snd (pb_write [1, 2, 3] 3 (pb_ostream_from_buffer 2))) \<le> 2"
  using pb_write_in_bounds [of "pb_ostream_from_buffer 2" 3 "[1, 2, 3]"]
  by (simp add: pb_ostream_from_buffer_def)

lemma emits_to_buffer:
  assumes "emits f bs" "length bs \<le> n" "n < 2 ^ 63"
  shows "f (pb_ostream_from_buffer n) =
    (Some (), \<lparr>ocallback = Some buf_write, ostate = bs, max_size = n, bytes_written = length bs, oerrmsg = None\<rparr>)"
proof -
  have "ostream_ok (pb_ostream_from_buffer n)" "fits bs (pb_ostream_from_buffer n)"
    using assms by (simp_all add: ostream_ok_def fits_def pb_ostream_from_buffer_def)
  with emitsD(1) [OF assms(1)] assms(2,3) show ?thesis
    by (simp add: after_def pb_ostream_from_buffer_def size_add_small)
qed

lemma istream_whole: "pb_istream_from_buffer b (length b) = src b [] None"
  by (simp add: pb_istream_from_buffer_def src_def)

text \<open>C15: ten bytes of buffer are enough for every 64-bit varint, and \<open>pb_decode_varint\<close> reads back the value
  and stops at the byte behind it.\<close>

theorem pb_varint_roundtrip:
  "\<exists>s t. pb_encode_varint v (pb_ostream_from_buffer 10) = (Some (), s) \<and>
    pb_decode_varint (pb_istream_from_buffer (ostate s @ r) (length (ostate s @ r))) = (Some v, t) \<and>
    istate t = r \<and> bytes_left t = length r"
  using emits_to_buffer [OF emits_varint, of v 10] length_leb128_u64 [of v] decode_varint_leb128 [of v r "[]" None]
  by (auto simp: istream_whole simp flip: length_append) (simp add: src_def)

text \<open>Zigzag: every \<open>int64_t\<close> written by \<open>pb_encode_svarint\<close> is read back by \<open>pb_decode_svarint\<close>.\<close>

theorem pb_svarint_roundtrip:
  "\<exists>s t. pb_encode_svarint v (pb_ostream_from_buffer 10) = (Some (), s) \<and>
    pb_decode_svarint (pb_istream_from_buffer (ostate s @ r) (length (ostate s @ r))) = (Some v, t) \<and>
    istate t = r \<and> bytes_left t = length r"
  using emits_to_buffer [OF emits_svarint, of v 10] length_leb128_u64 [of "zigzag v"]
    decode_svarint_leb128 [of v r "[]" None]
  by (auto simp: istream_whole simp flip: length_append) (simp add: src_def)


text \<open>A field tag written by \<open>pb_encode_tag\<close> comes back from \<open>pb_decode_tag\<close> as the same wire type and
  field number, without a false end of file.\<close>

theorem pb_tag_roundtrip:
  assumes "unat wt < 8" "unat num < 2 ^ 29" "num \<noteq> 0"
  shows "\<exists>s t. pb_encode_tag wt num (pb_ostream_from_buffer 10) = (Some (), s) \<and>
    pb_decode_tag (pb_istream_from_buffer (ostate s @ r) (length (ostate s @ r))) = ((Some (wt, num), t), False) \<and>
    istate t = r \<and> bytes_left t = length r"
proof -
  have nz: "unat num * 8 + unat wt \<noteq> 0" using assms(3) by (simp add: unat_0_iff)
  have "unat num * 8 + unat wt < 128 ^ 10" using assms(1,2) by simp
  from length_leb128 [OF this] have "length (leb128 (unat num * 8 + unat wt)) \<le> 10" by simp
  with emits_to_buffer [OF emits_tag [OF assms(1)], of num 10] decode_tag_leb128 [OF assms(1,2) nz, of r "[]" None]
  show ?thesis by (auto simp: istream_whole simp flip: length_append) (simp add: src_def)
qed

theorem pb_tag_roundtrip_witness:
  "\<exists>s t. pb_encode_tag PB_WT_STRING 1000 (pb_ostream_from_buffer 10) = (Some (), s) \<and>
    pb_decode_tag (pb_istream_from_buffer (ostate s @ [7]) (length (ostate s @ [7]))) = ((Some (PB_WT_STRING, 1000), t), False) \<and>
    istate t = [7] \<and> bytes_left t = length [7 :: u8]"
  using pb_tag_roundtrip [of PB_WT_STRING 1000 "[7]"] by (simp add: PB_WT_STRING_def)

text \<open>A string written by \<open>pb_encode_string\<close> is handed out by \<open>pb_make_string_substream\<close> as a substream of
  exactly its bytes, and after \<open>pb_close_string_substream\<close>, however much of it was read, the stream stands
  behind it.\<close>

theorem pb_string_roundtrip:
  assumes "length data < 2 ^ 32"
  shows "\<exists>s sub t. pb_encode_string data (length data) (pb_ostream_from_buffer (length data + 10)) = (Some (), s) \<and>
    pb_make_string_substream (pb_istream_from_buffer (ostate s @ r) (length (ostate s @ r))) = (Some sub, t) \<and>
    take (bytes_left sub) (istate sub) = data \<and>
    (\<forall>n \<le> length data. \<exists>sub' t'. pb_read False n sub = (Some (take n data), sub') \<and>
       pb_close_string_substream sub' t = (Some (), t') \<and> istate t' = r \<and> bytes_left t' = length r)"
proof -
  have "length data < 128 ^ 10" using assms by simp
  from length_leb128 [OF this] have l: "length (leb128 (length data)) \<le> 10" by simp
  have "length data < 2 ^ 64" "length data + 10 < 2 ^ 63" using assms by simp_all
  then have w: "pb_encode_string data (length data) (pb_ostream_from_buffer (length data + 10)) =
      (Some (), \<lparr>ocallback = Some buf_write, ostate = leb128 (length data) @ data, max_size = length data + 10,
         bytes_written = length (leb128 (length data) @ data), oerrmsg = None\<rparr>)"
    using l by (intro emits_to_buffer emits_string) simp_all
  have sub: "pb_make_string_substream (pb_istream_from_buffer ((leb128 (length data) @ data) @ r) (length ((leb128 (length data) @ data) @ r))) =
      (Some (src data (r @ []) None), src r [] None\<lparr>istate := data @ r @ []\<rparr>)"
    unfolding istream_whole using make_string_substream_leb128 [OF assms, of r "[]" None] by simp
  have close: "\<exists>sub' t'. pb_read False n (src data (r @ []) None) = (Some (take n data), sub') \<and>
      pb_close_string_substream sub' (src r [] None\<lparr>istate := data @ r @ []\<rparr>) = (Some (), t') \<and>
      istate t' = r \<and> bytes_left t' = length r" if "n \<le> length data" for n
  proof (intro exI conjI)
    show "pb_read False n (src data (r @ []) None) = (Some (take n data), src (drop n data) (r @ []) None)"
      using that by (rule read_src)
    show "pb_close_string_substream (src (drop n data) (r @ []) None) (src r [] None\<lparr>istate := data @ r @ []\<rparr>) =
        (Some (), src r [] None)"
      by (rule close_string_substream_src)
  qed (simp_all add: src_def)
  have data: "take (bytes_left (src data (r @ []) None)) (istate (src data (r @ []) None)) = data"
    by (simp add: src_def)
  show ?thesis
    by (intro exI, rule conjI, rule w, unfold pb_ostream.select_convs, rule conjI, rule sub, rule conjI, rule data)
      (intro allI impI, rule close)
qed

theorem pb_string_roundtrip_witness:
  "\<exists>s sub t. pb_encode_string [5, 6] (length [5, 6 :: u8]) (pb_ostream_from_buffer (length [5, 6 :: u8] + 10)) = (Some (), s) \<and>
    pb_make_string_substream (pb_istream_from_buffer (ostate s @ [9]) (length (ostate s @ [9]))) = (Some sub, t) \<and>
    take (bytes_left sub) (istate sub) = [5, 6]"
proof -
  have "length [5, 6 :: u8] < 2 ^ 32" by simp
  from pb_string_roundtrip [OF this, of "[9]"] show ?thesis by blast
qed


end
