(* ===== verification/Nanopb_Encode.thy ===== *)
theory Nanopb_Encode
  imports Nanopb_Fields Nanopb_Wire
begin

text \<open>
  The message encoder of \<^verbatim>\<open>pb_encode.c\<close>. It walks the descriptor array of a message and reads
  the message from memory. What the application supplies is in \<open>pb_env\<close>: the memory, the
  descriptor arrays behind \<open>ptr\<close> and \<open>arg\<close> pointers, and the functions behind the pointers in
  callback fields and extension types. The recursion into submessages and along extension lists
  has a bound on its depth; a message nested deeper than the bound makes the model fail.
\<close>

unbundle bit_operations_syntax

section \<open>Environment\<close>

type_synonym 'st encoder = "'st pb_ostream \<Rightarrow> ('st pb_ostream, unit) cres"

record 'st pb_env =
  mem_of :: mem
  descs :: "nat \<Rightarrow> pb_field list"
  encode_cb :: "nat \<Rightarrow> pb_field \<Rightarrow> nat \<Rightarrow> 'st encoder"
  extension_cb :: "nat \<Rightarrow> nat \<Rightarrow> 'st encoder"

text \<open>The \<open>n\<close> bytes at an address, and the little-endian number they hold.\<close>

definition read_bytes :: "mem \<Rightarrow> nat \<Rightarrow> nat \<Rightarrow> bytes" where
  "read_bytes m a n = map (\<lambda>i. m (a + i)) [0..<n]"

definition read_nat :: "mem \<Rightarrow> nat \<Rightarrow> nat \<Rightarrow> nat" where
  "read_nat m a n = le_nat (read_bytes m a n)"

definition read_size :: "mem \<Rightarrow> nat \<Rightarrow> u32" where
  "read_size m a = word_of_nat (read_nat m a 4)"

definition read_ptr :: "mem \<Rightarrow> nat \<Rightarrow> nat" where
  "read_ptr m a = read_nat m a sizeof_ptr"

definition offsetof_bytes :: nat where "offsetof_bytes = 4"

text \<open>An encoder that fails with a message.\<close>

definition enc_error :: "string \<Rightarrow> 'st encoder" where
  "enc_error msg s = fails (pb_set_oerror msg s)"

section \<open>Tags and field values\<close>

definition pb_encode_tag_for_field :: "pb_field \<Rightarrow> 'st encoder" where
  "pb_encode_tag_for_field field s =
     (let lt = PB_LTYPE (ftype field) in
      if lt = PB_LTYPE_BOOL \<or> lt = PB_LTYPE_VARINT \<or> lt = PB_LTYPE_UVARINT \<or> lt = PB_LTYPE_SVARINT
      then pb_encode_tag PB_WT_VARINT (tag field) s
      else if lt = PB_LTYPE_FIXED32 then pb_encode_tag PB_WT_32BIT (tag field) s
      else if lt = PB_LTYPE_FIXED64 then pb_encode_tag PB_WT_64BIT (tag field) s
      else if lt = PB_LTYPE_BYTES \<or> lt = PB_LTYPE_STRING \<or> lt = PB_LTYPE_SUBMESSAGE \<or>
        lt = PB_LTYPE_FIXED_LENGTH_BYTES
      then pb_encode_tag PB_WT_STRING (tag field) s
      else enc_error ''invalid field type'' s)"

definition safe_read_bool :: "mem \<Rightarrow> nat \<Rightarrow> bool" where
  "safe_read_bool m a \<longleftrightarrow> m a \<noteq> 0"

definition pb_enc_bool :: "'st pb_env \<Rightarrow> pb_field \<Rightarrow> nat \<Rightarrow> 'st encoder" where
  "pb_enc_bool env field sp s =
     (let value = (if safe_read_bool (mem_of env) sp then 1 else 0) :: u32 in
      pb_encode_varint (ucast value) s)"

definition pb_enc_varint :: "'st pb_env \<Rightarrow> pb_field \<Rightarrow> nat \<Rightarrow> 'st encoder" where
  "pb_enc_varint env field sp s =
     (let n = unat (data_size field); v = read_nat (mem_of env) sp n in
      if n = 1 then pb_encode_varint (scast (word_of_nat v :: u8)) s
      else if n = 2 then pb_encode_varint (scast (word_of_nat v :: u16)) s
      else if n = 4 then pb_encode_varint (scast (word_of_nat v :: u32)) s
      else if n = 8 then pb_encode_varint (word_of_nat v) s
      else enc_error ''invalid data_size'' s)"

definition pb_enc_uvarint :: "'st pb_env \<Rightarrow> pb_field \<Rightarrow> nat \<Rightarrow> 'st encoder" where
  "pb_enc_uvarint env field sp s =
     (let n = unat (data_size field); v = read_nat (mem_of env) sp n in
      if n = 1 \<or> n = 2 \<or> n = 4 \<or> n = 8 then pb_encode_varint (word_of_nat v) s
      else enc_error ''invalid data_size'' s)"

definition pb_enc_svarint :: "'st pb_env \<Rightarrow> pb_field \<Rightarrow> nat \<Rightarrow> 'st encoder" where
  "pb_enc_svarint env field sp s =
     (let n = unat (data_size field); v = read_nat (mem_of env) sp n in
      if n = 1 then pb_encode_svarint (scast (word_of_nat v :: u8)) s
      else if n = 2 then pb_encode_svarint (scast (word_of_nat v :: u16)) s
      else if n = 4 then pb_encode_svarint (scast (word_of_nat v :: u32)) s
      else if n = 8 then pb_encode_svarint (word_of_nat v) s
      else enc_error ''invalid data_size'' s)"

definition pb_enc_fixed32 :: "'st pb_env \<Rightarrow> pb_field \<Rightarrow> nat \<Rightarrow> 'st encoder" where
  "pb_enc_fixed32 env field sp s = pb_encode_fixed32 (word_of_nat (read_nat (mem_of env) sp 4)) s"

definition pb_enc_fixed64 :: "'st pb_env \<Rightarrow> pb_field \<Rightarrow> nat \<Rightarrow> 'st encoder" where
  "pb_enc_fixed64 env field sp s = pb_encode_fixed64 (word_of_nat (read_nat (mem_of env) sp 8)) s"

definition pb_enc_bytes :: "'st pb_env \<Rightarrow> pb_field \<Rightarrow> nat \<Rightarrow> 'st encoder" where
  "pb_enc_bytes env field sp s =
     (if sp = 0 then pb_encode_string [] 0 s
      else
        let n = unat (read_size (mem_of env) sp) in
        if PB_ATYPE (ftype field) = PB_ATYPE_STATIC \<and>
          n > unat (ucast (data_size field) - word_of_nat offsetof_bytes :: u64)
        then enc_error ''bytes size exceeded'' s
        else pb_encode_string (read_bytes (mem_of env) (sp + offsetof_bytes) n) n s)"

text \<open>The loop that looks for the end of a string, at most \<open>lim\<close> bytes away.\<close>

function string_scan :: "mem \<Rightarrow> nat \<Rightarrow> nat \<Rightarrow> nat \<Rightarrow> nat" where
  "string_scan m p len lim =
     (if len < lim \<and> m (p + len) \<noteq> 0 then string_scan m p (len + 1) lim else len)"
  by pat_completeness auto
termination by (relation "measure (\<lambda>(m, p, len, lim). lim - len)") auto

declare string_scan.simps [simp del]

definition pb_enc_string :: "'st pb_env \<Rightarrow> pb_field \<Rightarrow> nat \<Rightarrow> 'st encoder" where
  "pb_enc_string env field sp s =
     (let lim = (if PB_ATYPE (ftype field) = PB_ATYPE_POINTER then unat (-1 :: u64) else unat (data_size field));
          len = (if sp = 0 then 0 else string_scan (mem_of env) sp 0 lim) in
      pb_encode_string (read_bytes (mem_of env) sp len) len s)"

definition pb_enc_fixed_length_bytes :: "'st pb_env \<Rightarrow> pb_field \<Rightarrow> nat \<Rightarrow> 'st encoder" where
  "pb_enc_fixed_length_bytes env field sp s =
     (let n = unat (data_size field) in pb_encode_string (read_bytes (mem_of env) sp n) n s)"

section \<open>Submessages\<close>

text \<open>\<open>sub\<close> is \<open>pb_encode\<close> on the submessage, which is run twice.\<close>

definition pb_encode_submessage :: "'st encoder \<Rightarrow> 'st encoder" where
  "pb_encode_submessage sub s =
     (case sub (PB_OSTREAM_SIZING (ostate s)) of
        (None, substream) \<Rightarrow> fails (s\<lparr>oerrmsg := oerrmsg substream\<rparr>)
      | (Some _, substream) \<Rightarrow>
          let n = bytes_written substream in
          try_op (pb_encode_varint (word_of_nat n) s) (\<lambda>_ s.
            if ocallback s = None then pb_write [] n s
            else if size_add (bytes_written s) n > max_size s then enc_error ''stream full'' s
            else
              (case sub (substream\<lparr>ocallback := ocallback s, ostate := ostate s, max_size := n,
                  bytes_written := 0, oerrmsg := None\<rparr>) of (status, substream) \<Rightarrow>
                 let s = s\<lparr>bytes_written := size_add (bytes_written s) (bytes_written substream),
                           ostate := ostate substream, oerrmsg := oerrmsg substream\<rparr> in
                 if bytes_written substream \<noteq> n then enc_error ''submsg size changed'' s
                 else (status, s))))"

definition pb_enc_submessage :: "(pb_field list \<Rightarrow> nat \<Rightarrow> 'st encoder) \<Rightarrow> 'st pb_env \<Rightarrow> pb_field \<Rightarrow> nat \<Rightarrow> 'st encoder" where
  "pb_enc_submessage enc env field sp s =
     (if ptr field = 0 then enc_error ''invalid field descriptor'' s
      else pb_encode_submessage (enc (descs env (ptr field)) sp) s)"

text \<open>
  The table \<open>PB_ENCODERS\<close>. Its entry for extensions is a null pointer and there are none behind the
  last one: such a call, which \<open>pb_encode\<close> never makes on a field of a known type, fails here.
\<close>

definition PB_ENCODERS ::
    "(pb_field list \<Rightarrow> nat \<Rightarrow> 'st encoder) \<Rightarrow> 'st pb_env \<Rightarrow> u8 \<Rightarrow> pb_field \<Rightarrow> nat \<Rightarrow> 'st encoder" where
  "PB_ENCODERS enc env lt =
     (if lt = PB_LTYPE_BOOL then pb_enc_bool env
      else if lt = PB_LTYPE_VARINT then pb_enc_varint env
      else if lt = PB_LTYPE_UVARINT then pb_enc_uvarint env
      else if lt = PB_LTYPE_SVARINT then pb_enc_svarint env
      else if lt = PB_LTYPE_FIXED32 then pb_enc_fixed32 env
      else if lt = PB_LTYPE_FIXED64 then pb_enc_fixed64 env
      else if lt = PB_LTYPE_BYTES then pb_enc_bytes env
      else if lt = PB_LTYPE_STRING then pb_enc_string env
      else if lt = PB_LTYPE_SUBMESSAGE then pb_enc_submessage enc env
      else if lt = PB_LTYPE_FIXED_LENGTH_BYTES then pb_enc_fixed_length_bytes env
      else (\<lambda>field sp s. fails s))"

section \<open>Arrays\<close>

text \<open>The loops over the items of an array: \<open>item\<close> encodes the one at an address.\<close>

fun encode_items :: "(nat \<Rightarrow> 'st encoder) \<Rightarrow> nat \<Rightarrow> nat \<Rightarrow> nat \<Rightarrow> 'st encoder" where
  "encode_items item p step 0 s = returns () s"
| "encode_items item p step (Suc n) s =
     try_op (item p s) (\<lambda>_ s. encode_items item (p + step) step n s)"

definition encode_array :: "'st pb_env \<Rightarrow> pb_field \<Rightarrow> nat \<Rightarrow> nat \<Rightarrow> (pb_field \<Rightarrow> nat \<Rightarrow> 'st encoder) \<Rightarrow> 'st encoder" where
  "encode_array env field p count func s =
     (let lt = PB_LTYPE (ftype field); at = PB_ATYPE (ftype field); step = unat (data_size field) in
      if count = 0 then returns () s
      else if at \<noteq> PB_ATYPE_POINTER \<and> count > unat (array_size field)
      then enc_error ''array max size exceeded'' s
      else if lt \<le> PB_LTYPE_LAST_PACKABLE then
        try_op (pb_encode_tag PB_WT_STRING (tag field) s) (\<lambda>_ s.
          let sized =
            (if lt = PB_LTYPE_FIXED32 then Some (size_mult 4 count)
             else if lt = PB_LTYPE_FIXED64 then Some (size_mult 8 count)
             else
               (case encode_items (func field) p step count (PB_OSTREAM_SIZING (ostate s)) of
                  (None, _) \<Rightarrow> None
                | (Some _, sizestream) \<Rightarrow> Some (bytes_written sizestream))) in
          case sized of None \<Rightarrow> fails s | Some total_size \<Rightarrow>
          try_op (pb_encode_varint (word_of_nat total_size) s) (\<lambda>_ s.
            if ocallback s = None then pb_write [] total_size s
            else encode_items (func field) p step count s))
      else
        encode_items
          (\<lambda>q s. try_op (pb_encode_tag_for_field field s) (\<lambda>_ s.
             if at = PB_ATYPE_POINTER \<and> (lt = PB_LTYPE_STRING \<or> lt = PB_LTYPE_BYTES)
             then func field (read_ptr (mem_of env) q) s
             else func field q s))
          p step count s)"

section \<open>Fields\<close>

text \<open>A walk over the fields of a message: the do-while loops around \<open>pb_field_iter_next\<close>.\<close>

function iter_while :: "(pb_field_iter \<Rightarrow> 's \<Rightarrow> ('s, unit) cres) \<Rightarrow> pb_field_iter \<Rightarrow> 's \<Rightarrow> ('s, unit) cres" where
  "iter_while f iter s =
     try_op (f iter s) (\<lambda>_ s.
       if fst (pb_field_iter_next iter) then iter_while f (snd (pb_field_iter_next iter)) s
       else returns () s)"
  by pat_completeness auto
termination
proof (relation "measure (\<lambda>(f, iter, s). length (start iter) - pos iter)")
  fix f :: "pb_field_iter \<Rightarrow> 's \<Rightarrow> ('s, unit) cres" and iter s x xa
  assume "fst (pb_field_iter_next iter)"
  then have "pos iter < length (start iter) \<and> pos (snd (pb_field_iter_next iter)) = Suc (pos iter)"
    by (auto simp: pb_field_iter_next_def Let_def fld_def PB_LAST_FIELD_def split: if_splits)
  then show "((f, snd (pb_field_iter_next iter), xa), f, iter, s) \<in> measure (\<lambda>(f, iter, s). length (start iter) - pos iter)"
    by (auto simp: iter_next_start)
qed simp

declare iter_while.simps [simp del]

text \<open>
  \<open>pb_check_proto3_default_value\<close>, which goes into static submessages; the bound is on their
  nesting. A walk over the fields stops at the first one that is not at its default.
\<close>

fun pb_check_proto3_default_value :: "nat \<Rightarrow> 'st pb_env \<Rightarrow> pb_field \<Rightarrow> nat \<Rightarrow> bool" where
  "pb_check_proto3_default_value 0 env field p = False"
| "pb_check_proto3_default_value (Suc n) env field p =
     (let t = ftype field; m = mem_of env; z = addr_add p (sint (size_offset field));
          rest =
            (if PB_ATYPE t = PB_ATYPE_STATIC \<and> PB_LTYPE t = PB_LTYPE_BYTES then read_size m p = 0
             else if PB_ATYPE t = PB_ATYPE_STATIC \<and> PB_LTYPE t = PB_LTYPE_STRING then m p = 0
             else if PB_ATYPE t = PB_ATYPE_STATIC \<and> PB_LTYPE t = PB_LTYPE_FIXED_LENGTH_BYTES then data_size field = 0
             else if PB_ATYPE t = PB_ATYPE_STATIC \<and> PB_LTYPE t = PB_LTYPE_SUBMESSAGE then
               (case pb_field_iter_begin (descs env (ptr field)) p of (nonempty, iter) \<Rightarrow>
                  if nonempty then
                    fst (iter_while (\<lambda>iter s.
                      if pb_check_proto3_default_value n env (cur iter) (pData iter) then returns () s else fails s)
                      iter ()) \<noteq> None
                  else True)
             else if PB_ATYPE t = PB_ATYPE_POINTER \<and> PB_LTYPE t > PB_LTYPE_LAST_PACKABLE then read_ptr m p = 0
             else (\<forall>b \<in> set (read_bytes m p (unat (data_size field))). b = 0)) in
      if PB_HTYPE t = PB_HTYPE_REQUIRED then False
      else if PB_HTYPE t = PB_HTYPE_REPEATED \<and> size_offset field \<noteq> 0 then read_size m z = 0
      else if PB_HTYPE t = PB_HTYPE_REPEATED \<and> PB_ATYPE t = PB_ATYPE_STATIC then False
      else if PB_HTYPE t = PB_HTYPE_ONEOF then read_size m z = 0
      else if PB_HTYPE t = PB_HTYPE_OPTIONAL \<and> size_offset field \<noteq> 0 then \<not> safe_read_bool m z
      else rest)"

text \<open>
  A oneof always has a \<open>size_offset\<close>, where its \<open>which\<close> member stands; without one the code
  would read four bytes at a local bool, and the model takes the field as absent.
\<close>

definition encode_basic_field ::
    "nat \<Rightarrow> (pb_field list \<Rightarrow> nat \<Rightarrow> 'st encoder) \<Rightarrow> 'st pb_env \<Rightarrow> pb_field \<Rightarrow> nat \<Rightarrow> 'st encoder" where
  "encode_basic_field n enc env field p s =
     (let t = ftype field; m = mem_of env;
          func = PB_ENCODERS enc env (PB_LTYPE t);
          z = addr_add p (sint (size_offset field));
          data = (if PB_ATYPE t = PB_ATYPE_POINTER then read_ptr m p else p);
          implicit_has =
            (if PB_ATYPE t = PB_ATYPE_POINTER then data \<noteq> 0
             else if PB_HTYPE t = PB_HTYPE_OPTIONAL then \<not> pb_check_proto3_default_value n env field p
             else True);
          has = (if size_offset field \<noteq> 0 then safe_read_bool m z else implicit_has);
          value = (\<lambda>s. try_op (pb_encode_tag_for_field field s) (\<lambda>_ s. func field data s)) in
      if PB_HTYPE t = PB_HTYPE_REQUIRED then
        if data = 0 then enc_error ''missing required field'' s else value s
      else if PB_HTYPE t = PB_HTYPE_OPTIONAL then if has then value s else returns () s
      else if PB_HTYPE t = PB_HTYPE_REPEATED then
        encode_array env field data
          (if size_offset field \<noteq> 0 then unat (read_size m z) else unat (array_size field)) func s
      else if PB_HTYPE t = PB_HTYPE_ONEOF then
        if size_offset field \<noteq> 0 \<and> read_size m z = tag field then value s else returns () s
      else enc_error ''invalid field type'' s)"

definition encode_callback_field :: "'st pb_env \<Rightarrow> pb_field \<Rightarrow> nat \<Rightarrow> 'st encoder" where
  "encode_callback_field env field p s =
     (let f = read_ptr (mem_of env) p; arg = p + sizeof_ptr in
      if f \<noteq> 0 then
        (case encode_cb env f field arg s of
           (None, s) \<Rightarrow> enc_error ''callback error'' s
         | (Some _, s) \<Rightarrow> returns () s)
      else returns () s)"

definition encode_field ::
    "nat \<Rightarrow> (pb_field list \<Rightarrow> nat \<Rightarrow> 'st encoder) \<Rightarrow> 'st pb_env \<Rightarrow> pb_field \<Rightarrow> nat \<Rightarrow> 'st encoder" where
  "encode_field n enc env field p s =
     (let at = PB_ATYPE (ftype field) in
      if at = PB_ATYPE_STATIC \<or> at = PB_ATYPE_POINTER then encode_basic_field n enc env field p s
      else if at = PB_ATYPE_CALLBACK then encode_callback_field env field p s
      else enc_error ''invalid field type'' s)"

text \<open>
  \<open>pb_extension_t\<close> holds \<open>type\<close>, \<open>dest\<close> and \<open>next\<close> at offsets 0, 8 and 16;
  \<open>pb_extension_type_t\<close> holds \<open>encode\<close> and \<open>arg\<close> at offsets 8 and 16.
\<close>

definition default_extension_encoder ::
    "nat \<Rightarrow> (pb_field list \<Rightarrow> nat \<Rightarrow> 'st encoder) \<Rightarrow> 'st pb_env \<Rightarrow> nat \<Rightarrow> 'st encoder" where
  "default_extension_encoder n enc env extension s =
     (let m = mem_of env;
          field = fld (descs env (read_ptr m (read_ptr m extension + 16))) 0 in
      if PB_ATYPE (ftype field) = PB_ATYPE_POINTER then encode_field n enc env field (extension + 8) s
      else encode_field n enc env field (read_ptr m (extension + 8)) s)"

fun encode_extension_list ::
    "nat \<Rightarrow> nat \<Rightarrow> (pb_field list \<Rightarrow> nat \<Rightarrow> 'st encoder) \<Rightarrow> 'st pb_env \<Rightarrow> nat \<Rightarrow> 'st encoder" where
  "encode_extension_list 0 n enc env extension s = (if extension = 0 then returns () s else fails s)"
| "encode_extension_list (Suc k) n enc env extension s =
     (if extension = 0 then returns () s
      else
        let m = mem_of env; f = read_ptr m (read_ptr m extension + 8) in
        try_op (if f \<noteq> 0 then extension_cb env f extension s
                else default_extension_encoder n enc env extension s)
          (\<lambda>_ s. encode_extension_list k n enc env (read_ptr m (extension + 16)) s))"

definition encode_extension_field ::
    "nat \<Rightarrow> (pb_field list \<Rightarrow> nat \<Rightarrow> 'st encoder) \<Rightarrow> 'st pb_env \<Rightarrow> nat \<Rightarrow> 'st encoder" where
  "encode_extension_field n enc env p s = encode_extension_list n n enc env (read_ptr (mem_of env) p) s"

section \<open>Messages\<close>

fun pb_encode :: "nat \<Rightarrow> 'st pb_env \<Rightarrow> pb_field list \<Rightarrow> nat \<Rightarrow> 'st encoder" where
  "pb_encode 0 env fs sp s = fails s"
| "pb_encode (Suc n) env fs sp s =
     (case pb_field_iter_begin fs sp of (nonempty, iter) \<Rightarrow>
        if \<not> nonempty then returns () s
        else
          iter_while (\<lambda>iter s.
            if PB_LTYPE (ftype (cur iter)) = PB_LTYPE_EXTENSION
            then encode_extension_field n (pb_encode n env) env (pData iter) s
            else encode_field n (pb_encode n env) env (cur iter) (pData iter) s) iter s)"

definition pb_encode_delimited :: "nat \<Rightarrow> 'st pb_env \<Rightarrow> pb_field list \<Rightarrow> nat \<Rightarrow> 'st encoder" where
  "pb_encode_delimited n env fs sp s = pb_encode_submessage (pb_encode n env fs sp) s"

definition pb_encode_nullterminated :: "nat \<Rightarrow> 'st pb_env \<Rightarrow> pb_field list \<Rightarrow> nat \<Rightarrow> 'st encoder" where
  "pb_encode_nullterminated n env fs sp s =
     try_op (pb_encode n env fs sp s) (\<lambda>_ s. pb_write [0] 1 s)"

definition pb_get_encoded_size :: "nat \<Rightarrow> 'st pb_env \<Rightarrow> 'st \<Rightarrow> pb_field list \<Rightarrow> nat \<Rightarrow> nat option" where
  "pb_get_encoded_size n env null fs sp =
     (case pb_encode n env fs sp (PB_OSTREAM_SIZING null) of
        (None, _) \<Rightarrow> None
      | (Some _, s) \<Rightarrow> Some (bytes_written s))"

end
