(* ===== verification/Nanopb_Message.thy ===== *)
theory Nanopb_Message
  imports Nanopb_Encode
begin

text \<open>
  What \<open>pb_encode\<close> writes. The specification gives the bytes of a message as a function of the
  descriptors and the memory, with no streams, no sizing passes and no limits; \<open>None\<close> stands for
  a message that cannot be encoded. The stream encoder, which sizes every submessage and packed
  array before it writes it, is shown to emit exactly these bytes.
\<close>

unbundle bit_operations_syntax

section \<open>Specification\<close>

record pb_spec =
  cb_bytes :: "nat \<Rightarrow> pb_field \<Rightarrow> nat \<Rightarrow> bytes option"
  ext_bytes :: "nat \<Rightarrow> nat \<Rightarrow> bytes option"

definition cat :: "bytes option \<Rightarrow> bytes option \<Rightarrow> bytes option" where
  "cat x y = (case x of None \<Rightarrow> None | Some a \<Rightarrow> (case y of None \<Rightarrow> None | Some b \<Rightarrow> Some (a @ b)))"

lemma cat_Nil [simp]: "cat x (Some []) = x"
  by (auto simp: cat_def split: option.splits)

definition wire_type :: "u8 \<Rightarrow> u32 option" where
  "wire_type lt =
     (if lt \<in> {PB_LTYPE_BOOL, PB_LTYPE_VARINT, PB_LTYPE_UVARINT, PB_LTYPE_SVARINT} then Some PB_WT_VARINT
      else if lt = PB_LTYPE_FIXED32 then Some PB_WT_32BIT
      else if lt = PB_LTYPE_FIXED64 then Some PB_WT_64BIT
      else if lt \<in> {PB_LTYPE_BYTES, PB_LTYPE_STRING, PB_LTYPE_SUBMESSAGE, PB_LTYPE_FIXED_LENGTH_BYTES}
      then Some PB_WT_STRING else None)"

definition tag_bytes :: "u32 \<Rightarrow> u32 \<Rightarrow> bytes" where
  "tag_bytes wt num = leb128 (unat num * 8 + unat wt)"

definition spec_tag :: "pb_field \<Rightarrow> bytes option" where
  "spec_tag field = map_option (\<lambda>wt. tag_bytes wt (tag field)) (wire_type (PB_LTYPE (ftype field)))"

definition delimited :: "bytes \<Rightarrow> bytes" where
  "delimited bs = leb128 (length bs) @ bs"

definition int_value :: "nat \<Rightarrow> nat \<Rightarrow> u64 option" where
  "int_value n v =
     (if n = 1 then Some (scast (word_of_nat v :: u8)) else if n = 2 then Some (scast (word_of_nat v :: u16))
      else if n = 4 then Some (scast (word_of_nat v :: u32)) else if n = 8 then Some (word_of_nat v) else None)"

definition uint_value :: "nat \<Rightarrow> nat \<Rightarrow> u64 option" where
  "uint_value n v = (if n \<in> {1, 2, 4, 8} then Some (word_of_nat v) else None)"

definition spec_bytes :: "mem \<Rightarrow> pb_field \<Rightarrow> nat \<Rightarrow> bytes option" where
  "spec_bytes m field a =
     (if a = 0 then Some (delimited [])
      else if PB_ATYPE (ftype field) = PB_ATYPE_STATIC \<and>
        unat (read_size m a) > unat (ucast (data_size field) - word_of_nat offsetof_bytes :: u64) then None
      else Some (delimited (read_bytes m (a + offsetof_bytes) (unat (read_size m a)))))"

definition spec_string :: "mem \<Rightarrow> pb_field \<Rightarrow> nat \<Rightarrow> bytes" where
  "spec_string m field a =
     delimited (read_bytes m a (if a = 0 then 0 else string_scan m a 0
       (if PB_ATYPE (ftype field) = PB_ATYPE_POINTER then unat (-1 :: u64) else unat (data_size field))))"

definition spec_value ::
    "(pb_field list \<Rightarrow> nat \<Rightarrow> bytes option) \<Rightarrow> 'st pb_env \<Rightarrow> u8 \<Rightarrow> pb_field \<Rightarrow> nat \<Rightarrow> bytes option" where
  "spec_value sub env lt field a =
     (let m = mem_of env; n = unat (data_size field); v = read_nat m a n in
      if lt = PB_LTYPE_BOOL then Some (leb128 (if safe_read_bool m a then 1 else 0))
      else if lt = PB_LTYPE_VARINT then map_option (\<lambda>w. leb128 (unat w)) (int_value n v)
      else if lt = PB_LTYPE_UVARINT then map_option (\<lambda>w. leb128 (unat w)) (uint_value n v)
      else if lt = PB_LTYPE_SVARINT then map_option (\<lambda>w. leb128 (unat (zigzag w))) (int_value n v)
      else if lt = PB_LTYPE_FIXED32 then Some (read_bytes m a 4)
      else if lt = PB_LTYPE_FIXED64 then Some (read_bytes m a 8)
      else if lt = PB_LTYPE_BYTES then spec_bytes m field a
      else if lt = PB_LTYPE_STRING then Some (spec_string m field a)
      else if lt = PB_LTYPE_SUBMESSAGE then
        (if ptr field = 0 then None else map_option delimited (sub (descs env (ptr field)) a))
      else if lt = PB_LTYPE_FIXED_LENGTH_BYTES then Some (delimited (read_bytes m a n))
      else None)"

fun spec_items :: "(nat \<Rightarrow> bytes option) \<Rightarrow> nat \<Rightarrow> nat \<Rightarrow> nat \<Rightarrow> bytes option" where
  "spec_items item p step 0 = Some []"
| "spec_items item p step (Suc n) = cat (item p) (spec_items item (p + step) step n)"

definition spec_array :: "'st pb_env \<Rightarrow> pb_field \<Rightarrow> nat \<Rightarrow> nat \<Rightarrow> (pb_field \<Rightarrow> nat \<Rightarrow> bytes option) \<Rightarrow> bytes option" where
  "spec_array env field p count val =
     (let lt = PB_LTYPE (ftype field); at = PB_ATYPE (ftype field); step = unat (data_size field) in
      if count = 0 then Some []
      else if at \<noteq> PB_ATYPE_POINTER \<and> count > unat (array_size field) then None
      else if lt \<le> PB_LTYPE_LAST_PACKABLE then
        cat (Some (tag_bytes PB_WT_STRING (tag field))) (map_option delimited (spec_items (val field) p step count))
      else
        spec_items (\<lambda>q. cat (spec_tag field)
          (val field (if at = PB_ATYPE_POINTER \<and> (lt = PB_LTYPE_STRING \<or> lt = PB_LTYPE_BYTES)
             then read_ptr (mem_of env) q else q))) p step count)"

definition spec_basic_field ::
    "nat \<Rightarrow> (pb_field list \<Rightarrow> nat \<Rightarrow> bytes option) \<Rightarrow> 'st pb_env \<Rightarrow> pb_field \<Rightarrow> nat \<Rightarrow> bytes option" where
  "spec_basic_field n sub env field p =
     (let t = ftype field; m = mem_of env; val = spec_value sub env (PB_LTYPE t);
          z = addr_add p (sint (size_offset field));
          data = (if PB_ATYPE t = PB_ATYPE_POINTER then read_ptr m p else p);
          has = (if size_offset field \<noteq> 0 then safe_read_bool m z
                 else if PB_ATYPE t = PB_ATYPE_POINTER then data \<noteq> 0
                 else \<not> pb_check_proto3_default_value n env field p);
          value = cat (spec_tag field) (val field data) in
      if PB_HTYPE t = PB_HTYPE_REQUIRED then if data = 0 then None else value
      else if PB_HTYPE t = PB_HTYPE_OPTIONAL then if has then value else Some []
      else if PB_HTYPE t = PB_HTYPE_REPEATED then
        spec_array env field data
          (if size_offset field \<noteq> 0 then unat (read_size m z) else unat (array_size field)) val
      else if PB_HTYPE t = PB_HTYPE_ONEOF then
        if size_offset field \<noteq> 0 \<and> read_size m z = tag field then value else Some []
      else None)"

definition spec_field ::
    "nat \<Rightarrow> (pb_field list \<Rightarrow> nat \<Rightarrow> bytes option) \<Rightarrow> 'st pb_env \<Rightarrow> pb_spec \<Rightarrow> pb_field \<Rightarrow> nat \<Rightarrow> bytes option" where
  "spec_field n sub env sp field p =
     (let at = PB_ATYPE (ftype field); f = read_ptr (mem_of env) p in
      if at = PB_ATYPE_STATIC \<or> at = PB_ATYPE_POINTER then spec_basic_field n sub env field p
      else if at = PB_ATYPE_CALLBACK then if f \<noteq> 0 then cb_bytes sp f field (p + sizeof_ptr) else Some []
      else None)"

fun spec_extensions ::
    "nat \<Rightarrow> nat \<Rightarrow> (pb_field list \<Rightarrow> nat \<Rightarrow> bytes option) \<Rightarrow> 'st pb_env \<Rightarrow> pb_spec \<Rightarrow> nat \<Rightarrow> bytes option" where
  "spec_extensions 0 n sub env sp ext = (if ext = 0 then Some [] else None)"
| "spec_extensions (Suc k) n sub env sp ext =
     (if ext = 0 then Some []
      else
        let m = mem_of env; f = read_ptr m (read_ptr m ext + 8);
            field = fld (descs env (read_ptr m (read_ptr m ext + 16))) 0 in
        cat (if f \<noteq> 0 then ext_bytes sp f ext
             else spec_field n sub env sp field
               (if PB_ATYPE (ftype field) = PB_ATYPE_POINTER then ext + 8 else read_ptr m (ext + 8)))
          (spec_extensions k n sub env sp (read_ptr m (ext + 16))))"

text \<open>The fields of a message from an iterator position on.\<close>

function spec_walk :: "(pb_field_iter \<Rightarrow> bytes option) \<Rightarrow> pb_field_iter \<Rightarrow> bytes option" where
  "spec_walk f iter =
     cat (f iter) (if fst (pb_field_iter_next iter) then spec_walk f (snd (pb_field_iter_next iter)) else Some [])"
  by pat_completeness auto
termination
proof (relation "measure (\<lambda>(f, iter). length (start iter) - pos iter)")
  fix f :: "pb_field_iter \<Rightarrow> bytes option" and iter
  assume "fst (pb_field_iter_next iter)"
  then have "pos iter < length (start iter) \<and> pos (snd (pb_field_iter_next iter)) = Suc (pos iter)"
    by (auto simp: pb_field_iter_next_def Let_def fld_def PB_LAST_FIELD_def split: if_splits)
  then show "((f, snd (pb_field_iter_next iter)), f, iter) \<in> measure (\<lambda>(f, iter). length (start iter) - pos iter)"
    by (auto simp: iter_next_start)
qed simp

declare spec_walk.simps [simp del]

fun spec_message :: "nat \<Rightarrow> 'st pb_env \<Rightarrow> pb_spec \<Rightarrow> pb_field list \<Rightarrow> nat \<Rightarrow> bytes option" where
  "spec_message 0 env sp fs a = None"
| "spec_message (Suc n) env sp fs a =
     (case pb_field_iter_begin fs a of (nonempty, iter) \<Rightarrow>
        if \<not> nonempty then Some []
        else
          spec_walk (\<lambda>iter.
            if PB_LTYPE (ftype (cur iter)) = PB_LTYPE_EXTENSION
            then spec_extensions n n (spec_message n env sp) env sp (read_ptr (mem_of env) (pData iter))
            else spec_field n (spec_message n env sp) env sp (cur iter) (pData iter)) iter)"

section \<open>Encoders against the specification\<close>

definition implements :: "bytes encoder \<Rightarrow> bytes option \<Rightarrow> bool" where
  "implements f x \<longleftrightarrow> (\<forall>bs. x = Some bs \<longrightarrow> emits f bs)"

lemma implements_None [simp]: "implements f None"
  by (simp add: implements_def)

lemma implements_Some [simp]: "implements f (Some bs) \<longleftrightarrow> emits f bs"
  by (simp add: implements_def)

lemma implements_seq:
  "implements f x \<Longrightarrow> implements g y \<Longrightarrow> implements (\<lambda>s. try_op (f s) (\<lambda>_ s. g s)) (cat x y)"
  using emits_bind by (auto simp: implements_def cat_def split: option.splits)

lemma emits_cong: "(\<And>s. ostream_ok s \<Longrightarrow> f s = g s) \<Longrightarrow> emits f bs \<longleftrightarrow> emits g bs"
  by (auto simp: emits_def)

lemma implements_if:
  "(b \<Longrightarrow> implements f x) \<Longrightarrow> (\<not> b \<Longrightarrow> implements g y) \<Longrightarrow>
     implements (\<lambda>s. if b then f s else g s) (if b then x else y)"
  by (cases b) auto

lemma implements_if_eq:
  "(b \<longleftrightarrow> c) \<Longrightarrow> (b \<Longrightarrow> implements f x) \<Longrightarrow> (\<not> b \<Longrightarrow> implements g y) \<Longrightarrow>
     implements (\<lambda>s. if b then f s else g s) (if c then x else y)"
  by (cases b) auto

lemma wire_type_small: "wire_type lt = Some wt \<Longrightarrow> unat wt < 8"
  by (auto simp: wire_type_def PB_WT_VARINT_def PB_WT_64BIT_def PB_WT_STRING_def PB_WT_32BIT_def split: if_splits)

lemma implements_tag: "implements (pb_encode_tag_for_field field) (spec_tag field)"
proof (cases "wire_type (PB_LTYPE (ftype field))")
  case (Some wt)
  then have "pb_encode_tag_for_field field = (pb_encode_tag wt (tag field) :: bytes encoder)"
    by (intro ext) (auto simp: pb_encode_tag_for_field_def wire_type_def Let_def split: if_splits)
  with emits_tag [OF wire_type_small [OF Some], of "tag field"] Some show ?thesis
    by (simp add: spec_tag_def tag_bytes_def)
qed (simp add: spec_tag_def)

lemma length_read_bytes [simp]: "length (read_bytes m a n) = n"
  by (simp add: read_bytes_def)

lemma emits_delimited:
  assumes "n = length bs"
  shows "emits (pb_encode_string bs n) (delimited bs)"
proof (cases "n < 2 ^ 64")
  case True
  then show ?thesis using emits_string assms by (simp add: delimited_def)
next
  case False
  then show ?thesis using assms by (simp add: emits_def delimited_def)
qed

lemma sizing_ok: "ostream_ok (PB_OSTREAM_SIZING st)"
  by (simp add: ostream_ok_def PB_OSTREAM_SIZING_def)

lemma emits_sizing:
  assumes "emits f bs" "length bs < 2 ^ 63"
  shows "f (PB_OSTREAM_SIZING st) = (Some (), (PB_OSTREAM_SIZING st)\<lparr>bytes_written := length bs\<rparr>)"
  using emitsD(1) [OF assms(1) sizing_ok assms(2)] assms(2)
  by (simp add: fits_def after_def PB_OSTREAM_SIZING_def size_add_small)

text \<open>A sizing stream only has to count what the other one writes.\<close>

lemma emits_or_count:
  assumes "emits f bs" "n = length bs"
  shows "emits (\<lambda>s. if ocallback s = None then pb_write [] n s else f s) bs"
  unfolding emits_def
proof (intro allI impI)
  fix s assume "ostream_ok s" "length bs < 2 ^ 63"
  then show "if fits bs s then (if ocallback s = None then pb_write [] n s else f s) = returns () (after bs s)
    else fst (if ocallback s = None then pb_write [] n s else f s) = None"
    using emitsD [OF assms(1)] assms(2) by (cases "ocallback s") (simp_all add: fits_def after_def pb_write_def)
qed

text \<open>The second half of \<open>pb_encode_submessage\<close>: the length is known and written.\<close>

definition submessage_body :: "bytes encoder \<Rightarrow> nat \<Rightarrow> bytes encoder" where
  "submessage_body sub n s =
     (if size_add (bytes_written s) n > max_size s then enc_error ''stream full'' s
      else
        (case sub \<lparr>ocallback = ocallback s, ostate = ostate s, max_size = n, bytes_written = 0, oerrmsg = None\<rparr> of
           (status, substream) \<Rightarrow>
             let s = s\<lparr>bytes_written := size_add (bytes_written s) (bytes_written substream),
                       ostate := ostate substream, oerrmsg := oerrmsg substream\<rparr> in
             if bytes_written substream \<noteq> n then enc_error ''submsg size changed'' s
             else (status, s)))"

lemma emits_submessage_body:
  assumes "emits sub bs"
  shows "emits (\<lambda>s. if ocallback s = None then pb_write [] (length bs) s else submessage_body sub (length bs) s) bs"
  unfolding emits_def
proof (intro allI impI)
  fix s assume ok: "ostream_ok s" and len: "length bs < 2 ^ 63"
  show "if fits bs s
    then (if ocallback s = None then pb_write [] (length bs) s else submessage_body sub (length bs) s) = (Some (), after bs s)
    else fst (if ocallback s = None then pb_write [] (length bs) s else submessage_body sub (length bs) s) = None"
  proof (cases "ocallback s")
    case None
    then show ?thesis by (simp add: fits_def after_def pb_write_def)
  next
    case (Some cb)
    then have cb: "cb = buf_write" and bw: "bytes_written s \<le> max_size s" "max_size s < 2 ^ 63" and err: "oerrmsg s = None"
      using ok by (simp_all add: ostream_ok_def)
    then have sum: "size_add (bytes_written s) (length bs) = bytes_written s + length bs"
      using len by (simp add: size_add_small)
    let ?sub = "\<lparr>ocallback = Some buf_write, ostate = ostate s, max_size = length bs, bytes_written = 0, oerrmsg = None\<rparr> :: bytes pb_ostream"
    have "ostream_ok ?sub" "fits bs ?sub" using len by (simp_all add: ostream_ok_def fits_def)
    then have "sub ?sub = (Some (), after bs ?sub)" using emitsD(1) [OF assms _ len] by blast
    then show ?thesis using Some cb bw err len sum
      by (simp add: submessage_body_def fits_def after_def size_add_small enc_error_def)
  qed
qed

lemma emits_submessage:
  assumes "emits sub bs"
  shows "emits (pb_encode_submessage sub) (delimited bs)"
proof (cases "length bs < 2 ^ 63")
  case False
  then show ?thesis by (simp add: emits_def delimited_def)
next
  case True
  then have n: "unat (word_of_nat (length bs) :: u64) = length bs" by (simp add: unat_of_nat)
  have "pb_encode_submessage sub = (\<lambda>s. try_op (pb_encode_varint (word_of_nat (length bs)) s)
      (\<lambda>_ s. if ocallback s = None then pb_write [] (length bs) s else submessage_body sub (length bs) s))"
  proof
    fix s
    show "pb_encode_submessage sub s = try_op (pb_encode_varint (word_of_nat (length bs)) s)
      (\<lambda>_ s. if ocallback s = None then pb_write [] (length bs) s else submessage_body sub (length bs) s)"
      using emits_sizing [OF assms True, of "ostate s"]
      by (simp add: pb_encode_submessage_def submessage_body_def PB_OSTREAM_SIZING_def Let_def cong: if_cong)
  qed
  with emits_bind [OF emits_varint [of "word_of_nat (length bs)"] emits_submessage_body [OF assms]] n
  show ?thesis by (simp add: delimited_def)
qed

lemma implements_submessage:
  assumes "implements sub x"
  shows "implements (pb_encode_submessage sub) (map_option delimited x)"
  using assms emits_submessage by (cases x) auto

section \<open>Field values\<close>

lemma le_bytes_read: "le_bytes n (read_nat m a n) = read_bytes m a n"
  using le_bytes_le_nat [of "read_bytes m a n"] by (simp add: read_nat_def)

lemma read_nat_less: "read_nat m a n < 256 ^ n"
  using le_nat_bound [of "read_bytes m a n"] by (simp add: read_nat_def)

lemma implements_enc_bool: "implements (pb_enc_bool env field a) (Some (leb128 (if safe_read_bool (mem_of env) a then 1 else 0)))"
proof -
  have "pb_enc_bool env field a = (pb_encode_varint (if safe_read_bool (mem_of env) a then 1 else 0) :: bytes encoder)"
    by (intro ext) (simp add: pb_enc_bool_def)
  with emits_varint [of "if safe_read_bool (mem_of env) a then 1 else 0"] show ?thesis by auto
qed

lemma implements_enc_varint:
  "implements (pb_enc_varint env field a)
     (map_option (\<lambda>w. leb128 (unat w)) (int_value (unat (data_size field)) (read_nat (mem_of env) a (unat (data_size field)))))"
  by (auto simp: implements_def int_value_def pb_enc_varint_def [abs_def] Let_def emits_varint)

lemma implements_enc_uvarint:
  "implements (pb_enc_uvarint env field a)
     (map_option (\<lambda>w. leb128 (unat w)) (uint_value (unat (data_size field)) (read_nat (mem_of env) a (unat (data_size field)))))"
  by (auto simp: implements_def uint_value_def pb_enc_uvarint_def [abs_def] Let_def emits_varint)

lemma implements_enc_svarint:
  "implements (pb_enc_svarint env field a)
     (map_option (\<lambda>w. leb128 (unat (zigzag w))) (int_value (unat (data_size field)) (read_nat (mem_of env) a (unat (data_size field)))))"
  by (auto simp: implements_def int_value_def pb_enc_svarint_def [abs_def] Let_def emits_svarint)

lemma implements_enc_fixed32: "implements (pb_enc_fixed32 env field a) (Some (read_bytes (mem_of env) a 4))"
  using emits_fixed32 [of "word_of_nat (read_nat (mem_of env) a 4)"] read_nat_less [of "mem_of env" a 4]
  by (simp add: pb_enc_fixed32_def [abs_def] unat_of_nat le_bytes_read)

lemma implements_enc_fixed64: "implements (pb_enc_fixed64 env field a) (Some (read_bytes (mem_of env) a 8))"
  using emits_fixed64 [of "word_of_nat (read_nat (mem_of env) a 8)"] read_nat_less [of "mem_of env" a 8]
  by (simp add: pb_enc_fixed64_def [abs_def] unat_of_nat le_bytes_read)

lemma emits_delimited_read: "emits (pb_encode_string (read_bytes m a n) n) (delimited (read_bytes m a n))"
  by (simp add: emits_delimited)

lemma implements_enc_bytes: "implements (pb_enc_bytes env field a) (spec_bytes (mem_of env) field a)"
  unfolding pb_enc_bytes_def [abs_def] spec_bytes_def Let_def
  by (intro implements_if implements_None) (simp_all add: emits_delimited emits_delimited_read)

lemma implements_enc_string: "implements (pb_enc_string env field a) (Some (spec_string (mem_of env) field a))"
  unfolding pb_enc_string_def [abs_def] spec_string_def Let_def implements_Some by (rule emits_delimited_read)

lemma implements_enc_submessage:
  assumes "\<And>fs a. implements (enc fs a) (sub fs a)"
  shows "implements (pb_enc_submessage enc env field a)
    (if ptr field = 0 then None else map_option delimited (sub (descs env (ptr field)) a))"
  using implements_submessage [OF assms] by (simp add: pb_enc_submessage_def [abs_def])

lemma implements_enc_fixed_length_bytes:
  "implements (pb_enc_fixed_length_bytes env field a)
     (Some (delimited (read_bytes (mem_of env) a (unat (data_size field)))))"
  by (simp add: pb_enc_fixed_length_bytes_def [abs_def] emits_delimited_read Let_def)

lemma implements_choice:
  "(b \<Longrightarrow> implements (f field a) x) \<Longrightarrow> (\<not> b \<Longrightarrow> implements (g field a) y) \<Longrightarrow>
     implements ((if b then f else g) field a) (if b then x else y)"
  by (cases b) auto

lemmas implements_enc = implements_enc_bool implements_enc_varint implements_enc_uvarint implements_enc_svarint
  implements_enc_fixed32 implements_enc_fixed64 implements_enc_bytes implements_enc_string implements_enc_submessage
  implements_enc_fixed_length_bytes

lemma implements_value:
  assumes "\<And>fs a. implements (enc fs a) (sub fs a)"
  shows "implements (PB_ENCODERS enc env lt field a) (spec_value sub env lt field a)"
  unfolding PB_ENCODERS_def spec_value_def Let_def
  by (intro implements_choice implements_enc assms implements_None)

lemma spec_value_length:
  "spec_value sub env PB_LTYPE_FIXED32 field a = Some bs \<Longrightarrow> length bs = 4"
  "spec_value sub env PB_LTYPE_FIXED64 field a = Some bs \<Longrightarrow> length bs = 8"
  by (auto simp: spec_value_def PB_LTYPE_BOOL_def PB_LTYPE_VARINT_def PB_LTYPE_UVARINT_def PB_LTYPE_SVARINT_def
      PB_LTYPE_FIXED32_def PB_LTYPE_FIXED64_def)

section \<open>Arrays\<close>

lemma implements_return: "implements (\<lambda>s. returns () s) (Some [])"
  by (simp add: emits_return)

lemma implements_items:
  assumes "\<And>q. implements (item q) (sitem q)"
  shows "implements (encode_items item p step n) (spec_items sitem p step n)"
proof (induction n arbitrary: p)
  case 0
  have "encode_items item p step 0 = (\<lambda>s. returns () s)" by (intro ext) simp
  then show ?case using implements_return by simp
next
  case (Suc n)
  have "encode_items item p step (Suc n) = (\<lambda>s. try_op (item p s) (\<lambda>_ s. encode_items item (p + step) step n s))"
    by (intro ext) simp
  then show ?case using implements_seq [OF assms Suc.IH] by simp
qed

lemma spec_items_length:
  assumes "\<And>q bs. sitem q = Some bs \<Longrightarrow> length bs = k"
  shows "spec_items sitem p step n = Some bs \<Longrightarrow> length bs = k * n"
proof (induction n arbitrary: p bs)
  case (Suc n)
  then show ?case using assms by (auto simp: cat_def split: option.splits)
qed simp

text \<open>The size of a packed array, computed before it is written.\<close>

definition packed_size :: "u8 \<Rightarrow> (nat \<Rightarrow> bytes encoder) \<Rightarrow> nat \<Rightarrow> nat \<Rightarrow> nat \<Rightarrow> bytes \<Rightarrow> nat option" where
  "packed_size lt item p step count st =
     (if lt = PB_LTYPE_FIXED32 then Some (size_mult 4 count)
      else if lt = PB_LTYPE_FIXED64 then Some (size_mult 8 count)
      else
        (case encode_items item p step count (PB_OSTREAM_SIZING st) of
           (None, _) \<Rightarrow> None
         | (Some _, sizestream) \<Rightarrow> Some (bytes_written sizestream)))"

lemma packed_size_eq:
  assumes "\<And>q. implements (item q) (sitem q)" "spec_items sitem p step count = Some bs" "length bs < 2 ^ 63"
    and "\<And>q bs. lt = PB_LTYPE_FIXED32 \<Longrightarrow> sitem q = Some bs \<Longrightarrow> length bs = 4"
    and "\<And>q bs. lt = PB_LTYPE_FIXED64 \<Longrightarrow> sitem q = Some bs \<Longrightarrow> length bs = 8"
  shows "packed_size lt item p step count st = Some (length bs)"
proof -
  have "emits (encode_items item p step count) bs"
    using implements_items [of item sitem p step count] assms(1,2) by simp
  from emits_sizing [OF this assms(3)] spec_items_length [of sitem 4 p step count bs] spec_items_length [of sitem 8 p step count bs]
  show ?thesis using assms(2-) by (auto simp: packed_size_def size_mult_def)
qed

lemma implements_packed:
  assumes "\<And>q. implements (item q) (sitem q)"
    and "\<And>q bs. lt = PB_LTYPE_FIXED32 \<Longrightarrow> sitem q = Some bs \<Longrightarrow> length bs = 4"
    and "\<And>q bs. lt = PB_LTYPE_FIXED64 \<Longrightarrow> sitem q = Some bs \<Longrightarrow> length bs = 8"
  shows "implements (\<lambda>s. case packed_size lt item p step count (ostate s) of None \<Rightarrow> fails s | Some n \<Rightarrow>
      try_op (pb_encode_varint (word_of_nat n) s) (\<lambda>_ s.
        if ocallback s = None then pb_write [] n s else encode_items item p step count s))
    (map_option delimited (spec_items sitem p step count))"
proof (cases "spec_items sitem p step count")
  case (Some bs)
  then have e: "emits (encode_items item p step count) bs"
    using implements_items [of item sitem p step count] assms(1) by simp
  show ?thesis
  proof (cases "length bs < 2 ^ 63")
    case True
    then have "unat (word_of_nat (length bs) :: u64) = length bs" by (simp add: unat_of_nat)
    moreover have "\<And>st. packed_size lt item p step count st = Some (length bs)"
      using packed_size_eq [of item sitem] assms Some True by blast
    ultimately show ?thesis
      using emits_bind [OF emits_varint [of "word_of_nat (length bs)"] emits_or_count [OF e refl]] Some
      by (simp add: delimited_def)
  qed (use Some in \<open>simp add: emits_def delimited_def\<close>)
qed simp

lemma implements_array:
  assumes "\<And>q. implements (func field q) (val field q)"
    and "\<And>q bs. PB_LTYPE (ftype field) = PB_LTYPE_FIXED32 \<Longrightarrow> val field q = Some bs \<Longrightarrow> length bs = 4"
    and "\<And>q bs. PB_LTYPE (ftype field) = PB_LTYPE_FIXED64 \<Longrightarrow> val field q = Some bs \<Longrightarrow> length bs = 8"
  shows "implements (encode_array env field p count func) (spec_array env field p count val)"
proof -
  have tag: "implements (pb_encode_tag PB_WT_STRING (tag field)) (Some (tag_bytes PB_WT_STRING (tag field)))"
    using emits_tag [of PB_WT_STRING "tag field"] by (simp add: tag_bytes_def PB_WT_STRING_def)
  have item: "implements (\<lambda>s. try_op (pb_encode_tag_for_field field s) (\<lambda>_ s.
       if b then func field (read_ptr (mem_of env) q) s else func field q s))
     (cat (spec_tag field) (val field (if b then read_ptr (mem_of env) q else q)))" for b q
    using implements_seq [OF implements_tag assms(1)] by (cases b) simp_all
  show ?thesis
    unfolding encode_array_def [abs_def] spec_array_def Let_def packed_size_def [symmetric]
    by (intro implements_if implements_return implements_None implements_seq tag implements_packed
        assms implements_items item) assumption+
qed

section \<open>Fields\<close>

lemma implements_basic_field:
  assumes "\<And>fs a. implements (enc fs a) (sub fs a)"
  shows "implements (encode_basic_field n enc env field p) (spec_basic_field n sub env field p)"
proof -
  have v: "implements (\<lambda>s. try_op (pb_encode_tag_for_field field s)
      (\<lambda>_ s. PB_ENCODERS enc env (PB_LTYPE (ftype field)) field a s))
    (cat (spec_tag field) (spec_value sub env (PB_LTYPE (ftype field)) field a))" for a
    by (intro implements_seq implements_tag implements_value assms)
  have arr: "implements (encode_array env field a count (PB_ENCODERS enc env (PB_LTYPE (ftype field))))
    (spec_array env field a count (spec_value sub env (PB_LTYPE (ftype field))))" for a count
    by (intro implements_array implements_value assms) (simp_all add: spec_value_length)
  show ?thesis
    unfolding encode_basic_field_def [abs_def] spec_basic_field_def Let_def
    by (intro implements_if_eq implements_None implements_return v arr) simp_all
qed

text \<open>What is asked of the application's callbacks: they write what the specification says.\<close>

definition callbacks_ok :: "bytes pb_env \<Rightarrow> pb_spec \<Rightarrow> bool" where
  "callbacks_ok env sp \<longleftrightarrow>
     (\<forall>f field a. implements (encode_cb env f field a) (cb_bytes sp f field a)) \<and>
     (\<forall>f x. implements (extension_cb env f x) (ext_bytes sp f x))"

lemma implements_callback_field:
  assumes "callbacks_ok env sp"
  shows "implements (encode_callback_field env field p)
    (if read_ptr (mem_of env) p \<noteq> 0 then cb_bytes sp (read_ptr (mem_of env) p) field (p + sizeof_ptr) else Some [])"
proof -
  have e: "emits (\<lambda>s. case f s of (None, s) \<Rightarrow> enc_error m s | (Some _, s) \<Rightarrow> returns () s) bs" if "emits f bs" for f m bs
    unfolding emits_def
  proof (intro allI impI)
    fix s assume "ostream_ok s" "length bs < 2 ^ 63"
    note D = emitsD [OF that this]
    show "if fits bs s
      then (case f s of (None, s) \<Rightarrow> enc_error m s | (Some _, s) \<Rightarrow> returns () s) = (Some (), after bs s)
      else fst (case f s of (None, s) \<Rightarrow> enc_error m s | (Some _, s) \<Rightarrow> returns () s) = None"
      using D by (cases "f s") (auto simp: enc_error_def)
  qed
  have "implements (\<lambda>s. case encode_cb env f field a s of (None, s) \<Rightarrow> enc_error m s | (Some _, s) \<Rightarrow> returns () s)
    (cb_bytes sp f field a)" for f a m
    using assms e by (auto simp: callbacks_ok_def implements_def)
  then show ?thesis
    unfolding encode_callback_field_def [abs_def] Let_def by (intro implements_if implements_return)
qed

lemma implements_field:
  assumes "\<And>fs a. implements (enc fs a) (sub fs a)" "callbacks_ok env sp"
  shows "implements (encode_field n enc env field p) (spec_field n sub env sp field p)"
  unfolding encode_field_def [abs_def] spec_field_def Let_def
  by (intro implements_if implements_None implements_basic_field implements_callback_field assms)

lemma implements_extensions:
  assumes "\<And>fs a. implements (enc fs a) (sub fs a)" "callbacks_ok env sp"
  shows "implements (encode_extension_list k n enc env x) (spec_extensions k n sub env sp x)"
proof (induction k arbitrary: x)
  case 0
  show ?case
    unfolding encode_extension_list.simps(1) [abs_def] spec_extensions.simps
    by (intro implements_if implements_None implements_return)
next
  case (Suc k)
  have d: "implements (default_extension_encoder n enc env x)
    (spec_field n sub env sp (fld (descs env (read_ptr (mem_of env) (read_ptr (mem_of env) x + 16))) 0)
      (if PB_ATYPE (ftype (fld (descs env (read_ptr (mem_of env) (read_ptr (mem_of env) x + 16))) 0)) = PB_ATYPE_POINTER
       then x + 8 else read_ptr (mem_of env) (x + 8)))"
    unfolding default_extension_encoder_def [abs_def] Let_def if_distrib [of "spec_field n sub env sp y" for y]
    by (intro implements_if implements_field assms)
  have c: "implements (extension_cb env f x) (ext_bytes sp f x)" for f
    using assms(2) by (simp add: callbacks_ok_def)
  show ?case
    unfolding encode_extension_list.simps(2) [abs_def] spec_extensions.simps Let_def
    by (intro implements_if implements_return implements_seq c d Suc.IH)
qed

section \<open>Messages\<close>

lemma implements_walk:
  assumes "\<And>iter. implements (f iter) (g iter)"
  shows "implements (iter_while f iter) (spec_walk g iter)"
  using assms
proof (induction g iter rule: spec_walk.induct)
  case (1 g iter)
  have "implements (\<lambda>s. if fst (pb_field_iter_next iter) then iter_while f (snd (pb_field_iter_next iter)) s else returns () s)
    (if fst (pb_field_iter_next iter) then spec_walk g (snd (pb_field_iter_next iter)) else Some [])"
    using 1 by (intro implements_if implements_return) blast+
  from implements_seq [OF 1(2) this]
  have "implements (\<lambda>s. iter_while f iter s) (spec_walk g iter)"
    by (subst iter_while.simps, subst spec_walk.simps)
  then show ?case by simp
qed

lemma pb_encode_implements:
  assumes "callbacks_ok env sp"
  shows "implements (pb_encode n env fs a) (spec_message n env sp fs a)"
proof (induction n arbitrary: fs a)
  case (Suc n)
  obtain nonempty iter where b: "pb_field_iter_begin fs a = (nonempty, iter)" by fastforce
  have w: "implements (\<lambda>s. if PB_LTYPE (ftype (cur iter)) = PB_LTYPE_EXTENSION
        then encode_extension_field n (pb_encode n env) env (pData iter) s
        else encode_field n (pb_encode n env) env (cur iter) (pData iter) s)
     (if PB_LTYPE (ftype (cur iter)) = PB_LTYPE_EXTENSION
      then spec_extensions n n (spec_message n env sp) env sp (read_ptr (mem_of env) (pData iter))
      else spec_field n (spec_message n env sp) env sp (cur iter) (pData iter))" for iter
    unfolding encode_extension_field_def
    by (intro implements_if implements_extensions implements_field Suc.IH assms)
  show ?case
    unfolding pb_encode.simps(2) [abs_def] spec_message.simps b prod.case
    by (intro implements_if implements_return implements_walk w)
qed simp

lemma pb_encode_emits:
  "callbacks_ok env sp \<Longrightarrow> spec_message n env sp fs a = Some bs \<Longrightarrow> emits (pb_encode n env fs a) bs"
  using pb_encode_implements [of env sp n fs a] by simp

text \<open>An encoder over a buffer succeeds exactly when its bytes fit, and then the buffer holds them.\<close>

lemma emits_on_buffer:
  assumes "emits f bs" "length bs < 2 ^ 63" "room < 2 ^ 63"
  shows "if length bs \<le> room
    then f (pb_ostream_from_buffer room) =
      (Some (), \<lparr>ocallback = Some buf_write, ostate = bs, max_size = room, bytes_written = length bs, oerrmsg = None\<rparr>)
    else fst (f (pb_ostream_from_buffer room)) = None"
proof (cases "length bs \<le> room")
  case True
  then show ?thesis using emits_to_buffer [OF assms(1) _ assms(3)] by simp
next
  case False
  then have "ostream_ok (pb_ostream_from_buffer room)" "\<not> fits bs (pb_ostream_from_buffer room)"
    using assms(3) by (simp_all add: ostream_ok_def fits_def pb_ostream_from_buffer_def)
  then show ?thesis using False emitsD(2) [OF assms(1) _ assms(2)] by simp
qed

section \<open>Properties\<close>


text \<open>
  A message of two required fields, a \<open>uint32\<close> with value 150 and a submessage with a \<open>sint32\<close>
  of value 1.
\<close>

definition ex_fields :: "pb_field list" where
  "ex_fields =
     [\<lparr>tag = 1, ftype = PB_LTYPE_UVARINT, data_offset = 0, size_offset = 0, data_size = 4, array_size = 0, ptr = 0\<rparr>,
      \<lparr>tag = 3, ftype = PB_LTYPE_SUBMESSAGE, data_offset = 4, size_offset = 0, data_size = 4, array_size = 0, ptr = 1\<rparr>]"

definition ex_env :: "bytes pb_env" where
  "ex_env =
     \<lparr>mem_of = (\<lambda>a. if a = 64 then 150 else if a = 72 then 1 else 0),
      descs = (\<lambda>_. [\<lparr>tag = 1, ftype = PB_LTYPE_SVARINT, data_offset = 0, size_offset = 0, data_size = 4,
        array_size = 0, ptr = 0\<rparr>]),
      encode_cb = (\<lambda>_ _ _. fails), extension_cb = (\<lambda>_ _. fails)\<rparr>"

definition ex_spec :: pb_spec where
  "ex_spec = \<lparr>cb_bytes = (\<lambda>_ _ _. None), ext_bytes = (\<lambda>_ _. None)\<rparr>"

lemma spec_message_one:
  assumes "pb_field_iter_begin fs a = (True, iter)" "\<not> fst (pb_field_iter_next iter)"
    and "PB_LTYPE (ftype (cur iter)) \<noteq> PB_LTYPE_EXTENSION"
  shows "spec_message (Suc n) env sp fs a = spec_field n (spec_message n env sp) env sp (cur iter) (pData iter)"
  using assms by (simp add: spec_walk.simps)

lemma spec_message_two:
  assumes "pb_field_iter_begin fs a = (True, iter)" "pb_field_iter_next iter = (True, iter')"
    and "\<not> fst (pb_field_iter_next iter')"
    and "PB_LTYPE (ftype (cur iter)) \<noteq> PB_LTYPE_EXTENSION" "PB_LTYPE (ftype (cur iter')) \<noteq> PB_LTYPE_EXTENSION"
  shows "spec_message (Suc n) env sp fs a =
    cat (spec_field n (spec_message n env sp) env sp (cur iter) (pData iter))
      (spec_field n (spec_message n env sp) env sp (cur iter') (pData iter'))"
  using assms by (simp add: spec_walk.simps [of _ iter] spec_walk.simps [of _ iter'])

lemma ex_inner: "spec_message (Suc 0) ex_env ex_spec (descs ex_env 1) 72 = Some [8, 2]"
proof -
  let ?i = "snd (pb_field_iter_begin (descs ex_env 1) 72)"
  have i: "pb_field_iter_begin (descs ex_env 1) 72 = (True, ?i)" by code_simp
  have e: "\<not> fst (pb_field_iter_next ?i)" by code_simp
  have l: "PB_LTYPE (ftype (cur ?i)) \<noteq> PB_LTYPE_EXTENSION" by code_simp
  have f: "spec_field 0 sub ex_env ex_spec (cur ?i) (pData ?i) = Some [8, 2]" for sub by code_simp
  show ?thesis unfolding spec_message_one [OF i e l] by (rule f)
qed

lemma ex_submessage:
  assumes "sub (descs ex_env 1) 72 = Some bs"
  shows "spec_field n sub ex_env ex_spec (ex_fields ! 1) 72 = Some (0x1a # delimited bs)"
proof -
  have v: "spec_value sub ex_env PB_LTYPE_SUBMESSAGE (ex_fields ! 1) 72 = Some (delimited bs)"
    using assms by (simp add: spec_value_def ex_fields_def PB_LTYPE_BOOL_def PB_LTYPE_VARINT_def PB_LTYPE_UVARINT_def
      PB_LTYPE_SVARINT_def PB_LTYPE_FIXED32_def PB_LTYPE_FIXED64_def PB_LTYPE_BYTES_def PB_LTYPE_STRING_def
      PB_LTYPE_SUBMESSAGE_def)
  have t: "spec_tag (ex_fields ! 1) = Some [0x1a]" by code_simp
  have "PB_LTYPE (ftype (ex_fields ! 1)) = PB_LTYPE_SUBMESSAGE" "PB_ATYPE (ftype (ex_fields ! 1)) = PB_ATYPE_STATIC"
    "PB_HTYPE (ftype (ex_fields ! 1)) = PB_HTYPE_REQUIRED" "PB_ATYPE_STATIC \<noteq> PB_ATYPE_POINTER" by code_simp+
  with v t show ?thesis by (simp add: spec_field_def spec_basic_field_def cat_def)
qed

lemma ex_message:
  "callbacks_ok ex_env ex_spec"
  "spec_message 2 ex_env ex_spec ex_fields 64 = Some [8, 0x96, 1, 0x1a, 2, 8, 2]"
proof -
  show "callbacks_ok ex_env ex_spec" by (simp add: callbacks_ok_def ex_spec_def)
  let ?i = "snd (pb_field_iter_begin ex_fields 64)"
  let ?j = "snd (pb_field_iter_next ?i)"
  have i: "pb_field_iter_begin ex_fields 64 = (True, ?i)" by code_simp
  have j: "pb_field_iter_next ?i = (True, ?j)" by code_simp
  have e: "\<not> fst (pb_field_iter_next ?j)" by code_simp
  have l: "PB_LTYPE (ftype (cur ?i)) \<noteq> PB_LTYPE_EXTENSION" "PB_LTYPE (ftype (cur ?j)) \<noteq> PB_LTYPE_EXTENSION"
    by code_simp+
  have c: "cur ?j = ex_fields ! 1" "pData ?j = 72" by code_simp+
  have f: "spec_field 1 sub ex_env ex_spec (cur ?i) (pData ?i) = Some [8, 0x96, 1]" for sub by code_simp
  have d: "delimited [8, 2] = [2, 8, 2]" by code_simp
  have "spec_message 2 ex_env ex_spec ex_fields 64 =
    cat (spec_field 1 (spec_message 1 ex_env ex_spec) ex_env ex_spec (cur ?i) (pData ?i))
      (spec_field 1 (spec_message 1 ex_env ex_spec) ex_env ex_spec (cur ?j) (pData ?j))"
    using spec_message_two [OF i j e l, of 1] by (simp only: Suc_1)
  then show "spec_message 2 ex_env ex_spec ex_fields 64 = Some [8, 0x96, 1, 0x1a, 2, 8, 2]"
    unfolding f c using ex_submessage [of "spec_message 1 ex_env ex_spec"] ex_inner d by (simp add: cat_def)
qed


text \<open>C19: \<open>pb_get_encoded_size\<close> gives the length of what \<open>pb_encode\<close> writes, so a buffer of that room is
  enough and a smaller one is not.\<close>

theorem pb_get_encoded_size_exact:
  assumes "callbacks_ok env sp" "spec_message n env sp fs a = Some bs" "length bs < 2 ^ 63"
  shows "\<exists>k s. pb_get_encoded_size n env [] fs a = Some k \<and>
    pb_encode n env fs a (pb_ostream_from_buffer k) = (Some (), s) \<and> ostate s = bs \<and>
    (\<forall>j < k. fst (pb_encode n env fs a (pb_ostream_from_buffer j)) = None)"
proof -
  note e = pb_encode_emits [OF assms(1,2)]
  have "pb_get_encoded_size n env [] fs a = Some (length bs)"
    using emits_sizing [OF e assms(3)] by (simp add: pb_get_encoded_size_def)
  moreover have "fst (pb_encode n env fs a (pb_ostream_from_buffer j)) = None" if "j < length bs" for j
    using emits_on_buffer [OF e assms(3), of j] that assms(3) by simp
  ultimately show ?thesis using emits_on_buffer [OF e assms(3) assms(3)] by auto
qed

theorem pb_get_encoded_size_exact_witness:
  "\<exists>k s. pb_get_encoded_size 2 ex_env [] ex_fields 64 = Some k \<and>
    pb_encode 2 ex_env ex_fields 64 (pb_ostream_from_buffer k) = (Some (), s) \<and> ostate s = [8, 0x96, 1, 0x1a, 2, 8, 2]"
  using pb_get_encoded_size_exact [OF ex_message] by auto

text \<open>C20: \<open>pb_encode_delimited\<close> writes the varint of the length and then the message.\<close>

theorem pb_encode_delimited_exact:
  assumes "callbacks_ok env sp" "spec_message n env sp fs a = Some bs" "length bs + 10 \<le> room" "room < 2 ^ 63"
  shows "\<exists>s. pb_encode_delimited n env fs a (pb_ostream_from_buffer room) = (Some (), s) \<and>
    ostate s = leb128 (length bs) @ bs \<and> bytes_written s = length (ostate s)"
proof -
  have "length bs < 128 ^ 10" using assms(3,4) by simp
  from length_leb128 [OF this] have "length (delimited bs) \<le> room" using assms(3) by (simp add: delimited_def)
  moreover have "emits (pb_encode_delimited n env fs a) (delimited bs)"
    using emits_submessage [OF pb_encode_emits [OF assms(1,2)]] by (simp add: pb_encode_delimited_def [abs_def])
  ultimately show ?thesis using emits_to_buffer [OF _ _ assms(4), of "pb_encode_delimited n env fs a" "delimited bs"]
    by (simp add: delimited_def)
qed

theorem pb_encode_delimited_exact_witness:
  "\<exists>s. pb_encode_delimited 2 ex_env ex_fields 64 (pb_ostream_from_buffer 32) = (Some (), s) \<and>
    ostate s = leb128 (length [8, 0x96, 1, 0x1a, 2, 8, 2 :: u8]) @ [8, 0x96, 1, 0x1a, 2, 8, 2]"
  using pb_encode_delimited_exact [OF ex_message, of 32] by fastforce

end
