(* ===== verification/BER.thy ===== *)
theory BER
  imports CBB_ASN1
begin

text \<open>
  The BER to DER converter of \<^verbatim>\<open>crypto/bytestring/ber.c\<close>. \<open>cbs_find_ber\<close> looks for indefinite
  lengths, non-minimal lengths and constructed strings, \<open>cbs_convert_ber\<close> rewrites them
  through a \<open>CBB\<close>. What the converter writes is shown to be DER at every nesting level; that
  the search misses BER in front of a sibling is shown on an example.
\<close>

unbundle bit_operations_syntax

section \<open>Model\<close>

definition CBS_ASN1_UTF8STRING :: u32 where "CBS_ASN1_UTF8STRING = 0xc"
definition CBS_ASN1_NUMERICSTRING :: u32 where "CBS_ASN1_NUMERICSTRING = 0x12"
definition CBS_ASN1_PRINTABLESTRING :: u32 where "CBS_ASN1_PRINTABLESTRING = 0x13"
definition CBS_ASN1_T61STRING :: u32 where "CBS_ASN1_T61STRING = 0x14"
definition CBS_ASN1_VIDEOTEXSTRING :: u32 where "CBS_ASN1_VIDEOTEXSTRING = 0x15"
definition CBS_ASN1_IA5STRING :: u32 where "CBS_ASN1_IA5STRING = 0x16"
definition CBS_ASN1_GRAPHICSTRING :: u32 where "CBS_ASN1_GRAPHICSTRING = 0x19"
definition CBS_ASN1_VISIBLESTRING :: u32 where "CBS_ASN1_VISIBLESTRING = 0x1a"
definition CBS_ASN1_GENERALSTRING :: u32 where "CBS_ASN1_GENERALSTRING = 0x1b"
definition CBS_ASN1_UNIVERSALSTRING :: u32 where "CBS_ASN1_UNIVERSALSTRING = 0x1c"
definition CBS_ASN1_BMPSTRING :: u32 where "CBS_ASN1_BMPSTRING = 0x1e"

definition kMaxDepth :: nat where "kMaxDepth = 2048"

definition is_string_type :: "u32 \<Rightarrow> bool" where
  "is_string_type tag \<longleftrightarrow> tag AND NOT CBS_ASN1_CONSTRUCTED \<in>
     {CBS_ASN1_OCTETSTRING, CBS_ASN1_UTF8STRING, CBS_ASN1_NUMERICSTRING, CBS_ASN1_PRINTABLESTRING,
      CBS_ASN1_T61STRING, CBS_ASN1_VIDEOTEXSTRING, CBS_ASN1_IA5STRING, CBS_ASN1_GRAPHICSTRING,
      CBS_ASN1_VISIBLESTRING, CBS_ASN1_GENERALSTRING, CBS_ASN1_UNIVERSALSTRING, CBS_ASN1_BMPSTRING}"

lemma get_ber_element_split:
  assumes "CBS_get_any_ber_asn1_element c = (Some (out, tag, hl, ber), r)"
  shows "c = out @ r \<and> 0 < hl \<and> hl \<le> length out"
proof -
  from assms obtain t h' b h where p: "parse_asn1_tag c = (Some t, h')" "CBS_get_u8 h' = (Some b, h)"
    by (auto simp: CBS_get_any_ber_asn1_element_def cbs_get_any_asn1_element_def
      split: try_op_splits prod.splits option.splits)
  then have h': "h' = b # h" by (cases h') auto
  have c: "c = der_tag t @ b # h" using parse_asn1_tag_inv [OF p(1)] h' by simp
  define l where "l = length c - length h"
  have l: "0 < l" "l \<le> 7" "l \<le> length c" using c length_der_tag [of t] by (auto simp: l_def)
  define k where "k = unat (b AND 0x7f)"
  have n: "unat v < 2 ^ 32" if "cbs_get_u h k = (Some v, x)" "k \<le> 4" for v x
  proof -
    have v: "v = word_of_nat (be_nat (take k h))" "k \<le> length h"
      using that by (auto simp: cbs_get_u_eq split: if_splits)
    have "be_nat (take k h) < 256 ^ k" using be_nat_bound [of "take k h"] v(2) by simp
    also have "(256 :: nat) ^ k \<le> 256 ^ 4" using that(2) by (intro power_increasing) auto
    finally show ?thesis using v(1) by (simp add: unat_of_nat)
  qed
  have s: "size_add m (size_add l k) = m + l + k" if "m < 2 ^ 32" "k \<le> 4" for m
    using that l by (simp add: size_add_def)
  show ?thesis
    using assms p(1) h' l n s
    by (auto simp: CBS_get_any_ber_asn1_element_def cbs_get_any_asn1_element_def Let_def CBS_len_def
        CBS_get_bytes_eq min_def simp flip: l_def k_def split: if_splits option.splits prod.splits)
qed

text \<open>
  The loop of \<open>cbs_find_ber\<close> over the elements of \<open>c\<close>; \<open>found\<close> is \<open>*ber_found\<close> on entry,
  which every parsed element overwrites. The result is \<open>*ber_found\<close>, or \<open>None\<close> for a return of 0.
\<close>

function cbs_find_ber_loop :: "bool \<Rightarrow> nat \<Rightarrow> cbs \<Rightarrow> bool option" where
  "cbs_find_ber_loop found depth c =
     (if CBS_len c = 0 then Some found
      else
        (case CBS_get_any_ber_asn1_element c of (None, _) \<Rightarrow> None
         | (Some (contents, tag, header_len, ber), c) \<Rightarrow>
             if ber then Some True
             else if tag AND CBS_ASN1_CONSTRUCTED \<noteq> 0 then
               if is_string_type tag then Some True
               else
                 (case CBS_skip contents header_len of (None, _) \<Rightarrow> None
                  | (Some _, contents) \<Rightarrow>
                      if depth + 1 > kMaxDepth then None
                      else
                        (case cbs_find_ber_loop False (depth + 1) contents of None \<Rightarrow> None
                         | Some found \<Rightarrow> cbs_find_ber_loop found depth c))
             else cbs_find_ber_loop ber depth c))"
  by pat_completeness auto
termination
proof (relation "measure (\<lambda>(found, depth, c). length c)")
qed (auto simp: CBS_skip_def cbs_get_def dest!: get_ber_element_split [OF sym] split: if_splits try_op_splits)

declare cbs_find_ber_loop.simps [simp del]

definition cbs_find_ber :: "cbs \<Rightarrow> nat \<Rightarrow> bool option" where
  "cbs_find_ber orig_in depth = (if depth > kMaxDepth then None else cbs_find_ber_loop False depth orig_in)"

definition is_eoc :: "nat \<Rightarrow> cbs \<Rightarrow> bool" where
  "is_eoc header_len contents \<longleftrightarrow> header_len = 2 \<and> CBS_len contents = 2 \<and> contents = [0, 0]"

text \<open>
  \<open>cbs_convert_ber\<close> on the input and the builder; \<open>d\<close> is the depth of \<open>out\<close> in the builder. Every
  round of the loop and every call consumes at least one byte of input, which bounds the first
  argument.
\<close>

definition ber_out_tag :: "u32 \<Rightarrow> u32" where
  "ber_out_tag tag =
     (if tag AND CBS_ASN1_CONSTRUCTED \<noteq> 0 \<and> is_string_type tag then tag AND NOT CBS_ASN1_CONSTRUCTED else tag)"

definition ber_child_tag :: "u32 \<Rightarrow> u32 \<Rightarrow> u32" where
  "ber_child_tag string_tag tag =
     (if string_tag = 0 \<and> tag AND CBS_ASN1_CONSTRUCTED \<noteq> 0 \<and> is_string_type tag then ber_out_tag tag
      else string_tag)"

fun cbs_convert_ber :: "nat \<Rightarrow> allocator \<Rightarrow> nat \<Rightarrow> u32 \<Rightarrow> bool \<Rightarrow> nat \<Rightarrow> cbs \<times> cbb \<Rightarrow> (cbs \<times> cbb, unit) cres" where
  "cbs_convert_ber 0 alloc d string_tag looking_for_eoc depth st = fails st"
| "cbs_convert_ber (Suc n) alloc d string_tag looking_for_eoc depth (c, s) =
     (if depth > kMaxDepth then fails (c, s)
      else if CBS_len c = 0 then if looking_for_eoc then fails (c, s) else returns () (c, s)
      else
        (case CBS_get_any_ber_asn1_element c of (None, c) \<Rightarrow> fails (c, s)
         | (Some (contents, tag, header_len, ber), c) \<Rightarrow>
             if is_eoc header_len contents then if looking_for_eoc then returns () (c, s) else fails (c, s)
             else if string_tag \<noteq> 0 \<and> tag AND NOT CBS_ASN1_CONSTRUCTED \<noteq> string_tag then fails (c, s)
             else
               let child_string_tag = ber_child_tag string_tag tag; d' = (if string_tag \<noteq> 0 then d else Suc d) in
               (case (if string_tag \<noteq> 0 then returns () s else CBB_add_asn1 alloc d (ber_out_tag tag) s) of
                  (None, s) \<Rightarrow> fails (c, s)
                | (Some _, s) \<Rightarrow>
                    if CBS_len contents = header_len \<and> header_len > 0 \<and> contents ! (header_len - 1) = 0x80 then
                      (case cbs_convert_ber n alloc d' child_string_tag True (depth + 1) (c, s) of
                         (None, st) \<Rightarrow> fails st
                       | (Some _, (c, s)) \<Rightarrow>
                           (case CBB_flush alloc d s of (None, s) \<Rightarrow> fails (c, s)
                            | (Some _, s) \<Rightarrow> cbs_convert_ber n alloc d string_tag looking_for_eoc depth (c, s)))
                    else
                      (case CBS_skip contents header_len of (None, _) \<Rightarrow> fails (c, s)
                       | (Some _, contents) \<Rightarrow>
                           (case (if tag AND CBS_ASN1_CONSTRUCTED \<noteq> 0
                                  then (case cbs_convert_ber n alloc d' child_string_tag False (depth + 1) (contents, s) of
                                          (r, (_, s)) \<Rightarrow> (r, s))
                                  else CBB_add_bytes alloc d' contents s) of
                              (None, s) \<Rightarrow> fails (c, s)
                            | (Some _, s) \<Rightarrow>
                                (case CBB_flush alloc d s of (None, s) \<Rightarrow> fails (c, s)
                                 | (Some _, s) \<Rightarrow>
                                     cbs_convert_ber n alloc d string_tag looking_for_eoc depth (c, s)))))))"

text \<open>The second component of the result is whether \<open>*out_storage\<close> was allocated.\<close>

definition CBS_asn1_ber_to_der :: "allocator \<Rightarrow> cbs \<Rightarrow> (cbs, bytes \<times> bool) cres" where
  "CBS_asn1_ber_to_der alloc c =
     (case cbs_find_ber c 0 of None \<Rightarrow> fails c
      | Some conversion_needed \<Rightarrow>
          if \<not> conversion_needed then
            try_op (CBS_get_any_asn1_element c) (\<lambda>(out, tag, header_len) c. returns (out, False) c)
          else
            (case CBB_init alloc (CBS_len c) of None \<Rightarrow> fails c
             | Some s \<Rightarrow>
                 (case cbs_convert_ber (Suc (CBS_len c)) alloc 0 0 False 0 (c, s) of
                    (None, (c, s)) \<Rightarrow> fails c
                  | (Some _, (c, s)) \<Rightarrow>
                      (case CBB_finish alloc 0 False s of
                         (None, _) \<Rightarrow> fails c
                       | (Some out, _) \<Rightarrow> returns (out, True) c))))"

lemma der_tag_not_Nil [simp]: "der_tag t \<noteq> []"
  using length_der_tag(1) [of t] by auto

function implicit_string_loop :: "allocator \<Rightarrow> u32 \<Rightarrow> cbs \<Rightarrow> cbb \<Rightarrow> (cbb, unit) cres" where
  "implicit_string_loop alloc inner_tag child s =
     (if CBS_len child = 0 then returns () s
      else
        (case CBS_get_asn1 child inner_tag of (None, _) \<Rightarrow> fails s
         | (Some chunk, child) \<Rightarrow>
             try_op (CBB_add_bytes alloc 0 chunk s) (\<lambda>_ s. implicit_string_loop alloc inner_tag child s)))"
  by pat_completeness auto
termination
  by (relation "measure (\<lambda>(alloc, inner_tag, child, s). length child)")
    (auto simp: CBS_get_asn1_iff der_element_def der_tag_not_Nil dest!: sym [of "returns x y" for x y])

declare implicit_string_loop.simps [simp del]

definition CBS_get_asn1_implicit_string :: "allocator \<Rightarrow> cbs \<Rightarrow> u32 \<Rightarrow> u32 \<Rightarrow> (cbs, bytes \<times> bool) cres" where
  "CBS_get_asn1_implicit_string alloc c outer_tag inner_tag =
     (if CBS_peek_asn1_tag c outer_tag then
        try_op (CBS_get_asn1 c outer_tag) (\<lambda>out c. returns (out, False) c)
      else
        (case CBB_init alloc (CBS_len c) of None \<Rightarrow> fails c
         | Some s \<Rightarrow>
             try_op (CBS_get_asn1 c (outer_tag OR CBS_ASN1_CONSTRUCTED)) (\<lambda>child c.
               case implicit_string_loop alloc inner_tag child s of (None, _) \<Rightarrow> fails c
               | (Some _, s) \<Rightarrow>
                   (case CBB_finish alloc 0 False s of
                      (None, _) \<Rightarrow> fails c
                    | (Some data, _) \<Rightarrow> returns (data, True) c))))"


section \<open>Fuel\<close>

lemma get_ber_element_None: "CBS_get_any_ber_asn1_element c = (None, r) \<Longrightarrow> r = c"
  by (auto simp: CBS_get_any_ber_asn1_element_def cbs_get_any_asn1_element_def Let_def CBS_get_bytes_eq
      split: if_splits option.splits prod.splits)

lemma convert_shrinks:
  "cbs_convert_ber n alloc d st eoc depth (c, s) = (r, (c', s')) \<Longrightarrow> length c' \<le> length c"
proof (induction n arbitrary: d st eoc depth c s r c' s')
  case (Suc n)
  show ?case
    using Suc.prems
    by (auto simp: Let_def simp del: split_paired_Ex split: if_splits option.splits prod.splits
      dest!: get_ber_element_split get_ber_element_None Suc.IH)
qed simp

lemma convert_fuel:
  "length c < n \<Longrightarrow> length c < m \<Longrightarrow>
     cbs_convert_ber n alloc d st eoc depth (c, s) = cbs_convert_ber m alloc d st eoc depth (c, s)"
proof (induction n arbitrary: m d st eoc depth c s)
  case (Suc n)
  then obtain m' where m: "m = Suc m'" "length c \<le> n" "length c \<le> m'" by (cases m) auto
  show ?case
  proof (cases "CBS_get_any_ber_asn1_element c")
    case (Pair r c1)
    show ?thesis
    proof (cases r)
      case None
      then show ?thesis using Pair m by simp
    next
      case (Some e)
      obtain contents tag hl ber where e: "e = (contents, tag, hl, ber)" by (cases e)
      have c: "c = contents @ c1" "0 < hl" "hl \<le> length contents"
        using get_ber_element_split [of c contents tag hl ber c1] Pair Some e by auto
      have 1: "cbs_convert_ber n alloc d st eoc depth (c1, s) = cbs_convert_ber m' alloc d st eoc depth (c1, s)"
        for d st eoc depth s using c m by (intro Suc.IH) auto
      have 2: "cbs_convert_ber n alloc d st eoc depth (drop hl contents, s) =
          cbs_convert_ber m' alloc d st eoc depth (drop hl contents, s)" for d st eoc depth s
        using c m by (intro Suc.IH) auto
      have 3: "cbs_convert_ber n alloc d' st' eoc' depth' (c2, s3) = cbs_convert_ber m' alloc d' st' eoc' depth' (c2, s3)"
        if "cbs_convert_ber m' alloc d st eoc depth (c1, s) = (q, (c2, s2))" for d st eoc depth s q c2 s2 d' st' eoc' depth' s3
        using convert_shrinks [OF that] c m by (intro Suc.IH) auto
      have 4: "(case cbs_convert_ber m' alloc d1 st1 True depth1 (c1, s1) of (None, st) \<Rightarrow> fails st
          | (Some x, c, s) \<Rightarrow> case CBB_flush alloc d s of (None, s) \<Rightarrow> fails (c, s)
             | (Some x, s) \<Rightarrow> cbs_convert_ber n alloc d st eoc depth (c, s)) =
        (case cbs_convert_ber m' alloc d1 st1 True depth1 (c1, s1) of (None, st) \<Rightarrow> fails st
          | (Some x, c, s) \<Rightarrow> case CBB_flush alloc d s of (None, s) \<Rightarrow> fails (c, s)
             | (Some x, s) \<Rightarrow> cbs_convert_ber m' alloc d st eoc depth (c, s))" for d1 st1 depth1 s1
        by (auto simp: 3 split: option.splits prod.splits)
      show ?thesis
        using Pair Some e m(1) c
        by (simp add: Let_def CBS_skip_eq 1 2 4 cong: option.case_cong prod.case_cong if_cong)
    qed
  qed
qed simp

section \<open>What is converted\<close>

text \<open>
  DER at every level: definite minimal lengths, and no constructed strings, nested at most \<open>d\<close>
  levels deep.
\<close>

inductive der_forest :: "nat \<Rightarrow> bytes \<Rightarrow> bool" where
  Nil: "der_forest d []"
| Primitive: "tag AND CBS_ASN1_CONSTRUCTED = 0 \<Longrightarrow> length data < 2 ^ 32 \<Longrightarrow> der_forest d r \<Longrightarrow>
    der_forest d (der_element tag data @ r)"
| Constructed: "tag AND CBS_ASN1_CONSTRUCTED \<noteq> 0 \<Longrightarrow> \<not> is_string_type tag \<Longrightarrow> length data < 2 ^ 32 \<Longrightarrow>
    der_forest d data \<Longrightarrow> der_forest (Suc d) r \<Longrightarrow> der_forest (Suc d) (der_element tag data @ r)"

lemma ber_mode_extends:
  assumes "cbs_get_any_asn1_element False c = (Some (out, t, hl, b), r)"
  shows "cbs_get_any_asn1_element True c = (Some (out, t, hl, False), r)"
proof -
  from assms obtain t' h' lb h where p: "parse_asn1_tag c = (Some t', h')" "CBS_get_u8 h' = (Some lb, h)"
    by (auto simp: cbs_get_any_asn1_element_def split: option.splits prod.splits)
  show ?thesis
  proof (cases "lb AND 0x80 = 0")
    case True
    then show ?thesis using assms p
      by (auto simp: cbs_get_any_asn1_element_def Let_def try_op_eq_Some)
  next
    case False
    define k where "k = unat (lb AND 0x7f)"
    note eq = cbs_get_any_asn1_element_def p prod.case option.case Let_def k_def [symmetric]
    have "k \<noteq> 0" using assms False unfolding eq by (auto split: if_splits)
    moreover have "\<not> k > 4" using assms False unfolding eq by (auto split: if_splits)
    ultimately show ?thesis using assms False unfolding eq
      by (auto simp: try_op_eq_Some split: if_splits option.splits prod.splits)
  qed
qed

lemma get_ber_of_der:
  assumes "length data < 2 ^ 32"
  shows "CBS_get_any_ber_asn1_element (der_element t data @ r) =
    (Some (der_element t data, t, length (der_tag t) + length (der_len (length data)), False), r)"
  using CBS_get_any_asn1_element_der [OF assms, of t r]
  unfolding CBS_get_any_ber_asn1_element_def CBS_get_any_asn1_element_def
  by (auto simp: try_op_eq_Some dest!: ber_mode_extends)

lemma skip_der_header:
  "CBS_skip (der_element t data) (length (der_tag t) + length (der_len (length data))) = (Some (), data)"
  by (simp add: CBS_skip_eq der_element_def)

lemma der_element_not_Nil [simp]: "CBS_len (der_element t data @ r) \<noteq> 0"
  by (simp add: CBS_len_def der_element_def)

lemma find_ber_forest:
  "der_forest d c \<Longrightarrow> depth + d \<le> kMaxDepth \<Longrightarrow> cbs_find_ber_loop False depth c = Some False"
proof (induction arbitrary: depth rule: der_forest.induct)
  case (Nil d)
  then show ?case by (simp add: cbs_find_ber_loop.simps CBS_len_def)
next
  case (Primitive tag data d r)
  then show ?case
    by (subst cbs_find_ber_loop.simps) (simp add: get_ber_of_der)
next
  case (Constructed tag data d r)
  then show ?case
    by (subst cbs_find_ber_loop.simps) (simp add: get_ber_of_der skip_der_header)
qed

lemma convert_SomeE:
  assumes "cbs_convert_ber (Suc n) alloc d st eoc depth (c, s) = (Some u, (c', s'))"
  obtains "s' = s"
  | contents tag hl ber c1 s1 s2 s3 x y e c2 where
      "CBS_get_any_ber_asn1_element c = (Some (contents, tag, hl, ber), c1)"
      "if st \<noteq> 0 then s1 = s else CBB_add_asn1 alloc d (ber_out_tag tag) s = (Some (), s1)"
      "length x \<le> length c"
      "cbs_convert_ber n alloc (if st \<noteq> 0 then d else Suc d) (ber_child_tag st tag) e (depth + 1) (x, s1) = (Some (), (y, s2)) \<or>
       tag AND CBS_ASN1_CONSTRUCTED = 0 \<and> CBB_add_bytes alloc (if st \<noteq> 0 then d else Suc d) x s1 = (Some (), s2)"
      "CBB_flush alloc d s2 = (Some (), s3)" "length c2 \<le> length c"
      "cbs_convert_ber n alloc d st eoc depth (c2, s3) = (Some u, (c', s'))"
proof (cases "s' = s")
  case False
  from assms False obtain contents tag hl ber c1 where
    e: "CBS_get_any_ber_asn1_element c = (Some (contents, tag, hl, ber), c1)"
    by (auto split: if_splits option.splits prod.splits)
  note c = get_ber_element_split [OF e]
  have g: "\<not> depth > kMaxDepth" "CBS_len c \<noteq> 0" "\<not> is_eoc hl contents"
      "\<not> (st \<noteq> 0 \<and> tag AND NOT CBS_ASN1_CONSTRUCTED \<noteq> st)"
    using assms False e by (auto split: if_splits)
  obtain q s1 where q: "(if st \<noteq> 0 then returns () s else CBB_add_asn1 alloc d (ber_out_tag tag) s) = (q, s1)"
    by fastforce
  have skip: "CBS_skip contents hl = (Some (), drop hl contents)" using c by (simp add: CBS_skip_eq)
  have q': "q = Some ()"
  proof (cases q)
    case None
    then show ?thesis using assms unfolding cbs_convert_ber.simps(2) e prod.case option.case Let_def q by (simp add: g)
  qed simp
  have r: "(if CBS_len contents = hl \<and> hl > 0 \<and> contents ! (hl - 1) = 0x80 then
        (case cbs_convert_ber n alloc (if st \<noteq> 0 then d else Suc d) (ber_child_tag st tag) True (depth + 1) (c1, s1) of
           (None, st) \<Rightarrow> fails st
         | (Some _, (c, s)) \<Rightarrow>
             (case CBB_flush alloc d s of (None, s) \<Rightarrow> fails (c, s)
              | (Some _, s) \<Rightarrow> cbs_convert_ber n alloc d st eoc depth (c, s)))
      else
        (case (if tag AND CBS_ASN1_CONSTRUCTED \<noteq> 0
               then (case cbs_convert_ber n alloc (if st \<noteq> 0 then d else Suc d) (ber_child_tag st tag) False (depth + 1) (drop hl contents, s1) of
                       (r, (_, s)) \<Rightarrow> (r, s))
               else CBB_add_bytes alloc (if st \<noteq> 0 then d else Suc d) (drop hl contents) s1) of
           (None, s) \<Rightarrow> fails (c1, s)
         | (Some _, s) \<Rightarrow>
             (case CBB_flush alloc d s of (None, s) \<Rightarrow> fails (c1, s)
              | (Some _, s) \<Rightarrow> cbs_convert_ber n alloc d st eoc depth (c1, s)))) = (Some u, (c', s'))"
    using assms unfolding cbs_convert_ber.simps(2) e prod.case option.case Let_def q q' skip by (simp only: g if_False)
  have s1: "if st \<noteq> 0 then s1 = s else CBB_add_asn1 alloc d (ber_out_tag tag) s = (Some (), s1)"
    using q q' by (simp split: if_splits)
  show ?thesis
  proof (cases "CBS_len contents = hl \<and> hl > 0 \<and> contents ! (hl - 1) = 0x80")
    case True
    with r obtain c2 s2 s3 where
      "cbs_convert_ber n alloc (if st \<noteq> 0 then d else Suc d) (ber_child_tag st tag) True (depth + 1) (c1, s1) = (Some (), (c2, s2))"
      "CBB_flush alloc d s2 = (Some (), s3)" "cbs_convert_ber n alloc d st eoc depth (c2, s3) = (Some u, (c', s'))"
      by (auto split: option.splits prod.splits)
    with that(2) [OF e s1, of c1 True c2 s2 s3 c2] convert_shrinks c show ?thesis by fastforce
  next
    case False
    with r obtain y s2 s3 where
      "cbs_convert_ber n alloc (if st \<noteq> 0 then d else Suc d) (ber_child_tag st tag) False (depth + 1) (drop hl contents, s1) = (Some (), (y, s2)) \<or>
       tag AND CBS_ASN1_CONSTRUCTED = 0 \<and> CBB_add_bytes alloc (if st \<noteq> 0 then d else Suc d) (drop hl contents) s1 = (Some (), s2)"
      "CBB_flush alloc d s2 = (Some (), s3)" "cbs_convert_ber n alloc d st eoc depth (c1, s3) = (Some u, (c', s'))"
      by (auto simp del: split_paired_Ex split: option.splits prod.splits if_splits)
    with that(2) [OF e s1, of "drop hl contents" False y s2 s3 c1] c show ?thesis by fastforce
  qed
qed (use that(1) in blast)

lemma asn1_element_fits:
  assumes at: "cbb_at cs s" and op: "CBB_add_asn1 alloc (length cs) tag s = (Some u, s1)"
  defines "c \<equiv> asn1_child (length (cbb_content (length cs) s @ der_tag tag))"
  assumes body: "cbb_at (cs @ [c]) s2"
      "cbb_content (Suc (length cs)) s2 = cbb_content (Suc (length cs)) s1 @ bs"
    and fl: "CBB_flush alloc (length cs) s2 = (Some u', s')"
  shows "length bs < 2 ^ 32"
proof -
  have tk: "take (Suc (length cs)) (children s2) = cs @ [c]" using body(1) by (simp add: cbb_at_def)
  have dr: "drop (length cs) (children s2) = c # drop (Suc (length cs)) (children s2)"
    using tk by (metis append_Cons append_Nil append_eq_conv_conj append_take_drop_id append.assoc)
  have "cbb_content (Suc (length cs)) s2 = cbb_content (length cs) s @ der_tag tag @ [0] @ bs"
    using CBB_add_asn1_Some [OF at op] body(2) by simp
  moreover have "flat_fits (buf (base s2)) (c # drop (Suc (length cs)) (children s2))"
    using CBB_flush_Some(7) [OF cbb_at_close [OF body(1)] fl] dr by simp
  ultimately show ?thesis
    by (simp add: cbb_content_def prefix_fits_def c_def asn1_child_def)
qed

lemma out_tag_primitive:
  "tag AND CBS_ASN1_CONSTRUCTED \<noteq> 0 \<Longrightarrow> is_string_type tag \<Longrightarrow> ber_out_tag tag AND CBS_ASN1_CONSTRUCTED = 0"
  by (simp add: ber_out_tag_def and.assoc)

lemma is_string_type_out [simp]: "is_string_type (tag AND NOT CBS_ASN1_CONSTRUCTED) = is_string_type tag"
  by (simp add: is_string_type_def and.assoc)

lemma child_tag_0:
  "ber_child_tag 0 tag = 0 \<longleftrightarrow> \<not> (tag AND CBS_ASN1_CONSTRUCTED \<noteq> 0 \<and> is_string_type tag)"
proof -
  have "tag AND NOT CBS_ASN1_CONSTRUCTED \<noteq> 0" if "is_string_type tag"
    using that by (auto simp: is_string_type_def CBS_ASN1_OCTETSTRING_def CBS_ASN1_UTF8STRING_def
      CBS_ASN1_NUMERICSTRING_def CBS_ASN1_PRINTABLESTRING_def CBS_ASN1_T61STRING_def CBS_ASN1_VIDEOTEXSTRING_def
      CBS_ASN1_IA5STRING_def CBS_ASN1_GRAPHICSTRING_def CBS_ASN1_VISIBLESTRING_def CBS_ASN1_GENERALSTRING_def
      CBS_ASN1_UNIVERSALSTRING_def CBS_ASN1_BMPSTRING_def)
  then show ?thesis by (auto simp: ber_child_tag_def ber_out_tag_def)
qed

text \<open>One converted element in front of a converted rest.\<close>

lemma forest_step:
  assumes "length body < 2 ^ 32" "der_forest (kMaxDepth - depth) rest"
    and "ber_child_tag 0 tag = 0 \<Longrightarrow> tag AND CBS_ASN1_CONSTRUCTED \<noteq> 0 \<Longrightarrow>
      depth + 1 \<le> kMaxDepth \<and> der_forest (kMaxDepth - (depth + 1)) body"
  shows "der_forest (kMaxDepth - depth) (der_element (ber_out_tag tag) body @ rest)"
proof (cases "tag AND CBS_ASN1_CONSTRUCTED \<noteq> 0 \<and> \<not> is_string_type tag")
  case True
  then have "ber_out_tag tag = tag" "ber_child_tag 0 tag = 0" by (auto simp: ber_out_tag_def child_tag_0)
  with assms(3) True have b: "depth + 1 \<le> kMaxDepth" "der_forest (kMaxDepth - (depth + 1)) body" by auto
  then have "kMaxDepth - depth = Suc (kMaxDepth - (depth + 1))" by simp
  with True assms(1,2) b \<open>ber_out_tag tag = tag\<close> show ?thesis
    using der_forest.Constructed [of tag body "kMaxDepth - (depth + 1)" rest] by simp
next
  case False
  then have "ber_out_tag tag AND CBS_ASN1_CONSTRUCTED = 0"
    by (cases "is_string_type tag") (auto simp: ber_out_tag_def and.assoc)
  with assms show ?thesis by (intro der_forest.Primitive)
qed

lemma convert_depth: "cbs_convert_ber n alloc d st eoc depth (c, s) = (Some u, r) \<Longrightarrow> depth \<le> kMaxDepth"
  by (cases n) (auto split: if_splits)

lemma convert_content:
  assumes "cbb_at cs s" "length c < 2 ^ 64"
    and "cbs_convert_ber n alloc (length cs) st eoc depth (c, s) = (Some u, (c', s'))"
  shows "cbb_at cs s' \<and> (\<exists>bs. cbb_content (length cs) s' = cbb_content (length cs) s @ bs \<and>
    (st = 0 \<longrightarrow> der_forest (kMaxDepth - depth) bs))"
  using assms
proof (induction n arbitrary: cs s c st eoc depth u c' s')
  case (Suc n)
  show ?case
  proof (cases rule: convert_SomeE [OF Suc.prems(3)])
    case 1
    then show ?thesis using Suc.prems(1) by (auto intro!: exI [of _ "[]"] der_forest.Nil)
  next
    case (2 contents tag hl ber c1 s1 s2 s3 x y e c2)
    have lx: "length x < 2 ^ 64" "length c2 < 2 ^ 64" using 2 Suc.prems(2) by auto
    have body: "cbb_at cs' s2 \<and> (\<exists>bs. cbb_content (length cs') s2 = cbb_content (length cs') s1 @ bs \<and>
        (ber_child_tag st tag = 0 \<longrightarrow> tag AND CBS_ASN1_CONSTRUCTED \<noteq> 0 \<longrightarrow>
           depth + 1 \<le> kMaxDepth \<and> der_forest (kMaxDepth - (depth + 1)) bs))"
      if "cbb_at cs' s1" "length cs' = (if st \<noteq> 0 then length cs else Suc (length cs))" for cs'
      using 2(4)
    proof
      assume r: "cbs_convert_ber n alloc (if st \<noteq> 0 then length cs else Suc (length cs)) (ber_child_tag st tag) e
        (depth + 1) (x, s1) = (Some (), (y, s2))"
      with Suc.IH [OF that(1) lx(1), of "ber_child_tag st tag" e "depth + 1" "()" y s2] that(2) convert_depth [OF r]
      show ?thesis by auto
    next
      assume "tag AND CBS_ASN1_CONSTRUCTED = 0 \<and>
        CBB_add_bytes alloc (if st \<noteq> 0 then length cs else Suc (length cs)) x s1 = (Some (), s2)"
      with that show ?thesis
        using cbb_sink.add_content [OF that(1) lx(1), of alloc "()" s2] cbb_sink.add_inv [OF that(1) lx(1), of alloc "()" s2]
        by auto
    qed
    show ?thesis
    proof (cases "st = 0")
      case False
      then have s1: "s1 = s" using 2(2) by simp
      from body [of cs] False s1 Suc.prems(1) obtain bs where
        b: "cbb_at cs s2" "cbb_content (length cs) s2 = cbb_content (length cs) s @ bs" by auto
      note f = CBB_flush_Some(1) [OF b(1) 2(5)] CBB_flush_content [OF b(1) 2(5)]
      from Suc.IH [OF f(1) lx(2) 2(7)] f(2) b(2) False show ?thesis by auto
    next
      case True
      then have s1: "CBB_add_asn1 alloc (length cs) (ber_out_tag tag) s = (Some (), s1)" using 2(2) by simp
      let ?k = "asn1_child (length (cbb_content (length cs) s @ der_tag (ber_out_tag tag)))"
      have "cbb_at (cs @ [?k]) s1" using CBB_add_asn1_Some [OF Suc.prems(1) s1] by simp
      with body [of "cs @ [?k]"] True obtain bs where
        b: "cbb_at (cs @ [?k]) s2" "cbb_content (Suc (length cs)) s2 = cbb_content (Suc (length cs)) s1 @ bs"
          "ber_child_tag 0 tag = 0 \<Longrightarrow> tag AND CBS_ASN1_CONSTRUCTED \<noteq> 0 \<Longrightarrow>
             depth + 1 \<le> kMaxDepth \<and> der_forest (kMaxDepth - (depth + 1)) bs" by auto
      note el = asn1_element_content [OF Suc.prems(1) s1 b(1,2) 2(5)]
      note len = asn1_element_fits [OF Suc.prems(1) s1 b(1,2) 2(5)]
      from Suc.IH [OF conjunct1 [OF el] lx(2) 2(7)] True obtain rest where
        r: "cbb_at cs s'" "cbb_content (length cs) s' = cbb_content (length cs) s3 @ rest"
          "der_forest (kMaxDepth - depth) rest" by auto
      from forest_step [OF len r(3) b(3)] r(1,2) el show ?thesis by auto
    qed
  qed
qed simp

section \<open>Implicitly tagged strings\<close>

lemma implicit_string_loop_eq:
  assumes "\<forall>d \<in> set chunks. length d < 2 ^ 32"
  shows "implicit_string_loop alloc inner (concat (map (der_element inner) chunks)) s = each (CBB_add_bytes alloc 0) chunks s"
  using assms
proof (induction chunks arbitrary: s)
  case Nil
  then show ?case by (simp add: implicit_string_loop.simps CBS_len_def)
next
  case (Cons d chunks)
  have "implicit_string_loop alloc inner (concat (map (der_element inner) chunks)) = each (CBB_add_bytes alloc 0) chunks"
    using Cons by (intro ext) simp
  with Cons.prems show ?case
    by (subst implicit_string_loop.simps) (simp add: CBS_get_asn1_der)
qed

lemma constructed_not_outer:
  assumes "outer AND CBS_ASN1_CONSTRUCTED = 0"
  shows "outer OR CBS_ASN1_CONSTRUCTED \<noteq> outer"
proof
  assume "outer OR CBS_ASN1_CONSTRUCTED = outer"
  then have "(outer OR CBS_ASN1_CONSTRUCTED) AND CBS_ASN1_CONSTRUCTED = 0" using assms by simp
  then show False by (simp add: CBS_ASN1_CONSTRUCTED_def CBS_ASN1_TAG_SHIFT_def bit.conj_disj_distrib2)
qed

lemma peek_der: "CBS_peek_asn1_tag (der_element t data @ r) tag \<longleftrightarrow> t = tag"
  using parse_asn1_tag_der_tag [of t "der_len (length data) @ data @ r"] der_element_not_Nil [of t data r]
  by (simp add: CBS_peek_asn1_tag_def der_element_def)

section \<open>Properties\<close>

text \<open>C25: whatever \<open>CBS_asn1_ber_to_der\<close> converts comes out as DER at every nesting level, definite and
  minimal lengths and no constructed strings, so that a second conversion has nothing to do.\<close>

theorem ber_to_der_is_der:
  assumes "CBS_asn1_ber_to_der alloc c = (Some (out, True), r)" "length c < 2 ^ 64"
  shows "der_forest kMaxDepth out \<and> cbs_find_ber out 0 = Some False"
proof -
  obtain s c1 s1 s2 where s: "CBB_init alloc (length c) = Some s"
      and cv: "cbs_convert_ber (Suc (length c)) alloc 0 0 False 0 (c, s) = (Some (), (c1, s1))"
      and fin: "CBB_finish alloc 0 False s1 = (Some out, s2)"
    using assms(1) unfolding CBS_asn1_ber_to_der_def CBS_len_def
    by (auto simp: try_op_eq_Some simp del: cbs_convert_ber.simps split: option.splits prod.splits if_splits)
  note I = CBB_init_at [OF s assms(2)]
  from convert_content [of "[]", OF I(1) assms(2), of "Suc (length c)" alloc 0 False 0 "()" c1 s1] cv I(2)
  have "cbb_at [] s1" "der_forest kMaxDepth (cbb_content 0 s1)" by (auto simp del: cbs_convert_ber.simps)
  with CBB_finish_Some [OF _ fin] have "der_forest kMaxDepth out" by simp
  with find_ber_forest [of kMaxDepth out 0] show ?thesis by (simp add: cbs_find_ber_def)
qed

theorem ber_to_der_is_der_witness:
  "CBS_asn1_ber_to_der (\<lambda>_. True) [0x30, 0x80, 0x24, 4, 4, 0, 4, 0, 0, 0] = (Some ([0x30, 2, 4, 0], True), []) \<and>
   cbs_find_ber [0x30, 2, 4, 0] 0 = Some False"
proof -
  have "CBS_asn1_ber_to_der (\<lambda>_. True) [0x30, 0x80, 0x24, 4, 4, 0, 4, 0, 0, 0] = (Some ([0x30, 2, 4, 0], True), [])"
    by code_simp
  with ber_to_der_is_der [OF this] show ?thesis by simp
qed




text \<open>C28: \<open>CBS_get_asn1_implicit_string\<close> returns the contents of a primitive string as they are and the
  concatenation of the chunks of a constructed one.\<close>

theorem implicit_string_concat:
  assumes "\<forall>m. alloc m" "outer AND CBS_ASN1_CONSTRUCTED = 0"
    and "\<forall>d \<in> set chunks. length d < 2 ^ 32" "length (concat (map (der_element inner) chunks)) < 2 ^ 32"
    and "length r < 2 ^ 63" "length data < 2 ^ 32"
  shows "CBS_get_asn1_implicit_string alloc (der_element outer data @ r) outer inner = (Some (data, False), r) \<and>
    CBS_get_asn1_implicit_string alloc
      (der_element (outer OR CBS_ASN1_CONSTRUCTED) (concat (map (der_element inner) chunks)) @ r) outer inner =
      (Some (concat chunks, True), r)"
proof
  show "CBS_get_asn1_implicit_string alloc (der_element outer data @ r) outer inner = (Some (data, False), r)"
    using assms(6) by (simp add: CBS_get_asn1_implicit_string_def peek_der CBS_get_asn1_der)
  let ?body = "concat (map (der_element inner) chunks)"
  let ?c = "der_element (outer OR CBS_ASN1_CONSTRUCTED) ?body @ r"
  have "length (concat chunks) \<le> length ?body"
    by (induction chunks) (simp_all add: der_element_def)
  then have lc: "length (concat chunks) < 2 ^ 64" using assms(4) by simp
  have "length (der_len (length ?body)) \<le> 5"
    using length_der_len [OF assms(4)] len_octets_cases(1) [OF assms(4)] by auto
  then have lc': "CBS_len ?c < 2 ^ 64"
    using assms(4,5) length_der_tag [of "outer OR CBS_ASN1_CONSTRUCTED"] by (simp add: CBS_len_def der_element_def)
  obtain s where s: "CBB_init alloc (CBS_len ?c) = Some s" using assms(1) by (auto simp: CBB_init_def cbb_init_def)
  note I = CBB_init_at [OF s lc']
  obtain s1 where s1: "each (CBB_add_bytes alloc 0) chunks s = (Some (), s1)" "cbb_room alloc 0 s1"
    using cbb_sink.each_room [of "[]" s alloc chunks] I assms(1) lc by auto
  have small: "length d < 2 ^ 64" if "d \<in> set chunks" for d using assms(3) that by force
  have at: "cbb_at [] s1" "cbb_content 0 s1 = concat chunks"
    using cbb_sink.each_content [of "[]" s chunks alloc "()" s1] I s1(1) small by auto
  obtain s2 where "CBB_finish alloc 0 False s1 = (Some (concat chunks), s2)"
    using CBB_finish_room [OF at(1) s1(2)] at(2) by auto
  with s1 s implicit_string_loop_eq [OF assms(3)]
  show "CBS_get_asn1_implicit_string alloc ?c outer inner = (Some (concat chunks, True), r)"
    using constructed_not_outer [OF assms(2)] assms(4)
    by (simp add: CBS_get_asn1_implicit_string_def peek_der CBS_get_asn1_der)
qed

theorem implicit_string_concat_witness:
  "CBS_get_asn1_implicit_string (\<lambda>_. True)
     (der_element (0x80000000 OR CBS_ASN1_CONSTRUCTED) (concat (map (der_element CBS_ASN1_OCTETSTRING) [[1], [2, 3]]))) 0x80000000
     CBS_ASN1_OCTETSTRING = (Some ([1, 2, 3], True), [])"
proof -
  have "length (concat (map (der_element CBS_ASN1_OCTETSTRING) [[1], [2, 3]])) < 2 ^ 32"
    by (simp add: der_element_def der_tag_def der_len_def CBS_ASN1_OCTETSTRING_def)
  with implicit_string_concat [where alloc = "\<lambda>_. True" and outer = "0x80000000" and chunks = "[[1], [2, 3]]"
      and inner = CBS_ASN1_OCTETSTRING and r = "[]" and data = "[]"]
  show ?thesis by (simp add: CBS_ASN1_CONSTRUCTED_def CBS_ASN1_TAG_SHIFT_def)
qed

end
