(* ===== verification/Constant_Time.thy ===== *)
theory Constant_Time
  imports CPrelude
begin

text \<open>
  The constant-time comparisons and selections of \<^verbatim>\<open>crypto/internal.h\<close>, on 64-bit words. They
  compute masks, all ones for true and all zeros for false; the lemmas show which comparison
  each mask stands for, so that code written with them can be read with ordinary conditions.
  The value barriers, which only stop the compiler, are the identity.
\<close>

unbundle bit_operations_syntax

type_synonym crypto_word_t = u64

definition value_barrier_w :: "crypto_word_t \<Rightarrow> crypto_word_t" where
  "value_barrier_w a = a"

definition constant_time_msb_w :: "crypto_word_t \<Rightarrow> crypto_word_t" where
  "constant_time_msb_w a = 0 - drop_bit 63 a"

definition constant_time_lt_w :: "crypto_word_t \<Rightarrow> crypto_word_t \<Rightarrow> crypto_word_t" where
  "constant_time_lt_w a b = constant_time_msb_w (a XOR ((a XOR b) OR ((a - b) XOR a)))"

definition constant_time_lt_8 :: "crypto_word_t \<Rightarrow> crypto_word_t \<Rightarrow> u8" where
  "constant_time_lt_8 a b = ucast (constant_time_lt_w a b)"

definition constant_time_ge_w :: "crypto_word_t \<Rightarrow> crypto_word_t \<Rightarrow> crypto_word_t" where
  "constant_time_ge_w a b = NOT (constant_time_lt_w a b)"

definition constant_time_ge_8 :: "crypto_word_t \<Rightarrow> crypto_word_t \<Rightarrow> u8" where
  "constant_time_ge_8 a b = ucast (constant_time_ge_w a b)"

definition constant_time_is_zero_w :: "crypto_word_t \<Rightarrow> crypto_word_t" where
  "constant_time_is_zero_w a = constant_time_msb_w (NOT a AND (a - 1))"

definition constant_time_is_zero_8 :: "crypto_word_t \<Rightarrow> u8" where
  "constant_time_is_zero_8 a = ucast (constant_time_is_zero_w a)"

definition constant_time_eq_w :: "crypto_word_t \<Rightarrow> crypto_word_t \<Rightarrow> crypto_word_t" where
  "constant_time_eq_w a b = constant_time_is_zero_w (a XOR b)"

definition constant_time_eq_8 :: "crypto_word_t \<Rightarrow> crypto_word_t \<Rightarrow> u8" where
  "constant_time_eq_8 a b = ucast (constant_time_eq_w a b)"

text \<open>An \<open>int\<close> argument is sign-extended to the word.\<close>

definition constant_time_eq_int :: "u32 \<Rightarrow> u32 \<Rightarrow> crypto_word_t" where
  "constant_time_eq_int a b = constant_time_eq_w (scast a) (scast b)"

definition constant_time_eq_int_8 :: "u32 \<Rightarrow> u32 \<Rightarrow> u8" where
  "constant_time_eq_int_8 a b = constant_time_eq_8 (scast a) (scast b)"

definition constant_time_select_w :: "crypto_word_t \<Rightarrow> crypto_word_t \<Rightarrow> crypto_word_t \<Rightarrow> crypto_word_t" where
  "constant_time_select_w m a b = (value_barrier_w m AND a) OR (value_barrier_w (NOT m) AND b)"

definition constant_time_select_8 :: "u8 \<Rightarrow> u8 \<Rightarrow> u8 \<Rightarrow> u8" where
  "constant_time_select_8 m a b = ucast (constant_time_select_w (ucast m) (ucast a) (ucast b))"

definition constant_time_select_int :: "crypto_word_t \<Rightarrow> u32 \<Rightarrow> u32 \<Rightarrow> u32" where
  "constant_time_select_int m a b = ucast (constant_time_select_w m (scast a) (scast b))"

section \<open>Masks\<close>

definition bmask :: "bool \<Rightarrow> 'a::len word" where
  "bmask b = (if b then - 1 else 0)"

named_theorems ct_simps

lemma bmask_simps [simp]:
  "bmask True = - 1" "bmask False = 0" "NOT (bmask b) = bmask (\<not> b)"
  "bmask b AND bmask c = bmask (b \<and> c)" "bmask b OR bmask c = bmask (b \<or> c)"
  by (simp_all add: bmask_def)

lemma bmask_select [simp]: "(bmask b AND x) OR (bmask (\<not> b) AND y) = (if b then x else y)"
  by (simp add: bmask_def)

lemma bmask_eq_0 [simp]: "bmask b = 0 \<longleftrightarrow> \<not> b" "0 = bmask b \<longleftrightarrow> \<not> b"
  by (auto simp: bmask_def)

lemma drop_bit_63: "drop_bit 63 a = (if 2 ^ 63 \<le> unat a then 1 else 0)" for a :: u64
proof -
  have "unat a div 2 ^ 63 < 2" using unsigned_less [of a] by (intro less_mult_imp_div_less) simp
  then have "unat (drop_bit 63 a) = (if 2 ^ 63 \<le> unat a then 1 else 0)"
    by (auto simp: unat_drop_bit less_2_cases_iff div_eq_0_iff)
  then show ?thesis by (auto simp: word_unat_eq_iff)
qed

lemma bit_63: "bit a 63 \<longleftrightarrow> 2 ^ 63 \<le> unat a" for a :: u64
  by (simp add: bit_iff_odd_drop_bit drop_bit_63)

lemma msb_mask: "constant_time_msb_w a = bmask (bit a 63)"
  by (simp add: constant_time_msb_w_def drop_bit_63 bit_63 bmask_def)

lemma lt_w_mask [ct_simps]: "constant_time_lt_w a b = bmask (a < b)"
proof -
  have "unat (a - b) = (if b \<le> a then unat a - unat b else 2 ^ 64 + unat a - unat b)"
    by (auto simp: unat_sub_if_size word_size word_le_nat_alt)
  moreover have "unat a < 2 ^ 64" "unat b < 2 ^ 64" using unsigned_less [of a] unsigned_less [of b] by simp_all
  ultimately have "(if bit a 63 = bit b 63 then bit (a - b) 63 else bit b 63) \<longleftrightarrow> a < b"
    by (auto simp: bit_63 word_less_nat_alt word_le_nat_alt)
  then show ?thesis
    by (auto simp: constant_time_lt_w_def msb_mask bit_simps bmask_def split: if_splits)
qed

lemma ge_w_mask [ct_simps]: "constant_time_ge_w a b = bmask (b \<le> a)"
  by (simp add: constant_time_ge_w_def lt_w_mask not_less)

lemma is_zero_w_mask [ct_simps]: "constant_time_is_zero_w a = bmask (a = 0)"
proof (cases "a = 0")
  case True
  then show ?thesis by (simp add: constant_time_is_zero_w_def msb_mask)
next
  case False
  then have "unat (a - 1) = unat a - 1" by (simp add: unat_minus_one)
  with False have "\<not> bit a 63 \<Longrightarrow> \<not> bit (a - 1) 63" by (simp add: bit_63)
  with False show ?thesis by (auto simp: constant_time_is_zero_w_def msb_mask bit_simps)
qed

lemma eq_w_mask [ct_simps]: "constant_time_eq_w a b = bmask (a = b)"
proof -
  have "a XOR b = 0 \<longleftrightarrow> a = b" by (auto simp: bit_eq_iff bit_simps)
  then show ?thesis by (simp add: constant_time_eq_w_def is_zero_w_mask)
qed

lemma ucast_scast: "(ucast (scast a :: u64) :: u32) = a"
  by (rule bit_word_eqI) (auto simp: bit_simps)

lemma ucast_bmask [simp]: "(ucast (bmask b :: u64) :: u8) = bmask b" "(ucast (bmask b :: u64) :: u32) = bmask b"
  by (simp_all add: bmask_def bit_eq_iff bit_simps)

lemma mask_8 [ct_simps]:
  "constant_time_lt_8 a b = bmask (a < b)" "constant_time_ge_8 a b = bmask (b \<le> a)"
  "constant_time_is_zero_8 a = bmask (a = 0)" "constant_time_eq_8 a b = bmask (a = b)"
  by (simp_all add: constant_time_lt_8_def constant_time_ge_8_def constant_time_is_zero_8_def
      constant_time_eq_8_def ct_simps)

lemma eq_int_mask [ct_simps]:
  "constant_time_eq_int a b = bmask (a = b)" "constant_time_eq_int_8 a b = bmask (a = b)"
proof -
  have "(scast a :: u64) = scast b \<longleftrightarrow> a = b" by (metis ucast_scast)
  then show "constant_time_eq_int a b = bmask (a = b)" "constant_time_eq_int_8 a b = bmask (a = b)"
    by (simp_all add: constant_time_eq_int_def constant_time_eq_int_8_def ct_simps)
qed

lemma select_w [ct_simps]: "constant_time_select_w (bmask c) a b = (if c then a else b)"
  by (simp add: constant_time_select_w_def value_barrier_w_def)

lemma select_8 [ct_simps]: "constant_time_select_8 (bmask c) a b = (if c then a else b)"
  by (rule bit_word_eqI)
    (auto simp: constant_time_select_8_def constant_time_select_w_def value_barrier_w_def bmask_def bit_simps)

lemma select_int [ct_simps]: "constant_time_select_int (bmask c) a b = (if c then a else b)"
  by (simp add: constant_time_select_int_def ct_simps ucast_scast)

end
