(* ===== verification/Base64.thy ===== *)
theory Base64
  imports Constant_Time CBB_Codec
begin

text \<open>
  The base64 codec of \<^verbatim>\<open>crypto/base64/base64.c\<close>: the constant-time character conversions, the
  one-shot encoder and decoder, and the streaming ones with their 48-byte line buffer. Output
  buffers are the bytes written; the terminating zero byte the encoder writes behind them is left
  out.
\<close>

unbundle bit_operations_syntax

section \<open>Characters\<close>

definition constant_time_lt_args_8 :: "u8 \<Rightarrow> u8 \<Rightarrow> u8" where
  "constant_time_lt_args_8 a b = ucast (constant_time_msb_w (ucast a - ucast b))"

definition constant_time_in_range_8 :: "u8 \<Rightarrow> u8 \<Rightarrow> u8 \<Rightarrow> u8" where
  "constant_time_in_range_8 a lo hi = constant_time_lt_args_8 (a - lo) (hi - lo + 1)"

definition conv_bin2ascii :: "u8 \<Rightarrow> u8" where
  "conv_bin2ascii a0 =
     (let a = a0 AND 0x3f;
          ret = constant_time_select_8 (constant_time_eq_8 (ucast a) 62) 0x2b 0x2f;
          ret = constant_time_select_8 (constant_time_lt_args_8 a 62) (a - 52 + 0x30) ret;
          ret = constant_time_select_8 (constant_time_lt_args_8 a 52) (a - 26 + 0x61) ret in
      constant_time_select_8 (constant_time_lt_args_8 a 26) (a + 0x41) ret)"

definition base64_ascii_to_bin :: "u8 \<Rightarrow> u8" where
  "base64_ascii_to_bin a =
     (let is_upper = constant_time_in_range_8 a 0x41 0x5a;
          is_lower = constant_time_in_range_8 a 0x61 0x7a;
          is_digit = constant_time_in_range_8 a 0x30 0x39;
          is_plus = constant_time_eq_8 (ucast a) 0x2b;
          is_slash = constant_time_eq_8 (ucast a) 0x2f;
          is_equals = constant_time_eq_8 (ucast a) 0x3d;
          ret = 0 OR (is_upper AND (a - 0x41));
          ret = ret OR (is_lower AND (a - 0x61 + 26));
          ret = ret OR (is_digit AND (a - 0x30 + 52));
          ret = ret OR (is_plus AND 62);
          ret = ret OR (is_slash AND 63);
          is_valid = is_upper OR is_lower OR is_digit OR is_plus OR is_slash OR is_equals in
      ret OR NOT is_valid)"

section \<open>Encoding\<close>

definition EVP_EncodedLength :: "u64 \<Rightarrow> u64 option" where
  "EVP_EncodedLength len =
     (if len + 2 < len then None
      else
        let len = (len + 2) div 3 in
        if drop_bit 2 (push_bit 2 len) \<noteq> len then None
        else
          let len = push_bit 2 len in
          if len + 1 < len then None else Some (len + 1))"

definition b64_char :: "u32 \<Rightarrow> nat \<Rightarrow> u8" where
  "b64_char l k = conv_bin2ascii (ucast (drop_bit k l))"

fun EVP_EncodeBlock :: "bytes \<Rightarrow> bytes" where
  "EVP_EncodeBlock [] = []"
| "EVP_EncodeBlock [x] =
     (let l = push_bit 16 (ucast x) :: u32 in
      [b64_char l 18, b64_char l 12, 0x3d, 0x3d])"
| "EVP_EncodeBlock [x, y] =
     (let l = push_bit 16 (ucast x) OR push_bit 8 (ucast y) :: u32 in
      [b64_char l 18, b64_char l 12, b64_char l 6, 0x3d])"
| "EVP_EncodeBlock (x # y # z # src) =
     (let l = push_bit 16 (ucast x) OR push_bit 8 (ucast y) OR ucast z :: u32 in
      b64_char l 18 # b64_char l 12 # b64_char l 6 # b64_char l 0 # EVP_EncodeBlock src)"

record EVP_ENCODE_CTX =
  data_used :: nat
  ctx_data :: bytes
  eof_seen :: bool
  error_encountered :: bool

definition sizeof_data :: nat where "sizeof_data = 48"

definition EVP_EncodeInit :: EVP_ENCODE_CTX where
  "EVP_EncodeInit = \<lparr>data_used = 0, ctx_data = replicate sizeof_data 0, eof_seen = False, error_encountered = False\<rparr>"

definition INT_MAX :: nat where "INT_MAX = 0x7fffffff"

text \<open>The loop over whole lines: what is written, the total counted, and the input left.\<close>

function encode_lines_loop :: "bytes \<Rightarrow> nat \<Rightarrow> bytes \<Rightarrow> bytes \<times> nat option \<times> bytes" where
  "encode_lines_loop out tot inp =
     (if length inp \<ge> sizeof_data then
        let enc = EVP_EncodeBlock (take sizeof_data inp) in
        if size_add (size_add tot (length enc)) 1 < tot
        then (out @ enc @ [0x0a], None, drop sizeof_data inp)
        else encode_lines_loop (out @ enc @ [0x0a]) (size_add (size_add tot (length enc)) 1) (drop sizeof_data inp)
      else (out, Some tot, inp))"
  by pat_completeness auto
termination
  by (relation "measure (\<lambda>(out, tot, inp). length inp)") (auto simp: sizeof_data_def)

declare encode_lines_loop.simps [simp del]

text \<open>\<open>EVP_EncodeUpdate\<close> gives the context, the bytes written and \<open>*out_len\<close>.\<close>

definition EVP_EncodeUpdate :: "EVP_ENCODE_CTX \<Rightarrow> bytes \<Rightarrow> EVP_ENCODE_CTX \<times> bytes \<times> nat" where
  "EVP_EncodeUpdate ctx inp =
     (if length inp = 0 then (ctx, [], 0)
      else if sizeof_data - data_used ctx > length inp then
        (ctx\<lparr>ctx_data := poke (ctx_data ctx) (data_used ctx) inp, data_used := data_used ctx + length inp\<rparr>, [], 0)
      else
        let (ctx, out, tot, inp) =
          (if data_used ctx \<noteq> 0 then
             let todo = sizeof_data - data_used ctx;
                 ctx = ctx\<lparr>ctx_data := poke (ctx_data ctx) (data_used ctx) (take todo inp)\<rparr>;
                 enc = EVP_EncodeBlock (ctx_data ctx) in
             (ctx\<lparr>data_used := 0\<rparr>, enc @ [0x0a], length enc + 1, drop todo inp)
           else (ctx, [], 0, inp)) in
        (case encode_lines_loop out tot inp of
           (out, None, inp) \<Rightarrow> (ctx, out, 0)
         | (out, Some tot, inp) \<Rightarrow>
             (ctx\<lparr>ctx_data := (if inp \<noteq> [] then poke (ctx_data ctx) 0 inp else ctx_data ctx), data_used := length inp\<rparr>,
              out, if tot > INT_MAX then 0 else tot)))"

definition EVP_EncodeFinal :: "EVP_ENCODE_CTX \<Rightarrow> EVP_ENCODE_CTX \<times> bytes \<times> nat" where
  "EVP_EncodeFinal ctx =
     (if data_used ctx = 0 then (ctx, [], 0)
      else
        let enc = EVP_EncodeBlock (take (data_used ctx) (ctx_data ctx)) in
        (ctx\<lparr>data_used := 0\<rparr>, enc @ [0x0a], length enc + 1))"

section \<open>Decoding\<close>

definition EVP_DecodedLength :: "nat \<Rightarrow> nat option" where
  "EVP_DecodedLength len = (if len mod 4 \<noteq> 0 then None else Some (len div 4 * 3))"

definition EVP_DecodeInit :: EVP_ENCODE_CTX where
  "EVP_DecodeInit = \<lparr>data_used = 0, ctx_data = replicate sizeof_data 0, eof_seen = False, error_encountered = False\<rparr>"

definition base64_decode_quad :: "u8 \<Rightarrow> u8 \<Rightarrow> u8 \<Rightarrow> u8 \<Rightarrow> bytes option" where
  "base64_decode_quad i0 i1 i2 i3 =
     (let a = base64_ascii_to_bin i0; b = base64_ascii_to_bin i1;
          c = base64_ascii_to_bin i2; d = base64_ascii_to_bin i3 in
      if a = 0xff \<or> b = 0xff \<or> c = 0xff \<or> d = 0xff then None
      else
        let v = push_bit 18 (ucast a) OR push_bit 12 (ucast b) OR push_bit 6 (ucast c) OR ucast d :: u32;
            padding_pattern =
              (push_bit 3 (of_bool (i0 = 0x3d)) OR push_bit 2 (of_bool (i1 = 0x3d)) OR
               push_bit 1 (of_bool (i2 = 0x3d)) OR of_bool (i3 = 0x3d)) :: u32 in
        if padding_pattern = 0 then Some [ucast (drop_bit 16 v), ucast (drop_bit 8 v), ucast v]
        else if padding_pattern = 1 then Some [ucast (drop_bit 16 v), ucast (drop_bit 8 v)]
        else if padding_pattern = 3 then Some [ucast (drop_bit 16 v)]
        else None)"

text \<open>The loop of \<open>EVP_DecodeUpdate\<close>; the flag says that it returned \<open>-1\<close>.\<close>

fun decode_update_loop :: "EVP_ENCODE_CTX \<Rightarrow> bytes \<Rightarrow> bytes \<Rightarrow> bool \<times> EVP_ENCODE_CTX \<times> bytes" where
  "decode_update_loop ctx out [] = (True, ctx, out)"
| "decode_update_loop ctx out (c # inp) =
     (if c = 0x20 \<or> c = 0x09 \<or> c = 0x0d \<or> c = 0x0a then decode_update_loop ctx out inp
      else if eof_seen ctx then (False, ctx\<lparr>error_encountered := True\<rparr>, out)
      else
        let ctx = ctx\<lparr>ctx_data := (ctx_data ctx)[data_used ctx := c], data_used := data_used ctx + 1\<rparr> in
        if data_used ctx = 4 then
          (case base64_decode_quad (ctx_data ctx ! 0) (ctx_data ctx ! 1) (ctx_data ctx ! 2) (ctx_data ctx ! 3) of
             None \<Rightarrow> (False, ctx\<lparr>error_encountered := True\<rparr>, out)
           | Some bs \<Rightarrow>
               decode_update_loop
                 (ctx\<lparr>data_used := 0, eof_seen := (if length bs < 3 then True else eof_seen ctx)\<rparr>) (out @ bs) inp)
        else decode_update_loop ctx out inp)"

text \<open>The return value (\<open>-1\<close>, 0 or 1), the context, the bytes written and \<open>*out_len\<close>.\<close>

definition EVP_DecodeUpdate :: "EVP_ENCODE_CTX \<Rightarrow> bytes \<Rightarrow> int \<times> EVP_ENCODE_CTX \<times> bytes \<times> nat" where
  "EVP_DecodeUpdate ctx inp =
     (if error_encountered ctx then (- 1, ctx, [], 0)
      else
        (case decode_update_loop ctx [] inp of
           (False, ctx, out) \<Rightarrow> (- 1, ctx, out, 0)
         | (True, ctx, out) \<Rightarrow>
             if length out > INT_MAX then (- 1, ctx\<lparr>error_encountered := True\<rparr>, out, 0)
             else (if eof_seen ctx then 0 else 1, ctx, out, length out)))"

definition EVP_DecodeFinal :: "EVP_ENCODE_CTX \<Rightarrow> int" where
  "EVP_DecodeFinal ctx = (if error_encountered ctx \<or> data_used ctx \<noteq> 0 then - 1 else 1)"

fun decode_base64_loop :: "bytes \<Rightarrow> bytes \<Rightarrow> bytes option" where
  "decode_base64_loop out (a # b # c # d # inp) =
     (case base64_decode_quad a b c d of None \<Rightarrow> None
      | Some bs \<Rightarrow> if length bs \<noteq> 3 \<and> inp \<noteq> [] then None else decode_base64_loop (out @ bs) inp)"
| "decode_base64_loop out inp = Some out"

definition EVP_DecodeBase64 :: "nat \<Rightarrow> bytes \<Rightarrow> bytes option" where
  "EVP_DecodeBase64 max_out inp =
     (if length inp mod 4 \<noteq> 0 then None
      else
        (case EVP_DecodedLength (length inp) of None \<Rightarrow> None
         | Some max_len \<Rightarrow> if max_out < max_len then None else decode_base64_loop [] inp))"

definition trim_end :: "bytes \<Rightarrow> bytes" where
  "trim_end src = rev (dropWhile (\<lambda>c. c = 0x20 \<or> c = 0x09 \<or> c = 0x0d \<or> c = 0x0a) (rev src))"

definition EVP_DecodeBlock :: "bytes \<Rightarrow> bytes option" where
  "EVP_DecodeBlock src =
     (let src = dropWhile (\<lambda>c. c = 0x20 \<or> c = 0x09) src; src = trim_end src in
      (case EVP_DecodedLength (length src) of None \<Rightarrow> None
       | Some dst_len \<Rightarrow>
           if dst_len > INT_MAX then None
           else
             (case EVP_DecodeBase64 dst_len src of None \<Rightarrow> None
              | Some dst \<Rightarrow> Some (dst @ replicate ((3 - length dst mod 3) mod 3) 0))))"

section \<open>The alphabet\<close>

lemma lt_args_mask: "constant_time_lt_args_8 a b = bmask (a < b)"
proof -
  have ab: "unat (ucast a :: u64) = unat a" "unat (ucast b :: u64) = unat b" by (simp_all add: unat_ucast_up)
  define x y where xy: "x = unat a" "y = unat b"
  have "x < 256" "y < 256" unfolding xy by simp_all
  then have "bit (ucast a - ucast b :: u64) 63 \<longleftrightarrow> a < b"
    using ab by (auto simp: bit_63 word_less_nat_alt unat_sub_if_size word_size simp flip: xy)
  then show ?thesis by (simp add: constant_time_lt_args_8_def msb_mask)
qed

lemma eq_8_ucast: "constant_time_eq_8 (ucast a) (ucast b) = bmask (a = b)" for a b :: u8
proof -
  have "(ucast a :: u64) = ucast b \<longleftrightarrow> a = b" by (simp add: word_unat_eq_iff unat_ucast_up)
  then show ?thesis by (simp add: ct_simps)
qed

lemma conv_bin2ascii_eq:
  "conv_bin2ascii a0 =
     (let a = a0 AND 0x3f in
      if a < 26 then a + 0x41 else if a < 52 then a + 71 else if a < 62 then a - 4
      else if a = 62 then 0x2b else 0x2f)"
proof -
  have "constant_time_eq_8 (ucast a) 62 = bmask (a = 62)" for a :: u8
    using eq_8_ucast [of a 62] by simp
  then show ?thesis by (simp add: conv_bin2ascii_def Let_def lt_args_mask select_8)
qed

lemma in_range_mask:
  assumes "unat lo \<le> unat hi" "unat hi < 255"
  shows "constant_time_in_range_8 a lo hi = bmask (lo \<le> a \<and> a \<le> hi)"
proof -
  have "unat (hi - lo + 1) = unat hi - unat lo + 1"
    using assms by (simp add: unat_word_ariths unat_sub_if_size word_size)
  moreover have "unat (a - lo) = (if lo \<le> a then unat a - unat lo else 256 + unat a - unat lo)"
    by (auto simp: unat_sub_if_size word_size word_le_nat_alt)
  ultimately have "a - lo < hi - lo + 1 \<longleftrightarrow> lo \<le> a \<and> a \<le> hi"
    using assms unsigned_less [of a] by (auto simp: word_less_nat_alt word_le_nat_alt)
  then show ?thesis by (simp add: constant_time_in_range_8_def lt_args_mask)
qed

lemma base64_ascii_to_bin_eq:
  "base64_ascii_to_bin a =
     (if 0x41 \<le> a \<and> a \<le> 0x5a then a - 0x41
      else if 0x61 \<le> a \<and> a \<le> 0x7a then a - 71
      else if 0x30 \<le> a \<and> a \<le> 0x39 then 4 + a
      else if a = 0x2b then 62 else if a = 0x2f then 63 else if a = 0x3d then 0 else 0xff)"
proof -
  have e: "constant_time_eq_8 (ucast a) 0x2b = bmask (a = 0x2b)" "constant_time_eq_8 (ucast a) 0x2f = bmask (a = 0x2f)"
    "constant_time_eq_8 (ucast a) 0x3d = bmask (a = 0x3d)"
    using eq_8_ucast [of a "0x2b"] eq_8_ucast [of a "0x2f"] eq_8_ucast [of a "0x3d"] by simp_all
  show ?thesis
    unfolding base64_ascii_to_bin_def Let_def e
    by (simp add: in_range_mask) (auto simp: word_le_nat_alt word_unat_eq_iff)
qed

lemma unat_and_3f: "unat (a AND 0x3f) < 64" for a :: u8
  using unat_and_mask [of a 6] by (simp add: mask_eq_exp_minus_1)

text \<open>Every sextet is decoded from its character, which is neither padding nor white space.\<close>

lemma ascii_to_bin_inverse: "base64_ascii_to_bin (conv_bin2ascii a) = a AND 0x3f"
    and bin2ascii_plain: "conv_bin2ascii a \<notin> {0x3d, 0x20, 0x09, 0x0d, 0x0a}"
proof -
  define b where "b = a AND 0x3f"
  have "unat b < 64" using unat_and_3f by (simp add: b_def)
  then consider "unat b < 26" | "26 \<le> unat b" "unat b < 52" | "52 \<le> unat b" "unat b < 62" | "b = 62" | "b = 63"
    by (fastforce simp: word_unat_eq_iff)
  then have "base64_ascii_to_bin (conv_bin2ascii a) = b \<and> conv_bin2ascii a \<notin> {0x3d, 0x20, 0x09, 0x0d, 0x0a}"
  proof cases
    case 1
    then have "unat (b + 0x41) = unat b + 0x41" by (simp add: unat_word_ariths)
    with 1 show ?thesis
      by (auto simp: conv_bin2ascii_eq base64_ascii_to_bin_eq word_le_nat_alt word_less_nat_alt word_unat_eq_iff simp flip: b_def)
  next
    case 2
    then have "unat (b + 71) = unat b + 71" by (simp add: unat_word_ariths)
    with 2 show ?thesis
      by (auto simp: conv_bin2ascii_eq base64_ascii_to_bin_eq word_le_nat_alt word_less_nat_alt word_unat_eq_iff simp flip: b_def)
  next
    case 3
    then have "unat (b - 4) = unat b - 4" by (simp add: unat_sub_if_size)
    with 3 show ?thesis
      by (auto simp: conv_bin2ascii_eq base64_ascii_to_bin_eq word_le_nat_alt word_less_nat_alt word_unat_eq_iff simp flip: b_def)
  qed (simp_all add: conv_bin2ascii_eq base64_ascii_to_bin_eq flip: b_def)
  then show "base64_ascii_to_bin (conv_bin2ascii a) = a AND 0x3f"
    "conv_bin2ascii a \<notin> {0x3d, 0x20, 0x09, 0x0d, 0x0a}"
    by (simp_all add: b_def)
qed

lemma ascii_equals: "base64_ascii_to_bin 0x3d = 0"
  by (simp add: base64_ascii_to_bin_eq)

lemma and_3f_not_ff: "a AND 0x3f \<noteq> 0xff" for a :: u8
proof
  assume "a AND 0x3f = 0xff"
  then have "unat (a AND 0x3f) = 255" by simp
  with unat_and_3f [of a] show False by simp
qed

lemma sextets_join:
  fixes l :: u32
  assumes "take_bit 24 l = l"
  shows "push_bit 18 (ucast (ucast (drop_bit 18 l) AND 0x3f :: u8)) OR push_bit 12 (ucast (ucast (drop_bit 12 l) AND 0x3f :: u8)) OR
    push_bit 6 (ucast (ucast (drop_bit 6 l) AND 0x3f :: u8)) OR ucast (ucast l AND 0x3f :: u8) = l"
proof -
  have m: "a AND 0x3f = take_bit 6 a" for a :: u8 by (simp add: take_bit_eq_mask mask_eq_exp_minus_1)
  have b: "\<not> bit l n" if "24 \<le> n" for n using assms that by (metis bit_take_bit_iff not_less)
  show ?thesis
    unfolding m
  proof (rule bit_word_eqI)
    fix n :: nat assume "n < LENGTH(32)"
    then consider "n < 6" | "6 \<le> n" "n < 12" | "12 \<le> n" "n < 18" | "18 \<le> n" "n < 24" | "24 \<le> n" "n < 32"
      by (fastforce simp: not_less)
    then show "bit (push_bit 18 (ucast (take_bit 6 (ucast (drop_bit 18 l) :: u8))) OR
        push_bit 12 (ucast (take_bit 6 (ucast (drop_bit 12 l) :: u8))) OR
        push_bit 6 (ucast (take_bit 6 (ucast (drop_bit 6 l) :: u8))) OR ucast (take_bit 6 (ucast l :: u8)) :: u32) n \<longleftrightarrow> bit l n"
      by cases (auto simp: bit_simps b simp del: push_bit_Suc drop_bit_Suc)
  qed
qed

lemmas quad_simps = base64_decode_quad_def Let_def b64_char_def ascii_to_bin_inverse ascii_equals and_3f_not_ff

lemma char_not_equals: "b64_char l k \<noteq> 0x3d" "conv_bin2ascii a \<noteq> 0x3d"
  using bin2ascii_plain by (simp_all add: b64_char_def)

text \<open>The bytes of a group of 24 bits.\<close>

lemma group_bits:
  fixes x y z :: u8
  defines "l \<equiv> push_bit 16 (ucast x) OR push_bit 8 (ucast y) OR ucast z :: u32"
  shows "take_bit 24 l = l" "ucast (drop_bit 16 l) = x" "ucast (drop_bit 8 l) = y" "ucast l = z"
  unfolding l_def
  by (rule bit_word_eqI; auto simp: bit_simps simp del: push_bit_Suc drop_bit_Suc dest: bit_imp_le_length)+

lemma quad_3:
  fixes x y z :: u8
  defines "l \<equiv> push_bit 16 (ucast x) OR push_bit 8 (ucast y) OR ucast z :: u32"
  shows "base64_decode_quad (b64_char l 18) (b64_char l 12) (b64_char l 6) (b64_char l 0) = Some [x, y, z]"
  using group_bits [of x y z] sextets_join [of l] char_not_equals
  by (simp add: quad_simps flip: l_def)

lemma quad_2:
  fixes x y :: u8
  defines "l \<equiv> push_bit 16 (ucast x) OR push_bit 8 (ucast y) :: u32"
  shows "base64_decode_quad (b64_char l 18) (b64_char l 12) (b64_char l 6) 0x3d = Some [x, y]"
proof -
  have "(ucast l AND 0x3f :: u8) = 0"
    unfolding l_def by (rule bit_word_eqI) (auto simp: bit_simps simp del: push_bit_Suc drop_bit_Suc)
  then show ?thesis
    using group_bits [of x y 0] sextets_join [of l] char_not_equals
    by (simp add: quad_simps flip: l_def)
qed

lemma quad_1:
  fixes x :: u8
  defines "l \<equiv> push_bit 16 (ucast x) :: u32"
  shows "base64_decode_quad (b64_char l 18) (b64_char l 12) 0x3d 0x3d = Some [x]"
proof -
  have "(ucast l AND 0x3f :: u8) = 0" "(ucast (drop_bit 6 l) AND 0x3f :: u8) = 0"
    unfolding l_def by (rule bit_word_eqI; auto simp: bit_simps simp del: push_bit_Suc drop_bit_Suc)+
  then show ?thesis
    using group_bits [of x 0 0] sextets_join [of l] char_not_equals
    by (simp add: quad_simps flip: l_def)
qed

section \<open>One-shot coding\<close>

lemma length_EncodeBlock: "length (EVP_EncodeBlock src) = 4 * ((length src + 2) div 3)"
proof (induction src rule: EVP_EncodeBlock.induct)
  case (4 x y z src)
  have "(length src + 2 + 3) div 3 = Suc ((length src + 2) div 3)" by (subst div_add_self2) simp_all
  with 4 show ?case by (simp add: Let_def add.commute)
qed (simp_all add: Let_def)

lemma decode_loop_encode: "decode_base64_loop out (EVP_EncodeBlock src) = Some (out @ src)"
proof (induction src arbitrary: out rule: EVP_EncodeBlock.induct)
  case (4 x y z src)
  then show ?case using quad_3 [of x y z] by (simp add: Let_def)
qed (simp_all add: Let_def quad_1 quad_2)

lemma decoded_length: "length src \<le> (length src + 2) div 3 * 3"
  by (simp add: less_eq_div_iff_mult_less_eq)

text \<open>The output buffer that \<open>EVP_EncodedLength\<close> asks for holds the encoding and its terminating zero.\<close>

lemma EVP_EncodedLength_eq:
  "EVP_EncodedLength len =
     (let n = 4 * ((unat len + 2) div 3) + 1 in if n < 2 ^ 64 then Some (word_of_nat n) else None)"
proof (cases "unat len + 2 < 2 ^ 64")
  case False
  define n where "n = unat len"
  have n: "n < 2 ^ 64" "2 ^ 64 \<le> n + 2" using False unsigned_less [of len] by (simp_all add: n_def)
  have "unat (len + 2) = (n + 2) mod 2 ^ 64" by (simp add: unat_word_ariths n_def)
  also have "\<dots> = n + 2 - 2 ^ 64" using n by (subst le_mod_geq) simp_all
  finally have "len + 2 < len" using n by (simp add: word_less_nat_alt flip: n_def)
  moreover have "2 ^ 62 \<le> (unat len + 2) div 3" using False by (simp add: less_eq_div_iff_mult_less_eq)
  ultimately show ?thesis by (simp add: EVP_EncodedLength_def Let_def)
next
  case True
  define x where "x = (unat len + 2) div 3"
  have u: "unat (len + 2) = unat len + 2" using True by (simp add: unat_word_ariths)
  have x: "unat ((len + 2) div 3) = x" by (simp add: unat_div_distrib u x_def)
  have "3 * x \<le> unat len + 2" by (simp add: x_def)
  with True have x64: "x < 2 ^ 63" by simp
  define w where "w = (len + 2) div 3"
  have a: "unat (push_bit 2 w) = (x * 4) mod 2 ^ 64"
    using x by (simp add: push_bit_eq_mult unat_word_ariths w_def)
  have nw: "\<not> len + 2 < len" using u by (simp add: word_less_nat_alt)
  have xw: "unat w = x" using x by (simp add: w_def)
  show ?thesis
  proof (cases "x < 2 ^ 62")
    case True
    then have b: "unat (push_bit 2 w) = x * 4" using a by simp
    then have "drop_bit 2 (push_bit 2 w) = w" using xw by (simp add: word_unat_eq_iff unat_drop_bit)
    moreover have c: "unat (push_bit 2 w + 1) = 4 * x + 1" using b True by (simp add: unat_word_ariths)
    moreover have "\<not> push_bit 2 w + 1 < push_bit 2 w" unfolding word_less_nat_alt c b by simp
    moreover have "push_bit 2 w + 1 = word_of_nat (4 * x + 1)" unfolding c [symmetric] by simp
    ultimately show ?thesis
      using nw True unfolding EVP_EncodedLength_def Let_def w_def [symmetric] x_def [symmetric]
      by (simp add: add.commute)
  next
    case False
    then have "x * 4 mod 2 ^ 64 = x * 4 - 2 ^ 64" using x64 by (simp add: le_mod_geq)
    then have "unat (drop_bit 2 (push_bit 2 w)) = (x * 4 - 2 ^ 64) div 4" using a by (simp add: unat_drop_bit)
    moreover have "(x * 4 - 2 ^ 64) div 4 < x" using False by (intro div_less_iff_less_mult [THEN iffD2]) simp_all
    ultimately have "drop_bit 2 (push_bit 2 w) \<noteq> w" using xw by auto
    then show ?thesis
      using nw False unfolding EVP_EncodedLength_def Let_def w_def [symmetric] x_def [symmetric] by simp
  qed
qed

section \<open>Streaming encoder\<close>

text \<open>The text of a stream: lines of 48 bytes, and a shorter last one.\<close>

function b64_lines :: "bytes \<Rightarrow> bytes" where
  "b64_lines src =
     (if length src \<ge> 48 then EVP_EncodeBlock (take 48 src) @ [0x0a] @ b64_lines (drop 48 src)
      else if src = [] then [] else EVP_EncodeBlock src @ [0x0a])"
  by pat_completeness auto
termination by (relation "measure length") auto

declare b64_lines.simps [simp del]

lemma b64_lines_Nil [simp]: "b64_lines [] = []"
  by (simp add: b64_lines.simps)

lemma b64_lines_append: "48 dvd length xs \<Longrightarrow> b64_lines (xs @ ys) = b64_lines xs @ b64_lines ys"
proof (induction xs rule: b64_lines.induct)
  case (1 xs)
  show ?case
  proof (cases "xs = []")
    case False
    with "1.prems" have "48 \<le> length xs" by (intro dvd_imp_le) auto
    moreover from this "1.prems" have "48 dvd length (drop 48 xs)" by (simp add: dvd_diff_nat)
    ultimately show ?thesis
      using "1.IH" by (subst (1 2) b64_lines.simps) simp
  qed simp
qed

lemma length_line: "length xs = 48 \<Longrightarrow> length (EVP_EncodeBlock xs) = 64"
  by (simp add: length_EncodeBlock)

lemma length_b64_lines: "48 dvd length xs \<Longrightarrow> length (b64_lines xs) = 65 * (length xs div 48)"
proof (induction xs rule: b64_lines.induct)
  case (1 xs)
  show ?case
  proof (cases "xs = []")
    case False
    with "1.prems" have l: "48 \<le> length xs" by (intro dvd_imp_le) auto
    moreover from this "1.prems" have "48 dvd length (drop 48 xs)" by (simp add: dvd_diff_nat)
    moreover have "length xs div 48 = Suc ((length xs - 48) div 48)" using l by (subst le_div_geq) simp_all
    ultimately show ?thesis
      using "1.IH" by (subst b64_lines.simps) (simp add: length_line)
  qed simp
qed

lemma encode_lines_loop_eq:
  assumes "tot + 65 * (length inp div 48) < 2 ^ 64"
  shows "\<exists>w r. inp = w @ r \<and> 48 dvd length w \<and> length r < 48 \<and>
    encode_lines_loop out tot inp = (out @ b64_lines w, Some (tot + length (b64_lines w)), r)"
  using assms
proof (induction out tot inp rule: encode_lines_loop.induct)
  case (1 out tot inp)
  show ?case
  proof (cases "length inp \<ge> 48")
    case False
    then show ?thesis
      by (intro exI [of _ "[]"] exI [of _ inp]) (simp add: encode_lines_loop.simps sizeof_data_def)
  next
    case True
    let ?enc = "EVP_EncodeBlock (take 48 inp)"
    have e: "length ?enc = 64" using True by (intro length_line) simp
    have d: "length inp div 48 = Suc (length (drop 48 inp) div 48)" using True by (subst le_div_geq) simp_all
    have s: "size_add (size_add tot (length ?enc)) 1 = tot + 65"
      using "1.prems" d e by (simp add: size_add_def)
    have "tot + 65 + 65 * (length (drop 48 inp) div 48) < 2 ^ 64" using "1.prems" d by simp
    with "1.IH" [unfolded sizeof_data_def, OF _ refl] True s obtain w r where
      w: "drop 48 inp = w @ r" "48 dvd length w" "length r < 48"
        "encode_lines_loop (out @ ?enc @ [0x0a]) (tot + 65) (drop 48 inp) =
           ((out @ ?enc @ [0x0a]) @ b64_lines w, Some (tot + 65 + length (b64_lines w)), r)" by auto
    have t: "length (take 48 inp) = 48" using True by simp
    have l: "b64_lines (take 48 inp @ w) = ?enc @ [0x0a] @ b64_lines w"
      using t by (subst b64_lines.simps) simp
    show ?thesis
    proof (intro exI conjI)
      show "inp = (take 48 inp @ w) @ r" using w(1) by (metis append_assoc append_take_drop_id)
      show "48 dvd length (take 48 inp @ w)" using t w(2) by (simp add: dvd_add)
      show "encode_lines_loop out tot inp =
        (out @ b64_lines (take 48 inp @ w), Some (tot + length (b64_lines (take 48 inp @ w))), r)"
        using True s w(4) l e by (subst encode_lines_loop.simps) (simp add: sizeof_data_def Let_def)
    qed (rule w(3))
  qed
qed

definition ctx_ok :: "EVP_ENCODE_CTX \<Rightarrow> bool" where
  "ctx_ok ctx \<longleftrightarrow> length (ctx_data ctx) = 48 \<and> data_used ctx < 48"

definition pending :: "EVP_ENCODE_CTX \<Rightarrow> bytes" where
  "pending ctx = take (data_used ctx) (ctx_data ctx)"

lemma poke_pending:
  assumes "ctx_ok ctx" "data_used ctx + length inp \<le> 48"
  shows "take (data_used ctx + length inp) (poke (ctx_data ctx) (data_used ctx) inp) = pending ctx @ inp"
    "length (poke (ctx_data ctx) (data_used ctx) inp) = 48"
  using assms by (simp_all add: ctx_ok_def poke_def pending_def)

text \<open>One update: what is pending and what comes in is cut into whole lines and a rest.\<close>

lemma EncodeUpdate_eq:
  assumes ok: "ctx_ok ctx" and len: "length inp < 2 ^ 57"
  shows "\<exists>ctx' w. EVP_EncodeUpdate ctx inp =
      (ctx', b64_lines w, if length (b64_lines w) > INT_MAX then 0 else length (b64_lines w)) \<and>
    ctx_ok ctx' \<and> pending ctx @ inp = w @ pending ctx' \<and> 48 dvd length w"
proof (cases "length inp = 0 \<or> sizeof_data - data_used ctx > length inp")
  case True
  show ?thesis
  proof (cases "length inp = 0")
    case True
    then show ?thesis using ok by (intro exI [of _ ctx] exI [of _ "[]"]) (simp add: EVP_EncodeUpdate_def)
  next
    case False
    let ?ctx = "ctx\<lparr>ctx_data := poke (ctx_data ctx) (data_used ctx) inp, data_used := data_used ctx + length inp\<rparr>"
    have u: "data_used ctx + length inp < 48" using False True by (simp add: sizeof_data_def)
    have "EVP_EncodeUpdate ctx inp = (?ctx, [], 0)" using False True by (simp add: EVP_EncodeUpdate_def)
    moreover have "ctx_ok ?ctx" "pending ?ctx = pending ctx @ inp"
      using poke_pending [OF ok, of inp] u by (simp_all add: ctx_ok_def pending_def)
    ultimately show ?thesis by (intro exI [of _ ?ctx] exI [of _ "[]"]) simp
  qed
next
  case False
  obtain c1 o1 t1 i1 where q: "
    (if data_used ctx \<noteq> 0 then
       let todo = sizeof_data - data_used ctx;
           ctx = ctx\<lparr>ctx_data := poke (ctx_data ctx) (data_used ctx) (take todo inp)\<rparr>;
           enc = EVP_EncodeBlock (ctx_data ctx) in
       (ctx\<lparr>data_used := 0\<rparr>, enc @ [0x0a], length enc + 1, drop todo inp)
     else (ctx, [], 0, inp)) = (c1, o1, t1, i1)"
    by (metis prod_cases4)
  obtain w1 where h: "length (ctx_data c1) = 48" "data_used c1 = 0" "o1 = b64_lines w1" "t1 = length (b64_lines w1)"
    "48 dvd length w1" "pending ctx @ inp = w1 @ i1" "length i1 \<le> length inp" "t1 \<le> 65"
  proof (cases "data_used ctx = 0")
    case True
    then show ?thesis using that [of "[]"] q ok by (simp add: ctx_ok_def pending_def)
  next
    case used: False
    define todo where "todo = sizeof_data - data_used ctx"
    have todo: "todo \<le> length inp" "data_used ctx + length (take todo inp) = 48"
      using False ok by (auto simp: todo_def sizeof_data_def ctx_ok_def)
    define d where "d = poke (ctx_data ctx) (data_used ctx) (take todo inp)"
    have d: "d = pending ctx @ take todo inp" "length d = 48"
      using poke_pending [OF ok, of "take todo inp"] todo(2) by (simp_all add: d_def)
    have l: "b64_lines d = EVP_EncodeBlock d @ [0x0a]" using d(2) by (subst b64_lines.simps) simp
    have "c1 = ctx\<lparr>ctx_data := d, data_used := 0\<rparr>" "o1 = b64_lines d" "t1 = length (b64_lines d)" "i1 = drop todo inp"
      unfolding l using q used by (auto simp: Let_def todo_def [symmetric] d_def [symmetric])
    with d l length_line [OF d(2)] that [of d] show ?thesis by simp
  qed
  have "length i1 div 48 \<le> length i1" by simp
  with h(7,8) len have "t1 + 65 * (length i1 div 48) < 2 ^ 64" by simp
  from encode_lines_loop_eq [OF this, of o1] obtain w r where
    w: "i1 = w @ r" "48 dvd length w" "length r < 48"
      "encode_lines_loop o1 t1 i1 = (o1 @ b64_lines w, Some (t1 + length (b64_lines w)), r)" by blast
  let ?ctx = "c1\<lparr>ctx_data := (if r \<noteq> [] then poke (ctx_data c1) 0 r else ctx_data c1), data_used := length r\<rparr>"
  have "EVP_EncodeUpdate ctx inp = (?ctx, b64_lines (w1 @ w),
      if length (b64_lines (w1 @ w)) > INT_MAX then 0 else length (b64_lines (w1 @ w)))"
    using False w(4) h(3,4) b64_lines_append [OF h(5), of w]
    unfolding EVP_EncodeUpdate_def q by simp
  moreover have "ctx_ok ?ctx" "pending ?ctx = r"
    using h(1) w(3) by (auto simp: ctx_ok_def pending_def poke_def)
  ultimately show ?thesis
    using h(5,6) w(1,2) by (intro exI [of _ ?ctx] exI [of _ "w1 @ w"]) (simp add: dvd_add)
qed

text \<open>A stream is fed in chunks; the outputs are what the caller collects.\<close>

fun encode_chunks :: "EVP_ENCODE_CTX \<Rightarrow> bytes list \<Rightarrow> EVP_ENCODE_CTX \<times> bytes" where
  "encode_chunks ctx [] = (ctx, [])"
| "encode_chunks ctx (c # cs) =
     (case EVP_EncodeUpdate ctx c of (ctx, out, n) \<Rightarrow>
      case encode_chunks ctx cs of (ctx, outs) \<Rightarrow> (ctx, out @ outs))"

lemma encode_chunks_eq:
  assumes "ctx_ok ctx" "\<forall>c \<in> set cs. length c < 2 ^ 57"
  shows "\<exists>ctx' w. encode_chunks ctx cs = (ctx', b64_lines w) \<and> ctx_ok ctx' \<and>
    pending ctx @ concat cs = w @ pending ctx' \<and> 48 dvd length w"
  using assms
proof (induction cs arbitrary: ctx)
  case Nil
  then show ?case by (intro exI [of _ ctx] exI [of _ "[]"]) simp
next
  case (Cons c cs)
  then obtain ctx1 w1 where 1: "EVP_EncodeUpdate ctx c = (ctx1, b64_lines w1,
        if length (b64_lines w1) > INT_MAX then 0 else length (b64_lines w1))" "ctx_ok ctx1"
      "pending ctx @ c = w1 @ pending ctx1" "48 dvd length w1"
    using EncodeUpdate_eq [of ctx c] by auto
  from Cons.IH [OF 1(2)] Cons.prems obtain ctx2 w2 where 2: "encode_chunks ctx1 cs = (ctx2, b64_lines w2)" "ctx_ok ctx2"
      "pending ctx1 @ concat cs = w2 @ pending ctx2" "48 dvd length w2" by auto
  show ?case
  proof (intro exI conjI)
    show "encode_chunks ctx (c # cs) = (ctx2, b64_lines (w1 @ w2))"
      using 1 2 b64_lines_append [OF 1(4), of w2] by simp
    show "pending ctx @ concat (c # cs) = (w1 @ w2) @ pending ctx2"
      using 1(3) 2(3) by (metis append_assoc concat.simps(2))
    show "48 dvd length (w1 @ w2)" using 1(4) 2(4) by (simp add: dvd_add)
  qed (rule 2(2))
qed

lemma EncodeFinal_eq:
  assumes "ctx_ok ctx"
  shows "fst (snd (EVP_EncodeFinal ctx)) = b64_lines (pending ctx)"
    "snd (snd (EVP_EncodeFinal ctx)) = length (b64_lines (pending ctx))"
proof -
  have "length (pending ctx) < 48" "data_used ctx = 0 \<longleftrightarrow> pending ctx = []"
    using assms by (auto simp: ctx_ok_def pending_def)
  then show "fst (snd (EVP_EncodeFinal ctx)) = b64_lines (pending ctx)"
    "snd (snd (EVP_EncodeFinal ctx)) = length (b64_lines (pending ctx))"
    by (simp_all add: EVP_EncodeFinal_def b64_lines.simps [of "pending ctx"] Let_def flip: pending_def)
qed

section \<open>Streaming decoder\<close>

lemma decode_loop_append:
  "decode_update_loop ctx out (xs @ ys) =
     (case decode_update_loop ctx out xs of
        (False, ctx, out) \<Rightarrow> (False, ctx, out)
      | (True, ctx, out) \<Rightarrow> decode_update_loop ctx out ys)"
  by (induction ctx out xs rule: decode_update_loop.induct) (auto simp: Let_def split: option.splits)

lemma decode_loop_out:
  "decode_update_loop ctx (o1 @ out) inp =
     (case decode_update_loop ctx out inp of (ok, ctx', o') \<Rightarrow> (ok, ctx', o1 @ o'))"
  by (induction ctx out inp rule: decode_update_loop.induct) (auto simp: Let_def split: option.splits)

text \<open>A context between two groups.\<close>

definition idle :: "bool \<Rightarrow> EVP_ENCODE_CTX \<Rightarrow> bool" where
  "idle eof ctx \<longleftrightarrow> data_used ctx = 0 \<and> length (ctx_data ctx) = 48 \<and> eof_seen ctx = eof \<and> \<not> error_encountered ctx"

lemma decode_quad_step:
  assumes "idle False ctx" "base64_decode_quad a b c d = Some bs"
    and "{a, b, c, d} \<inter> {0x20, 0x09, 0x0d, 0x0a} = {}"
  shows "\<exists>ctx'. decode_update_loop ctx out (a # b # c # d # inp) = decode_update_loop ctx' (out @ bs) inp \<and>
    idle (length bs < 3) ctx'"
  using assms by (auto simp: idle_def Let_def numeral_2_eq_2 numeral_3_eq_3)

lemma char_plain: "b64_char l k \<notin> {0x20, 0x09, 0x0d, 0x0a}"
  using bin2ascii_plain by (simp add: b64_char_def)

lemma decode_block:
  assumes "idle False ctx"
  shows "\<exists>ctx'. decode_update_loop ctx out (EVP_EncodeBlock src @ inp) = decode_update_loop ctx' (out @ src) inp \<and>
    idle (length src mod 3 \<noteq> 0) ctx'"
  using assms
proof (induction src arbitrary: ctx out rule: EVP_EncodeBlock.induct)
  case 1
  then show ?case by (intro exI [of _ ctx]) simp
next
  case (2 x)
  let ?l = "push_bit 16 (ucast x) :: u32"
  show ?case
    using decode_quad_step [OF 2 quad_1 [of x], of out inp] char_plain by (simp add: Let_def)
next
  case (3 x y)
  show ?case
    using decode_quad_step [OF 3 quad_2 [of x y], of out inp] char_plain by (simp add: Let_def)
next
  case (4 x y z src)
  let ?l = "push_bit 16 (ucast x) OR push_bit 8 (ucast y) OR ucast z :: u32"
  obtain ctx1 where 1: "decode_update_loop ctx out (b64_char ?l 18 # b64_char ?l 12 # b64_char ?l 6 # b64_char ?l 0 #
        EVP_EncodeBlock src @ inp) = decode_update_loop ctx1 (out @ [x, y, z]) (EVP_EncodeBlock src @ inp)" "idle False ctx1"
    using decode_quad_step [OF 4(2) quad_3 [of x y z], of out "EVP_EncodeBlock src @ inp"] char_plain by auto
  from "4.IH" [OF refl 1(2), of "out @ [x, y, z]"] 1(1) show ?case by (simp add: Let_def)
qed

lemma decode_lines:
  assumes "idle False ctx"
  shows "\<exists>ctx'. decode_update_loop ctx out (b64_lines src) = (True, ctx', out @ src) \<and> idle (length src mod 3 \<noteq> 0) ctx'"
  using assms
proof (induction src arbitrary: ctx out rule: b64_lines.induct)
  case (1 src)
  show ?case
  proof (cases "48 \<le> length src")
    case True
    have l: "length (take 48 src) mod 3 = 0" using True by simp
    have "length src = length (drop 48 src) + 16 * 3" using True by simp
    then have l2: "length (drop 48 src) mod 3 = length src mod 3" by (metis mod_mult_self1)
    obtain ctx1 where 1: "decode_update_loop ctx out (EVP_EncodeBlock (take 48 src) @ [0x0a] @ b64_lines (drop 48 src)) =
        decode_update_loop ctx1 (out @ take 48 src) ([0x0a] @ b64_lines (drop 48 src))" "idle False ctx1"
      using decode_block [OF "1.prems", of out "take 48 src" "[0x0a] @ b64_lines (drop 48 src)"] l by auto
    from "1.IH" [OF True 1(2), of "out @ take 48 src"] 1(1) l2 True show ?thesis
      by (subst b64_lines.simps) simp
  next
    case False
    show ?thesis
    proof (cases "src = []")
      case True
      then show ?thesis using "1.prems" by simp
    next
      case ne: False
      obtain ctx1 where "decode_update_loop ctx out (EVP_EncodeBlock src @ [0x0a]) =
          decode_update_loop ctx1 (out @ src) [0x0a]" "idle (length src mod 3 \<noteq> 0) ctx1"
        using decode_block [OF "1.prems", of out src "[0x0a]"] by auto
      then show ?thesis using False ne by (subst b64_lines.simps) simp
    qed
  qed
qed

lemma decode_loop_error: "decode_update_loop ctx out inp = (True, ctx', o') \<Longrightarrow> error_encountered ctx' = error_encountered ctx"
  by (induction ctx out inp rule: decode_update_loop.induct) (auto simp: Let_def split: if_splits option.splits)

fun decode_chunks :: "EVP_ENCODE_CTX \<Rightarrow> bytes list \<Rightarrow> (EVP_ENCODE_CTX \<times> bytes) option" where
  "decode_chunks ctx [] = Some (ctx, [])"
| "decode_chunks ctx (c # cs) =
     (case EVP_DecodeUpdate ctx c of (r, ctx, out, n) \<Rightarrow>
      if r = - 1 then None
      else (case decode_chunks ctx cs of None \<Rightarrow> None | Some (ctx, outs) \<Rightarrow> Some (ctx, out @ outs)))"

text \<open>How a text is cut into chunks does not matter.\<close>

lemma decode_chunks_eq:
  assumes "decode_update_loop ctx [] (concat ts) = (True, ctx', o')" "\<not> error_encountered ctx" "length o' \<le> INT_MAX"
  shows "decode_chunks ctx ts = Some (ctx', o')"
  using assms
proof (induction ts arbitrary: ctx o')
  case (Cons c ts)
  obtain ctx1 o1 where 1: "decode_update_loop ctx [] c = (True, ctx1, o1)"
    and r: "decode_update_loop ctx1 o1 (concat ts) = (True, ctx', o')"
    using Cons.prems(1) by (auto simp: decode_loop_append split: prod.splits bool.splits)
  obtain o2 where 2: "decode_update_loop ctx1 [] (concat ts) = (True, ctx', o2)" "o' = o1 @ o2"
    using r decode_loop_out [of ctx1 o1 "[]"] by (auto split: prod.splits)
  have e: "\<not> error_encountered ctx1" using decode_loop_error [OF 1] Cons.prems(2) by simp
  have l: "length o1 \<le> INT_MAX" "length o2 \<le> INT_MAX" using Cons.prems(3) 2(2) by simp_all
  from Cons.IH [OF 2(1) e l(2)] 1 2(2) l(1) Cons.prems(2) show ?case
    by (auto simp: EVP_DecodeUpdate_def)
qed simp

section \<open>Properties\<close>

text \<open>C29: \<open>EVP_DecodeBase64\<close> gives back every byte string that \<open>EVP_EncodeBlock\<close> encodes, into any buffer of at
  least the size \<open>EVP_DecodedLength\<close> asks for; the encoding has the length \<open>EVP_EncodedLength\<close> announces,
  terminating zero included.\<close>

theorem base64_roundtrip:
  assumes "4 * ((length src + 2) div 3) + 1 < 2 ^ 64" "3 * ((length src + 2) div 3) \<le> max_out"
  shows "EVP_DecodeBase64 max_out (EVP_EncodeBlock src) = Some src \<and>
    EVP_EncodedLength (word_of_nat (length src)) = Some (word_of_nat (length (EVP_EncodeBlock src) + 1))"
proof -
  have "length src \<le> 3 * ((length src + 2) div 3)" using decoded_length [of src] by (simp add: mult.commute)
  with assms(1) have "unat (word_of_nat (length src) :: u64) = length src" by (simp add: unat_of_nat)
  then show ?thesis
    using assms decode_loop_encode [of "[]" src]
    by (simp add: EVP_DecodeBase64_def EVP_DecodedLength_def EVP_EncodedLength_eq length_EncodeBlock Let_def mult.commute)
qed

theorem base64_roundtrip_witness:
  "EVP_DecodeBase64 3 (EVP_EncodeBlock [0xff, 0]) = Some [0xff, 0]"
  using base64_roundtrip [of "[0xff, 0]" 3] by simp

text \<open>C30: the streaming encoder writes the same text however the input is cut into chunks: lines of 48 bytes
  each encoded by \<open>EVP_EncodeBlock\<close> and ended by a newline, the last one possibly shorter.\<close>

theorem base64_stream_encode:
  assumes "\<forall>c \<in> set cs. length c < 2 ^ 57"
  shows "snd (encode_chunks EVP_EncodeInit cs) @ fst (snd (EVP_EncodeFinal (fst (encode_chunks EVP_EncodeInit cs)))) =
    b64_lines (concat cs)"
proof -
  have ok: "ctx_ok EVP_EncodeInit" "pending EVP_EncodeInit = []"
    by (simp_all add: ctx_ok_def pending_def EVP_EncodeInit_def sizeof_data_def)
  from encode_chunks_eq [OF ok(1) assms] obtain ctx w where
    "encode_chunks EVP_EncodeInit cs = (ctx, b64_lines w)" "ctx_ok ctx" "concat cs = w @ pending ctx" "48 dvd length w"
    using ok(2) by auto
  with EncodeFinal_eq(1) [of ctx] b64_lines_append [of w "pending ctx"] show ?thesis by simp
qed

theorem base64_stream_encode_witness:
  "snd (encode_chunks EVP_EncodeInit [[1], [2, 3]]) @
     fst (snd (EVP_EncodeFinal (fst (encode_chunks EVP_EncodeInit [[1], [2, 3]])))) = b64_lines [1, 2, 3]"
  using base64_stream_encode [of "[[1], [2, 3]]"] by simp

text \<open>C31: the streaming decoder, fed the text of the streaming encoder cut into chunks in any way, returns the
  bytes encoded, and its final call reports success.\<close>

theorem base64_stream_roundtrip:
  assumes "\<forall>c \<in> set cs. length c < 2 ^ 57" "length (concat cs) \<le> INT_MAX"
    and "concat ts = snd (encode_chunks EVP_EncodeInit cs) @ fst (snd (EVP_EncodeFinal (fst (encode_chunks EVP_EncodeInit cs))))"
  shows "\<exists>ctx. decode_chunks EVP_DecodeInit ts = Some (ctx, concat cs) \<and> EVP_DecodeFinal ctx = 1"
proof -
  have ok: "ctx_ok EVP_EncodeInit" "pending EVP_EncodeInit = []"
    by (simp_all add: ctx_ok_def pending_def EVP_EncodeInit_def sizeof_data_def)
  from encode_chunks_eq [OF ok(1) assms(1)] obtain ctx w where
    e: "encode_chunks EVP_EncodeInit cs = (ctx, b64_lines w)" "ctx_ok ctx" "concat cs = w @ pending ctx" "48 dvd length w"
    using ok(2) by auto
  with assms(3) EncodeFinal_eq(1) [of ctx] b64_lines_append [of w "pending ctx"]
  have t: "concat ts = b64_lines (concat cs)" by simp
  have "idle False EVP_DecodeInit" "\<not> error_encountered EVP_DecodeInit"
    by (simp_all add: idle_def EVP_DecodeInit_def sizeof_data_def)
  with decode_lines [of EVP_DecodeInit "[]" "concat cs"] t obtain ctx' where
    d: "decode_update_loop EVP_DecodeInit [] (concat ts) = (True, ctx', concat cs)" "idle (length (concat cs) mod 3 \<noteq> 0) ctx'"
    by auto
  from decode_chunks_eq [OF d(1) _ assms(2)] \<open>\<not> error_encountered EVP_DecodeInit\<close> d(2) show ?thesis
    by (intro exI [of _ ctx']) (simp add: EVP_DecodeFinal_def idle_def)
qed

theorem base64_stream_roundtrip_witness:
  "\<exists>ctx. decode_chunks EVP_DecodeInit [[0x41, 0x51], [0x3d], [0x3d, 0x0a]] = Some (ctx, [1]) \<and> EVP_DecodeFinal ctx = 1"
proof -
  have "concat [[0x41, 0x51], [0x3d], [0x3d, 0x0a]] =
    snd (encode_chunks EVP_EncodeInit [[1]]) @ fst (snd (EVP_EncodeFinal (fst (encode_chunks EVP_EncodeInit [[1]]))))"
    by code_simp
  with base64_stream_roundtrip [of "[[1]]" "[[0x41, 0x51], [0x3d], [0x3d, 0x0a]]"] show ?thesis
    by (simp add: INT_MAX_def)
qed

end
