(* ===== verification/MD32.thy ===== *)
theory MD32
  imports Mem
begin

text \<open>
  The block collector the 32-bit Merkle-Damgard hashes share
  (\<^verbatim>\<open>crypto/fipsmodule/digest/md32_common.h\<close>) with the loads, stores and rotations of
  \<^verbatim>\<open>crypto/internal.h\<close>, on the little-endian targets the pod builds for.

  A hash hands the collector its block function; \<^verbatim>\<open>block_func h d n\<close> is the chaining state after the
  first \<^verbatim>\<open>n\<close> blocks of \<^verbatim>\<open>d\<close>.  The locale \<^verbatim>\<open>block_hash\<close> states what the collectors rely on: a block
  function that folds a compression function over its blocks.  It carries the representation
  relation \<^verbatim>\<open>collects\<close> between a chaining state with a partial block and the message absorbed so
  far; \<^verbatim>\<open>md32_hash\<close> extends it to the collector of this file and shows that any sequence of updates
  followed by the final step hashes the padded message.
\<close>

unbundle bit_operations_syntax

section \<open>Memory, loads, stores and rotations\<close>

text \<open>\<^verbatim>\<open>memcpy(dst + off, src, n)\<close> and \<^verbatim>\<open>memset(dst + off, c, n)\<close> into a buffer held as a list.\<close>

definition OPENSSL_memcpy :: "bytes \<Rightarrow> nat \<Rightarrow> bytes \<Rightarrow> bytes" where
  "OPENSSL_memcpy dst off src = take off dst @ src @ drop (off + length src) dst"

definition OPENSSL_memset :: "bytes \<Rightarrow> nat \<Rightarrow> u8 \<Rightarrow> nat \<Rightarrow> bytes" where
  "OPENSSL_memset dst off c n = OPENSSL_memcpy dst off (replicate n c)"

definition CRYPTO_load_u32_le :: "bytes \<Rightarrow> u32" where
  "CRYPTO_load_u32_le p = word_of_nat (le_nat (take 4 p))"

definition CRYPTO_store_u32_le :: "u32 \<Rightarrow> bytes" where
  "CRYPTO_store_u32_le v = le_bytes 4 (unat v)"

definition CRYPTO_load_u32_be :: "bytes \<Rightarrow> u32" where
  "CRYPTO_load_u32_be p = CRYPTO_bswap4 (CRYPTO_load_u32_le p)"

definition CRYPTO_store_u32_be :: "u32 \<Rightarrow> bytes" where
  "CRYPTO_store_u32_be v = le_bytes 4 (unat (CRYPTO_bswap4 v))"

definition CRYPTO_load_u64_be :: "bytes \<Rightarrow> u64" where
  "CRYPTO_load_u64_be p = CRYPTO_bswap8 (word_of_nat (le_nat (take 8 p)))"

definition CRYPTO_store_u64_be :: "u64 \<Rightarrow> bytes" where
  "CRYPTO_store_u64_be v = le_bytes 8 (unat (CRYPTO_bswap8 v))"

text \<open>\<^verbatim>\<open>(-shift) & 31\<close> is computed on the \<^verbatim>\<open>int\<close> argument.\<close>

definition CRYPTO_rotl_u32 :: "u32 \<Rightarrow> int \<Rightarrow> u32" where
  "CRYPTO_rotl_u32 v shift = push_bit (nat shift) v OR drop_bit (nat ((- shift) AND 31)) v"

definition CRYPTO_rotr_u32 :: "u32 \<Rightarrow> int \<Rightarrow> u32" where
  "CRYPTO_rotr_u32 v shift = drop_bit (nat shift) v OR push_bit (nat ((- shift) AND 31)) v"

definition CRYPTO_rotr_u64 :: "u64 \<Rightarrow> int \<Rightarrow> u64" where
  "CRYPTO_rotr_u64 v shift = drop_bit (nat shift) v OR push_bit (nat ((- shift) AND 63)) v"

section \<open>The collector\<close>

text \<open>
  The fields every \<^verbatim>\<open><NAME>_CTX\<close> shares.  \<^verbatim>\<open>num\<close> is an \<^verbatim>\<open>unsigned\<close> that stays below the block size
  (the invariant below), so it is a natural number.
\<close>

record md32_ctx =
  md_h :: "u32 list"
  md_Nl :: u32
  md_Nh :: u32
  md_data :: bytes
  md_num :: nat

type_synonym 'w block_func = "'w list \<Rightarrow> bytes \<Rightarrow> nat \<Rightarrow> 'w list"

text \<open>The update in the order of its steps: the bit counter, the partial block, the whole blocks.\<close>

definition md32_count :: "nat \<Rightarrow> 'z md32_ctx_scheme \<Rightarrow> 'z md32_ctx_scheme" where
  "md32_count len c = (let
     l = md_Nl c + push_bit 3 (word_of_nat len);
     Nh = (if l < md_Nl c then md_Nh c + 1 else md_Nh c)
     in c\<lparr>md_Nh := Nh + word_of_nat (len div 2 ^ 29), md_Nl := l\<rparr>)"

definition md32_fill :: "u32 block_func \<Rightarrow> nat \<Rightarrow> 'z md32_ctx_scheme \<Rightarrow> bytes \<Rightarrow> 'z md32_ctx_scheme \<times> bytes" where
  "md32_fill block_func block_size c inp = (let
     n = md_num c;
     data = OPENSSL_memcpy (md_data c) n (take (block_size - n) inp)
     in (c\<lparr>md_h := block_func (md_h c) data 1, md_num := 0,
           md_data := OPENSSL_memset data 0 0 block_size\<rparr>,
         drop (block_size - n) inp))"

definition md32_blocks :: "u32 block_func \<Rightarrow> nat \<Rightarrow> 'z md32_ctx_scheme \<Rightarrow> bytes \<Rightarrow> 'z md32_ctx_scheme" where
  "md32_blocks block_func block_size c inp = (let
     n = length inp div block_size;
     c = (if n > 0 then c\<lparr>md_h := block_func (md_h c) inp n\<rparr> else c);
     inp = drop (n * block_size) inp
     in if length inp \<noteq> 0
        then c\<lparr>md_num := length inp, md_data := OPENSSL_memcpy (md_data c) 0 inp\<rparr>
        else c)"

definition crypto_md32_update :: "u32 block_func \<Rightarrow> nat \<Rightarrow> 'z md32_ctx_scheme \<Rightarrow> bytes \<Rightarrow> 'z md32_ctx_scheme" where
  "crypto_md32_update block_func block_size c inp = (let len = length inp in
     if len = 0 then c
     else let c = md32_count len c; n = md_num c in
       if n \<noteq> 0
       then if len \<ge> block_size \<or> size_add len n \<ge> block_size
            then let (c, inp) = md32_fill block_func block_size c inp
                 in md32_blocks block_func block_size c inp
            else c\<lparr>md_data := OPENSSL_memcpy (md_data c) n inp, md_num := md_num c + len\<rparr>
       else md32_blocks block_func block_size c inp)"

text \<open>The final step: the byte \<^verbatim>\<open>0x80\<close> and zeros up to the length, then the length.\<close>

definition md32_pad_block :: "u32 block_func \<Rightarrow> nat \<Rightarrow> 'z md32_ctx_scheme \<Rightarrow> u32 list \<times> bytes" where
  "md32_pad_block block_func block_size c = (let
     n = md_num c;
     data = OPENSSL_memcpy (md_data c) n [0x80];
     n = n + 1
     in if n > block_size - 8
        then let data = OPENSSL_memset data n 0 (block_size - n)
             in (block_func (md_h c) data 1, OPENSSL_memset data 0 0 (block_size - 8))
        else (md_h c, OPENSSL_memset data n 0 (block_size - 8 - n)))"

definition md32_put_length :: "nat \<Rightarrow> bool \<Rightarrow> u32 \<Rightarrow> u32 \<Rightarrow> bytes \<Rightarrow> bytes" where
  "md32_put_length block_size is_big_endian Nh Nl data =
     (if is_big_endian
      then OPENSSL_memcpy (OPENSSL_memcpy data (block_size - 8) (CRYPTO_store_u32_be Nh))
             (block_size - 4) (CRYPTO_store_u32_be Nl)
      else OPENSSL_memcpy (OPENSSL_memcpy data (block_size - 8) (CRYPTO_store_u32_le Nl))
             (block_size - 4) (CRYPTO_store_u32_le Nh))"

definition crypto_md32_final :: "u32 block_func \<Rightarrow> nat \<Rightarrow> bool \<Rightarrow> 'z md32_ctx_scheme \<Rightarrow> 'z md32_ctx_scheme" where
  "crypto_md32_final block_func block_size is_big_endian c = (let
     (hh, data) = md32_pad_block block_func block_size c;
     data = md32_put_length block_size is_big_endian (md_Nh c) (md_Nl c) data
     in c\<lparr>md_h := block_func hh data 1, md_num := 0, md_data := OPENSSL_memset data 0 0 block_size\<rparr>)"

section \<open>The specification of a padded block hash\<close>

function hash_blocks :: "('s \<Rightarrow> bytes \<Rightarrow> 's) \<Rightarrow> nat \<Rightarrow> 's \<Rightarrow> bytes \<Rightarrow> 's" where
  "hash_blocks f bs s m =
     (if bs = 0 \<or> length m < bs then s else hash_blocks f bs (f s (take bs m)) (drop bs m))"
  by pat_completeness auto
termination by (relation "measure (\<lambda>(f, bs, s, m). length m)") auto

declare hash_blocks.simps [simp del]

text \<open>
  \<^verbatim>\<open>pad_zeros bs ll n\<close> is the least number of zero bytes that, after an \<^verbatim>\<open>n\<close>-byte message and the
  byte \<^verbatim>\<open>0x80\<close>, leaves room for exactly \<^verbatim>\<open>ll\<close> length bytes in the last block.
\<close>

definition pad_zeros :: "nat \<Rightarrow> nat \<Rightarrow> nat \<Rightarrow> nat" where
  "pad_zeros bs ll n = (2 * bs - 1 - ll - n mod bs) mod bs"

definition md_pad :: "nat \<Rightarrow> bytes \<Rightarrow> bytes \<Rightarrow> bytes" where
  "md_pad bs len_bytes m = m @ 0x80 # replicate (pad_zeros bs (length len_bytes) (length m)) 0 @ len_bytes"


text \<open>
  \<^verbatim>\<open>collects f bs s0 s r m\<close>: the chaining state \<^verbatim>\<open>s\<close> has absorbed the whole blocks of the message
  \<^verbatim>\<open>m\<close>, starting from \<^verbatim>\<open>s0\<close>, and \<^verbatim>\<open>r\<close> is the partial block that is left.
\<close>

definition collects :: "('s \<Rightarrow> bytes \<Rightarrow> 's) \<Rightarrow> nat \<Rightarrow> 's \<Rightarrow> 's \<Rightarrow> bytes \<Rightarrow> bytes \<Rightarrow> bool" where
  "collects f bs s0 s r m \<longleftrightarrow>
     length r < bs \<and> (\<exists>p. m = p @ r \<and> bs dvd length p \<and> s = hash_blocks f bs s0 p)"

section \<open>Buffers and byte order\<close>

lemma length_OPENSSL_memcpy [simp]:
  "off + length src \<le> length dst \<Longrightarrow> length (OPENSSL_memcpy dst off src) = length dst"
  by (simp add: OPENSSL_memcpy_def)

lemma take_OPENSSL_memcpy:
  "off \<le> length dst \<Longrightarrow> take (off + length src) (OPENSSL_memcpy dst off src) = take off dst @ src"
  by (simp add: OPENSSL_memcpy_def min_absorb2)

lemma OPENSSL_memset_all: "length dst = n \<Longrightarrow> OPENSSL_memset dst 0 c n = replicate n c"
  by (simp add: OPENSSL_memset_def OPENSSL_memcpy_def)

lemma length_OPENSSL_memset [simp]:
  "off + n \<le> length dst \<Longrightarrow> length (OPENSSL_memset dst off c n) = length dst"
  by (simp add: OPENSSL_memset_def)

lemma load_u32_be: "4 \<le> length p \<Longrightarrow> CRYPTO_load_u32_be p = word_of_nat (be_nat (take 4 p))"
  using bswap_of_bytes(2) [of "rev (take 4 p)"]
  by (simp add: CRYPTO_load_u32_be_def CRYPTO_load_u32_le_def be_nat_rev be_nat_eq_le_nat)

lemma load_u64_be: "8 \<le> length p \<Longrightarrow> CRYPTO_load_u64_be p = word_of_nat (be_nat (take 8 p))"
  using bswap_of_bytes(3) [of "rev (take 8 p)"]
  by (simp add: CRYPTO_load_u64_be_def be_nat_rev be_nat_eq_le_nat)

lemma store_u32_le: "CRYPTO_store_u32_le v = le_bytes 4 (unat v)"
  by (simp add: CRYPTO_store_u32_le_def)

lemma store_u32_be: "CRYPTO_store_u32_be v = be_bytes 4 (unat v)"
proof -
  have "le_nat (rev (le_bytes 4 (unat v))) < 2 ^ 32"
    using le_nat_bound [of "rev (le_bytes 4 (unat v))"] by simp
  then show ?thesis
    using le_bytes_le_nat [of "rev (le_bytes 4 (unat v))"]
    by (simp add: CRYPTO_store_u32_be_def CRYPTO_bswap4_def unat_of_nat be_bytes_def)
qed

lemma store_u64_be: "CRYPTO_store_u64_be v = be_bytes 8 (unat v)"
proof -
  have "le_nat (rev (le_bytes 8 (unat v))) < 2 ^ 64"
    using le_nat_bound [of "rev (le_bytes 8 (unat v))"] by simp
  then show ?thesis
    using le_bytes_le_nat [of "rev (le_bytes 8 (unat v))"]
    by (simp add: CRYPTO_store_u64_be_def CRYPTO_bswap8_def unat_of_nat be_bytes_def)
qed

lemma length_store [simp]:
  "length (CRYPTO_store_u32_le v) = 4" "length (CRYPTO_store_u32_be v) = 4"
  "length (CRYPTO_store_u64_be w) = 8"
  by (simp_all add: store_u32_le store_u32_be store_u64_be)

lemma take_as_map: "n \<le> length v \<Longrightarrow> take n v = map ((!) v) [0..<n]"
  by (rule nth_equalityI) simp_all

lemma le_bytes_append: "le_bytes (k + n) v = le_bytes k v @ le_bytes n (v div 256 ^ k)"
  by (induction k arbitrary: v) (simp_all add: div_mult2_eq)

lemma le_bytes_mod: "le_bytes k (v mod 256 ^ k) = le_bytes k v"
  using le_bytes_le_nat [of "le_bytes k v"] by (simp add: le_nat_le_bytes)

lemma be_bytes_split:
  assumes "lo < 256 ^ k"
  shows "be_bytes n hi @ be_bytes k lo = be_bytes (n + k) (hi * 256 ^ k + lo)"
  using assms le_bytes_mod [of k "hi * 256 ^ k + lo"] le_bytes_append [of k n "hi * 256 ^ k + lo"]
  by (simp add: be_bytes_def add.commute)

lemma le_bytes_split:
  assumes "lo < 256 ^ k"
  shows "le_bytes k lo @ le_bytes n hi = le_bytes (k + n) (hi * 256 ^ k + lo)"
  using assms le_bytes_mod [of k "hi * 256 ^ k + lo"] le_bytes_append [of k n "hi * 256 ^ k + lo"]
  by simp

text \<open>The rotations are those of the word library.\<close>

lemma shifts_rotr:
  fixes v :: "'a::len word"
  assumes "0 < n" and "n < LENGTH('a)"
  shows "drop_bit n v OR push_bit (LENGTH('a) - n) v = word_rotr n v"
proof (rule bit_word_eqI)
  fix m assume "m < LENGTH('a)"
  then show "bit (drop_bit n v OR push_bit (LENGTH('a) - n) v) m = bit (word_rotr n v) m"
    using assms by (cases "m + n < LENGTH('a)")
      (auto simp: bit_simps bit_word_rotr_iff le_mod_geq not_less add.commute dest: bit_imp_le_length)
qed

lemma minus_and_mask:
  assumes "0 < n" and "n < 2 ^ k"
  shows "nat ((- int n) AND mask k) = 2 ^ k - n"
proof -
  have "(- int n) mod 2 ^ k = 2 ^ k - int n"
    using assms by (simp add: zmod_zminus1_eq_if nat_less_iff)
  then have "(- int n) AND mask k = int (2 ^ k - n)"
    using assms take_bit_eq_mask [of k "- int n"] by (simp add: take_bit_eq_mod of_nat_diff)
  then show ?thesis by simp
qed

lemma rotr_u32: "0 < n \<Longrightarrow> n < 32 \<Longrightarrow> CRYPTO_rotr_u32 v (int n) = word_rotr n v"
  using minus_and_mask [of n 5] shifts_rotr [of n v]
  by (simp add: CRYPTO_rotr_u32_def mask_eq_exp_minus_1)

lemma rotr_u64: "0 < n \<Longrightarrow> n < 64 \<Longrightarrow> CRYPTO_rotr_u64 v (int n) = word_rotr n v"
  using minus_and_mask [of n 6] shifts_rotr [of n v]
  by (simp add: CRYPTO_rotr_u64_def mask_eq_exp_minus_1)

lemma rotl_u32: "0 < n \<Longrightarrow> n < 32 \<Longrightarrow> CRYPTO_rotl_u32 v (int n) = word_rotl n v"
  using minus_and_mask [of n 5] shifts_rotr [of "32 - n" v]
  by (simp add: CRYPTO_rotl_u32_def mask_eq_exp_minus_1 word_rotl_eq_word_rotr or.commute)

text \<open>Loads, stores and the counter are evaluated on words and binary numbers.\<close>

lemma ucast_of_unat: "ucast b = (word_of_nat (unat b) :: 'a::len word)" for b :: "'b::len word"
  by (rule word_unat_eq_iff [THEN iffD2]) (simp add: unat_ucast unat_of_nat)

lemma word_of_le_nat: "word_of_nat (le_nat bs) = foldr (\<lambda>b a. ucast b + 256 * a) bs (0 :: 'a::len word)"
proof (induction bs)
  case (Cons b bs)
  have "word_of_nat (le_nat (b # bs)) = (word_of_nat (unat b) + 256 * word_of_nat (le_nat bs) :: 'a word)"
    by (simp add: of_nat_add of_nat_mult)
  then show ?case by (simp only: Cons.IH ucast_of_unat foldr.simps o_apply)
qed simp

lemma load_le_code [code]: "CRYPTO_load_u32_le p = foldr (\<lambda>b a. ucast b + 256 * a) (take 4 p) 0"
  by (simp add: CRYPTO_load_u32_le_def word_of_le_nat)

fun word_bytes :: "nat \<Rightarrow> 'a::len word \<Rightarrow> bytes" where
  "word_bytes 0 v = []"
| "word_bytes (Suc n) v = ucast v # word_bytes n (drop_bit 8 v)"

lemma word_bytes: "word_bytes n v = le_bytes n (unat v)"
  by (induction n arbitrary: v) (simp_all add: unat_drop_bit)

lemma bswap_code [code]:
  "CRYPTO_bswap4 x = foldr (\<lambda>b a. ucast b + 256 * a) (rev (word_bytes 4 x)) 0"
  "CRYPTO_bswap8 y = foldr (\<lambda>b a. ucast b + 256 * a) (rev (word_bytes 8 y)) 0"
  by (simp_all add: CRYPTO_bswap4_def CRYPTO_bswap8_def word_of_le_nat word_bytes)

lemma store_code [code]:
  "CRYPTO_store_u32_le v = word_bytes 4 v" "CRYPTO_store_u32_be v = word_bytes 4 (CRYPTO_bswap4 v)"
  "CRYPTO_store_u64_be w = word_bytes 8 (CRYPTO_bswap8 w)"
  by (simp_all add: CRYPTO_store_u32_le_def CRYPTO_store_u32_be_def CRYPTO_store_u64_be_def word_bytes)

lemma load_u64_code [code]: "CRYPTO_load_u64_be p = CRYPTO_bswap8 (foldr (\<lambda>b a. ucast b + 256 * a) (take 8 p) 0)"
  by (simp add: CRYPTO_load_u64_be_def word_of_le_nat)

lemma md32_count_code [code]: "md32_count len c = (let
     l = md_Nl c + push_bit 3 (word_of_int (int len));
     Nh = (if l < md_Nl c then md_Nh c + 1 else md_Nh c)
     in c\<lparr>md_Nh := Nh + word_of_int (int len div 536870912), md_Nl := l\<rparr>)"
proof -
  have "int len div 536870912 = int (len div 2 ^ 29)" by (simp add: zdiv_int)
  then show ?thesis unfolding md32_count_def by (simp only: of_int_of_nat_eq)
qed

section \<open>The double-word bit counter\<close>

text \<open>
  Both collectors count bits in two words with an explicit carry.  Over words of \<^verbatim>\<open>w\<close> bits the pair
  is the bit count modulo \<^verbatim>\<open>2 ^ (2 * w)\<close>.
\<close>

definition bit_count :: "'a::len word \<Rightarrow> 'a word \<Rightarrow> nat" where
  "bit_count hi lo = unat hi * 2 ^ LENGTH('a) + unat lo"

lemma counter_carry:
  fixes a l B H :: nat
  assumes "a < B" and "x < B" and "l = (a + x) mod B"
  shows "((if l < a then H + 1 else H) + q) mod B * B + l = (H * B + a + (q * B + x)) mod (B * B)"
proof -
  have carry: "(if l < a then 1 else 0) * B + l = a + x"
  proof (cases "a + x < B")
    case False
    then have "l = a + x - B" using assms by (simp add: le_mod_geq)
    with False assms(1,2) show ?thesis by simp
  qed (use assms in simp)
  define t where "t = ((if l < a then H + 1 else H) + q) * B + l"
  have "l < B" using assms by simp
  then have "t div B = (if l < a then H + 1 else H) + q" "t mod B = l"
    using assms(1) by (simp_all add: t_def)
  moreover have "t = H * B + a + (q * B + x)"
    using carry by (simp add: t_def algebra_simps split: if_splits)
  ultimately show ?thesis using mod_mult2_eq [of t B B] by (simp add: mult.commute)
qed

lemma bit_count_update:
  fixes hi lo :: "'a::len word" and len :: nat
  assumes "3 \<le> LENGTH('a)"
  defines "l \<equiv> lo + push_bit 3 (word_of_nat len)"
  shows "bit_count ((if l < lo then hi + 1 else hi) + word_of_nat (len div 2 ^ (LENGTH('a) - 3))) l
    = (bit_count hi lo + 8 * len) mod 2 ^ (2 * LENGTH('a))"
proof -
  define B :: nat where "B = 2 ^ LENGTH('a)"
  define C :: nat where "C = 2 ^ (LENGTH('a) - 3)"
  have B: "B = 8 * C" using assms(1) power_add [of "2 :: nat" 3 "LENGTH('a) - 3"] by (simp add: B_def C_def)
  have x: "unat (push_bit 3 (word_of_nat len :: 'a word)) = 8 * (len mod C)"
    by (simp add: unat_push_bit unat_of_nat flip: B_def) (simp add: B mod_mult_right_eq mult.commute mod_mult_mult1)
  have "8 * (len mod C) < B" by (simp add: B C_def)
  moreover have l: "unat l = (unat lo + 8 * (len mod C)) mod B"
    by (simp add: l_def unat_word_ariths x B_def)
  moreover have "unat lo < B" by (simp add: B_def)
  ultimately have "((if unat l < unat lo then unat hi + 1 else unat hi) + len div C) mod B * B + unat l
      = (unat hi * B + unat lo + (len div C * B + 8 * (len mod C))) mod (B * B)"
    by (intro counter_carry)
  moreover have "len div C * B + 8 * (len mod C) = 8 * len"
    by (simp add: B flip: mult.assoc distrib_left) (metis mult.commute mult.assoc div_mult_mod_eq distrib_left)
  moreover have "B * B = 2 ^ (2 * LENGTH('a))" by (simp add: B_def mult_2 power_add)
  moreover have "unat ((if l < lo then hi + 1 else hi) + word_of_nat (len div C))
      = ((if unat l < unat lo then unat hi + 1 else unat hi) + len div C) mod B"
    by (simp add: word_less_nat_alt unat_word_ariths unat_of_nat B_def mod_simps)
  ultimately show ?thesis by (simp add: bit_count_def flip: B_def C_def)
qed


section \<open>Folding a compression function over blocks\<close>

lemma hash_blocks_short [simp]: "length m < bs \<Longrightarrow> hash_blocks f bs s m = s"
  by (simp add: hash_blocks.simps)

lemma hash_blocks_step:
  "0 < bs \<Longrightarrow> length b = bs \<Longrightarrow> hash_blocks f bs s (b @ m) = hash_blocks f bs (f s b) m"
  by (subst hash_blocks.simps) simp

lemma hash_blocks_one: "0 < bs \<Longrightarrow> length b = bs \<Longrightarrow> hash_blocks f bs s b = f s b"
  using hash_blocks_step [of bs b f s "[]"] by simp

lemma hash_blocks_append:
  "bs dvd length p \<Longrightarrow> hash_blocks f bs s (p @ q) = hash_blocks f bs (hash_blocks f bs s p) q"
proof (induction f bs s p rule: hash_blocks.induct)
  case (1 f bs s p)
  show ?case
  proof (cases "bs = 0 \<or> length p < bs")
    case True
    with "1.prems" have "p = []" by (auto dest: nat_dvd_not_less)
    then show ?thesis by (simp add: hash_blocks.simps)
  next
    case False
    then have "hash_blocks f bs (f s (take bs p)) (drop bs p @ q)
        = hash_blocks f bs (hash_blocks f bs (f s (take bs p)) (drop bs p)) q"
      using "1.prems" by (intro "1.IH") (auto intro: dvd_diff_nat)
    then show ?thesis
      using False hash_blocks.simps [of f bs s "p @ q"] hash_blocks.simps [of f bs s p] by simp
  qed
qed

lemma hash_blocks_inv:
  assumes "\<And>s b. P s \<Longrightarrow> length b = bs \<Longrightarrow> P (f s b)" and "P s"
  shows "P (hash_blocks f bs s m)"
  using assms(2)
proof (induction f\<equiv>f bs\<equiv>bs s m rule: hash_blocks.induct)
  case (1 s m)
  then show ?case by (subst hash_blocks.simps) (simp add: assms(1))
qed

lemma collects_init: "0 < bs \<Longrightarrow> collects f bs s s [] []"
  unfolding collects_def by (intro conjI exI [of _ "[]"]) simp_all

lemma collects_short:
  "collects f bs s0 s r m \<Longrightarrow> length (r @ x) < bs \<Longrightarrow> collects f bs s0 s (r @ x) (m @ x)"
  unfolding collects_def by (metis append.assoc)

lemma collects_blocks:
  assumes "collects f bs s0 s r m" and "bs dvd length (r @ b)"
  shows "collects f bs s0 (hash_blocks f bs s (r @ b)) [] (m @ b)"
proof -
  obtain p where "m = p @ r" "bs dvd length p" "s = hash_blocks f bs s0 p" "0 < bs"
    using assms(1) unfolding collects_def by auto
  then show ?thesis
    using assms(2) hash_blocks_append [of bs p f s0 "r @ b"]
    unfolding collects_def by (intro conjI exI [of _ "p @ r @ b"]) (simp_all add: dvd_add_right_iff)
qed

lemma collects_length: "collects f bs s0 s r m \<Longrightarrow> length r = length m mod bs"
  unfolding collects_def by (auto simp: mod_add_left_eq dvd_eq_mod_eq_0 simp flip: mod_add_left_eq [of _ bs])

locale block_hash =
  fixes block_func :: "'w block_func"
    and compress :: "'w list \<Rightarrow> bytes \<Rightarrow> 'w list"
    and bs :: nat
    and valid :: "'w list \<Rightarrow> bool"
  assumes bs_pos: "0 < bs"
    and one: "valid s \<Longrightarrow> bs \<le> length d \<Longrightarrow> block_func s d 1 = compress s (take bs d)"
    and more: "valid s \<Longrightarrow> Suc (Suc n) * bs \<le> length d \<Longrightarrow>
      block_func s d (Suc (Suc n)) = block_func (compress s (take bs d)) (drop bs d) (Suc n)"
    and valid_compress: "valid s \<Longrightarrow> length b = bs \<Longrightarrow> valid (compress s b)"
begin

lemma valid_hash_blocks: "valid s \<Longrightarrow> valid (hash_blocks compress bs s m)"
  by (rule hash_blocks_inv [of valid]) (simp_all add: valid_compress)

lemma block_func_blocks:
  "valid s \<Longrightarrow> Suc n * bs \<le> length d \<Longrightarrow>
   block_func s d (Suc n) = hash_blocks compress bs s (take (Suc n * bs) d)"
proof (induction n arbitrary: s d)
  case 0
  then show ?case using one [of s d] hash_blocks_one [OF bs_pos, of "take bs d" compress s] by simp
next
  case (Suc n)
  have "block_func s d (Suc (Suc n))
      = hash_blocks compress bs (compress s (take bs d)) (take (Suc n * bs) (drop bs d))"
    using Suc.prems more [of s n d] Suc.IH [of "compress s (take bs d)" "drop bs d"]
    by (simp add: valid_compress)
  also have "\<dots> = hash_blocks compress bs s (take bs d @ take (Suc n * bs) (drop bs d))"
    using Suc.prems bs_pos by (subst hash_blocks_step) auto
  also have "take bs d @ take (Suc n * bs) (drop bs d) = take (Suc (Suc n) * bs) d"
    using take_add [of bs "Suc n * bs" d] by simp
  finally show ?case .
qed

lemma block_func_one: "valid s \<Longrightarrow> length d = bs \<Longrightarrow> block_func s d 1 = hash_blocks compress bs s d"
  using block_func_blocks [of s 0 d] by simp

lemma collects_valid: "collects compress bs s0 s r m \<Longrightarrow> valid s0 \<Longrightarrow> valid s"
  unfolding collects_def by (auto simp: valid_hash_blocks)

text \<open>Absorbing whole blocks straight from the input, and keeping the rest.\<close>

lemma collects_input:
  fixes x :: bytes and s s0 :: "'w list"
  assumes c: "collects compress bs s0 s [] m" and v: "valid s0"
  defines "n \<equiv> length x div bs"
  shows "collects compress bs s0 (if n > 0 then block_func s x n else s) (drop (n * bs) x) (m @ x)"
proof -
  have le: "n * bs \<le> length x" by (simp add: n_def)
  have "(if n > 0 then block_func s x n else s) = hash_blocks compress bs s (take (n * bs) x)"
  proof (cases n)
    case (Suc k)
    then show ?thesis using block_func_blocks [of s k x] collects_valid [OF c v] le by simp
  qed (simp add: bs_pos)
  moreover have "collects compress bs s0 (hash_blocks compress bs s ([] @ take (n * bs) x)) []
      (m @ take (n * bs) x)"
    using le by (intro collects_blocks [OF c]) simp
  moreover have "length (drop (n * bs) x) < bs"
    using bs_pos by (simp add: n_def minus_div_mult_eq_mod)
  ultimately show ?thesis
    using collects_short [of compress bs s0 _ "[]" "m @ take (n * bs) x" "drop (n * bs) x"] by simp
qed

text \<open>The padded message is the partial block with its padding, in one or two blocks.\<close>

lemma hash_pad:
  assumes c: "collects compress bs s0 s r m" and "length lb < bs"
  shows "hash_blocks compress bs s0 (md_pad bs lb m) =
    (if bs - length lb < length r + 1
     then hash_blocks compress bs (hash_blocks compress bs s (r @ 0x80 # replicate (bs - 1 - length r) 0))
       (replicate (bs - length lb) 0 @ lb)
     else hash_blocks compress bs s (r @ 0x80 # replicate (bs - length lb - (length r + 1)) 0 @ lb))"
proof -
  obtain p where p: "m = p @ r" "bs dvd length p" "s = hash_blocks compress bs s0 p" and r: "length r < bs"
    using c unfolding collects_def by auto
  have z: "pad_zeros bs (length lb) (length m) =
      (if bs - length lb < length r + 1 then bs - 1 - length r + (bs - length lb)
       else bs - length lb - (length r + 1))"
    using assms(2) r unfolding pad_zeros_def collects_length [OF c, symmetric]
    by (auto simp: le_mod_geq)
  have pad: "hash_blocks compress bs s0 (md_pad bs lb m) = hash_blocks compress bs s
      (r @ 0x80 # replicate (pad_zeros bs (length lb) (length m)) 0 @ lb)"
    by (simp add: md_pad_def p hash_blocks_append)
  show ?thesis
  proof (cases "bs - length lb < length r + 1")
    case True
    have "hash_blocks compress bs s ((r @ 0x80 # replicate (bs - 1 - length r) 0) @
        (replicate (bs - length lb) 0 @ lb)) = hash_blocks compress bs (hash_blocks compress bs s
        (r @ 0x80 # replicate (bs - 1 - length r) 0)) (replicate (bs - length lb) 0 @ lb)"
      using r by (intro hash_blocks_append) simp
    with True show ?thesis by (simp add: pad z replicate_add)
  qed (simp add: pad z)
qed

end


section \<open>The collector implements the padded hash\<close>

text \<open>
  The collector's state is determined by the message absorbed so far: the unused part of the block
  buffer is kept zeroed and the counter holds the message length in bits modulo \<^verbatim>\<open>2 ^ 64\<close>.
\<close>

definition md32_repr :: "(u32 list \<Rightarrow> bytes \<Rightarrow> u32 list) \<Rightarrow> nat \<Rightarrow> u32 list \<Rightarrow> 'z md32_ctx_scheme \<Rightarrow> bytes \<Rightarrow> bool" where
  "md32_repr f bs s0 c m \<longleftrightarrow>
     collects f bs s0 (md_h c) (take (md_num c) (md_data c)) m \<and>
     md_num c < bs \<and> length (md_data c) = bs \<and>
     drop (md_num c) (md_data c) = replicate (bs - md_num c) 0 \<and>
     bit_count (md_Nh c) (md_Nl c) = 8 * length m mod 2 ^ 64"

definition md32_length :: "bool \<Rightarrow> nat \<Rightarrow> bytes" where
  "md32_length is_big_endian n = (if is_big_endian then be_bytes 8 (8 * n) else le_bytes 8 (8 * n))"

lemma md32_length_store:
  assumes "bit_count hi lo = 8 * n mod 2 ^ 64"
  shows "md32_length be n = (if be then CRYPTO_store_u32_be hi @ CRYPTO_store_u32_be lo
    else CRYPTO_store_u32_le lo @ CRYPTO_store_u32_le hi)"
proof -
  have lo: "unat lo < 256 ^ 4" using unsigned_less [of lo] by simp
  have "le_bytes (4 + 4) (unat hi * 256 ^ 4 + unat lo) = le_bytes 8 (8 * n)"
    using assms le_bytes_mod [of 8 "8 * n"] by (simp add: bit_count_def)
  with be_bytes_split [OF lo, of 4 "unat hi"] le_bytes_split [OF lo, of 4 "unat hi"] show ?thesis
    by (simp add: md32_length_def store_u32_be store_u32_le be_bytes_def)
qed

lemma length_md32_length [simp]: "length (md32_length be n) = 8"
  by (simp add: md32_length_def)

lemma zeroed_memcpy:
  assumes "drop n d = replicate (bs - n) 0" and "length d = bs" and "n + length x \<le> bs"
  shows "OPENSSL_memcpy d n x = take n d @ x @ replicate (bs - n - length x) 0"
proof -
  have "drop (length x) (drop n d) = replicate (bs - n - length x) 0"
    using assms(1) by simp
  then show ?thesis by (simp add: OPENSSL_memcpy_def add.commute)
qed

locale md32_hash = block_hash block_func compress bs valid
  for block_func :: "u32 block_func" and compress :: "u32 list \<Rightarrow> bytes \<Rightarrow> u32 list"
    and bs :: nat and valid :: "u32 list \<Rightarrow> bool" +
  assumes bs_room: "8 < bs" and bs_small: "bs \<le> 2 ^ 32"
begin

lemma count_repr:
  "bit_count (md_Nh c) (md_Nl c) = 8 * n mod 2 ^ 64 \<Longrightarrow>
   bit_count (md_Nh (md32_count len c)) (md_Nl (md32_count len c)) = 8 * (n + len) mod 2 ^ 64"
  using bit_count_update [of "md_Nl c" len "md_Nh c"]
  by (simp add: md32_count_def Let_def mod_add_left_eq distrib_left)

lemma count_frame [simp]:
  "md_h (md32_count len c) = md_h c" "md_num (md32_count len c) = md_num c"
  "md_data (md32_count len c) = md_data c"
  by (simp_all add: md32_count_def Let_def)

lemma fill_repr:
  assumes c: "collects compress bs s0 (md_h c) (take (md_num c) (md_data c)) m"
    and n: "md_num c < bs" and d: "length (md_data c) = bs"
    and z: "drop (md_num c) (md_data c) = replicate (bs - md_num c) 0" and v: "valid s0"
    and long: "bs \<le> md_num c + length x" and f: "md32_fill block_func bs c x = (c1, y)"
  shows "collects compress bs s0 (md_h c1) [] (m @ take (bs - md_num c) x)"
    and "c1 = c\<lparr>md_h := md_h c1, md_num := 0, md_data := replicate bs 0\<rparr>"
    and "y = drop (bs - md_num c) x"
proof -
  define b where "b = take (bs - md_num c) x"
  define data where "data = OPENSSL_memcpy (md_data c) (md_num c) b"
  have b: "md_num c + length b = bs" using long n by (auto simp: b_def)
  have data: "data = take (md_num c) (md_data c) @ b"
    using zeroed_memcpy [OF z d, of b] b by (simp add: data_def)
  have len: "length data = bs" using b d n by (simp add: data)
  have F: "c1 = c\<lparr>md_h := block_func (md_h c) data 1, md_num := 0, md_data := OPENSSL_memset data 0 0 bs\<rparr>"
    and y: "y = drop (bs - md_num c) x"
    using f unfolding md32_fill_def Let_def data_def b_def by simp_all
  have "block_func (md_h c) data 1 = hash_blocks compress bs (md_h c) data"
    using block_func_one [OF collects_valid [OF c v] len] .
  moreover have "collects compress bs s0 (hash_blocks compress bs (md_h c) data) [] (m @ b)"
    unfolding data using collects_blocks [OF c, of b] len by (simp add: data)
  ultimately show "collects compress bs s0 (md_h c1) [] (m @ take (bs - md_num c) x)"
    by (simp add: F b_def)
  show "c1 = c\<lparr>md_h := md_h c1, md_num := 0, md_data := replicate bs 0\<rparr>"
    using OPENSSL_memset_all [OF len] by (simp add: F)
  show "y = drop (bs - md_num c) x" by (rule y)
qed

lemma blocks_repr:
  assumes c: "collects compress bs s0 (md_h c) [] m" and "md_data c = replicate bs 0"
    and "md_num c = 0" and cnt: "bit_count (md_Nh c) (md_Nl c) = 8 * length (m @ x) mod 2 ^ 64"
    and v: "valid s0"
  shows "md32_repr compress bs s0 (md32_blocks block_func bs c x) (m @ x)"
proof -
  define n where "n = length x div bs"
  define rest where "rest = drop (n * bs) x"
  define s where "s = (if n > 0 then block_func (md_h c) x n else md_h c)"
  have C: "collects compress bs s0 s rest (m @ x)"
    unfolding s_def rest_def n_def by (rule collects_input [OF c v])
  have "md32_blocks block_func bs c x = (if length rest \<noteq> 0
      then c\<lparr>md_h := s, md_num := length rest, md_data := OPENSSL_memcpy (md_data c) 0 rest\<rparr>
      else c\<lparr>md_h := s\<rparr>)"
    by (simp add: md32_blocks_def Let_def n_def rest_def s_def)
  moreover have "length rest < bs" using C by (simp add: collects_def)
  ultimately show ?thesis
    using C assms(2-4) bs_pos by (auto simp: md32_repr_def OPENSSL_memcpy_def)
qed

lemma update_repr:
  assumes r: "md32_repr compress bs s0 c m" and v: "valid s0"
  shows "md32_repr compress bs s0 (crypto_md32_update block_func bs c x) (m @ x)"
proof (cases "x = []")
  case False
  define c0 where "c0 = md32_count (length x) c"
  have R: "collects compress bs s0 (md_h c0) (take (md_num c0) (md_data c0)) m"
    "md_num c0 < bs" "length (md_data c0) = bs" "drop (md_num c0) (md_data c0) = replicate (bs - md_num c0) 0"
    and cnt: "bit_count (md_Nh c0) (md_Nl c0) = 8 * (length m + length x) mod 2 ^ 64"
    using r count_repr [of c] by (simp_all add: md32_repr_def c0_def)
  have cond: "bs \<le> length x \<or> bs \<le> size_add (length x) (md_num c0) \<longleftrightarrow> bs \<le> md_num c0 + length x"
    using R(2) bs_small by (cases "length x < bs") (auto simp: size_add_def add.commute)
  have upd: "crypto_md32_update block_func bs c x =
      (if md_num c0 \<noteq> 0
       then if bs \<le> md_num c0 + length x
            then case md32_fill block_func bs c0 x of (c, y) \<Rightarrow> md32_blocks block_func bs c y
            else c0\<lparr>md_data := OPENSSL_memcpy (md_data c0) (md_num c0) x, md_num := md_num c0 + length x\<rparr>
       else md32_blocks block_func bs c0 x)"
    using False unfolding crypto_md32_update_def Let_def c0_def [symmetric] cond by simp
  consider "md_num c0 = 0" | "md_num c0 \<noteq> 0" "bs \<le> md_num c0 + length x"
    | "md_num c0 \<noteq> 0" "md_num c0 + length x < bs" by linarith
  then show ?thesis
  proof cases
    case 1
    with R have "md_data c0 = replicate bs 0" by simp
    with 1 R cnt show ?thesis unfolding upd by (simp add: blocks_repr v)
  next
    case 2
    obtain c1 y where f: "md32_fill block_func bs c0 x = (c1, y)" by (cases "md32_fill block_func bs c0 x")
    note F = fill_repr [OF R v 2(2) f]
    have "md_data c1 = replicate bs 0" "md_num c1 = 0" "md_Nh c1 = md_Nh c0" "md_Nl c1 = md_Nl c0"
      by (subst F(2), simp)+
    then have "md32_repr compress bs s0 (md32_blocks block_func bs c1 y) ((m @ take (bs - md_num c0) x) @ y)"
      using F(1) cnt by (intro blocks_repr v) (auto simp: F(3))
    with 2 f show ?thesis unfolding upd by (simp add: F(3))
  next
    case 3
    have "OPENSSL_memcpy (md_data c0) (md_num c0) x
        = take (md_num c0) (md_data c0) @ x @ replicate (bs - md_num c0 - length x) 0"
      using 3 by (intro zeroed_memcpy R) simp
    then show ?thesis
      unfolding upd using collects_short [OF R(1), of x] 3 R cnt by (simp add: md32_repr_def)
  qed
qed (use r in \<open>simp add: crypto_md32_update_def\<close>)

lemma updates_repr:
  assumes "md32_repr compress bs s0 c m" and v: "valid s0"
  shows "md32_repr compress bs s0 (foldl (crypto_md32_update block_func bs) c xs) (m @ concat xs)"
  using assms(1)
proof (induction xs arbitrary: c m)
  case (Cons x xs)
  from Cons.IH [OF update_repr [OF Cons.prems v, of x]] show ?case by simp
qed simp

lemma put_length:
  assumes "bit_count hi lo = 8 * n mod 2 ^ 64" and "length d = bs"
  shows "md32_put_length bs be hi lo d = take (bs - 8) d @ md32_length be n"
  using assms(2) bs_room md32_length_store [OF assms(1), of be]
  by (simp add: md32_put_length_def OPENSSL_memcpy_def)

lemma pad_block:
  assumes r: "md32_repr compress bs s0 c m" and v: "valid s0" and "length lb = 8"
    and p: "md32_pad_block block_func bs c = (s, d)"
  shows "length d = bs" and "valid s"
    and "hash_blocks compress bs s (take (bs - 8) d @ lb) = hash_blocks compress bs s0 (md_pad bs lb m)"
proof -
  define r where "r = take (md_num c) (md_data c)"
  have R: "collects compress bs s0 (md_h c) r m" "md_num c = length r" "length r < bs"
    "length (md_data c) = bs" "drop (md_num c) (md_data c) = replicate (bs - md_num c) 0"
    using assms(1) by (auto simp: md32_repr_def r_def)
  define d1 where "d1 = r @ 0x80 # replicate (bs - 1 - length r) 0"
  have d0: "OPENSSL_memcpy (md_data c) (md_num c) [0x80] = d1"
    using zeroed_memcpy [OF R(5,4), of "[0x80]", folded r_def] R(2,3) by (simp add: d1_def)
  have len: "length d1 = bs" using R(3) by (simp add: d1_def)
  have set1: "OPENSSL_memset d1 (length r + 1) 0 (bs - (length r + 1)) = d1"
    using R(3) by (simp add: OPENSSL_memset_def OPENSSL_memcpy_def d1_def)
  have vh: "valid (md_h c)" using collects_valid [OF R(1) v] .
  have one: "block_func (md_h c) d1 1 = hash_blocks compress bs (md_h c) d1"
    using block_func_one [OF vh len] .
  have P: "(s, d) = (if bs - 8 < length r + 1
      then (hash_blocks compress bs (md_h c) d1, OPENSSL_memset d1 0 0 (bs - 8))
      else (md_h c, OPENSSL_memset d1 (length r + 1) 0 (bs - 8 - (length r + 1))))"
    using p unfolding md32_pad_block_def Let_def d0 R(2) set1 one d0 [unfolded R(2)] by simp
  show "length d = bs" using P len by (cases "bs - 8 < length r + 1") simp_all
  show "valid s" using P vh valid_hash_blocks by (cases "bs - 8 < length r + 1") simp_all
  have "take (bs - 8) d = (if bs - 8 < length r + 1 then replicate (bs - 8) 0
      else r @ 0x80 # replicate (bs - 8 - (length r + 1)) 0)"
  proof (cases "bs - 8 < length r + 1")
    case True
    with P show ?thesis by (simp add: OPENSSL_memset_def OPENSSL_memcpy_def)
  next
    case False
    then obtain k where "bs = length r + 1 + k + 8" using bs_room by (metis le_Suc_ex less_diff_conv less_imp_le_nat not_less
      add.commute le_add_diff_inverse)
    with P show ?thesis by (simp add: OPENSSL_memset_def OPENSSL_memcpy_def d1_def)
  qed
  then show "hash_blocks compress bs s (take (bs - 8) d @ lb) = hash_blocks compress bs s0 (md_pad bs lb m)"
    using P hash_pad [OF R(1), of lb] assms(3) bs_room
    by (simp add: d1_def split: if_splits)
qed

lemma final_hash:
  assumes r: "md32_repr compress bs s0 c m" and v: "valid s0"
  shows "md_h (crypto_md32_final block_func bs be c)
      = hash_blocks compress bs s0 (md_pad bs (md32_length be (length m)) m)"
    and "md_num (crypto_md32_final block_func bs be c) = 0"
    and "md_data (crypto_md32_final block_func bs be c) = replicate bs 0"
proof -
  obtain s d where p: "md32_pad_block block_func bs c = (s, d)" by (cases "md32_pad_block block_func bs c")
  define d1 where "d1 = take (bs - 8) d @ md32_length be (length m)"
  note P = pad_block [OF r v length_md32_length p]
  have len: "length d1 = bs" using P(1) bs_room by (simp add: d1_def)
  have "md32_put_length bs be (md_Nh c) (md_Nl c) d = d1"
    unfolding d1_def using r P(1) by (intro put_length) (simp_all add: md32_repr_def)
  then have fin: "crypto_md32_final block_func bs be c =
      c\<lparr>md_h := block_func s d1 1, md_num := 0, md_data := OPENSSL_memset d1 0 0 bs\<rparr>"
    by (simp add: crypto_md32_final_def p)
  show "md_h (crypto_md32_final block_func bs be c)
      = hash_blocks compress bs s0 (md_pad bs (md32_length be (length m)) m)"
    using block_func_one [OF P(2) len] P(3) [of be "length m"] by (simp add: fin d1_def)
  show "md_num (crypto_md32_final block_func bs be c) = 0"
    "md_data (crypto_md32_final block_func bs be c) = replicate bs 0"
    using OPENSSL_memset_all [OF len] by (simp_all add: fin)
qed

lemma final_updates:
  assumes "md32_repr compress bs s0 c []" and "valid s0"
  shows "md_h (crypto_md32_final block_func bs be (foldl (crypto_md32_update block_func bs) c xs))
    = hash_blocks compress bs s0 (md_pad bs (md32_length be (length (concat xs))) (concat xs))"
  using final_hash(1) [OF updates_repr [OF assms] assms(2)] by simp

end

end
