(* ===== verification/SHA2_Rounds.thy ===== *)
theory SHA2_Rounds
  imports MD32
begin

text \<open>
  What SHA-256 and SHA-512 share: the compression function of FIPS 180-4 over words of any width,
  and the interface of the unrolled C rounds to it.  The C code keeps the eight working variables in
  fixed places and renames them from round to round, and keeps only sixteen words of the message
  schedule in a circular buffer; the locale \<^verbatim>\<open>sha2_rounds\<close> states what one such round does, and shows
  that sixteen loading rounds and then any number of scheduled rounds compute the standard's rounds.
\<close>

unbundle bit_operations_syntax

section \<open>FIPS 180-4\<close>

definition Ch :: "'a::len word \<Rightarrow> 'a word \<Rightarrow> 'a word \<Rightarrow> 'a word" where
  "Ch x y z = (x AND y) XOR (NOT x AND z)"

definition Maj :: "'a::len word \<Rightarrow> 'a word \<Rightarrow> 'a word \<Rightarrow> 'a word" where
  "Maj x y z = (x AND y) XOR (x AND z) XOR (y AND z)"

text \<open>The message schedule (sections 6.2.2 and 6.4.2, step 1).\<close>

fun sha2_W :: "('a::len word \<Rightarrow> 'a word) \<Rightarrow> ('a word \<Rightarrow> 'a word) \<Rightarrow> 'a word list \<Rightarrow> nat \<Rightarrow> 'a word" where
  "sha2_W s0 s1 M t =
     (if t < 16 then M ! t
      else s1 (sha2_W s0 s1 M (t - 2)) + sha2_W s0 s1 M (t - 7)
           + s0 (sha2_W s0 s1 M (t - 15)) + sha2_W s0 s1 M (t - 16))"

declare sha2_W.simps [simp del]

text \<open>One round (step 3) on the working variables \<^verbatim>\<open>[a, b, c, d, e, f, g, h]\<close>.\<close>

fun sha2_step :: "('a::len word \<Rightarrow> 'a word) \<Rightarrow> ('a word \<Rightarrow> 'a word) \<Rightarrow> 'a word \<Rightarrow> 'a word \<Rightarrow> 'a word list \<Rightarrow> 'a word list" where
  "sha2_step S0 S1 k w [a, b, c, d, e, f, g, h] =
     (let T1 = h + S1 e + Ch e f g + k + w; T2 = S0 a + Maj a b c
      in [T1 + T2, a, b, c, d + T1, e, f, g])"
| "sha2_step S0 S1 k w v = v"

fun sha2_rounds_spec :: "('a::len word \<Rightarrow> 'a word) \<Rightarrow> ('a word \<Rightarrow> 'a word) \<Rightarrow> ('a word \<Rightarrow> 'a word) \<Rightarrow> ('a word \<Rightarrow> 'a word)
    \<Rightarrow> 'a word list \<Rightarrow> 'a word list \<Rightarrow> 'a word list \<Rightarrow> nat \<Rightarrow> 'a word list" where
  "sha2_rounds_spec S0 S1 s0 s1 K M v 0 = v"
| "sha2_rounds_spec S0 S1 s0 s1 K M v (Suc t) =
     sha2_step S0 S1 (K ! t) (sha2_W s0 s1 M t) (sha2_rounds_spec S0 S1 s0 s1 K M v t)"

lemma length_sha2_step [simp]: "length (sha2_step S0 S1 k w v) = length v"
  by (cases "(S0, S1, k, w, v)" rule: sha2_step.cases) (simp_all add: Let_def)

lemma length_sha2_rounds [simp]: "length (sha2_rounds_spec S0 S1 s0 s1 K M v t) = length v"
  by (induction t) simp_all

section \<open>The unrolled rounds\<close>

text \<open>
  \<^verbatim>\<open>reg t j\<close> is the place that holds the \<^verbatim>\<open>j\<close>-th working variable of the standard before round
  \<^verbatim>\<open>t\<close> of the C code.
\<close>

definition reg :: "nat \<Rightarrow> nat \<Rightarrow> nat" where
  "reg t j = (j + 7 * (t mod 8)) mod 8"

lemma reg_mod: "8 dvd i \<Longrightarrow> reg (i + r) j = reg r j"
  by (auto simp: reg_def elim!: dvdE)

lemma mod_8_cases:
  obtains "t mod 8 = 0" | "t mod 8 = 1" | "t mod 8 = 2" | "t mod 8 = 3"
    | "t mod 8 = 4" | "t mod 8 = 5" | "t mod 8 = 6" | "t mod 8 = (7 :: nat)"
proof -
  have "t mod 8 < 8" by simp
  then have "t mod 8 \<in> {0, 1, 2, 3, 4, 5, 6, 7}" by auto
  then show ?thesis using that by auto
qed

lemma length_8: "length v = 8 \<Longrightarrow> \<exists>a b c d e f g h. v = [a, b, c, d, e, f, g, h]"
  by (auto simp: eval_nat_numeral length_Suc_conv)

lemma reg_less [simp]: "reg t i < 8"
  by (simp add: reg_def)

lemma reg_3_7 [simp]: "reg t 7 \<noteq> reg t 3"
  by (rule mod_8_cases [of t]) (simp_all add: reg_def)

text \<open>The three assignments of a round to its registers \<^verbatim>\<open>h\<close> and \<^verbatim>\<open>d\<close>.\<close>

lemma round_writes:
  assumes "h < length v" and "h \<noteq> d"
  shows "(let v = v[h := x]; v = v[d := v ! d + T] in v[h := v ! h + T]) = v[h := x + T, d := v ! d + T]"
  unfolding Let_def
proof (rule nth_equalityI)
  fix i
  assume "i < length (v[h := x, d := v[h := x] ! d + T, h := v[h := x, d := v[h := x] ! d + T] ! h + T])"
  then show "v[h := x, d := v[h := x] ! d + T, h := v[h := x, d := v[h := x] ! d + T] ! h + T] ! i
      = v[h := x + T, d := v ! d + T] ! i"
    using assms by (cases "i = h"; cases "i = d") simp_all
qed simp

lemma and_0f: "i AND 0x0f = i mod 16" for i :: nat
  using take_bit_eq_mask [of 4 i] by (simp add: take_bit_eq_mod mask_eq_exp_minus_1)

definition regs :: "nat \<Rightarrow> nat list" where
  "regs t = [reg t 0, reg t 1, reg t 2, reg t 3, reg t 4, reg t 5, reg t 6, reg t 7]"

text \<open>The working variables as the standard names them before round \<^verbatim>\<open>t\<close>.\<close>

definition view :: "nat \<Rightarrow> 'w list \<Rightarrow> 'w list" where
  "view t v = [v ! reg t 0, v ! reg t 1, v ! reg t 2, v ! reg t 3, v ! reg t 4, v ! reg t 5, v ! reg t 6, v ! reg t 7]"

lemma view_8: "length v = 8 \<Longrightarrow> 8 dvd t \<Longrightarrow> view t v = v"
  using length_8 [of v] reg_mod [of t 0] by (auto simp: view_def reg_def)

locale sha2_rounds =
  fixes S0 S1 s0 s1 :: "'a::len word \<Rightarrow> 'a word"
    and K :: "'a word list"
    and round :: "nat \<Rightarrow> 'a word \<Rightarrow> nat \<Rightarrow> nat \<Rightarrow> nat \<Rightarrow> nat \<Rightarrow> nat \<Rightarrow> nat \<Rightarrow> nat \<Rightarrow> nat \<Rightarrow> 'a word list \<Rightarrow> 'a word list"
  assumes round: "length v = 8 \<Longrightarrow>
      round i w (reg t 0) (reg t 1) (reg t 2) (reg t 3) (reg t 4) (reg t 5) (reg t 6) (reg t 7) v =
      v[reg t 7 := v ! reg t 7 + S1 (v ! reg t 4) + Ch (v ! reg t 4) (v ! reg t 5) (v ! reg t 6) + K ! i + w
          + S0 (v ! reg t 0) + Maj (v ! reg t 0) (v ! reg t 1) (v ! reg t 2),
        reg t 3 := v ! reg t 3
          + (v ! reg t 7 + S1 (v ! reg t 4) + Ch (v ! reg t 4) (v ! reg t 5) (v ! reg t 6) + K ! i + w)]"
begin

lemma round_view:
  assumes "length v = 8"
  shows "view (Suc t) (round i w (reg t 0) (reg t 1) (reg t 2) (reg t 3) (reg t 4) (reg t 5) (reg t 6) (reg t 7) v)
    = sha2_step S0 S1 (K ! i) w (view t v)"
  and "length (round i w (reg t 0) (reg t 1) (reg t 2) (reg t 3) (reg t 4) (reg t 5) (reg t 6) (reg t 7) v) = 8"
proof -
  obtain a b c d e f g h where v: "v = [a, b, c, d, e, f, g, h]" using length_8 [OF assms] by blast
  show "view (Suc t) (round i w (reg t 0) (reg t 1) (reg t 2) (reg t 3) (reg t 4) (reg t 5) (reg t 6) (reg t 7) v)
    = sha2_step S0 S1 (K ! i) w (view t v)"
    unfolding round [OF assms] unfolding v
    by (rule mod_8_cases [of t]) (simp_all add: view_def reg_def mod_Suc Let_def add.assoc)
  show "length (round i w (reg t 0) (reg t 1) (reg t 2) (reg t 3) (reg t 4) (reg t 5) (reg t 6) (reg t 7) v) = 8"
    unfolding round [OF assms] using assms by simp
qed

end


text \<open>
  Before round \<^verbatim>\<open>t\<close> the registers hold the standard's working variables and the circular buffer
  the last sixteen words of the message schedule.
\<close>

definition sha2_inv :: "('a::len word \<Rightarrow> 'a word) \<Rightarrow> ('a word \<Rightarrow> 'a word) \<Rightarrow> ('a word \<Rightarrow> 'a word) \<Rightarrow> ('a word \<Rightarrow> 'a word)
    \<Rightarrow> 'a word list \<Rightarrow> 'a word list \<Rightarrow> 'a word list \<Rightarrow> nat \<Rightarrow> 'a word list \<times> 'a word list \<Rightarrow> bool" where
  "sha2_inv S0 S1 s0 s1 K M v0 t st \<longleftrightarrow>
     length (fst st) = 8 \<and> length (snd st) = 16 \<and>
     view t (fst st) = sha2_rounds_spec S0 S1 s0 s1 K M v0 t \<and>
     (\<forall>u. u < t \<longrightarrow> t \<le> u + 16 \<longrightarrow> snd st ! (u mod 16) = sha2_W s0 s1 M u)"

lemma buffer_step:
  assumes "length X = 16" and "\<forall>u. u < t \<longrightarrow> t \<le> u + 16 \<longrightarrow> X ! (u mod 16) = W u"
    and "u < Suc t" and "Suc t \<le> u + 16"
  shows "X[t mod 16 := W t] ! (u mod 16) = W u"
proof (cases "u = t")
  case True
  with assms(1) show ?thesis by simp
next
  case False
  with assms(3,4) have "u < t" "t < u + 16" by auto
  then have "u mod 16 \<noteq> t mod 16"
    by (metis Suc_pred' add_diff_inverse_nat dvd_imp_le less_diff_conv2 less_imp_le_nat mod_eq_dvd_iff_nat
        not_less zero_less_diff add.commute)
  then show ?thesis using \<open>u < t\<close> \<open>t < u + 16\<close> assms(2) by simp
qed

locale sha2_schedule = sha2_rounds S0 S1 s0 s1 K round
  for S0 S1 s0 s1 :: "'a::len word \<Rightarrow> 'a word" and K :: "'a word list"
    and round :: "nat \<Rightarrow> 'a word \<Rightarrow> nat \<Rightarrow> nat \<Rightarrow> nat \<Rightarrow> nat \<Rightarrow> nat \<Rightarrow> nat \<Rightarrow> nat \<Rightarrow> nat \<Rightarrow> 'a word list \<Rightarrow> 'a word list" +
  fixes load_round :: "nat \<Rightarrow> 'a word \<Rightarrow> nat \<Rightarrow> nat \<Rightarrow> nat \<Rightarrow> nat \<Rightarrow> nat \<Rightarrow> nat \<Rightarrow> nat \<Rightarrow> nat \<Rightarrow> 'a word list \<times> 'a word list \<Rightarrow> 'a word list \<times> 'a word list"
    and sched_round :: "nat \<Rightarrow> nat \<Rightarrow> nat \<Rightarrow> nat \<Rightarrow> nat \<Rightarrow> nat \<Rightarrow> nat \<Rightarrow> nat \<Rightarrow> nat \<Rightarrow> 'a word list \<times> 'a word list \<Rightarrow> 'a word list \<times> 'a word list"
  assumes load_round: "load_round i w a b c d e f g h (v, X) = (round i w a b c d e f g h v, X[i := w])"
    and sched_round: "sched_round i a b c d e f g h (v, X) =
      (let w = X ! (i mod 16) + (s0 (X ! ((i + 1) mod 16)) + s1 (X ! ((i + 14) mod 16)) + X ! ((i + 9) mod 16))
       in (round i w a b c d e f g h v, X[i mod 16 := w]))"
begin

lemma round_inv:
  assumes "sha2_inv S0 S1 s0 s1 K M v0 t (v, X)" and "w = sha2_W s0 s1 M t"
  shows "sha2_inv S0 S1 s0 s1 K M v0 (Suc t)
    (round t w (reg t 0) (reg t 1) (reg t 2) (reg t 3) (reg t 4) (reg t 5) (reg t 6) (reg t 7) v, X[t mod 16 := w])"
  using assms round_view [where v = v and t = t and i = t and w = w] buffer_step [of X t "sha2_W s0 s1 M"]
  by (simp add: sha2_inv_def)

text \<open>A loading round, as the code writes it: the places are literals.\<close>

lemma load_inv:
  assumes "sha2_inv S0 S1 s0 s1 K M v0 t st" and "t < 16" and "w = M ! t"
    and "[a, b, c, d, e, f, g, h] = regs t"
  shows "sha2_inv S0 S1 s0 s1 K M v0 (Suc t) (load_round t w a b c d e f g h st)"
proof -
  obtain v X where st: "st = (v, X)" by (cases st)
  have "w = sha2_W s0 s1 M t" using assms by (simp add: sha2_W.simps)
  then show ?thesis
    using round_inv [of M v0 t v X w] assms(1,2,4) by (simp add: st load_round regs_def)
qed

lemma sched_inv:
  assumes inv: "sha2_inv S0 S1 s0 s1 K M v0 t st" and t: "16 \<le> t"
    and "[a, b, c, d, e, f, g, h] = regs t"
  shows "sha2_inv S0 S1 s0 s1 K M v0 (Suc t) (sched_round t a b c d e f g h st)"
proof -
  obtain v X where st: "st = (v, X)" by (cases st)
  have X: "X ! ((t + k) mod 16) = sha2_W s0 s1 M (t + k - 16)" if "k < 16" for k
  proof -
    have "(t + k - 16) mod 16 = (t + k) mod 16" using t by (simp add: le_mod_geq)
    moreover have "t + k - 16 < t" "t \<le> t + k - 16 + 16" using t that by simp_all
    then have "X ! ((t + k - 16) mod 16) = sha2_W s0 s1 M (t + k - 16)"
      using inv unfolding sha2_inv_def st by fastforce
    ultimately show ?thesis by simp
  qed
  have "X ! (t mod 16) + (s0 (X ! ((t + 1) mod 16)) + s1 (X ! ((t + 14) mod 16)) + X ! ((t + 9) mod 16))
      = sha2_W s0 s1 M t"
    using X [of 0] X [of 1] X [of 14] X [of 9] t by (simp add: sha2_W.simps [of s0 s1 M t] ac_simps numeral_2_eq_2)
  then show ?thesis
    using round_inv [OF inv [unfolded st] refl] assms(3) by (simp add: st sched_round Let_def regs_def)
qed

end

end
