(* ===== verification/SHA256.thy ===== *)
theory SHA256
  imports SHA2_Rounds
begin

text \<open>
  SHA-256 and SHA-224, \<^verbatim>\<open>crypto/fipsmodule/sha/sha256.c\<close>, in the portable C path.  The working
  variables \<^verbatim>\<open>a\<close> to \<^verbatim>\<open>h\<close> of the block function are the places 0 to 7 of a list, so the macro
  arguments that rename them from round to round are the places the C code passes.  The main results
  are that the block function computes the compression function of FIPS 180-4 and that any sequence
  of updates followed by the final step yields the digest of the padded concatenation.
\<close>

unbundle bit_operations_syntax

section \<open>The context\<close>

record sha256_ctx = md32_ctx +
  md_len :: nat

definition SHA256_CBLOCK :: nat where "SHA256_CBLOCK = 64"
definition SHA224_DIGEST_LENGTH :: nat where "SHA224_DIGEST_LENGTH = 28"
definition SHA256_DIGEST_LENGTH :: nat where "SHA256_DIGEST_LENGTH = 32"

definition SHA224_Init :: sha256_ctx where
  "SHA224_Init = \<lparr>md_h =
     [0xc1059ed8, 0x367cd507, 0x3070dd17, 0xf70e5939, 0xffc00b31, 0x68581511, 0x64f98fa7, 0xbefa4fa4],
     md_Nl = 0, md_Nh = 0, md_data = replicate SHA256_CBLOCK 0, md_num = 0,
     md_len = SHA224_DIGEST_LENGTH\<rparr>"

definition SHA256_Init :: sha256_ctx where
  "SHA256_Init = \<lparr>md_h =
     [0x6a09e667, 0xbb67ae85, 0x3c6ef372, 0xa54ff53a, 0x510e527f, 0x9b05688c, 0x1f83d9ab, 0x5be0cd19],
     md_Nl = 0, md_Nh = 0, md_data = replicate SHA256_CBLOCK 0, md_num = 0,
     md_len = SHA256_DIGEST_LENGTH\<rparr>"

section \<open>The block function\<close>

text \<open>The table, row by row as in the source.\<close>

definition K256 :: "u32 list" where
  "K256 = concat
    [[0x428a2f98, 0x71374491, 0xb5c0fbcf, 0xe9b5dba5, 0x3956c25b],
     [0x59f111f1, 0x923f82a4, 0xab1c5ed5, 0xd807aa98, 0x12835b01],
     [0x243185be, 0x550c7dc3, 0x72be5d74, 0x80deb1fe, 0x9bdc06a7],
     [0xc19bf174, 0xe49b69c1, 0xefbe4786, 0x0fc19dc6, 0x240ca1cc],
     [0x2de92c6f, 0x4a7484aa, 0x5cb0a9dc, 0x76f988da, 0x983e5152],
     [0xa831c66d, 0xb00327c8, 0xbf597fc7, 0xc6e00bf3, 0xd5a79147],
     [0x06ca6351, 0x14292967, 0x27b70a85, 0x2e1b2138, 0x4d2c6dfc],
     [0x53380d13, 0x650a7354, 0x766a0abb, 0x81c2c92e, 0x92722c85],
     [0xa2bfe8a1, 0xa81a664b, 0xc24b8b70, 0xc76c51a3, 0xd192e819],
     [0xd6990624, 0xf40e3585, 0x106aa070, 0x19a4c116, 0x1e376c08],
     [0x2748774c, 0x34b0bcb5, 0x391c0cb3, 0x4ed8aa4a, 0x5b9cca4f],
     [0x682e6ff3, 0x748f82ee, 0x78a5636f, 0x84c87814, 0x8cc70208],
     [0x90befffa, 0xa4506ceb, 0xbef9a3f7, 0xc67178f2]]"

definition Sigma0 :: "u32 \<Rightarrow> u32" where
  "Sigma0 x = CRYPTO_rotr_u32 x 2 XOR CRYPTO_rotr_u32 x 13 XOR CRYPTO_rotr_u32 x 22"

definition Sigma1 :: "u32 \<Rightarrow> u32" where
  "Sigma1 x = CRYPTO_rotr_u32 x 6 XOR CRYPTO_rotr_u32 x 11 XOR CRYPTO_rotr_u32 x 25"

definition sigma0 :: "u32 \<Rightarrow> u32" where
  "sigma0 x = CRYPTO_rotr_u32 x 7 XOR CRYPTO_rotr_u32 x 18 XOR drop_bit 3 x"

definition sigma1 :: "u32 \<Rightarrow> u32" where
  "sigma1 x = CRYPTO_rotr_u32 x 17 XOR CRYPTO_rotr_u32 x 19 XOR drop_bit 10 x"

definition ROUND_00_15 :: "nat \<Rightarrow> u32 \<Rightarrow> nat \<Rightarrow> nat \<Rightarrow> nat \<Rightarrow> nat \<Rightarrow> nat \<Rightarrow> nat \<Rightarrow> nat \<Rightarrow> nat \<Rightarrow> u32 list \<Rightarrow> u32 list" where
  "ROUND_00_15 i T1 a b c d e f g h v = (let
     T1 = T1 + (v ! h + Sigma1 (v ! e) + Ch (v ! e) (v ! f) (v ! g) + K256 ! i);
     v = v[h := Sigma0 (v ! a) + Maj (v ! a) (v ! b) (v ! c)];
     v = v[d := v ! d + T1]
     in v[h := v ! h + T1])"

definition ROUND_16_63 :: "nat \<Rightarrow> nat \<Rightarrow> nat \<Rightarrow> nat \<Rightarrow> nat \<Rightarrow> nat \<Rightarrow> nat \<Rightarrow> nat \<Rightarrow> nat \<Rightarrow> u32 list \<times> u32 list \<Rightarrow> u32 list \<times> u32 list" where
  "ROUND_16_63 i a b c d e f g h st = (let
     (v, X) = st;
     s0 = sigma0 (X ! ((i + 1) AND 0x0f));
     s1 = sigma1 (X ! ((i + 14) AND 0x0f));
     T1 = X ! (i AND 0x0f) + (s0 + s1 + X ! ((i + 9) AND 0x0f));
     X = X[i AND 0x0f := T1]
     in (ROUND_00_15 i T1 a b c d e f g h v, X))"

text \<open>\<^verbatim>\<open>T1 = X[i] = CRYPTO_load_u32_be(data); ROUND_00_15(i, ...)\<close>, with the loaded word as argument.\<close>

definition sha256_load_round :: "nat \<Rightarrow> u32 \<Rightarrow> nat \<Rightarrow> nat \<Rightarrow> nat \<Rightarrow> nat \<Rightarrow> nat \<Rightarrow> nat \<Rightarrow> nat \<Rightarrow> nat \<Rightarrow> u32 list \<times> u32 list \<Rightarrow> u32 list \<times> u32 list" where
  "sha256_load_round i w a b c d e f g h st =
     (let (v, X) = st in (ROUND_00_15 i w a b c d e f g h v, X[i := w]))"

definition sha256_loads :: "bytes \<Rightarrow> u32 list \<times> u32 list \<Rightarrow> u32 list \<times> u32 list" where
  "sha256_loads inp st = (let
     st = sha256_load_round 0 (CRYPTO_load_u32_be (drop 0 inp)) 0 1 2 3 4 5 6 7 st;
     st = sha256_load_round 1 (CRYPTO_load_u32_be (drop 4 inp)) 7 0 1 2 3 4 5 6 st;
     st = sha256_load_round 2 (CRYPTO_load_u32_be (drop 8 inp)) 6 7 0 1 2 3 4 5 st;
     st = sha256_load_round 3 (CRYPTO_load_u32_be (drop 12 inp)) 5 6 7 0 1 2 3 4 st;
     st = sha256_load_round 4 (CRYPTO_load_u32_be (drop 16 inp)) 4 5 6 7 0 1 2 3 st;
     st = sha256_load_round 5 (CRYPTO_load_u32_be (drop 20 inp)) 3 4 5 6 7 0 1 2 st;
     st = sha256_load_round 6 (CRYPTO_load_u32_be (drop 24 inp)) 2 3 4 5 6 7 0 1 st;
     st = sha256_load_round 7 (CRYPTO_load_u32_be (drop 28 inp)) 1 2 3 4 5 6 7 0 st;
     st = sha256_load_round 8 (CRYPTO_load_u32_be (drop 32 inp)) 0 1 2 3 4 5 6 7 st;
     st = sha256_load_round 9 (CRYPTO_load_u32_be (drop 36 inp)) 7 0 1 2 3 4 5 6 st;
     st = sha256_load_round 10 (CRYPTO_load_u32_be (drop 40 inp)) 6 7 0 1 2 3 4 5 st;
     st = sha256_load_round 11 (CRYPTO_load_u32_be (drop 44 inp)) 5 6 7 0 1 2 3 4 st;
     st = sha256_load_round 12 (CRYPTO_load_u32_be (drop 48 inp)) 4 5 6 7 0 1 2 3 st;
     st = sha256_load_round 13 (CRYPTO_load_u32_be (drop 52 inp)) 3 4 5 6 7 0 1 2 st;
     st = sha256_load_round 14 (CRYPTO_load_u32_be (drop 56 inp)) 2 3 4 5 6 7 0 1 st;
     st = sha256_load_round 15 (CRYPTO_load_u32_be (drop 60 inp)) 1 2 3 4 5 6 7 0 st
     in st)"

definition sha256_eight :: "nat \<Rightarrow> u32 list \<times> u32 list \<Rightarrow> u32 list \<times> u32 list" where
  "sha256_eight i st = (let
     st = ROUND_16_63 (i + 0) 0 1 2 3 4 5 6 7 st;
     st = ROUND_16_63 (i + 1) 7 0 1 2 3 4 5 6 st;
     st = ROUND_16_63 (i + 2) 6 7 0 1 2 3 4 5 st;
     st = ROUND_16_63 (i + 3) 5 6 7 0 1 2 3 4 st;
     st = ROUND_16_63 (i + 4) 4 5 6 7 0 1 2 3 st;
     st = ROUND_16_63 (i + 5) 3 4 5 6 7 0 1 2 st;
     st = ROUND_16_63 (i + 6) 2 3 4 5 6 7 0 1 st;
     st = ROUND_16_63 (i + 7) 1 2 3 4 5 6 7 0 st
     in st)"

text \<open>The buffer \<^verbatim>\<open>X\<close> is uninitialised in C; its sixteen words are written before they are read.\<close>

definition sha256_block :: "u32 list \<Rightarrow> bytes \<Rightarrow> u32 list" where
  "sha256_block state inp = (let
     st = sha256_loads inp (state, replicate 16 0);
     st = foldl (\<lambda>st i. sha256_eight i st) st [16, 24, 32, 40, 48, 56]
     in map2 (+) state (fst st))"

fun sha256_block_data_order :: "u32 block_func" where
  "sha256_block_data_order state inp 0 = state"
| "sha256_block_data_order state inp (Suc num) =
     sha256_block_data_order (sha256_block state inp) (drop 64 inp) num"

definition SHA256_TransformBlocks :: "u32 block_func" where
  "SHA256_TransformBlocks state inp num_blocks = sha256_block_data_order state inp num_blocks"

definition SHA256_Transform :: "sha256_ctx \<Rightarrow> bytes \<Rightarrow> sha256_ctx" where
  "SHA256_Transform c block = c\<lparr>md_h := sha256_block_data_order (md_h c) block 1\<rparr>"

section \<open>Update and final\<close>

definition SHA256_Update :: "sha256_ctx \<Rightarrow> bytes \<Rightarrow> sha256_ctx" where
  "SHA256_Update c inp = crypto_md32_update sha256_block_data_order SHA256_CBLOCK c inp"

definition SHA224_Update :: "sha256_ctx \<Rightarrow> bytes \<Rightarrow> sha256_ctx" where
  "SHA224_Update c inp = SHA256_Update c inp"

definition sha256_final_impl :: "sha256_ctx \<Rightarrow> (sha256_ctx, bytes) cres" where
  "sha256_final_impl c = (let
     c = crypto_md32_final sha256_block_data_order SHA256_CBLOCK True c
     in if md_len c > SHA256_DIGEST_LENGTH then fails c
        else returns (concat (map (\<lambda>i. CRYPTO_store_u32_be (md_h c ! i)) [0..<md_len c div 4])) c)"

definition SHA256_Final :: "sha256_ctx \<Rightarrow> (sha256_ctx, bytes) cres" where
  "SHA256_Final c = sha256_final_impl c"

definition SHA224_Final :: "sha256_ctx \<Rightarrow> (sha256_ctx, bytes) cres" where
  "SHA224_Final c = sha256_final_impl c"

text \<open>The one-shot functions ignore the results of the steps and return \<^verbatim>\<open>out\<close>, here the bytes in it.\<close>

definition SHA224 :: "bytes \<Rightarrow> bytes \<Rightarrow> bytes" where
  "SHA224 inp out = (let ctx = SHA224_Update SHA224_Init inp in
     case SHA224_Final ctx of (Some d, _) \<Rightarrow> OPENSSL_memcpy out 0 d | (None, _) \<Rightarrow> out)"

definition SHA256 :: "bytes \<Rightarrow> bytes \<Rightarrow> bytes" where
  "SHA256 inp out = (let ctx = SHA256_Update SHA256_Init inp in
     case SHA256_Final ctx of (Some d, _) \<Rightarrow> OPENSSL_memcpy out 0 d | (None, _) \<Rightarrow> out)"


section \<open>FIPS 180-4 for 32-bit words\<close>

definition fips_Sigma0 :: "u32 \<Rightarrow> u32" where
  "fips_Sigma0 x = word_rotr 2 x XOR word_rotr 13 x XOR word_rotr 22 x"

definition fips_Sigma1 :: "u32 \<Rightarrow> u32" where
  "fips_Sigma1 x = word_rotr 6 x XOR word_rotr 11 x XOR word_rotr 25 x"

definition fips_sigma0 :: "u32 \<Rightarrow> u32" where
  "fips_sigma0 x = word_rotr 7 x XOR word_rotr 18 x XOR drop_bit 3 x"

definition fips_sigma1 :: "u32 \<Rightarrow> u32" where
  "fips_sigma1 x = word_rotr 17 x XOR word_rotr 19 x XOR drop_bit 10 x"

definition sha256_words :: "bytes \<Rightarrow> u32 list" where
  "sha256_words b = map (\<lambda>j. word_of_nat (be_nat (take 4 (drop (4 * j) b)))) [0..<16]"

definition sha256_compress :: "u32 list \<Rightarrow> bytes \<Rightarrow> u32 list" where
  "sha256_compress hh b = map2 (+) hh
     (sha2_rounds_spec fips_Sigma0 fips_Sigma1 fips_sigma0 fips_sigma1 K256 (sha256_words b) hh 64)"

text \<open>The digest: hash the padded message and write the first \<^verbatim>\<open>n\<close> words big-endian.\<close>

definition sha256_spec :: "u32 list \<Rightarrow> nat \<Rightarrow> bytes \<Rightarrow> bytes" where
  "sha256_spec H0 n m = concat (map (\<lambda>w. be_bytes 4 (unat w))
     (take n (hash_blocks sha256_compress 64 H0 (md_pad 64 (be_bytes 8 (8 * length m)) m))))"

section \<open>The block function is the compression function of the standard\<close>

lemma sigma_fips: "Sigma0 = fips_Sigma0" "Sigma1 = fips_Sigma1" "sigma0 = fips_sigma0" "sigma1 = fips_sigma1"
  using rotr_u32 [of 2] rotr_u32 [of 13] rotr_u32 [of 22] rotr_u32 [of 6] rotr_u32 [of 11] rotr_u32 [of 25]
    rotr_u32 [of 7] rotr_u32 [of 18] rotr_u32 [of 17] rotr_u32 [of 19]
  by (simp_all add: fun_eq_iff Sigma0_def Sigma1_def sigma0_def sigma1_def
      fips_Sigma0_def fips_Sigma1_def fips_sigma0_def fips_sigma1_def)

interpretation sha256: sha2_schedule fips_Sigma0 fips_Sigma1 fips_sigma0 fips_sigma1 K256
  ROUND_00_15 sha256_load_round ROUND_16_63
proof unfold_locales
  show "ROUND_00_15 i w (reg t 0) (reg t 1) (reg t 2) (reg t 3) (reg t 4) (reg t 5) (reg t 6) (reg t 7) v =
      v[reg t 7 := v ! reg t 7 + fips_Sigma1 (v ! reg t 4) + Ch (v ! reg t 4) (v ! reg t 5) (v ! reg t 6) + K256 ! i + w
          + fips_Sigma0 (v ! reg t 0) + Maj (v ! reg t 0) (v ! reg t 1) (v ! reg t 2),
        reg t 3 := v ! reg t 3
          + (v ! reg t 7 + fips_Sigma1 (v ! reg t 4) + Ch (v ! reg t 4) (v ! reg t 5) (v ! reg t 6) + K256 ! i + w)]"
    if "length v = 8" for v i w t
    using that unfolding ROUND_00_15_def Let_def sigma_fips
    by (subst round_writes [unfolded Let_def]) (simp_all add: ac_simps)
  show "sha256_load_round i w a b c d e f g h (v, X) = (ROUND_00_15 i w a b c d e f g h v, X[i := w])"
    for i w a b c d e f g h v X
    by (simp add: sha256_load_round_def)
  show "ROUND_16_63 i a b c d e f g h (v, X) = (let w = X ! (i mod 16) +
      (fips_sigma0 (X ! ((i + 1) mod 16)) + fips_sigma1 (X ! ((i + 14) mod 16)) + X ! ((i + 9) mod 16))
       in (ROUND_00_15 i w a b c d e f g h v, X[i mod 16 := w]))"
    for i a b c d e f g h v X
    by (simp only: ROUND_16_63_def Let_def and_0f prod.case sigma_fips)
qed

abbreviation sha256_inv :: "u32 list \<Rightarrow> u32 list \<Rightarrow> nat \<Rightarrow> u32 list \<times> u32 list \<Rightarrow> bool" where
  "sha256_inv \<equiv> sha2_inv fips_Sigma0 fips_Sigma1 fips_sigma0 fips_sigma1 K256"

lemma sha256_words_load:
  "64 \<le> length b \<Longrightarrow> j < 16 \<Longrightarrow> CRYPTO_load_u32_be (drop (4 * j) b) = sha256_words b ! j"
  by (simp add: load_u32_be sha256_words_def)

text \<open>One loading or scheduled round with the round number and the places as the code gives them.\<close>

lemma sha256_load_step:
  assumes "sha256_inv (sha256_words b) v0 t st" and "64 \<le> length b" and "t < 16" and "k = 4 * t"
    and "[a, bb, c, d, e, f, g, h] = regs t" and "t' = Suc t"
  shows "sha256_inv (sha256_words b) v0 t' (sha256_load_round t (CRYPTO_load_u32_be (drop k b)) a bb c d e f g h st)"
  using sha256.load_inv [OF assms(1,3) _ assms(5)] sha256_words_load [OF assms(2,3)] assms(4,6) by simp

lemma sha256_loads_inv:
  assumes "64 \<le> length b" and "length v = 8"
  shows "sha256_inv (sha256_words b) v 16 (sha256_loads b (v, replicate 16 0))"
  unfolding sha256_loads_def Let_def
  using assms
  by (intro sha256_load_step [where b = b])
     (simp_all add: regs_def reg_def sha2_inv_def view_8 numeral_eq_Suc [symmetric])

lemma sha256_sched_step:
  assumes "sha256_inv M v0 (i + r) st" and "8 dvd i" and "16 \<le> i"
    and "[a, b, c, d, e, f, g, h] = regs r" and "r' = Suc r"
  shows "sha256_inv M v0 (i + r') (ROUND_16_63 (i + r) a b c d e f g h st)"
proof -
  have "regs (i + r) = regs r" using assms(2) by (simp add: regs_def reg_mod)
  then show ?thesis using sha256.sched_inv [OF assms(1), of a b c d e f g h] assms(3-5) by simp
qed

lemma sha256_eight_inv:
  assumes "sha256_inv M v0 i st" and "8 dvd i" and "16 \<le> i"
  shows "sha256_inv M v0 (i + 8) (sha256_eight i st)"
  unfolding sha256_eight_def Let_def
  using assms by (intro sha256_sched_step) (simp_all add: regs_def reg_def)

lemma sha256_block_compress:
  assumes "64 \<le> length b" and "length v = 8"
  shows "sha256_block v b = sha256_compress v (take 64 b)"
proof -
  define st where "st = sha256_loads b (v, replicate 16 0)"
  have "sha256_inv (sha256_words b) v 16 st"
    using sha256_loads_inv [OF assms] by (simp add: st_def)
  then have "sha256_inv (sha256_words b) v 24 (sha256_eight 16 st)"
    using sha256_eight_inv [of _ _ 16] by simp
  then have "sha256_inv (sha256_words b) v 32 (sha256_eight 24 (sha256_eight 16 st))"
    using sha256_eight_inv [of _ _ 24] by simp
  then have "sha256_inv (sha256_words b) v 40 (sha256_eight 32 (sha256_eight 24 (sha256_eight 16 st)))"
    using sha256_eight_inv [of _ _ 32] by simp
  then have "sha256_inv (sha256_words b) v 48 (foldl (\<lambda>st i. sha256_eight i st) st [16, 24, 32, 40])"
    using sha256_eight_inv [of _ _ 40] by simp
  then have "sha256_inv (sha256_words b) v 56 (foldl (\<lambda>st i. sha256_eight i st) st [16, 24, 32, 40, 48])"
    using sha256_eight_inv [of _ _ 48] by simp
  then have "sha256_inv (sha256_words b) v 64 (foldl (\<lambda>st i. sha256_eight i st) st [16, 24, 32, 40, 48, 56])"
    using sha256_eight_inv [of _ _ 56] by simp
  moreover have "sha256_words (take 64 b) = sha256_words b"
    by (auto simp: sha256_words_def take_drop min_def intro!: arg_cong [of _ _ be_nat])
  ultimately show ?thesis
    using view_8 [of "fst (foldl (\<lambda>st i. sha256_eight i st) st [16, 24, 32, 40, 48, 56])" 64]
    by (simp add: sha256_block_def sha256_compress_def sha2_inv_def st_def del: foldl_Cons)
qed

lemma length_sha256_compress [simp]: "length (sha256_compress v b) = length v"
  by (simp add: sha256_compress_def)

interpretation sha256_md: md32_hash sha256_block_data_order sha256_compress 64 "\<lambda>v. length v = 8"
  by unfold_locales (simp_all add: sha256_block_compress)

section \<open>Streaming\<close>

lemma sha256_init_repr:
  "md32_repr sha256_compress 64 (md_h SHA256_Init) SHA256_Init []"
  "md32_repr sha256_compress 64 (md_h SHA224_Init) SHA224_Init []"
  by (simp_all add: md32_repr_def collects_init SHA256_Init_def SHA224_Init_def SHA256_CBLOCK_def bit_count_def)

lemma sha256_h0_length [simp]: "length (md_h SHA256_Init) = 8" "length (md_h SHA224_Init) = 8"
  by (simp_all add: SHA256_Init_def SHA224_Init_def)

lemma SHA256_Update_eq: "SHA256_Update = crypto_md32_update sha256_block_data_order 64"
  by (intro ext) (simp add: SHA256_Update_def SHA256_CBLOCK_def)

lemma SHA224_Update_eq: "SHA224_Update = SHA256_Update"
  by (intro ext) (simp add: SHA224_Update_def)

lemma md_len_update [simp]:
  "md_len (crypto_md32_update bf bs c x) = md_len c"
  "md_len (crypto_md32_final bf bs be c) = md_len c"
  by (simp_all add: crypto_md32_update_def crypto_md32_final_def md32_count_def md32_fill_def md32_blocks_def
      Let_def split: prod.split)

lemma md_len_updates [simp]: "md_len (foldl (crypto_md32_update bf bs) c xs) = md_len c"
  by (induction xs arbitrary: c) simp_all

lemma store_words: "n \<le> length v \<Longrightarrow>
    concat (map (\<lambda>i. CRYPTO_store_u32_be (v ! i)) [0..<n]) = concat (map (\<lambda>w. be_bytes 4 (unat w)) (take n v))"
  by (simp add: store_u32_be take_as_map comp_def)

lemma sha256_final_spec:
  assumes "md32_repr sha256_compress 64 v0 c []" and "length v0 = 8" and "md_len c \<le> 32"
  shows "fst (sha256_final_impl (foldl SHA256_Update c xs)) = Some (sha256_spec v0 (md_len c div 4) (concat xs))"
proof -
  define c1 where "c1 = crypto_md32_final sha256_block_data_order 64 True
    (foldl (crypto_md32_update sha256_block_data_order 64) c xs)"
  have h: "md_h c1 = hash_blocks sha256_compress 64 v0 (md_pad 64 (be_bytes 8 (8 * length (concat xs))) (concat xs))"
    using sha256_md.final_updates [OF assms(1,2), of True xs] by (simp add: c1_def md32_length_def)
  then have "length (md_h c1) = 8"
    using sha256_md.valid_hash_blocks [OF assms(2)] by simp
  moreover have "md_len c1 = md_len c" by (simp add: c1_def)
  ultimately show ?thesis
    using assms(3) by (simp add: sha256_final_impl_def SHA256_CBLOCK_def SHA256_DIGEST_LENGTH_def Let_def
        SHA256_Update_eq store_words sha256_spec_def h flip: c1_def)
qed


text \<open>C33: The state of a SHA-256 context is determined by the bytes it has absorbed: \<^verbatim>\<open>num\<close> is their
  number modulo the block size, the buffer holds the bytes after the last whole block and is zero
  beyond them, and \<^verbatim>\<open>Nh:Nl\<close> is the number of bits modulo \<^verbatim>\<open>2 ^ 64\<close>.\<close>

theorem sha256_context_invariant:
  "let c = foldl SHA256_Update SHA256_Init xs; m = concat xs
   in md_num c = length m mod 64 \<and>
      md_data c = drop (64 * (length m div 64)) m @ replicate (64 - length m mod 64) 0 \<and>
      unat (md_Nh c) * 2 ^ 32 + unat (md_Nl c) = 8 * length m mod 2 ^ 64"
proof -
  define c where "c = foldl SHA256_Update SHA256_Init xs"
  define m where "m = concat xs"
  have r: "md32_repr sha256_compress 64 (md_h SHA256_Init) c m"
    using sha256_md.updates_repr [OF sha256_init_repr(1), of xs] by (simp add: c_def m_def SHA256_Update_eq)
  then have C: "collects sha256_compress 64 (md_h SHA256_Init) (md_h c) (take (md_num c) (md_data c)) m"
    and n: "md_num c < 64" "length (md_data c) = 64" "drop (md_num c) (md_data c) = replicate (64 - md_num c) 0"
    and b: "bit_count (md_Nh c) (md_Nl c) = 8 * length m mod 2 ^ 64"
    by (simp_all add: md32_repr_def)
  have num: "md_num c = length m mod 64" using collects_length [OF C] n by simp
  obtain p where p: "m = p @ take (md_num c) (md_data c)" "64 dvd length p"
    using C unfolding collects_def by blast
  have "length m = length p + md_num c" using p(1) n by (metis length_append length_take min_absorb2 less_imp_le_nat)
  then have "64 * (length m div 64) = length p"
    using p(2) n(1) by (auto elim!: dvdE)
  then have "take (md_num c) (md_data c) = drop (64 * (length m div 64)) m"
    using p(1) by (metis append_eq_conv_conj)
  then show ?thesis
    using num n b append_take_drop_id [of "md_num c" "md_data c"]
    unfolding Let_def c_def [symmetric] m_def [symmetric] by (simp add: bit_count_def)
qed

end
