(* ===== verification/SHA512.thy ===== *)
theory SHA512
  imports SHA2_Rounds
begin

text \<open>
  SHA-512, SHA-384 and SHA-512/256, \<^verbatim>\<open>crypto/fipsmodule/sha/sha512.c\<close>, in the portable C path for
  targets other than i386.  The file has its own collector, with 128-byte blocks, a 128-bit length
  and a block buffer that is neither zeroed by the initialisers nor between blocks; the working
  variables are places of a list as in the 32-bit theory.  The main result is that any sequence of
  updates followed by the final step yields the FIPS 180-4 digest of the concatenation, whatever the
  buffer held before.
\<close>

unbundle bit_operations_syntax

section \<open>The context\<close>

record sha512_ctx =
  sha_h :: "u64 list"
  sha_Nl :: u64
  sha_Nh :: u64
  sha_p :: bytes
  sha_num :: nat
  sha_md_len :: nat

definition SHA512_CBLOCK :: nat where "SHA512_CBLOCK = 128"
definition SHA384_DIGEST_LENGTH :: nat where "SHA384_DIGEST_LENGTH = 48"
definition SHA512_DIGEST_LENGTH :: nat where "SHA512_DIGEST_LENGTH = 64"
definition SHA512_256_DIGEST_LENGTH :: nat where "SHA512_256_DIGEST_LENGTH = 32"

definition SHA384_Init :: "sha512_ctx \<Rightarrow> sha512_ctx" where
  "SHA384_Init sha = sha\<lparr>sha_h :=
     [0xcbbb9d5dc1059ed8, 0x629a292a367cd507, 0x9159015a3070dd17, 0x152fecd8f70e5939,
     0x67332667ffc00b31, 0x8eb44a8768581511, 0xdb0c2e0d64f98fa7, 0x47b5481dbefa4fa4],
     sha_Nl := 0, sha_Nh := 0, sha_num := 0, sha_md_len := SHA384_DIGEST_LENGTH\<rparr>"

definition SHA512_Init :: "sha512_ctx \<Rightarrow> sha512_ctx" where
  "SHA512_Init sha = sha\<lparr>sha_h :=
     [0x6a09e667f3bcc908, 0xbb67ae8584caa73b, 0x3c6ef372fe94f82b, 0xa54ff53a5f1d36f1,
     0x510e527fade682d1, 0x9b05688c2b3e6c1f, 0x1f83d9abfb41bd6b, 0x5be0cd19137e2179],
     sha_Nl := 0, sha_Nh := 0, sha_num := 0, sha_md_len := SHA512_DIGEST_LENGTH\<rparr>"

definition SHA512_256_Init :: "sha512_ctx \<Rightarrow> sha512_ctx" where
  "SHA512_256_Init sha = sha\<lparr>sha_h :=
     [0x22312194fc2bf72c, 0x9f555fa3c84c64c2, 0x2393b86b6f53b151, 0x963877195940eabd,
     0x96283ee2a88effe3, 0xbe5e1e2553863992, 0x2b0199fc2c85b8aa, 0x0eb72ddc81c52ca2],
     sha_Nl := 0, sha_Nh := 0, sha_num := 0, sha_md_len := SHA512_256_DIGEST_LENGTH\<rparr>"

section \<open>The block function\<close>

text \<open>The table, row by row as in the source.\<close>

definition K512 :: "u64 list" where
  "K512 = concat
    [[0x428a2f98d728ae22, 0x7137449123ef65cd],
     [0xb5c0fbcfec4d3b2f, 0xe9b5dba58189dbbc],
     [0x3956c25bf348b538, 0x59f111f1b605d019],
     [0x923f82a4af194f9b, 0xab1c5ed5da6d8118],
     [0xd807aa98a3030242, 0x12835b0145706fbe],
     [0x243185be4ee4b28c, 0x550c7dc3d5ffb4e2],
     [0x72be5d74f27b896f, 0x80deb1fe3b1696b1],
     [0x9bdc06a725c71235, 0xc19bf174cf692694],
     [0xe49b69c19ef14ad2, 0xefbe4786384f25e3],
     [0x0fc19dc68b8cd5b5, 0x240ca1cc77ac9c65],
     [0x2de92c6f592b0275, 0x4a7484aa6ea6e483],
     [0x5cb0a9dcbd41fbd4, 0x76f988da831153b5],
     [0x983e5152ee66dfab, 0xa831c66d2db43210],
     [0xb00327c898fb213f, 0xbf597fc7beef0ee4],
     [0xc6e00bf33da88fc2, 0xd5a79147930aa725],
     [0x06ca6351e003826f, 0x142929670a0e6e70],
     [0x27b70a8546d22ffc, 0x2e1b21385c26c926],
     [0x4d2c6dfc5ac42aed, 0x53380d139d95b3df],
     [0x650a73548baf63de, 0x766a0abb3c77b2a8],
     [0x81c2c92e47edaee6, 0x92722c851482353b],
     [0xa2bfe8a14cf10364, 0xa81a664bbc423001],
     [0xc24b8b70d0f89791, 0xc76c51a30654be30],
     [0xd192e819d6ef5218, 0xd69906245565a910],
     [0xf40e35855771202a, 0x106aa07032bbd1b8],
     [0x19a4c116b8d2d0c8, 0x1e376c085141ab53],
     [0x2748774cdf8eeb99, 0x34b0bcb5e19b48a8],
     [0x391c0cb3c5c95a63, 0x4ed8aa4ae3418acb],
     [0x5b9cca4f7763e373, 0x682e6ff3d6b2b8a3],
     [0x748f82ee5defb2fc, 0x78a5636f43172f60],
     [0x84c87814a1f0ab72, 0x8cc702081a6439ec],
     [0x90befffa23631e28, 0xa4506cebde82bde9],
     [0xbef9a3f7b2c67915, 0xc67178f2e372532b],
     [0xca273eceea26619c, 0xd186b8c721c0c207],
     [0xeada7dd6cde0eb1e, 0xf57d4f7fee6ed178],
     [0x06f067aa72176fba, 0x0a637dc5a2c898a6],
     [0x113f9804bef90dae, 0x1b710b35131c471b],
     [0x28db77f523047d84, 0x32caab7b40c72493],
     [0x3c9ebe0a15c9bebc, 0x431d67c49c100d4c],
     [0x4cc5d4becb3e42b6, 0x597f299cfc657e2a],
     [0x5fcb6fab3ad6faec, 0x6c44198c4a475817]]"

definition Sigma0_512 :: "u64 \<Rightarrow> u64" where
  "Sigma0_512 x = CRYPTO_rotr_u64 x 28 XOR CRYPTO_rotr_u64 x 34 XOR CRYPTO_rotr_u64 x 39"

definition Sigma1_512 :: "u64 \<Rightarrow> u64" where
  "Sigma1_512 x = CRYPTO_rotr_u64 x 14 XOR CRYPTO_rotr_u64 x 18 XOR CRYPTO_rotr_u64 x 41"

definition sigma0_512 :: "u64 \<Rightarrow> u64" where
  "sigma0_512 x = CRYPTO_rotr_u64 x 1 XOR CRYPTO_rotr_u64 x 8 XOR drop_bit 7 x"

definition sigma1_512 :: "u64 \<Rightarrow> u64" where
  "sigma1_512 x = CRYPTO_rotr_u64 x 19 XOR CRYPTO_rotr_u64 x 61 XOR drop_bit 6 x"

definition ROUND_00_15_512 :: "nat \<Rightarrow> u64 \<Rightarrow> nat \<Rightarrow> nat \<Rightarrow> nat \<Rightarrow> nat \<Rightarrow> nat \<Rightarrow> nat \<Rightarrow> nat \<Rightarrow> nat \<Rightarrow> u64 list \<Rightarrow> u64 list" where
  "ROUND_00_15_512 i T1 a b c d e f g h v = (let
     T1 = T1 + (v ! h + Sigma1_512 (v ! e) + Ch (v ! e) (v ! f) (v ! g) + K512 ! i);
     v = v[h := Sigma0_512 (v ! a) + Maj (v ! a) (v ! b) (v ! c)];
     v = v[d := v ! d + T1]
     in v[h := v ! h + T1])"

definition ROUND_16_80 :: "nat \<Rightarrow> nat \<Rightarrow> nat \<Rightarrow> nat \<Rightarrow> nat \<Rightarrow> nat \<Rightarrow> nat \<Rightarrow> nat \<Rightarrow> nat \<Rightarrow> nat \<Rightarrow> u64 list \<times> u64 list \<Rightarrow> u64 list \<times> u64 list" where
  "ROUND_16_80 i j a b c d e f g h st = (let
     (v, X) = st;
     s0 = sigma0_512 (X ! ((j + 1) AND 0x0f));
     s1 = sigma1_512 (X ! ((j + 14) AND 0x0f));
     T1 = X ! (j AND 0x0f) + (s0 + s1 + X ! ((j + 9) AND 0x0f));
     X = X[j AND 0x0f := T1]
     in (ROUND_00_15_512 (i + j) T1 a b c d e f g h v, X))"

text \<open>\<^verbatim>\<open>T1 = X[j] = CRYPTO_load_u64_be(in + j * 8); ROUND_00_15(j, ...)\<close>, with the loaded word as argument.\<close>

definition sha512_load_round :: "nat \<Rightarrow> u64 \<Rightarrow> nat \<Rightarrow> nat \<Rightarrow> nat \<Rightarrow> nat \<Rightarrow> nat \<Rightarrow> nat \<Rightarrow> nat \<Rightarrow> nat \<Rightarrow> u64 list \<times> u64 list \<Rightarrow> u64 list \<times> u64 list" where
  "sha512_load_round i w a b c d e f g h st =
     (let (v, X) = st in (ROUND_00_15_512 i w a b c d e f g h v, X[i := w]))"

definition sha512_loads :: "bytes \<Rightarrow> u64 list \<times> u64 list \<Rightarrow> u64 list \<times> u64 list" where
  "sha512_loads inp st = (let
     st = sha512_load_round 0 (CRYPTO_load_u64_be (drop 0 inp)) 0 1 2 3 4 5 6 7 st;
     st = sha512_load_round 1 (CRYPTO_load_u64_be (drop 8 inp)) 7 0 1 2 3 4 5 6 st;
     st = sha512_load_round 2 (CRYPTO_load_u64_be (drop 16 inp)) 6 7 0 1 2 3 4 5 st;
     st = sha512_load_round 3 (CRYPTO_load_u64_be (drop 24 inp)) 5 6 7 0 1 2 3 4 st;
     st = sha512_load_round 4 (CRYPTO_load_u64_be (drop 32 inp)) 4 5 6 7 0 1 2 3 st;
     st = sha512_load_round 5 (CRYPTO_load_u64_be (drop 40 inp)) 3 4 5 6 7 0 1 2 st;
     st = sha512_load_round 6 (CRYPTO_load_u64_be (drop 48 inp)) 2 3 4 5 6 7 0 1 st;
     st = sha512_load_round 7 (CRYPTO_load_u64_be (drop 56 inp)) 1 2 3 4 5 6 7 0 st;
     st = sha512_load_round 8 (CRYPTO_load_u64_be (drop 64 inp)) 0 1 2 3 4 5 6 7 st;
     st = sha512_load_round 9 (CRYPTO_load_u64_be (drop 72 inp)) 7 0 1 2 3 4 5 6 st;
     st = sha512_load_round 10 (CRYPTO_load_u64_be (drop 80 inp)) 6 7 0 1 2 3 4 5 st;
     st = sha512_load_round 11 (CRYPTO_load_u64_be (drop 88 inp)) 5 6 7 0 1 2 3 4 st;
     st = sha512_load_round 12 (CRYPTO_load_u64_be (drop 96 inp)) 4 5 6 7 0 1 2 3 st;
     st = sha512_load_round 13 (CRYPTO_load_u64_be (drop 104 inp)) 3 4 5 6 7 0 1 2 st;
     st = sha512_load_round 14 (CRYPTO_load_u64_be (drop 112 inp)) 2 3 4 5 6 7 0 1 st;
     st = sha512_load_round 15 (CRYPTO_load_u64_be (drop 120 inp)) 1 2 3 4 5 6 7 0 st
     in st)"

definition sha512_sixteen :: "nat \<Rightarrow> u64 list \<times> u64 list \<Rightarrow> u64 list \<times> u64 list" where
  "sha512_sixteen i st = (let
     st = ROUND_16_80 i 0 0 1 2 3 4 5 6 7 st;
     st = ROUND_16_80 i 1 7 0 1 2 3 4 5 6 st;
     st = ROUND_16_80 i 2 6 7 0 1 2 3 4 5 st;
     st = ROUND_16_80 i 3 5 6 7 0 1 2 3 4 st;
     st = ROUND_16_80 i 4 4 5 6 7 0 1 2 3 st;
     st = ROUND_16_80 i 5 3 4 5 6 7 0 1 2 st;
     st = ROUND_16_80 i 6 2 3 4 5 6 7 0 1 st;
     st = ROUND_16_80 i 7 1 2 3 4 5 6 7 0 st;
     st = ROUND_16_80 i 8 0 1 2 3 4 5 6 7 st;
     st = ROUND_16_80 i 9 7 0 1 2 3 4 5 6 st;
     st = ROUND_16_80 i 10 6 7 0 1 2 3 4 5 st;
     st = ROUND_16_80 i 11 5 6 7 0 1 2 3 4 st;
     st = ROUND_16_80 i 12 4 5 6 7 0 1 2 3 st;
     st = ROUND_16_80 i 13 3 4 5 6 7 0 1 2 st;
     st = ROUND_16_80 i 14 2 3 4 5 6 7 0 1 st;
     st = ROUND_16_80 i 15 1 2 3 4 5 6 7 0 st
     in st)"

text \<open>The buffer \<^verbatim>\<open>X\<close> is uninitialised in C; its sixteen words are written before they are read.\<close>

definition sha512_block :: "u64 list \<Rightarrow> bytes \<Rightarrow> u64 list" where
  "sha512_block state inp = (let
     st = sha512_loads inp (state, replicate 16 0);
     st = foldl (\<lambda>st i. sha512_sixteen i st) st [16, 32, 48, 64]
     in map2 (+) state (fst st))"

fun sha512_block_data_order :: "u64 block_func" where
  "sha512_block_data_order state inp 0 = state"
| "sha512_block_data_order state inp (Suc num) =
     sha512_block_data_order (sha512_block state inp) (drop (16 * 8) inp) num"

definition SHA512_Transform :: "sha512_ctx \<Rightarrow> bytes \<Rightarrow> sha512_ctx" where
  "SHA512_Transform c block = c\<lparr>sha_h := sha512_block_data_order (sha_h c) block 1\<rparr>"

section \<open>Update and final\<close>

definition sha512_count :: "nat \<Rightarrow> sha512_ctx \<Rightarrow> sha512_ctx" where
  "sha512_count len c = (let
     l = sha_Nl c + push_bit 3 (word_of_nat len);
     Nh = (if l < sha_Nl c then sha_Nh c + 1 else sha_Nh c)
     in c\<lparr>sha_Nh := Nh + word_of_nat (len div 2 ^ 61), sha_Nl := l\<rparr>)"

text \<open>The part of the update after the partial block: whole blocks, then the rest.\<close>

definition sha512_rest :: "sha512_ctx \<Rightarrow> bytes \<Rightarrow> sha512_ctx" where
  "sha512_rest c inp = (let
     len = length inp;
     c = (if len \<ge> SHA512_CBLOCK
          then c\<lparr>sha_h := sha512_block_data_order (sha_h c) inp (len div SHA512_CBLOCK)\<rparr> else c);
     inp = (if len \<ge> SHA512_CBLOCK then drop (len - len mod SHA512_CBLOCK) inp else inp)
     in if length inp \<noteq> 0
        then c\<lparr>sha_p := OPENSSL_memcpy (sha_p c) 0 inp, sha_num := length inp\<rparr>
        else c)"

definition SHA512_Update :: "sha512_ctx \<Rightarrow> bytes \<Rightarrow> sha512_ctx" where
  "SHA512_Update c inp = (let len = length inp in
     if len = 0 then c
     else let c = sha512_count len c in
       if sha_num c \<noteq> 0
       then let n = SHA512_CBLOCK - sha_num c in
         if len < n
         then c\<lparr>sha_p := OPENSSL_memcpy (sha_p c) (sha_num c) inp, sha_num := sha_num c + len\<rparr>
         else let p = OPENSSL_memcpy (sha_p c) (sha_num c) (take n inp);
                  c = c\<lparr>sha_p := p, sha_num := 0\<rparr>;
                  c = c\<lparr>sha_h := sha512_block_data_order (sha_h c) p 1\<rparr>
              in sha512_rest c (drop n inp)
       else sha512_rest c inp)"

definition SHA384_Update :: "sha512_ctx \<Rightarrow> bytes \<Rightarrow> sha512_ctx" where
  "SHA384_Update sha inp = SHA512_Update sha inp"

definition SHA512_256_Update :: "sha512_ctx \<Rightarrow> bytes \<Rightarrow> sha512_ctx" where
  "SHA512_256_Update sha inp = SHA512_Update sha inp"

text \<open>The padding up to the length, and the length.\<close>

definition sha512_pad :: "sha512_ctx \<Rightarrow> sha512_ctx" where
  "sha512_pad sha = (let
     n = sha_num sha;
     p = OPENSSL_memcpy (sha_p sha) n [0x80];
     n = n + 1
     in if n > SHA512_CBLOCK - 16
        then let p = OPENSSL_memset p n 0 (SHA512_CBLOCK - n)
             in sha\<lparr>sha_h := sha512_block_data_order (sha_h sha) p 1,
                    sha_p := OPENSSL_memset p 0 0 (SHA512_CBLOCK - 16)\<rparr>
        else sha\<lparr>sha_p := OPENSSL_memset p n 0 (SHA512_CBLOCK - 16 - n)\<rparr>)"

text \<open>\<^verbatim>\<open>out_null\<close> is the test \<^verbatim>\<open>out == NULL\<close>, which fails after the state has been changed.\<close>

definition sha512_final_impl :: "bool \<Rightarrow> sha512_ctx \<Rightarrow> (sha512_ctx, bytes) cres" where
  "sha512_final_impl out_null sha = (let
     sha = sha512_pad sha;
     p = OPENSSL_memcpy (sha_p sha) (SHA512_CBLOCK - 16) (CRYPTO_store_u64_be (sha_Nh sha));
     p = OPENSSL_memcpy p (SHA512_CBLOCK - 8) (CRYPTO_store_u64_be (sha_Nl sha));
     sha = sha\<lparr>sha_p := p, sha_h := sha512_block_data_order (sha_h sha) p 1\<rparr>
     in if out_null then fails sha
        else returns (concat (map (\<lambda>i. CRYPTO_store_u64_be (sha_h sha ! i)) [0..<sha_md_len sha div 8])) sha)"

definition SHA512_Final :: "bool \<Rightarrow> sha512_ctx \<Rightarrow> (sha512_ctx, bytes) cres" where
  "SHA512_Final out_null sha = sha512_final_impl out_null sha"

definition SHA384_Final :: "bool \<Rightarrow> sha512_ctx \<Rightarrow> (sha512_ctx, bytes) cres" where
  "SHA384_Final out_null sha = sha512_final_impl out_null sha"

definition SHA512_256_Final :: "bool \<Rightarrow> sha512_ctx \<Rightarrow> (sha512_ctx, bytes) cres" where
  "SHA512_256_Final out_null sha = sha512_final_impl out_null sha"

text \<open>The one-shot functions; \<^verbatim>\<open>ctx\<close> is the uninitialised context on the stack.\<close>

definition SHA512 :: "sha512_ctx \<Rightarrow> bytes \<Rightarrow> bytes \<Rightarrow> bytes" where
  "SHA512 ctx inp out = (case SHA512_Final False (SHA512_Update (SHA512_Init ctx) inp) of
     (Some d, _) \<Rightarrow> OPENSSL_memcpy out 0 d | (None, _) \<Rightarrow> out)"

definition SHA384 :: "sha512_ctx \<Rightarrow> bytes \<Rightarrow> bytes \<Rightarrow> bytes" where
  "SHA384 ctx inp out = (case SHA384_Final False (SHA384_Update (SHA384_Init ctx) inp) of
     (Some d, _) \<Rightarrow> OPENSSL_memcpy out 0 d | (None, _) \<Rightarrow> out)"

definition SHA512_256 :: "sha512_ctx \<Rightarrow> bytes \<Rightarrow> bytes \<Rightarrow> bytes" where
  "SHA512_256 ctx inp out = (case SHA512_256_Final False (SHA512_256_Update (SHA512_256_Init ctx) inp) of
     (Some d, _) \<Rightarrow> OPENSSL_memcpy out 0 d | (None, _) \<Rightarrow> out)"

section \<open>FIPS 180-4 for 64-bit words\<close>

definition fips_Sigma0_512 :: "u64 \<Rightarrow> u64" where
  "fips_Sigma0_512 x = word_rotr 28 x XOR word_rotr 34 x XOR word_rotr 39 x"

definition fips_Sigma1_512 :: "u64 \<Rightarrow> u64" where
  "fips_Sigma1_512 x = word_rotr 14 x XOR word_rotr 18 x XOR word_rotr 41 x"

definition fips_sigma0_512 :: "u64 \<Rightarrow> u64" where
  "fips_sigma0_512 x = word_rotr 1 x XOR word_rotr 8 x XOR drop_bit 7 x"

definition fips_sigma1_512 :: "u64 \<Rightarrow> u64" where
  "fips_sigma1_512 x = word_rotr 19 x XOR word_rotr 61 x XOR drop_bit 6 x"

definition sha512_words :: "bytes \<Rightarrow> u64 list" where
  "sha512_words b = map (\<lambda>j. word_of_nat (be_nat (take 8 (drop (8 * j) b)))) [0..<16]"

definition sha512_compress :: "u64 list \<Rightarrow> bytes \<Rightarrow> u64 list" where
  "sha512_compress hh b = map2 (+) hh
     (sha2_rounds_spec fips_Sigma0_512 fips_Sigma1_512 fips_sigma0_512 fips_sigma1_512 K512 (sha512_words b) hh 80)"

definition sha512_spec :: "u64 list \<Rightarrow> nat \<Rightarrow> bytes \<Rightarrow> bytes" where
  "sha512_spec H0 n m = concat (map (\<lambda>w. be_bytes 8 (unat w))
     (take n (hash_blocks sha512_compress 128 H0 (md_pad 128 (be_bytes 16 (8 * length m)) m))))"

section \<open>The block function is the compression function of the standard\<close>

lemma sigma_fips_512:
  "Sigma0_512 = fips_Sigma0_512" "Sigma1_512 = fips_Sigma1_512"
  "sigma0_512 = fips_sigma0_512" "sigma1_512 = fips_sigma1_512"
  using rotr_u64 [of 28] rotr_u64 [of 34] rotr_u64 [of 39] rotr_u64 [of 14] rotr_u64 [of 18] rotr_u64 [of 41]
    rotr_u64 [of 1] rotr_u64 [of 8] rotr_u64 [of 19] rotr_u64 [of 61]
  by (simp_all add: fun_eq_iff Sigma0_512_def Sigma1_512_def sigma0_512_def sigma1_512_def
      fips_Sigma0_512_def fips_Sigma1_512_def fips_sigma0_512_def fips_sigma1_512_def)

interpretation sha512: sha2_schedule fips_Sigma0_512 fips_Sigma1_512 fips_sigma0_512 fips_sigma1_512 K512
  ROUND_00_15_512 sha512_load_round "\<lambda>t. ROUND_16_80 (t - t mod 16) (t mod 16)"
proof unfold_locales
  show "ROUND_00_15_512 i w (reg t 0) (reg t 1) (reg t 2) (reg t 3) (reg t 4) (reg t 5) (reg t 6) (reg t 7) v =
      v[reg t 7 := v ! reg t 7 + fips_Sigma1_512 (v ! reg t 4) + Ch (v ! reg t 4) (v ! reg t 5) (v ! reg t 6) + K512 ! i + w
          + fips_Sigma0_512 (v ! reg t 0) + Maj (v ! reg t 0) (v ! reg t 1) (v ! reg t 2),
        reg t 3 := v ! reg t 3
          + (v ! reg t 7 + fips_Sigma1_512 (v ! reg t 4) + Ch (v ! reg t 4) (v ! reg t 5) (v ! reg t 6) + K512 ! i + w)]"
    if "length v = 8" for v i w t
    using that unfolding ROUND_00_15_512_def Let_def sigma_fips_512
    by (subst round_writes [unfolded Let_def]) (simp_all add: ac_simps)
  show "sha512_load_round i w a b c d e f g h (v, X) = (ROUND_00_15_512 i w a b c d e f g h v, X[i := w])"
    for i w a b c d e f g h v X
    by (simp add: sha512_load_round_def)
  show "ROUND_16_80 (i - i mod 16) (i mod 16) a b c d e f g h (v, X) = (let w = X ! (i mod 16) +
      (fips_sigma0_512 (X ! ((i + 1) mod 16)) + fips_sigma1_512 (X ! ((i + 14) mod 16)) + X ! ((i + 9) mod 16))
       in (ROUND_00_15_512 i w a b c d e f g h v, X[i mod 16 := w]))"
    for i a b c d e f g h v X
    by (simp only: ROUND_16_80_def Let_def and_0f prod.case sigma_fips_512 mod_add_left_eq mod_mod_trivial
        le_add_diff_inverse2 mod_less_eq_dividend)
qed

abbreviation sha512_inv :: "u64 list \<Rightarrow> u64 list \<Rightarrow> nat \<Rightarrow> u64 list \<times> u64 list \<Rightarrow> bool" where
  "sha512_inv \<equiv> sha2_inv fips_Sigma0_512 fips_Sigma1_512 fips_sigma0_512 fips_sigma1_512 K512"

lemma sha512_load_step:
  assumes "sha512_inv (sha512_words b) v0 t st" and "128 \<le> length b" and "t < 16" and "k = 8 * t"
    and "[a, bb, c, d, e, f, g, h] = regs t" and "t' = Suc t"
  shows "sha512_inv (sha512_words b) v0 t' (sha512_load_round t (CRYPTO_load_u64_be (drop k b)) a bb c d e f g h st)"
proof -
  have "CRYPTO_load_u64_be (drop k b) = sha512_words b ! t"
    using assms(2-4) by (simp add: load_u64_be sha512_words_def)
  then show ?thesis using sha512.load_inv [OF assms(1,3) _ assms(5)] assms(6) by simp
qed

lemma sha512_loads_inv:
  assumes "128 \<le> length b" and "length v = 8"
  shows "sha512_inv (sha512_words b) v 16 (sha512_loads b (v, replicate 16 0))"
  unfolding sha512_loads_def Let_def
  using assms
  by (intro sha512_load_step [where b = b])
     (simp_all add: regs_def reg_def sha2_inv_def view_8 numeral_eq_Suc [symmetric])

lemma sha512_sched_step:
  assumes "sha512_inv M v0 (i + r) st" and "16 dvd i" and "16 \<le> i"
    and "[a, b, c, d, e, f, g, h] = regs r" and "r < 16" and "r' = Suc r"
  shows "sha512_inv M v0 (i + r') (ROUND_16_80 i r a b c d e f g h st)"
proof -
  have "8 dvd i" using assms(2) by (rule dvd_trans [rotated]) simp
  then have "regs (i + r) = regs r" by (simp add: regs_def reg_mod)
  moreover have "(i + r) mod 16 = r" using assms(2,5) by (auto elim!: dvdE)
  ultimately show ?thesis
    using sha512.sched_inv [OF assms(1), of a b c d e f g h] assms(3-6) by simp
qed

lemma sha512_sixteen_inv:
  assumes "sha512_inv M v0 i st" and "16 dvd i" and "16 \<le> i"
  shows "sha512_inv M v0 (i + 16) (sha512_sixteen i st)"
  unfolding sha512_sixteen_def Let_def
  using assms by (intro sha512_sched_step) (simp_all add: regs_def reg_def)

lemma sha512_block_compress:
  assumes "128 \<le> length b" and "length v = 8"
  shows "sha512_block v b = sha512_compress v (take 128 b)"
proof -
  define st where "st = sha512_loads b (v, replicate 16 0)"
  have "sha512_inv (sha512_words b) v 16 st"
    using sha512_loads_inv [OF assms] by (simp add: st_def)
  then have "sha512_inv (sha512_words b) v 32 (sha512_sixteen 16 st)"
    using sha512_sixteen_inv [of _ _ 16] by simp
  then have "sha512_inv (sha512_words b) v 48 (sha512_sixteen 32 (sha512_sixteen 16 st))"
    using sha512_sixteen_inv [of _ _ 32] by simp
  then have "sha512_inv (sha512_words b) v 64 (foldl (\<lambda>st i. sha512_sixteen i st) st [16, 32, 48])"
    using sha512_sixteen_inv [of _ _ 48] by simp
  then have "sha512_inv (sha512_words b) v 80 (foldl (\<lambda>st i. sha512_sixteen i st) st [16, 32, 48, 64])"
    using sha512_sixteen_inv [of _ _ 64] by simp
  moreover have "sha512_words (take 128 b) = sha512_words b"
    by (auto simp: sha512_words_def take_drop min_def intro!: arg_cong [of _ _ be_nat])
  ultimately show ?thesis
    using view_8 [of "fst (foldl (\<lambda>st i. sha512_sixteen i st) st [16, 32, 48, 64])" 80]
    by (simp add: sha512_block_def sha512_compress_def sha2_inv_def st_def del: foldl_Cons)
qed

lemma length_sha512_compress [simp]: "length (sha512_compress v b) = length v"
  by (simp add: sha512_compress_def)

interpretation sha512_md: block_hash sha512_block_data_order sha512_compress 128 "\<lambda>v. length v = 8"
  by unfold_locales (simp_all add: sha512_block_compress)

section \<open>Streaming\<close>

text \<open>
  Unlike the 32-bit collector this one leaves old bytes in the buffer, so the representation does not
  mention what follows the partial block.
\<close>

definition sha512_repr :: "u64 list \<Rightarrow> sha512_ctx \<Rightarrow> bytes \<Rightarrow> bool" where
  "sha512_repr v0 c m \<longleftrightarrow>
     collects sha512_compress 128 v0 (sha_h c) (take (sha_num c) (sha_p c)) m \<and>
     sha_num c < 128 \<and> length (sha_p c) = 128 \<and>
     bit_count (sha_Nh c) (sha_Nl c) = 8 * length m mod 2 ^ 128"

lemma sha512_count_repr:
  "bit_count (sha_Nh c) (sha_Nl c) = 8 * n mod 2 ^ 128 \<Longrightarrow>
   bit_count (sha_Nh (sha512_count len c)) (sha_Nl (sha512_count len c)) = 8 * (n + len) mod 2 ^ 128"
  using bit_count_update [of "sha_Nl c" len "sha_Nh c"]
  by (simp add: sha512_count_def Let_def mod_add_left_eq distrib_left)

lemma sha512_count_frame [simp]:
  "sha_h (sha512_count len c) = sha_h c" "sha_num (sha512_count len c) = sha_num c"
  "sha_p (sha512_count len c) = sha_p c" "sha_md_len (sha512_count len c) = sha_md_len c"
  by (simp_all add: sha512_count_def Let_def)

lemma sha512_rest_repr:
  assumes c: "collects sha512_compress 128 v0 (sha_h c) [] m" and "length (sha_p c) = 128"
    and "sha_num c = 0" and cnt: "bit_count (sha_Nh c) (sha_Nl c) = 8 * length (m @ x) mod 2 ^ 128"
    and v: "length v0 = 8"
  shows "sha512_repr v0 (sha512_rest c x) (m @ x)"
proof -
  define n where "n = length x div 128"
  define s where "s = (if n > 0 then sha512_block_data_order (sha_h c) x n else sha_h c)"
  define rest where "rest = drop (n * 128) x"
  have C: "collects sha512_compress 128 v0 s rest (m @ x)"
    unfolding s_def rest_def n_def by (rule sha512_md.collects_input [OF c v])
  then have "length rest < 128" by (simp add: collects_def)
  have ge: "length x \<ge> 128 \<longleftrightarrow> n > 0" by (simp add: n_def div_greater_zero_iff)
  have "sha512_rest c x = (if length rest \<noteq> 0
      then c\<lparr>sha_h := s, sha_p := OPENSSL_memcpy (sha_p c) 0 rest, sha_num := length rest\<rparr>
      else c\<lparr>sha_h := s\<rparr>)"
    unfolding sha512_rest_def Let_def SHA512_CBLOCK_def ge s_def rest_def n_def [symmetric]
    by (cases "n > 0") (auto simp: n_def minus_mod_eq_div_mult)
  then show ?thesis
    using C \<open>length rest < 128\<close> assms(2-4)
    by (auto simp: sha512_repr_def OPENSSL_memcpy_def)
qed

lemma sha512_update_repr:
  assumes r: "sha512_repr v0 c m" and v: "length v0 = 8"
  shows "sha512_repr v0 (SHA512_Update c x) (m @ x)"
proof (cases "x = []")
  case False
  define c0 where "c0 = sha512_count (length x) c"
  have C: "collects sha512_compress 128 v0 (sha_h c0) (take (sha_num c0) (sha_p c0)) m"
    and n: "sha_num c0 < 128" and p: "length (sha_p c0) = 128"
    and cnt: "bit_count (sha_Nh c0) (sha_Nl c0) = 8 * (length m + length x) mod 2 ^ 128"
    using r sha512_count_repr by (simp_all add: sha512_repr_def c0_def)
  define k where "k = 128 - sha_num c0"
  define q where "q = OPENSSL_memcpy (sha_p c0) (sha_num c0) (take k x)"
  have upd: "SHA512_Update c x =
      (if sha_num c0 \<noteq> 0
       then if length x < k
            then c0\<lparr>sha_p := OPENSSL_memcpy (sha_p c0) (sha_num c0) x, sha_num := sha_num c0 + length x\<rparr>
            else sha512_rest (c0\<lparr>sha_p := q, sha_num := 0, sha_h := sha512_block_data_order (sha_h c0) q 1\<rparr>) (drop k x)
       else sha512_rest c0 x)"
    using False unfolding SHA512_Update_def Let_def c0_def [symmetric] SHA512_CBLOCK_def k_def q_def by simp
  consider "sha_num c0 = 0" | "sha_num c0 \<noteq> 0" "length x < k" | "sha_num c0 \<noteq> 0" "k \<le> length x" by linarith
  then show ?thesis
  proof cases
    case 1
    with C p cnt v show ?thesis unfolding upd by (simp add: sha512_rest_repr)
  next
    case 2
    have "take (sha_num c0 + length x) (OPENSSL_memcpy (sha_p c0) (sha_num c0) x) = take (sha_num c0) (sha_p c0) @ x"
      using n p by (intro take_OPENSSL_memcpy) simp
    with 2 show ?thesis
      unfolding upd using collects_short [OF C, of x] n p cnt by (simp add: sha512_repr_def k_def)
  next
    case 3
    have q: "q = take (sha_num c0) (sha_p c0) @ take k x" and len: "length q = 128"
      using 3 n p by (simp_all add: q_def OPENSSL_memcpy_def k_def)
    have "sha512_block_data_order (sha_h c0) q 1 = hash_blocks sha512_compress 128 (sha_h c0) q"
      by (rule sha512_md.block_func_one [OF sha512_md.collects_valid [OF C v] len])
    moreover have "collects sha512_compress 128 v0 (hash_blocks sha512_compress 128 (sha_h c0) q) [] (m @ take k x)"
      unfolding q using len by (intro collects_blocks [OF C]) (simp add: q)
    ultimately have "sha512_repr v0 (sha512_rest (c0\<lparr>sha_p := q, sha_num := 0,
        sha_h := sha512_block_data_order (sha_h c0) q 1\<rparr>) (drop k x)) ((m @ take k x) @ drop k x)"
      using len cnt 3 by (intro sha512_rest_repr v) simp_all
    with 3 show ?thesis unfolding upd by simp
  qed
qed (use r in \<open>simp add: SHA512_Update_def\<close>)

lemma sha512_updates_repr:
  assumes "sha512_repr v0 c m" and v: "length v0 = 8"
  shows "sha512_repr v0 (foldl SHA512_Update c xs) (m @ concat xs)"
  using assms(1)
proof (induction xs arbitrary: c m)
  case (Cons x xs)
  from Cons.IH [OF sha512_update_repr [OF Cons.prems v, of x]] show ?case by simp
qed simp

lemma sha512_pad_frame [simp]:
  "sha_Nh (sha512_pad c) = sha_Nh c" "sha_Nl (sha512_pad c) = sha_Nl c" "sha_md_len (sha512_pad c) = sha_md_len c"
  by (simp_all add: sha512_pad_def Let_def)

lemma sha512_pad_repr:
  assumes r: "sha512_repr v0 c m" and v: "length v0 = 8" and lb: "length lb = 16"
  shows "length (sha_p (sha512_pad c)) = 128 \<and> length (sha_h (sha512_pad c)) = 8 \<and>
    hash_blocks sha512_compress 128 (sha_h (sha512_pad c)) (take 112 (sha_p (sha512_pad c)) @ lb)
      = hash_blocks sha512_compress 128 v0 (md_pad 128 lb m)"
proof -
  define r where "r = take (sha_num c) (sha_p c)"
  have C: "collects sha512_compress 128 v0 (sha_h c) r m" and n: "sha_num c < 128" "length r = sha_num c"
    and p: "length (sha_p c) = 128"
    using assms(1) by (simp_all add: sha512_repr_def r_def)
  have vh: "length (sha_h c) = 8" using sha512_md.collects_valid [OF C v] .
  define p0 where "p0 = OPENSSL_memcpy (sha_p c) (sha_num c) [0x80]"
  have p0: "take (sha_num c + 1) p0 = r @ [0x80]" "length p0 = 128"
    using n p take_OPENSSL_memcpy [of "sha_num c" "sha_p c" "[0x80]"] by (simp_all add: p0_def r_def)
  have set: "OPENSSL_memset p0 (sha_num c + 1) 0 k = r @ 0x80 # replicate k 0 @ drop (sha_num c + 1 + k) p0" for k
    using p0(1) by (simp add: OPENSSL_memset_def OPENSSL_memcpy_def)
  show ?thesis
  proof (cases "112 < sha_num c + 1")
    case True
    define d where "d = r @ 0x80 # replicate (127 - sha_num c) 0"
    have d: "OPENSSL_memset p0 (sha_num c + 1) 0 (128 - (sha_num c + 1)) = d" "length d = 128"
      using n p0(2) unfolding set by (simp_all add: d_def)
    then have h: "sha512_block_data_order (sha_h c) d 1 = hash_blocks sha512_compress 128 (sha_h c) d"
      using sha512_md.block_func_one [OF vh] by simp
    have "sha512_pad c = c\<lparr>sha_h := hash_blocks sha512_compress 128 (sha_h c) d,
        sha_p := OPENSSL_memset d 0 0 112\<rparr>"
      unfolding sha512_pad_def Let_def SHA512_CBLOCK_def p0_def [symmetric] d(1) h using True by simp
    then show ?thesis
      using True d(2) sha512_md.valid_hash_blocks [OF vh, of d] sha512_md.hash_pad [OF C, of lb] lb n(2)
      by (simp add: OPENSSL_memset_def OPENSSL_memcpy_def d_def)
  next
    case False
    have "sha512_pad c = c\<lparr>sha_p := OPENSSL_memset p0 (sha_num c + 1) 0 (112 - (sha_num c + 1))\<rparr>"
      unfolding sha512_pad_def Let_def SHA512_CBLOCK_def p0_def [symmetric] using False by simp
    moreover have "take 112 (OPENSSL_memset p0 (sha_num c + 1) 0 (112 - (sha_num c + 1)))
        = r @ 0x80 # replicate (111 - sha_num c) 0"
    proof -
      have "112 - sha_num c = Suc (111 - sha_num c)" using False by simp
      then show ?thesis unfolding set using n by (simp add: Suc_diff_le)
    qed
    ultimately show ?thesis
      using False vh sha512_md.hash_pad [OF C, of lb] lb n p0(2) by simp
  qed
qed

lemma sha512_length_bytes:
  assumes "bit_count hi lo = 8 * n mod 2 ^ 128"
  shows "CRYPTO_store_u64_be hi @ CRYPTO_store_u64_be lo = be_bytes 16 (8 * n)"
proof -
  have lo: "unat lo < 256 ^ 8" using unsigned_less [of lo] by simp
  have "le_bytes (8 + 8) (unat hi * 256 ^ 8 + unat lo) = le_bytes 16 (8 * n)"
    using assms le_bytes_mod [of 16 "8 * n"] by (simp add: bit_count_def)
  with be_bytes_split [OF lo, of 8 "unat hi"] show ?thesis
    by (simp add: store_u64_be be_bytes_def)
qed

lemma sha512_final_spec:
  assumes r: "sha512_repr v0 c m" and v: "length v0 = 8" and "sha_md_len c \<le> 64"
  shows "fst (sha512_final_impl False c) = Some (sha512_spec v0 (sha_md_len c div 8) m)"
proof -
  define lb where "lb = be_bytes 16 (8 * length m)"
  have lb: "length lb = 16" by (simp add: lb_def)
  note P = sha512_pad_repr [OF r v lb, THEN conjunct1]
    sha512_pad_repr [OF r v lb, THEN conjunct2, THEN conjunct1]
    sha512_pad_repr [OF r v lb, THEN conjunct2, THEN conjunct2]
  define d where "d = take 112 (sha_p (sha512_pad c)) @ lb"
  have len: "length d = 128" using P(1) lb by (simp add: d_def)
  have "CRYPTO_store_u64_be (sha_Nh c) @ CRYPTO_store_u64_be (sha_Nl c) = lb"
    unfolding lb_def using r by (intro sha512_length_bytes) (simp add: sha512_repr_def)
  then have d: "OPENSSL_memcpy (OPENSSL_memcpy (sha_p (sha512_pad c)) 112 (CRYPTO_store_u64_be (sha_Nh c)))
      120 (CRYPTO_store_u64_be (sha_Nl c)) = d"
    using P(1) by (simp add: d_def OPENSSL_memcpy_def)
  have h: "sha512_block_data_order (sha_h (sha512_pad c)) d 1
      = hash_blocks sha512_compress 128 v0 (md_pad 128 lb m)"
    using sha512_md.block_func_one [OF P(2) len] P(3) by (simp add: d_def)
  have "length (hash_blocks sha512_compress 128 v0 (md_pad 128 lb m)) = 8"
    by (rule sha512_md.valid_hash_blocks [OF v])
  moreover have "concat (map (\<lambda>i. CRYPTO_store_u64_be (w ! i)) [0..<k]) = concat (map (\<lambda>w. be_bytes 8 (unat w)) (take k w))"
    if "k \<le> length w" for k w
    using that by (simp add: store_u64_be take_as_map comp_def)
  ultimately show ?thesis
    using assms(3) unfolding sha512_final_impl_def Let_def SHA512_CBLOCK_def
    by (simp add: d h [unfolded One_nat_def] sha512_spec_def lb_def [symmetric] del: sha512_block_data_order.simps)
qed

lemma sha512_h0_length [simp]:
  "length (sha_h (SHA512_Init c)) = 8" "length (sha_h (SHA384_Init c)) = 8" "length (sha_h (SHA512_256_Init c)) = 8"
  by (simp_all add: SHA512_Init_def SHA384_Init_def SHA512_256_Init_def)

lemma sha512_init_repr:
  assumes "length (sha_p c) = 128"
  shows "sha512_repr (sha_h (SHA512_Init c)) (SHA512_Init c) []"
    "sha512_repr (sha_h (SHA384_Init c)) (SHA384_Init c) []"
    "sha512_repr (sha_h (SHA512_256_Init c)) (SHA512_256_Init c) []"
  using assms
  by (simp_all add: sha512_repr_def collects_init SHA512_Init_def SHA384_Init_def SHA512_256_Init_def bit_count_def)

lemma sha512_updates_eq: "SHA384_Update = SHA512_Update" "SHA512_256_Update = SHA512_Update"
  by (simp_all add: fun_eq_iff SHA384_Update_def SHA512_256_Update_def)

lemma md_len_SHA512_updates [simp]: "sha_md_len (foldl SHA512_Update c xs) = sha_md_len c"
proof (induction xs arbitrary: c)
  case (Cons x xs)
  have "sha_md_len (SHA512_Update c x) = sha_md_len c"
    by (simp add: SHA512_Update_def sha512_rest_def Let_def)
  with Cons.IH show ?case by simp
qed simp

lemma sha512_stream_spec:
  assumes "sha512_repr v0 c []" and "length v0 = 8" and "sha_md_len c \<le> 64"
  shows "fst (sha512_final_impl False (foldl SHA512_Update c xs)) = Some (sha512_spec v0 (sha_md_len c div 8) (concat xs))"
  using sha512_final_spec [OF sha512_updates_repr [OF assms(1,2), of xs] assms(2)] assms(3) by simp



end
