(* ===== verification/SHA1.thy ===== *)
theory SHA1
  imports SHA2_Rounds
begin

text \<open>
  SHA-1, \<^verbatim>\<open>crypto/fipsmodule/sha/sha1.c\<close>, in the portable C path.  The variables \<^verbatim>\<open>A\<close> to \<^verbatim>\<open>E\<close> and \<^verbatim>\<open>T\<close> of
  the block function are the places 0 to 5 of a list and \<^verbatim>\<open>XX0\<close> to \<^verbatim>\<open>XX15\<close> those of another.  The
  unrolled block function computes the compression function of FIPS 180-4, and streaming gives the
  digest of the concatenation.
\<close>

unbundle bit_operations_syntax

section \<open>The block function\<close>

definition Xupdate :: "nat \<Rightarrow> nat \<Rightarrow> nat \<Rightarrow> nat \<Rightarrow> nat \<Rightarrow> nat \<Rightarrow> u32 list \<times> u32 list \<Rightarrow> u32 list \<times> u32 list" where
  "Xupdate a ix ia ib ic id1 st = (let
     (v, X) = st;
     v = v[a := X ! ia XOR X ! ib XOR X ! ic XOR X ! id1];
     v = v[a := CRYPTO_rotl_u32 (v ! a) 1]
     in (v, X[ix := v ! a]))"

definition K_00_19 :: u32 where "K_00_19 = 0x5a827999"
definition K_20_39 :: u32 where "K_20_39 = 0x6ed9eba1"
definition K_40_59 :: u32 where "K_40_59 = 0x8f1bbcdc"
definition K_60_79 :: u32 where "K_60_79 = 0xca62c1d6"

definition F_00_19 :: "u32 \<Rightarrow> u32 \<Rightarrow> u32 \<Rightarrow> u32" where
  "F_00_19 b c d = ((c XOR d) AND b) XOR d"

definition F_20_39 :: "u32 \<Rightarrow> u32 \<Rightarrow> u32 \<Rightarrow> u32" where
  "F_20_39 b c d = b XOR c XOR d"

definition F_40_59 :: "u32 \<Rightarrow> u32 \<Rightarrow> u32 \<Rightarrow> u32" where
  "F_40_59 b c d = (b AND c) OR ((b OR c) AND d)"

definition F_60_79 :: "u32 \<Rightarrow> u32 \<Rightarrow> u32 \<Rightarrow> u32" where
  "F_60_79 b c d = F_20_39 b c d"

definition BODY_00_15 :: "nat \<Rightarrow> nat \<Rightarrow> nat \<Rightarrow> nat \<Rightarrow> nat \<Rightarrow> nat \<Rightarrow> nat \<Rightarrow> nat \<Rightarrow> u32 list \<times> u32 list \<Rightarrow> u32 list \<times> u32 list" where
  "BODY_00_15 i a b c d e f xi st = (let
     (v, X) = st;
     v = v[f := X ! xi + v ! e + K_00_19 + CRYPTO_rotl_u32 (v ! a) 5 + F_00_19 (v ! b) (v ! c) (v ! d)];
     v = v[b := CRYPTO_rotl_u32 (v ! b) 30]
     in (v, X))"

definition BODY_16_19 :: "nat \<Rightarrow> nat \<Rightarrow> nat \<Rightarrow> nat \<Rightarrow> nat \<Rightarrow> nat \<Rightarrow> nat \<Rightarrow> nat \<Rightarrow> nat \<Rightarrow> nat \<Rightarrow> nat \<Rightarrow> nat \<Rightarrow> u32 list \<times> u32 list \<Rightarrow> u32 list \<times> u32 list" where
  "BODY_16_19 i a b c d e f xi xa xb xc xd st = (let
     (v, X) = Xupdate f xi xa xb xc xd st;
     v = v[f := v ! f + (v ! e + K_00_19 + CRYPTO_rotl_u32 (v ! a) 5 + F_00_19 (v ! b) (v ! c) (v ! d))];
     v = v[b := CRYPTO_rotl_u32 (v ! b) 30]
     in (v, X))"

definition BODY_20_31 :: "nat \<Rightarrow> nat \<Rightarrow> nat \<Rightarrow> nat \<Rightarrow> nat \<Rightarrow> nat \<Rightarrow> nat \<Rightarrow> nat \<Rightarrow> nat \<Rightarrow> nat \<Rightarrow> nat \<Rightarrow> nat \<Rightarrow> u32 list \<times> u32 list \<Rightarrow> u32 list \<times> u32 list" where
  "BODY_20_31 i a b c d e f xi xa xb xc xd st = (let
     (v, X) = Xupdate f xi xa xb xc xd st;
     v = v[f := v ! f + (v ! e + K_20_39 + CRYPTO_rotl_u32 (v ! a) 5 + F_20_39 (v ! b) (v ! c) (v ! d))];
     v = v[b := CRYPTO_rotl_u32 (v ! b) 30]
     in (v, X))"

definition BODY_32_39 :: "nat \<Rightarrow> nat \<Rightarrow> nat \<Rightarrow> nat \<Rightarrow> nat \<Rightarrow> nat \<Rightarrow> nat \<Rightarrow> nat \<Rightarrow> nat \<Rightarrow> nat \<Rightarrow> nat \<Rightarrow> u32 list \<times> u32 list \<Rightarrow> u32 list \<times> u32 list" where
  "BODY_32_39 i a b c d e f xa xb xc xd st = (let
     (v, X) = Xupdate f xa xa xb xc xd st;
     v = v[f := v ! f + (v ! e + K_20_39 + CRYPTO_rotl_u32 (v ! a) 5 + F_20_39 (v ! b) (v ! c) (v ! d))];
     v = v[b := CRYPTO_rotl_u32 (v ! b) 30]
     in (v, X))"

definition BODY_40_59 :: "nat \<Rightarrow> nat \<Rightarrow> nat \<Rightarrow> nat \<Rightarrow> nat \<Rightarrow> nat \<Rightarrow> nat \<Rightarrow> nat \<Rightarrow> nat \<Rightarrow> nat \<Rightarrow> nat \<Rightarrow> u32 list \<times> u32 list \<Rightarrow> u32 list \<times> u32 list" where
  "BODY_40_59 i a b c d e f xa xb xc xd st = (let
     (v, X) = Xupdate f xa xa xb xc xd st;
     v = v[f := v ! f + (v ! e + K_40_59 + CRYPTO_rotl_u32 (v ! a) 5 + F_40_59 (v ! b) (v ! c) (v ! d))];
     v = v[b := CRYPTO_rotl_u32 (v ! b) 30]
     in (v, X))"

definition BODY_60_79 :: "nat \<Rightarrow> nat \<Rightarrow> nat \<Rightarrow> nat \<Rightarrow> nat \<Rightarrow> nat \<Rightarrow> nat \<Rightarrow> nat \<Rightarrow> nat \<Rightarrow> nat \<Rightarrow> nat \<Rightarrow> u32 list \<times> u32 list \<Rightarrow> u32 list \<times> u32 list" where
  "BODY_60_79 i a b c d e f xa xb xc xd st = (let
     (v, X) = Xupdate f xa xa xb xc xd st;
     v = v[f := X ! xa + v ! e + K_60_79 + CRYPTO_rotl_u32 (v ! a) 5 + F_60_79 (v ! b) (v ! c) (v ! d)];
     v = v[b := CRYPTO_rotl_u32 (v ! b) 30]
     in (v, X))"

definition sha1_rounds_00_15 :: "u32 list \<times> u32 list \<Rightarrow> u32 list \<times> u32 list" where
  "sha1_rounds_00_15 st = (let
     st = BODY_00_15 0 0 1 2 3 4 5 0 st;
     st = BODY_00_15 1 5 0 1 2 3 4 1 st;
     st = BODY_00_15 2 4 5 0 1 2 3 2 st;
     st = BODY_00_15 3 3 4 5 0 1 2 3 st;
     st = BODY_00_15 4 2 3 4 5 0 1 4 st;
     st = BODY_00_15 5 1 2 3 4 5 0 5 st;
     st = BODY_00_15 6 0 1 2 3 4 5 6 st;
     st = BODY_00_15 7 5 0 1 2 3 4 7 st;
     st = BODY_00_15 8 4 5 0 1 2 3 8 st;
     st = BODY_00_15 9 3 4 5 0 1 2 9 st;
     st = BODY_00_15 10 2 3 4 5 0 1 10 st;
     st = BODY_00_15 11 1 2 3 4 5 0 11 st;
     st = BODY_00_15 12 0 1 2 3 4 5 12 st;
     st = BODY_00_15 13 5 0 1 2 3 4 13 st;
     st = BODY_00_15 14 4 5 0 1 2 3 14 st;
     st = BODY_00_15 15 3 4 5 0 1 2 15 st
     in st)"

definition sha1_rounds_16_19 :: "u32 list \<times> u32 list \<Rightarrow> u32 list \<times> u32 list" where
  "sha1_rounds_16_19 st = (let
     st = BODY_16_19 16 2 3 4 5 0 1 0 0 2 8 13 st;
     st = BODY_16_19 17 1 2 3 4 5 0 1 1 3 9 14 st;
     st = BODY_16_19 18 0 1 2 3 4 5 2 2 4 10 15 st;
     st = BODY_16_19 19 5 0 1 2 3 4 3 3 5 11 0 st
     in st)"

definition sha1_rounds_20_31 :: "u32 list \<times> u32 list \<Rightarrow> u32 list \<times> u32 list" where
  "sha1_rounds_20_31 st = (let
     st = BODY_20_31 20 4 5 0 1 2 3 4 4 6 12 1 st;
     st = BODY_20_31 21 3 4 5 0 1 2 5 5 7 13 2 st;
     st = BODY_20_31 22 2 3 4 5 0 1 6 6 8 14 3 st;
     st = BODY_20_31 23 1 2 3 4 5 0 7 7 9 15 4 st;
     st = BODY_20_31 24 0 1 2 3 4 5 8 8 10 0 5 st;
     st = BODY_20_31 25 5 0 1 2 3 4 9 9 11 1 6 st;
     st = BODY_20_31 26 4 5 0 1 2 3 10 10 12 2 7 st;
     st = BODY_20_31 27 3 4 5 0 1 2 11 11 13 3 8 st;
     st = BODY_20_31 28 2 3 4 5 0 1 12 12 14 4 9 st;
     st = BODY_20_31 29 1 2 3 4 5 0 13 13 15 5 10 st;
     st = BODY_20_31 30 0 1 2 3 4 5 14 14 0 6 11 st;
     st = BODY_20_31 31 5 0 1 2 3 4 15 15 1 7 12 st
     in st)"

definition sha1_rounds_32_39 :: "u32 list \<times> u32 list \<Rightarrow> u32 list \<times> u32 list" where
  "sha1_rounds_32_39 st = (let
     st = BODY_32_39 32 4 5 0 1 2 3 0 2 8 13 st;
     st = BODY_32_39 33 3 4 5 0 1 2 1 3 9 14 st;
     st = BODY_32_39 34 2 3 4 5 0 1 2 4 10 15 st;
     st = BODY_32_39 35 1 2 3 4 5 0 3 5 11 0 st;
     st = BODY_32_39 36 0 1 2 3 4 5 4 6 12 1 st;
     st = BODY_32_39 37 5 0 1 2 3 4 5 7 13 2 st;
     st = BODY_32_39 38 4 5 0 1 2 3 6 8 14 3 st;
     st = BODY_32_39 39 3 4 5 0 1 2 7 9 15 4 st
     in st)"

definition sha1_rounds_40_59 :: "u32 list \<times> u32 list \<Rightarrow> u32 list \<times> u32 list" where
  "sha1_rounds_40_59 st = (let
     st = BODY_40_59 40 2 3 4 5 0 1 8 10 0 5 st;
     st = BODY_40_59 41 1 2 3 4 5 0 9 11 1 6 st;
     st = BODY_40_59 42 0 1 2 3 4 5 10 12 2 7 st;
     st = BODY_40_59 43 5 0 1 2 3 4 11 13 3 8 st;
     st = BODY_40_59 44 4 5 0 1 2 3 12 14 4 9 st;
     st = BODY_40_59 45 3 4 5 0 1 2 13 15 5 10 st;
     st = BODY_40_59 46 2 3 4 5 0 1 14 0 6 11 st;
     st = BODY_40_59 47 1 2 3 4 5 0 15 1 7 12 st;
     st = BODY_40_59 48 0 1 2 3 4 5 0 2 8 13 st;
     st = BODY_40_59 49 5 0 1 2 3 4 1 3 9 14 st;
     st = BODY_40_59 50 4 5 0 1 2 3 2 4 10 15 st;
     st = BODY_40_59 51 3 4 5 0 1 2 3 5 11 0 st;
     st = BODY_40_59 52 2 3 4 5 0 1 4 6 12 1 st;
     st = BODY_40_59 53 1 2 3 4 5 0 5 7 13 2 st;
     st = BODY_40_59 54 0 1 2 3 4 5 6 8 14 3 st;
     st = BODY_40_59 55 5 0 1 2 3 4 7 9 15 4 st;
     st = BODY_40_59 56 4 5 0 1 2 3 8 10 0 5 st;
     st = BODY_40_59 57 3 4 5 0 1 2 9 11 1 6 st;
     st = BODY_40_59 58 2 3 4 5 0 1 10 12 2 7 st;
     st = BODY_40_59 59 1 2 3 4 5 0 11 13 3 8 st
     in st)"

definition sha1_rounds_60_79 :: "u32 list \<times> u32 list \<Rightarrow> u32 list \<times> u32 list" where
  "sha1_rounds_60_79 st = (let
     st = BODY_60_79 60 0 1 2 3 4 5 12 14 4 9 st;
     st = BODY_60_79 61 5 0 1 2 3 4 13 15 5 10 st;
     st = BODY_60_79 62 4 5 0 1 2 3 14 0 6 11 st;
     st = BODY_60_79 63 3 4 5 0 1 2 15 1 7 12 st;
     st = BODY_60_79 64 2 3 4 5 0 1 0 2 8 13 st;
     st = BODY_60_79 65 1 2 3 4 5 0 1 3 9 14 st;
     st = BODY_60_79 66 0 1 2 3 4 5 2 4 10 15 st;
     st = BODY_60_79 67 5 0 1 2 3 4 3 5 11 0 st;
     st = BODY_60_79 68 4 5 0 1 2 3 4 6 12 1 st;
     st = BODY_60_79 69 3 4 5 0 1 2 5 7 13 2 st;
     st = BODY_60_79 70 2 3 4 5 0 1 6 8 14 3 st;
     st = BODY_60_79 71 1 2 3 4 5 0 7 9 15 4 st;
     st = BODY_60_79 72 0 1 2 3 4 5 8 10 0 5 st;
     st = BODY_60_79 73 5 0 1 2 3 4 9 11 1 6 st;
     st = BODY_60_79 74 4 5 0 1 2 3 10 12 2 7 st;
     st = BODY_60_79 75 3 4 5 0 1 2 11 13 3 8 st;
     st = BODY_60_79 76 2 3 4 5 0 1 12 14 4 9 st;
     st = BODY_60_79 77 1 2 3 4 5 0 13 15 5 10 st;
     st = BODY_60_79 78 0 1 2 3 4 5 14 0 6 11 st;
     st = BODY_60_79 79 5 0 1 2 3 4 15 1 7 12 st
     in st)"

text \<open>
  The sixteen words of a block; the code interleaves these loads with the first rounds, which does
  not change what they read.
\<close>

definition sha1_X :: "bytes \<Rightarrow> u32 list" where
  "sha1_X inp = map (\<lambda>i. CRYPTO_load_u32_be (drop (4 * i) inp)) [0..<16]"

text \<open>The variable \<^verbatim>\<open>T\<close> is uninitialised in C and written before it is read.\<close>

definition sha1_block :: "u32 list \<Rightarrow> bytes \<Rightarrow> u32 list" where
  "sha1_block state inp = (let
     st = ([state ! 0, state ! 1, state ! 2, state ! 3, state ! 4, 0], sha1_X inp);
     (v, X) = sha1_rounds_60_79 (sha1_rounds_40_59 (sha1_rounds_32_39
        (sha1_rounds_20_31 (sha1_rounds_16_19 (sha1_rounds_00_15 st)))))
     in [state ! 0 + v ! 4, state ! 1 + v ! 5, state ! 2 + v ! 0, state ! 3 + v ! 1, state ! 4 + v ! 2])"

text \<open>
  The loop tests \<^verbatim>\<open>--num == 0\<close> after the first block: with a \<^verbatim>\<open>num\<close> of 0 the counter wraps to the
  whole range of \<^verbatim>\<open>size_t\<close>.
\<close>

fun sha1_loop :: "u32 block_func" where
  "sha1_loop state inp 0 = state"
| "sha1_loop state inp (Suc num) = sha1_loop (sha1_block state inp) (drop 64 inp) num"

definition sha1_block_data_order :: "u32 block_func" where
  "sha1_block_data_order state inp num = sha1_loop state inp (if num = 0 then 2 ^ 64 else num)"

section \<open>Init, update and final\<close>

definition SHA_CBLOCK :: nat where "SHA_CBLOCK = 64"
definition SHA_DIGEST_LENGTH :: nat where "SHA_DIGEST_LENGTH = 20"

definition SHA1_Init :: md32_ctx where
  "SHA1_Init = \<lparr>md_h = [0x67452301, 0xefcdab89, 0x98badcfe, 0x10325476, 0xc3d2e1f0],
     md_Nl = 0, md_Nh = 0, md_data = replicate SHA_CBLOCK 0, md_num = 0\<rparr>"

definition SHA1_Transform :: "md32_ctx \<Rightarrow> bytes \<Rightarrow> md32_ctx" where
  "SHA1_Transform c block = c\<lparr>md_h := sha1_block_data_order (md_h c) block 1\<rparr>"

definition SHA1_Update :: "md32_ctx \<Rightarrow> bytes \<Rightarrow> md32_ctx" where
  "SHA1_Update c inp = crypto_md32_update sha1_block_data_order SHA_CBLOCK c inp"

definition SHA1_Final :: "md32_ctx \<Rightarrow> (md32_ctx, bytes) cres" where
  "SHA1_Final c = (let c = crypto_md32_final sha1_block_data_order SHA_CBLOCK True c
     in returns (CRYPTO_store_u32_be (md_h c ! 0) @ CRYPTO_store_u32_be (md_h c ! 1)
          @ CRYPTO_store_u32_be (md_h c ! 2) @ CRYPTO_store_u32_be (md_h c ! 3)
          @ CRYPTO_store_u32_be (md_h c ! 4)) c)"

definition SHA1 :: "bytes \<Rightarrow> bytes \<Rightarrow> bytes" where
  "SHA1 inp out = (case SHA1_Final (SHA1_Update SHA1_Init inp) of
     (Some d, _) \<Rightarrow> OPENSSL_memcpy out 0 d | (None, _) \<Rightarrow> out)"

section \<open>FIPS 180-4\<close>

fun sha1_W :: "u32 list \<Rightarrow> nat \<Rightarrow> u32" where
  "sha1_W M t =
     (if t < 16 then M ! t
      else word_rotl 1 (sha1_W M (t - 3) XOR sha1_W M (t - 8) XOR sha1_W M (t - 14) XOR sha1_W M (t - 16)))"

declare sha1_W.simps [simp del]

definition sha1_f :: "nat \<Rightarrow> u32 \<Rightarrow> u32 \<Rightarrow> u32 \<Rightarrow> u32" where
  "sha1_f t x y z =
     (if t < 20 then Ch x y z else if t < 40 then x XOR y XOR z
      else if t < 60 then Maj x y z else x XOR y XOR z)"

definition sha1_K :: "nat \<Rightarrow> u32" where
  "sha1_K t = (if t < 20 then 0x5a827999 else if t < 40 then 0x6ed9eba1
     else if t < 60 then 0x8f1bbcdc else 0xca62c1d6)"

fun sha1_step :: "u32 list \<Rightarrow> nat \<Rightarrow> u32 list \<Rightarrow> u32 list" where
  "sha1_step M t [a, b, c, d, e] =
     [word_rotl 5 a + sha1_f t b c d + e + sha1_K t + sha1_W M t, a, word_rotl 30 b, c, d]"
| "sha1_step M t v = v"

definition sha1_words :: "bytes \<Rightarrow> u32 list" where
  "sha1_words b = map (\<lambda>j. word_of_nat (be_nat (take 4 (drop (4 * j) b)))) [0..<16]"

definition sha1_compress :: "u32 list \<Rightarrow> bytes \<Rightarrow> u32 list" where
  "sha1_compress hh b = map2 (+) hh (foldl (\<lambda>v t. sha1_step (sha1_words b) t v) hh [0..<80])"

definition sha1_spec :: "bytes \<Rightarrow> bytes" where
  "sha1_spec m = concat (map (\<lambda>w. be_bytes 4 (unat w))
     (hash_blocks sha1_compress 64 [0x67452301, 0xefcdab89, 0x98badcfe, 0x10325476, 0xc3d2e1f0]
        (md_pad 64 (be_bytes 8 (8 * length m)) m)))"

section \<open>The block function computes the rounds of the standard\<close>

text \<open>\<^verbatim>\<open>hreg t j\<close> is the place of the standard's \<^verbatim>\<open>j\<close>-th variable before round \<^verbatim>\<open>t\<close>, and \<^verbatim>\<open>hreg t 5\<close> the free one.\<close>

definition hreg :: "nat \<Rightarrow> nat \<Rightarrow> nat" where
  "hreg t j = (j + 5 * (t mod 6)) mod 6"

definition hregs :: "nat \<Rightarrow> nat list" where
  "hregs t = [hreg t 0, hreg t 1, hreg t 2, hreg t 3, hreg t 4, hreg t 5]"

definition hview :: "nat \<Rightarrow> 'w list \<Rightarrow> 'w list" where
  "hview t v = [v ! hreg t 0, v ! hreg t 1, v ! hreg t 2, v ! hreg t 3, v ! hreg t 4]"

lemma mod_6_cases:
  obtains "t mod 6 = 0" | "t mod 6 = 1" | "t mod 6 = 2" | "t mod 6 = 3" | "t mod 6 = 4" | "t mod 6 = (5 :: nat)"
proof -
  have "t mod 6 < 6" by simp
  then have "t mod 6 \<in> {0, 1, 2, 3, 4, 5}" by auto
  then show ?thesis using that by auto
qed

lemma hreg_less [simp]: "hreg t j < 6"
  by (simp add: hreg_def)

lemma hreg_distinct [simp]:
  "hreg t 5 \<noteq> hreg t 0" "hreg t 5 \<noteq> hreg t (Suc 0)" "hreg t (Suc 0) \<noteq> hreg t 5" "hreg t 5 \<noteq> hreg t 2" "hreg t 5 \<noteq> hreg t 3" "hreg t 5 \<noteq> hreg t 4"
  by (rule mod_6_cases [of t], simp_all add: hreg_def)+

lemma length_6: "length v = 6 \<Longrightarrow> \<exists>a b c d e f. v = [a, b, c, d, e, f]"
  by (auto simp: eval_nat_numeral length_Suc_conv)

lemma hview_write:
  assumes "length v = 6"
  shows "hview (Suc t) (v[hreg t 5 := x, hreg t 1 := y]) = [x, v ! hreg t 0, y, v ! hreg t 2, v ! hreg t 3]"
proof -
  obtain a b c d e f where v: "v = [a, b, c, d, e, f]" using length_6 [OF assms] by blast
  show ?thesis
    unfolding v by (rule mod_6_cases [of t]) (simp_all add: hview_def hreg_def mod_Suc)
qed

text \<open>
  Before round \<^verbatim>\<open>t\<close> the places hold the standard's variables and the sixteen words the part of the
  message schedule that is still needed.
\<close>

definition sha1_inv :: "u32 list \<Rightarrow> u32 list \<Rightarrow> nat \<Rightarrow> u32 list \<times> u32 list \<Rightarrow> bool" where
  "sha1_inv M v0 t st \<longleftrightarrow>
     length (fst st) = 6 \<and> length (snd st) = 16 \<and>
     hview t (fst st) = foldl (\<lambda>v i. sha1_step M i v) v0 [0..<t] \<and>
     (\<forall>u. u < max t 16 \<longrightarrow> max t 16 \<le> u + 16 \<longrightarrow> snd st ! (u mod 16) = sha1_W M u)"

lemma sha1_inv_step:
  assumes inv: "sha1_inv M v0 t (v, X)" and r: "[a, b, c, d, e, f] = hregs t"
    and w: "x = word_rotl 5 (v ! a) + sha1_f t (v ! b) (v ! c) (v ! d) + v ! e + sha1_K t + sha1_W M t"
    and "y = word_rotl 30 (v ! b)" and "X' = (if t < 16 then X else X[t mod 16 := sha1_W M t])"
  shows "sha1_inv M v0 (Suc t) (v[f := x, b := y], X')"
proof -
  have len: "length v = 6" "length X = 16" using inv by (simp_all add: sha1_inv_def)
  have "sha1_step M t (hview t v) = [x, v ! hreg t 0, y, v ! hreg t 2, v ! hreg t 3]"
    using r w assms(4) by (simp add: hregs_def hview_def)
  then have step: "hview (Suc t) (v[f := x, b := y]) = foldl (\<lambda>v i. sha1_step M i v) v0 [0..<Suc t]"
    using inv hview_write [OF len(1), of t x y] r by (simp add: sha1_inv_def hregs_def)
  have old: "X ! (u mod 16) = sha1_W M u" if "u < max t 16" "max t 16 \<le> u + 16" for u
    using inv that by (simp add: sha1_inv_def)
  have "X' ! (u mod 16) = sha1_W M u" if u: "u < max (Suc t) 16" "max (Suc t) 16 \<le> u + 16" for u
  proof (cases "t < 16")
    case True
    then show ?thesis using old u assms(5) by simp
  next
    case False
    then show ?thesis using buffer_step [of X t "sha1_W M" u] old u assms(5) len by simp
  qed
  then show ?thesis using step len assms(5) by (simp add: sha1_inv_def)
qed

lemma sha1_schedule:
  assumes "sha1_inv M v0 t (v, X)" and "16 \<le> t"
  shows "CRYPTO_rotl_u32 (X ! (t mod 16) XOR X ! ((t + 2) mod 16) XOR X ! ((t + 8) mod 16) XOR X ! ((t + 13) mod 16)) 1
    = sha1_W M t"
proof -
  have X: "X ! ((t + k) mod 16) = sha1_W M (t + k - 16)" if "k < 16" for k
  proof -
    have "(t + k - 16) mod 16 = (t + k) mod 16" using assms(2) by (simp add: le_mod_geq)
    moreover have "t + k - 16 < t" "t \<le> t + k - 16 + 16" using assms(2) that by simp_all
    then have "X ! ((t + k - 16) mod 16) = sha1_W M (t + k - 16)"
      using assms unfolding sha1_inv_def by (simp add: max_absorb1)
    ultimately show ?thesis by simp
  qed
  have t: "t + 2 - 16 = t - 14" "t + 8 - 16 = t - 8" "t + 13 - 16 = t - 3" by simp_all
  show ?thesis
    using X [of 0] X [of 2] X [of 8] X [of 13] rotl_u32 [of 1] assms(2)
    unfolding t by (simp add: sha1_W.simps [of M t] ac_simps)
qed

lemma sha1_funs:
  "t < 20 \<Longrightarrow> F_00_19 x y z = sha1_f t x y z"
  "20 \<le> t \<Longrightarrow> t < 40 \<Longrightarrow> F_20_39 x y z = sha1_f t x y z"
  "40 \<le> t \<Longrightarrow> t < 60 \<Longrightarrow> F_40_59 x y z = sha1_f t x y z"
  "60 \<le> t \<Longrightarrow> F_60_79 x y z = sha1_f t x y z"
  unfolding F_00_19_def F_20_39_def F_40_59_def F_60_79_def sha1_f_def Ch_def Maj_def
  by (auto intro!: bit_word_eqI simp: bit_simps)

lemma sha1_Ks:
  "t < 20 \<Longrightarrow> K_00_19 = sha1_K t" "20 \<le> t \<Longrightarrow> t < 40 \<Longrightarrow> K_20_39 = sha1_K t"
  "40 \<le> t \<Longrightarrow> t < 60 \<Longrightarrow> K_40_59 = sha1_K t" "60 \<le> t \<Longrightarrow> K_60_79 = sha1_K t"
  by (simp_all add: K_00_19_def K_20_39_def K_40_59_def K_60_79_def sha1_K_def)

lemma rotl_5_30: "CRYPTO_rotl_u32 x 5 = word_rotl 5 x" "CRYPTO_rotl_u32 x 30 = word_rotl 30 x"
  using rotl_u32 [of 5 x] rotl_u32 [of 30 x] by simp_all

lemma BODY_00_15_step:
  assumes "sha1_inv M v0 t st" and "[a, b, c, d, e, f] = hregs t" and "t < 16" and "x = t" and "t' = Suc t"
  shows "sha1_inv M v0 t' (BODY_00_15 t a b c d e f x st)"
proof -
  obtain v X where st: "st = (v, X)" by (cases st)
  have "X ! t = sha1_W M t" using assms(1,3) by (auto simp: sha1_inv_def st)
  moreover have "K_00_19 = sha1_K t" "F_00_19 = sha1_f t"
    using assms(3) sha1_Ks(1) [of t] sha1_funs(1) [of t] by (simp_all add: fun_eq_iff)
  moreover have "length v = 6" using assms(1) by (simp add: sha1_inv_def st)
  ultimately show ?thesis
    unfolding assms(5) st using assms(1-4)
    by (auto simp: BODY_00_15_def Let_def rotl_5_30 sha1_funs(1) sha1_Ks(1) hregs_def st ac_simps
        intro!: sha1_inv_step)
qed

text \<open>The body of a scheduled round, with the schedule word in \<^verbatim>\<open>f\<close> and in the buffer.\<close>

lemma sched_body_step:
  assumes inv: "sha1_inv M v0 t st" and r: "[a, b, c, d, e, f] = hregs t" and t: "16 \<le> t"
    and x: "[xi, xa, xb, xc, xd] = [t mod 16, t mod 16, (t + 2) mod 16, (t + 8) mod 16, (t + 13) mod 16]"
    and u: "Xupdate f xi xa xb xc xd st = (v, X)"
    and w: "w = sha1_W M t + v ! e + sha1_K t + word_rotl 5 (v ! a) + sha1_f t (v ! b) (v ! c) (v ! d)"
  shows "v ! f = sha1_W M t" and "X ! xa = sha1_W M t"
    and "sha1_inv M v0 (Suc t) ((v[f := w])[b := CRYPTO_rotl_u32 ((v[f := w]) ! b) 30], X)"
proof -
  obtain v1 X1 where st: "st = (v1, X1)" by (cases st)
  have len: "length v1 = 6" "length X1 = 16" using inv by (simp_all add: sha1_inv_def st)
  have U: "v = v1[f := sha1_W M t]" "X = X1[t mod 16 := sha1_W M t]"
    using u r x len sha1_schedule [OF inv [unfolded st] t] by (auto simp: Xupdate_def st Let_def hregs_def)
  then show "v ! f = sha1_W M t" "X ! xa = sha1_W M t" using r x len by (auto simp: hregs_def)
  have old: "v ! a = v1 ! a" "v ! b = v1 ! b" "v ! c = v1 ! c" "v ! d = v1 ! d" "v ! e = v1 ! e" "b \<noteq> f"
    using r by (auto simp: U hregs_def)
  then have "w = word_rotl 5 (v1 ! a) + sha1_f t (v1 ! b) (v1 ! c) (v1 ! d) + v1 ! e + sha1_K t + sha1_W M t"
    using w by (simp add: ac_simps)
  then have "sha1_inv M v0 (Suc t) (v1[f := w, b := word_rotl 30 (v1 ! b)], X)"
    using inv r t by (intro sha1_inv_step [of M v0 t v1 X1]) (auto simp: U st)
  moreover have "(v[f := w])[b := CRYPTO_rotl_u32 ((v[f := w]) ! b) 30] = v1[f := w, b := word_rotl 30 (v1 ! b)]"
    using old by (simp add: U rotl_5_30)
  ultimately show "sha1_inv M v0 (Suc t) ((v[f := w])[b := CRYPTO_rotl_u32 ((v[f := w]) ! b) 30], X)" by simp
qed

lemma BODY_sched_step:
  assumes inv: "sha1_inv M v0 t st" and r: "[a, b, c, d, e, f] = hregs t" and t: "16 \<le> t"
    and x: "[xi, xa, xb, xc, xd] = [t mod 16, t mod 16, (t + 2) mod 16, (t + 8) mod 16, (t + 13) mod 16]"
  shows "t < 20 \<Longrightarrow> t' = Suc t \<Longrightarrow> sha1_inv M v0 t' (BODY_16_19 t a b c d e f xi xa xb xc xd st)"
    and "20 \<le> t \<Longrightarrow> t < 40 \<Longrightarrow> t' = Suc t \<Longrightarrow> sha1_inv M v0 t' (BODY_20_31 t a b c d e f xi xa xb xc xd st)"
    and "20 \<le> t \<Longrightarrow> t < 40 \<Longrightarrow> t' = Suc t \<Longrightarrow> sha1_inv M v0 t' (BODY_32_39 t a b c d e f xa xb xc xd st)"
    and "40 \<le> t \<Longrightarrow> t < 60 \<Longrightarrow> t' = Suc t \<Longrightarrow> sha1_inv M v0 t' (BODY_40_59 t a b c d e f xa xb xc xd st)"
    and "60 \<le> t \<Longrightarrow> t' = Suc t \<Longrightarrow> sha1_inv M v0 t' (BODY_60_79 t a b c d e f xa xb xc xd st)"
proof -
  obtain v X where u: "Xupdate f xi xa xb xc xd st = (v, X)" by (cases "Xupdate f xi xa xb xc xd st")
  note S = sched_body_step [OF inv r t x u refl]
  have xx: "xi = xa" using x by simp
  note u' = u [unfolded xx]
  show "t < 20 \<Longrightarrow> t' = Suc t \<Longrightarrow> sha1_inv M v0 t' (BODY_16_19 t a b c d e f xi xa xb xc xd st)"
    using S by (simp add: BODY_16_19_def u Let_def sha1_funs(1) sha1_Ks(1) rotl_5_30(1) add.assoc)
  show "20 \<le> t \<Longrightarrow> t < 40 \<Longrightarrow> t' = Suc t \<Longrightarrow> sha1_inv M v0 t' (BODY_20_31 t a b c d e f xi xa xb xc xd st)"
    using S by (simp add: BODY_20_31_def u Let_def sha1_funs(2) sha1_Ks(2) rotl_5_30(1) add.assoc)
  show "20 \<le> t \<Longrightarrow> t < 40 \<Longrightarrow> t' = Suc t \<Longrightarrow> sha1_inv M v0 t' (BODY_32_39 t a b c d e f xa xb xc xd st)"
    using S by (simp add: BODY_32_39_def u' Let_def sha1_funs(2) sha1_Ks(2) rotl_5_30(1) add.assoc)
  show "40 \<le> t \<Longrightarrow> t < 60 \<Longrightarrow> t' = Suc t \<Longrightarrow> sha1_inv M v0 t' (BODY_40_59 t a b c d e f xa xb xc xd st)"
    using S by (simp add: BODY_40_59_def u' Let_def sha1_funs(3) sha1_Ks(3) rotl_5_30(1) add.assoc)
  show "60 \<le> t \<Longrightarrow> t' = Suc t \<Longrightarrow> sha1_inv M v0 t' (BODY_60_79 t a b c d e f xa xb xc xd st)"
    using S by (simp add: BODY_60_79_def u' Let_def sha1_funs(4) sha1_Ks(4) rotl_5_30(1) add.assoc)
qed

lemma sha1_rounds:
  "sha1_inv M v0 0 st \<Longrightarrow> sha1_inv M v0 16 (sha1_rounds_00_15 st)"
  "sha1_inv M v0 16 st \<Longrightarrow> sha1_inv M v0 20 (sha1_rounds_16_19 st)"
  "sha1_inv M v0 20 st \<Longrightarrow> sha1_inv M v0 32 (sha1_rounds_20_31 st)"
  "sha1_inv M v0 32 st \<Longrightarrow> sha1_inv M v0 40 (sha1_rounds_32_39 st)"
  "sha1_inv M v0 40 st \<Longrightarrow> sha1_inv M v0 60 (sha1_rounds_40_59 st)"
  "sha1_inv M v0 60 st \<Longrightarrow> sha1_inv M v0 80 (sha1_rounds_60_79 st)"
  subgoal unfolding sha1_rounds_00_15_def Let_def by (intro BODY_00_15_step) (simp_all add: hregs_def hreg_def)
  subgoal unfolding sha1_rounds_16_19_def Let_def by (intro BODY_sched_step(1)) (simp_all add: hregs_def hreg_def)
  subgoal unfolding sha1_rounds_20_31_def Let_def by (intro BODY_sched_step(2)) (simp_all add: hregs_def hreg_def)
  subgoal unfolding sha1_rounds_32_39_def Let_def by (intro BODY_sched_step(3)) (simp_all add: hregs_def hreg_def)
  subgoal unfolding sha1_rounds_40_59_def Let_def by (intro BODY_sched_step(4)) (simp_all add: hregs_def hreg_def)
  subgoal unfolding sha1_rounds_60_79_def Let_def by (intro BODY_sched_step(5)) (simp_all add: hregs_def hreg_def)
  done

lemma length_sha1_step [simp]: "length (sha1_step M t v) = length v"
  by (cases "(M, t, v)" rule: sha1_step.cases) simp_all

lemma length_sha1_steps [simp]: "length (foldl (\<lambda>v t. sha1_step M t v) v ts) = length v"
  by (induction ts arbitrary: v) simp_all

lemma sha1_X_words: "64 \<le> length b \<Longrightarrow> sha1_X b = sha1_words (take 64 b)"
  by (auto simp: sha1_X_def sha1_words_def load_u32_be take_drop min_def intro!: arg_cong [of _ _ be_nat])

lemma length_5: "length v = 5 \<Longrightarrow> \<exists>a b c d e. v = [a, b, c, d, e]"
  by (auto simp: eval_nat_numeral length_Suc_conv)

lemma sha1_block_compress:
  assumes "64 \<le> length b" and "length v = 5"
  shows "sha1_block v b = sha1_compress v (take 64 b)"
proof -
  define M where "M = sha1_words (take 64 b)"
  define st where "st = ([v ! 0, v ! 1, v ! 2, v ! 3, v ! 4, 0], sha1_X b)"
  define st' where "st' = sha1_rounds_60_79 (sha1_rounds_40_59 (sha1_rounds_32_39
    (sha1_rounds_20_31 (sha1_rounds_16_19 (sha1_rounds_00_15 st)))))"
  have v: "v = [v ! 0, v ! 1, v ! 2, v ! 3, v ! 4]"
    using length_5 [OF assms(2)] by (auto simp: numeral_eq_Suc)
  have "sha1_X b = M" and "length M = 16"
    using sha1_X_words [OF assms(1)] by (simp_all add: M_def sha1_words_def)
  then have "sha1_inv M v 0 st"
    by (auto simp: sha1_inv_def st_def hview_def hreg_def sha1_W.simps v [simplified, symmetric])
  then have "sha1_inv M v 80 st'"
    unfolding st'_def by (intro sha1_rounds)
  then have "[fst st' ! 4, fst st' ! 5, fst st' ! 0, fst st' ! 1, fst st' ! 2] = foldl (\<lambda>v i. sha1_step M i v) v [0..<80]"
    by (simp add: sha1_inv_def hview_def hreg_def)
  moreover have "sha1_block v b = map2 (+) [v ! 0, v ! 1, v ! 2, v ! 3, v ! 4]
      [fst st' ! 4, fst st' ! 5, fst st' ! 0, fst st' ! 1, fst st' ! 2]"
    unfolding sha1_block_def Let_def st_def [symmetric] st'_def [symmetric] case_prod_unfold by simp
  ultimately show ?thesis
    unfolding sha1_compress_def M_def v [symmetric] by simp
qed

lemma length_sha1_compress [simp]: "length (sha1_compress v b) = length v"
  by (simp add: sha1_compress_def)

interpretation sha1_md: md32_hash sha1_block_data_order sha1_compress 64 "\<lambda>v. length v = 5"
  by unfold_locales (simp_all add: sha1_block_compress sha1_block_data_order_def)

lemma SHA1_Update_eq: "SHA1_Update = crypto_md32_update sha1_block_data_order 64"
  by (intro ext) (simp add: SHA1_Update_def SHA_CBLOCK_def)

text \<open>C35: SHA-1 fed in any number of pieces of any size gives the FIPS 180-4 digest of the
  concatenation: the unrolled rounds, with their turning registers and the sixteen-word schedule
  kept in place, compute the standard's eighty rounds on every block.\<close>

theorem sha1_streaming: "fst (SHA1_Final (foldl SHA1_Update SHA1_Init xs)) = Some (sha1_spec (concat xs))"
proof -
  define v where "v = hash_blocks sha1_compress 64 (md_h SHA1_Init)
    (md_pad 64 (be_bytes 8 (8 * length (concat xs))) (concat xs))"
  have init: "md32_repr sha1_compress 64 (md_h SHA1_Init) SHA1_Init []" "length (md_h SHA1_Init) = 5"
    by (simp_all add: md32_repr_def collects_init SHA1_Init_def SHA_CBLOCK_def bit_count_def)
  have "md_h (crypto_md32_final sha1_block_data_order 64 True (foldl SHA1_Update SHA1_Init xs)) = v"
    using sha1_md.final_updates [OF init, of True xs] by (simp add: SHA1_Update_eq v_def md32_length_def)
  moreover have "length v = 5" unfolding v_def by (rule sha1_md.valid_hash_blocks [OF init(2)])
  moreover have "sha1_spec (concat xs) = concat (map (\<lambda>w. be_bytes 4 (unat w)) v)"
    by (simp add: sha1_spec_def v_def SHA1_Init_def)
  ultimately show ?thesis
    using length_5 [of v] by (auto simp: SHA1_Final_def SHA_CBLOCK_def Let_def store_u32_be numeral_eq_Suc)
qed

end
