(* ===== verification/Quad_Rounds.thy ===== *)
theory Quad_Rounds
  imports MD32
begin

text \<open>
  The shape MD4 and MD5 share: four chaining variables, of which each step rewrites one, named by
  turns.  In the RFCs a step is a shift of the four variables; in the C code the variables stay in
  place and the macro arguments turn.  \<^verbatim>\<open>qreg t j\<close> is the place of the RFC's \<^verbatim>\<open>j\<close>-th variable before
  step \<^verbatim>\<open>t\<close>.
\<close>

fun quad_step :: "('w \<Rightarrow> 'w \<Rightarrow> 'w \<Rightarrow> 'w \<Rightarrow> 'w) \<Rightarrow> 'w list \<Rightarrow> 'w list" where
  "quad_step f [a, b, c, d] = [d, f a b c d, b, c]"
| "quad_step f v = v"

definition qreg :: "nat \<Rightarrow> nat \<Rightarrow> nat" where
  "qreg t j = (j + 3 * (t mod 4)) mod 4"

definition qview :: "nat \<Rightarrow> 'w list \<Rightarrow> 'w list" where
  "qview t v = [v ! qreg t 0, v ! qreg t 1, v ! qreg t 2, v ! qreg t 3]"

lemma length_quad_step [simp]: "length (quad_step f v) = length v"
  by (cases "(f, v)" rule: quad_step.cases) simp_all

lemma length_quad_fold [simp]: "length (foldl (\<lambda>v i. quad_step (g i) v) v is) = length v"
  by (induction "is" arbitrary: v) simp_all

lemma qreg_less [simp]: "qreg t j < 4"
  by (simp add: qreg_def)

lemma length_4: "length v = 4 \<Longrightarrow> \<exists>a b c d. v = [a, b, c, d]"
  by (auto simp: eval_nat_numeral length_Suc_conv)

lemma mod_4_cases:
  obtains "t mod 4 = 0" | "t mod 4 = 1" | "t mod 4 = 2" | "t mod 4 = (3 :: nat)"
proof -
  have "t mod 4 < 4" by simp
  then have "t mod 4 \<in> {0, 1, 2, 3}" by auto
  then show ?thesis using that by auto
qed

lemma qview_write:
  assumes "length v = 4"
  shows "qview (Suc t) (v[qreg t 0 := f (v ! qreg t 0) (v ! qreg t 1) (v ! qreg t 2) (v ! qreg t 3)])
    = quad_step f (qview t v)"
proof -
  obtain a b c d where v: "v = [a, b, c, d]" using length_4 [OF assms] by blast
  show ?thesis
    unfolding v by (rule mod_4_cases [of t]) (simp_all add: qview_def qreg_def mod_Suc)
qed

lemma qview_4: "length v = 4 \<Longrightarrow> t mod 4 = 0 \<Longrightarrow> qview t v = v"
  using length_4 [of v] by (auto simp: qview_def qreg_def)

text \<open>Before step \<^verbatim>\<open>t\<close> the places hold the RFC's variables after \<^verbatim>\<open>t\<close> steps.\<close>

definition quad_inv :: "(nat \<Rightarrow> 'w \<Rightarrow> 'w \<Rightarrow> 'w \<Rightarrow> 'w \<Rightarrow> 'w) \<Rightarrow> 'w list \<Rightarrow> nat \<Rightarrow> 'w list \<Rightarrow> bool" where
  "quad_inv g v0 t v \<longleftrightarrow> length v = 4 \<and> qview t v = foldl (\<lambda>v i. quad_step (g i) v) v0 [0..<t]"

lemma quad_inv_step:
  assumes "quad_inv g v0 t v"
    and "w = v[qreg t 0 := g t (v ! qreg t 0) (v ! qreg t 1) (v ! qreg t 2) (v ! qreg t 3)]"
  shows "quad_inv g v0 (Suc t) w"
  using assms qview_write [of v t "g t"] by (simp add: quad_inv_def)

lemma quad_inv_init: "length v = 4 \<Longrightarrow> quad_inv g v 0 v"
  by (simp add: quad_inv_def qview_4)

lemma quad_inv_result:
  "quad_inv g v0 t v \<Longrightarrow> t mod 4 = 0 \<Longrightarrow> v = foldl (\<lambda>v i. quad_step (g i) v) v0 [0..<t]"
  unfolding quad_inv_def using qview_4 [of v t] by metis

end
