(* ===== verification/MD5.thy ===== *)
theory MD5
  imports Quad_Rounds
begin

text \<open>
  MD5, \<^verbatim>\<open>crypto/fipsmodule/md5/md5.c\<close>, in the portable C path.  The variables \<^verbatim>\<open>A\<close> to \<^verbatim>\<open>D\<close> of the block
  function are the places 0 to 3 of a list.  The main results are that the unrolled block function
  computes the step formula of RFC 1321 and that streaming gives the digest of the concatenation.
\<close>

unbundle bit_operations_syntax

section \<open>The block function\<close>

definition md5_F :: "u32 \<Rightarrow> u32 \<Rightarrow> u32 \<Rightarrow> u32" where
  "md5_F b c d = ((c XOR d) AND b) XOR d"

definition md5_G :: "u32 \<Rightarrow> u32 \<Rightarrow> u32 \<Rightarrow> u32" where
  "md5_G b c d = ((b XOR c) AND d) XOR c"

definition md5_H :: "u32 \<Rightarrow> u32 \<Rightarrow> u32 \<Rightarrow> u32" where
  "md5_H b c d = b XOR c XOR d"

definition md5_I :: "u32 \<Rightarrow> u32 \<Rightarrow> u32 \<Rightarrow> u32" where
  "md5_I b c d = (NOT d OR b) XOR c"

definition md5_R0 :: "nat \<Rightarrow> nat \<Rightarrow> nat \<Rightarrow> nat \<Rightarrow> u32 \<Rightarrow> int \<Rightarrow> u32 \<Rightarrow> u32 list \<Rightarrow> u32 list" where
  "md5_R0 a b c d k s t v = (let
     v = v[a := v ! a + (k + t + md5_F (v ! b) (v ! c) (v ! d))];
     v = v[a := CRYPTO_rotl_u32 (v ! a) s]
     in v[a := v ! a + v ! b])"

definition md5_R1 :: "nat \<Rightarrow> nat \<Rightarrow> nat \<Rightarrow> nat \<Rightarrow> u32 \<Rightarrow> int \<Rightarrow> u32 \<Rightarrow> u32 list \<Rightarrow> u32 list" where
  "md5_R1 a b c d k s t v = (let
     v = v[a := v ! a + (k + t + md5_G (v ! b) (v ! c) (v ! d))];
     v = v[a := CRYPTO_rotl_u32 (v ! a) s]
     in v[a := v ! a + v ! b])"

definition md5_R2 :: "nat \<Rightarrow> nat \<Rightarrow> nat \<Rightarrow> nat \<Rightarrow> u32 \<Rightarrow> int \<Rightarrow> u32 \<Rightarrow> u32 list \<Rightarrow> u32 list" where
  "md5_R2 a b c d k s t v = (let
     v = v[a := v ! a + (k + t + md5_H (v ! b) (v ! c) (v ! d))];
     v = v[a := CRYPTO_rotl_u32 (v ! a) s]
     in v[a := v ! a + v ! b])"

definition md5_R3 :: "nat \<Rightarrow> nat \<Rightarrow> nat \<Rightarrow> nat \<Rightarrow> u32 \<Rightarrow> int \<Rightarrow> u32 \<Rightarrow> u32 list \<Rightarrow> u32 list" where
  "md5_R3 a b c d k s t v = (let
     v = v[a := v ! a + (k + t + md5_I (v ! b) (v ! c) (v ! d))];
     v = v[a := CRYPTO_rotl_u32 (v ! a) s]
     in v[a := v ! a + v ! b])"

definition md5_round0 :: "u32 list \<Rightarrow> u32 list \<Rightarrow> u32 list" where
  "md5_round0 X v = (let
     v = md5_R0 0 1 2 3 (X ! 0) 7 0xd76aa478 v;
     v = md5_R0 3 0 1 2 (X ! 1) 12 0xe8c7b756 v;
     v = md5_R0 2 3 0 1 (X ! 2) 17 0x242070db v;
     v = md5_R0 1 2 3 0 (X ! 3) 22 0xc1bdceee v;
     v = md5_R0 0 1 2 3 (X ! 4) 7 0xf57c0faf v;
     v = md5_R0 3 0 1 2 (X ! 5) 12 0x4787c62a v;
     v = md5_R0 2 3 0 1 (X ! 6) 17 0xa8304613 v;
     v = md5_R0 1 2 3 0 (X ! 7) 22 0xfd469501 v;
     v = md5_R0 0 1 2 3 (X ! 8) 7 0x698098d8 v;
     v = md5_R0 3 0 1 2 (X ! 9) 12 0x8b44f7af v;
     v = md5_R0 2 3 0 1 (X ! 10) 17 0xffff5bb1 v;
     v = md5_R0 1 2 3 0 (X ! 11) 22 0x895cd7be v;
     v = md5_R0 0 1 2 3 (X ! 12) 7 0x6b901122 v;
     v = md5_R0 3 0 1 2 (X ! 13) 12 0xfd987193 v;
     v = md5_R0 2 3 0 1 (X ! 14) 17 0xa679438e v;
     v = md5_R0 1 2 3 0 (X ! 15) 22 0x49b40821 v
     in v)"

definition md5_round1 :: "u32 list \<Rightarrow> u32 list \<Rightarrow> u32 list" where
  "md5_round1 X v = (let
     v = md5_R1 0 1 2 3 (X ! 1) 5 0xf61e2562 v;
     v = md5_R1 3 0 1 2 (X ! 6) 9 0xc040b340 v;
     v = md5_R1 2 3 0 1 (X ! 11) 14 0x265e5a51 v;
     v = md5_R1 1 2 3 0 (X ! 0) 20 0xe9b6c7aa v;
     v = md5_R1 0 1 2 3 (X ! 5) 5 0xd62f105d v;
     v = md5_R1 3 0 1 2 (X ! 10) 9 0x02441453 v;
     v = md5_R1 2 3 0 1 (X ! 15) 14 0xd8a1e681 v;
     v = md5_R1 1 2 3 0 (X ! 4) 20 0xe7d3fbc8 v;
     v = md5_R1 0 1 2 3 (X ! 9) 5 0x21e1cde6 v;
     v = md5_R1 3 0 1 2 (X ! 14) 9 0xc33707d6 v;
     v = md5_R1 2 3 0 1 (X ! 3) 14 0xf4d50d87 v;
     v = md5_R1 1 2 3 0 (X ! 8) 20 0x455a14ed v;
     v = md5_R1 0 1 2 3 (X ! 13) 5 0xa9e3e905 v;
     v = md5_R1 3 0 1 2 (X ! 2) 9 0xfcefa3f8 v;
     v = md5_R1 2 3 0 1 (X ! 7) 14 0x676f02d9 v;
     v = md5_R1 1 2 3 0 (X ! 12) 20 0x8d2a4c8a v
     in v)"

definition md5_round2 :: "u32 list \<Rightarrow> u32 list \<Rightarrow> u32 list" where
  "md5_round2 X v = (let
     v = md5_R2 0 1 2 3 (X ! 5) 4 0xfffa3942 v;
     v = md5_R2 3 0 1 2 (X ! 8) 11 0x8771f681 v;
     v = md5_R2 2 3 0 1 (X ! 11) 16 0x6d9d6122 v;
     v = md5_R2 1 2 3 0 (X ! 14) 23 0xfde5380c v;
     v = md5_R2 0 1 2 3 (X ! 1) 4 0xa4beea44 v;
     v = md5_R2 3 0 1 2 (X ! 4) 11 0x4bdecfa9 v;
     v = md5_R2 2 3 0 1 (X ! 7) 16 0xf6bb4b60 v;
     v = md5_R2 1 2 3 0 (X ! 10) 23 0xbebfbc70 v;
     v = md5_R2 0 1 2 3 (X ! 13) 4 0x289b7ec6 v;
     v = md5_R2 3 0 1 2 (X ! 0) 11 0xeaa127fa v;
     v = md5_R2 2 3 0 1 (X ! 3) 16 0xd4ef3085 v;
     v = md5_R2 1 2 3 0 (X ! 6) 23 0x04881d05 v;
     v = md5_R2 0 1 2 3 (X ! 9) 4 0xd9d4d039 v;
     v = md5_R2 3 0 1 2 (X ! 12) 11 0xe6db99e5 v;
     v = md5_R2 2 3 0 1 (X ! 15) 16 0x1fa27cf8 v;
     v = md5_R2 1 2 3 0 (X ! 2) 23 0xc4ac5665 v
     in v)"

definition md5_round3 :: "u32 list \<Rightarrow> u32 list \<Rightarrow> u32 list" where
  "md5_round3 X v = (let
     v = md5_R3 0 1 2 3 (X ! 0) 6 0xf4292244 v;
     v = md5_R3 3 0 1 2 (X ! 7) 10 0x432aff97 v;
     v = md5_R3 2 3 0 1 (X ! 14) 15 0xab9423a7 v;
     v = md5_R3 1 2 3 0 (X ! 5) 21 0xfc93a039 v;
     v = md5_R3 0 1 2 3 (X ! 12) 6 0x655b59c3 v;
     v = md5_R3 3 0 1 2 (X ! 3) 10 0x8f0ccc92 v;
     v = md5_R3 2 3 0 1 (X ! 10) 15 0xffeff47d v;
     v = md5_R3 1 2 3 0 (X ! 1) 21 0x85845dd1 v;
     v = md5_R3 0 1 2 3 (X ! 8) 6 0x6fa87e4f v;
     v = md5_R3 3 0 1 2 (X ! 15) 10 0xfe2ce6e0 v;
     v = md5_R3 2 3 0 1 (X ! 6) 15 0xa3014314 v;
     v = md5_R3 1 2 3 0 (X ! 13) 21 0x4e0811a1 v;
     v = md5_R3 0 1 2 3 (X ! 4) 6 0xf7537e82 v;
     v = md5_R3 3 0 1 2 (X ! 11) 10 0xbd3af235 v;
     v = md5_R3 2 3 0 1 (X ! 2) 15 0x2ad7d2bb v;
     v = md5_R3 1 2 3 0 (X ! 9) 21 0xeb86d391 v
     in v)"

text \<open>
  The sixteen words of a block; the code interleaves these loads with the first round, which does
  not change what they read.
\<close>

definition md5_X :: "bytes \<Rightarrow> u32 list" where
  "md5_X inp = map (\<lambda>i. CRYPTO_load_u32_le (drop (4 * i) inp)) [0..<16]"

definition md5_block :: "u32 list \<Rightarrow> bytes \<Rightarrow> u32 list" where
  "md5_block state inp = (let X = md5_X inp in
     map2 (+) state (md5_round3 X (md5_round2 X (md5_round1 X (md5_round0 X state)))))"

fun md5_block_data_order :: "u32 block_func" where
  "md5_block_data_order state inp 0 = state"
| "md5_block_data_order state inp (Suc num) =
     md5_block_data_order (md5_block state inp) (drop 64 inp) num"

section \<open>Init, update and final\<close>

definition MD5_CBLOCK :: nat where "MD5_CBLOCK = 64"
definition MD5_DIGEST_LENGTH :: nat where "MD5_DIGEST_LENGTH = 16"

definition MD5_Init :: md32_ctx where
  "MD5_Init = \<lparr>md_h = [0x67452301, 0xefcdab89, 0x98badcfe, 0x10325476],
     md_Nl = 0, md_Nh = 0, md_data = replicate MD5_CBLOCK 0, md_num = 0\<rparr>"

definition MD5_Transform :: "md32_ctx \<Rightarrow> bytes \<Rightarrow> md32_ctx" where
  "MD5_Transform c block = c\<lparr>md_h := md5_block_data_order (md_h c) block 1\<rparr>"

definition MD5_Update :: "md32_ctx \<Rightarrow> bytes \<Rightarrow> md32_ctx" where
  "MD5_Update c inp = crypto_md32_update md5_block_data_order MD5_CBLOCK c inp"

definition MD5_Final :: "md32_ctx \<Rightarrow> (md32_ctx, bytes) cres" where
  "MD5_Final c = (let c = crypto_md32_final md5_block_data_order MD5_CBLOCK False c
     in returns (CRYPTO_store_u32_le (md_h c ! 0) @ CRYPTO_store_u32_le (md_h c ! 1)
          @ CRYPTO_store_u32_le (md_h c ! 2) @ CRYPTO_store_u32_le (md_h c ! 3)) c)"

definition MD5 :: "bytes \<Rightarrow> bytes \<Rightarrow> bytes" where
  "MD5 inp out = (case MD5_Final (MD5_Update MD5_Init inp) of
     (Some d, _) \<Rightarrow> OPENSSL_memcpy out 0 d | (None, _) \<Rightarrow> out)"

section \<open>RFC 1321\<close>

text \<open>The auxiliary functions, the order of the message words, the shifts and the sine table.\<close>

definition rfc1321_fun :: "nat \<Rightarrow> u32 \<Rightarrow> u32 \<Rightarrow> u32 \<Rightarrow> u32" where
  "rfc1321_fun i x y z =
     (if i < 16 then (x AND y) OR (NOT x AND z)
      else if i < 32 then (x AND z) OR (y AND NOT z)
      else if i < 48 then x XOR y XOR z
      else y XOR (x OR NOT z))"

definition rfc1321_k :: "nat \<Rightarrow> nat" where
  "rfc1321_k i =
     (if i < 16 then i else if i < 32 then (1 + 5 * i) mod 16
      else if i < 48 then (5 + 3 * i) mod 16 else 7 * i mod 16)"

definition rfc1321_s :: "nat \<Rightarrow> nat" where
  "rfc1321_s i = [[7, 12, 17, 22], [5, 9, 14, 20], [4, 11, 16, 23], [6, 10, 15, 21]] ! (i div 16) ! (i mod 4)"

definition rfc1321_T :: "u32 list" where
  "rfc1321_T =
    [0xd76aa478, 0xe8c7b756, 0x242070db, 0xc1bdceee, 0xf57c0faf, 0x4787c62a, 0xa8304613, 0xfd469501,
     0x698098d8, 0x8b44f7af, 0xffff5bb1, 0x895cd7be, 0x6b901122, 0xfd987193, 0xa679438e, 0x49b40821,
     0xf61e2562, 0xc040b340, 0x265e5a51, 0xe9b6c7aa, 0xd62f105d, 0x02441453, 0xd8a1e681, 0xe7d3fbc8,
     0x21e1cde6, 0xc33707d6, 0xf4d50d87, 0x455a14ed, 0xa9e3e905, 0xfcefa3f8, 0x676f02d9, 0x8d2a4c8a,
     0xfffa3942, 0x8771f681, 0x6d9d6122, 0xfde5380c, 0xa4beea44, 0x4bdecfa9, 0xf6bb4b60, 0xbebfbc70,
     0x289b7ec6, 0xeaa127fa, 0xd4ef3085, 0x04881d05, 0xd9d4d039, 0xe6db99e5, 0x1fa27cf8, 0xc4ac5665,
     0xf4292244, 0x432aff97, 0xab9423a7, 0xfc93a039, 0x655b59c3, 0x8f0ccc92, 0xffeff47d, 0x85845dd1,
     0x6fa87e4f, 0xfe2ce6e0, 0xa3014314, 0x4e0811a1, 0xf7537e82, 0xbd3af235, 0x2ad7d2bb, 0xeb86d391]"

definition md5_f :: "u32 list \<Rightarrow> nat \<Rightarrow> u32 \<Rightarrow> u32 \<Rightarrow> u32 \<Rightarrow> u32 \<Rightarrow> u32" where
  "md5_f X i a b c d = b + word_rotl (rfc1321_s i) (a + rfc1321_fun i b c d + X ! rfc1321_k i + rfc1321_T ! i)"

definition md5_words :: "bytes \<Rightarrow> u32 list" where
  "md5_words b = map (\<lambda>j. word_of_nat (le_nat (take 4 (drop (4 * j) b)))) [0..<16]"

definition md5_compress :: "u32 list \<Rightarrow> bytes \<Rightarrow> u32 list" where
  "md5_compress hh b = map2 (+) hh (foldl (\<lambda>v i. quad_step (md5_f (md5_words b) i) v) hh [0..<64])"

definition md5_spec :: "bytes \<Rightarrow> bytes" where
  "md5_spec m = concat (map (\<lambda>w. le_bytes 4 (unat w))
     (hash_blocks md5_compress 64 [0x67452301, 0xefcdab89, 0x98badcfe, 0x10325476]
        (md_pad 64 (le_bytes 8 (8 * length m)) m)))"

section \<open>The block function computes the steps of the RFC\<close>

lemma md5_funs:
  "i < 16 \<Longrightarrow> md5_F x y z = rfc1321_fun i x y z"
  "16 \<le> i \<Longrightarrow> i < 32 \<Longrightarrow> md5_G x y z = rfc1321_fun i x y z"
  "32 \<le> i \<Longrightarrow> i < 48 \<Longrightarrow> md5_H x y z = rfc1321_fun i x y z"
  "48 \<le> i \<Longrightarrow> md5_I x y z = rfc1321_fun i x y z"
  unfolding md5_F_def md5_G_def md5_H_def md5_I_def rfc1321_fun_def
  by (auto intro!: bit_word_eqI simp: bit_simps)

lemma rfc1321_s_range: "i < 64 \<Longrightarrow> 0 < rfc1321_s i \<and> rfc1321_s i < 32"
proof -
  assume "i < 64"
  then have "i div 16 < 4" by simp
  then have "i div 16 \<in> {0, 1, 2, 3}" by auto
  moreover have "i mod 4 < 4" by simp
  then have "i mod 4 \<in> {0, 1, 2, 3}" by auto
  ultimately show ?thesis unfolding rfc1321_s_def by (elim insertE emptyE) simp_all
qed

text \<open>The four macros as one step of the RFC, at the places and with the constants of step \<^verbatim>\<open>t\<close>.\<close>

lemma md5_R_step:
  assumes "quad_inv (md5_f X) v0 t v" and "t < 64" and "[a, b, c, d] = [qreg t 0, qreg t 1, qreg t 2, qreg t 3]"
    and "x = X ! rfc1321_k t" and "s = int (rfc1321_s t)" and "T = rfc1321_T ! t"
  shows "t < 16 \<Longrightarrow> t' = Suc t \<Longrightarrow> quad_inv (md5_f X) v0 t' (md5_R0 a b c d x s T v)"
    and "16 \<le> t \<Longrightarrow> t < 32 \<Longrightarrow> t' = Suc t \<Longrightarrow> quad_inv (md5_f X) v0 t' (md5_R1 a b c d x s T v)"
    and "32 \<le> t \<Longrightarrow> t < 48 \<Longrightarrow> t' = Suc t \<Longrightarrow> quad_inv (md5_f X) v0 t' (md5_R2 a b c d x s T v)"
    and "48 \<le> t \<Longrightarrow> t' = Suc t \<Longrightarrow> quad_inv (md5_f X) v0 t' (md5_R3 a b c d x s T v)"
proof -
  have len: "length v = 4" using assms(1) by (simp add: quad_inv_def)
  have ab: "qreg t 0 \<noteq> qreg t 1" by (rule mod_4_cases [of t]) (simp_all add: qreg_def)
  have rot: "CRYPTO_rotl_u32 y s = word_rotl (rfc1321_s t) y" for y
    using rotl_u32 rfc1321_s_range [OF assms(2)] by (simp add: assms(5))
  have put: "quad_inv (md5_f X) v0 (Suc t) (v[a := CRYPTO_rotl_u32 (v ! a + (x + T + f (v ! b) (v ! c) (v ! d))) s + v ! b])"
    if "\<And>x y z. f x y z = rfc1321_fun t x y z" for f
  proof -
    have "CRYPTO_rotl_u32 (v ! a + (x + T + f (v ! b) (v ! c) (v ! d))) s + v ! b
        = md5_f X t (v ! a) (v ! b) (v ! c) (v ! d)"
      by (simp add: that rot md5_f_def assms(4,6) ac_simps)
    then show ?thesis using quad_inv_step [OF assms(1) refl] assms(3) by simp
  qed
  have ab': "a < length v" "a \<noteq> b" using ab len assms(3) by auto
  show "t < 16 \<Longrightarrow> t' = Suc t \<Longrightarrow> quad_inv (md5_f X) v0 t' (md5_R0 a b c d x s T v)"
    using put [of md5_F] md5_funs(1) ab' by (simp add: md5_R0_def Let_def)
  show "16 \<le> t \<Longrightarrow> t < 32 \<Longrightarrow> t' = Suc t \<Longrightarrow> quad_inv (md5_f X) v0 t' (md5_R1 a b c d x s T v)"
    using put [of md5_G] md5_funs(2) ab' by (simp add: md5_R1_def Let_def)
  show "32 \<le> t \<Longrightarrow> t < 48 \<Longrightarrow> t' = Suc t \<Longrightarrow> quad_inv (md5_f X) v0 t' (md5_R2 a b c d x s T v)"
    using put [of md5_H] md5_funs(3) ab' by (simp add: md5_R2_def Let_def)
  show "48 \<le> t \<Longrightarrow> t' = Suc t \<Longrightarrow> quad_inv (md5_f X) v0 t' (md5_R3 a b c d x s T v)"
    using put [of md5_I] md5_funs(4) ab' by (simp add: md5_R3_def Let_def)
qed

lemmas md5_step_simps = qreg_def rfc1321_k_def rfc1321_s_def rfc1321_T_def

lemma md5_rounds:
  "quad_inv (md5_f X) v0 0 v \<Longrightarrow> quad_inv (md5_f X) v0 16 (md5_round0 X v)"
  "quad_inv (md5_f X) v0 16 v \<Longrightarrow> quad_inv (md5_f X) v0 32 (md5_round1 X v)"
  "quad_inv (md5_f X) v0 32 v \<Longrightarrow> quad_inv (md5_f X) v0 48 (md5_round2 X v)"
  "quad_inv (md5_f X) v0 48 v \<Longrightarrow> quad_inv (md5_f X) v0 64 (md5_round3 X v)"
  subgoal unfolding md5_round0_def Let_def by (intro md5_R_step(1)) (simp_all add: md5_step_simps)
  subgoal unfolding md5_round1_def Let_def by (intro md5_R_step(2)) (simp_all add: md5_step_simps)
  subgoal unfolding md5_round2_def Let_def by (intro md5_R_step(3)) (simp_all add: md5_step_simps)
  subgoal unfolding md5_round3_def Let_def by (intro md5_R_step(4)) (simp_all add: md5_step_simps)
  done

lemma md5_X_words: "64 \<le> length b \<Longrightarrow> md5_X b = md5_words (take 64 b)"
  by (auto simp: md5_X_def md5_words_def CRYPTO_load_u32_le_def take_drop min_def intro!: arg_cong [of _ _ le_nat])

lemma md5_block_compress:
  assumes "64 \<le> length b" and "length v = 4"
  shows "md5_block v b = md5_compress v (take 64 b)"
  using quad_inv_result [OF md5_rounds(4) [OF md5_rounds(3) [OF md5_rounds(2) [OF md5_rounds(1)
    [OF quad_inv_init [OF assms(2)], of "md5_X b"]]]]]
  unfolding md5_block_def md5_compress_def Let_def md5_X_words [OF assms(1)] by simp

lemma length_md5_compress [simp]: "length (md5_compress v b) = length v"
  by (simp add: md5_compress_def)

interpretation md5_md: md32_hash md5_block_data_order md5_compress 64 "\<lambda>v. length v = 4"
  by unfold_locales (simp_all add: md5_block_compress)

lemma MD5_Update_eq: "MD5_Update = crypto_md32_update md5_block_data_order 64"
  by (intro ext) (simp add: MD5_Update_def MD5_CBLOCK_def)

text \<open>C36: MD5 fed in any number of pieces of any size gives the RFC 1321 digest of the concatenation:
  the unrolled and simplified steps of the code compute the step formula of the RFC on every block.\<close>

theorem md5_streaming: "fst (MD5_Final (foldl MD5_Update MD5_Init xs)) = Some (md5_spec (concat xs))"
proof -
  define v where "v = hash_blocks md5_compress 64 (md_h MD5_Init)
    (md_pad 64 (le_bytes 8 (8 * length (concat xs))) (concat xs))"
  have init: "md32_repr md5_compress 64 (md_h MD5_Init) MD5_Init []" "length (md_h MD5_Init) = 4"
    by (simp_all add: md32_repr_def collects_init MD5_Init_def MD5_CBLOCK_def bit_count_def)
  have "md_h (crypto_md32_final md5_block_data_order 64 False (foldl MD5_Update MD5_Init xs)) = v"
    using md5_md.final_updates [OF init, of False xs] by (simp add: MD5_Update_eq v_def md32_length_def)
  moreover have "length v = 4" unfolding v_def by (rule md5_md.valid_hash_blocks [OF init(2)])
  moreover have "md5_spec (concat xs) = concat (map (\<lambda>w. le_bytes 4 (unat w)) v)"
    by (simp add: md5_spec_def v_def MD5_Init_def)
  ultimately show ?thesis
    using length_4 [of v] by (auto simp: MD5_Final_def MD5_CBLOCK_def Let_def store_u32_le
        numeral_2_eq_2 numeral_3_eq_3)
qed

end
