(* ===== verification/MD4.thy ===== *)
theory MD4
  imports Quad_Rounds
begin

text \<open>
  MD4, \<^verbatim>\<open>crypto/fipsmodule/md4/md4.c\<close>.  The variables \<^verbatim>\<open>A\<close> to \<^verbatim>\<open>D\<close> of the block function are the places
  0 to 3 of a list.  The unrolled block function computes the step formula of RFC 1320, and streaming
  gives the digest of the concatenation.
\<close>

unbundle bit_operations_syntax

section \<open>The block function\<close>

definition md4_F :: "u32 \<Rightarrow> u32 \<Rightarrow> u32 \<Rightarrow> u32" where
  "md4_F b c d = ((c XOR d) AND b) XOR d"

definition md4_G :: "u32 \<Rightarrow> u32 \<Rightarrow> u32 \<Rightarrow> u32" where
  "md4_G b c d = (b AND c) OR (b AND d) OR (c AND d)"

definition md4_H :: "u32 \<Rightarrow> u32 \<Rightarrow> u32 \<Rightarrow> u32" where
  "md4_H b c d = b XOR c XOR d"

definition md4_R0 :: "nat \<Rightarrow> nat \<Rightarrow> nat \<Rightarrow> nat \<Rightarrow> u32 \<Rightarrow> int \<Rightarrow> u32 \<Rightarrow> u32 list \<Rightarrow> u32 list" where
  "md4_R0 a b c d k s t v = (let
     v = v[a := v ! a + (k + t + md4_F (v ! b) (v ! c) (v ! d))]
     in v[a := CRYPTO_rotl_u32 (v ! a) s])"

definition md4_R1 :: "nat \<Rightarrow> nat \<Rightarrow> nat \<Rightarrow> nat \<Rightarrow> u32 \<Rightarrow> int \<Rightarrow> u32 \<Rightarrow> u32 list \<Rightarrow> u32 list" where
  "md4_R1 a b c d k s t v = (let
     v = v[a := v ! a + (k + t + md4_G (v ! b) (v ! c) (v ! d))]
     in v[a := CRYPTO_rotl_u32 (v ! a) s])"

definition md4_R2 :: "nat \<Rightarrow> nat \<Rightarrow> nat \<Rightarrow> nat \<Rightarrow> u32 \<Rightarrow> int \<Rightarrow> u32 \<Rightarrow> u32 list \<Rightarrow> u32 list" where
  "md4_R2 a b c d k s t v = (let
     v = v[a := v ! a + (k + t + md4_H (v ! b) (v ! c) (v ! d))]
     in v[a := CRYPTO_rotl_u32 (v ! a) s])"

definition md4_round0 :: "u32 list \<Rightarrow> u32 list \<Rightarrow> u32 list" where
  "md4_round0 X v = (let
     v = md4_R0 0 1 2 3 (X ! 0) 3 0 v;
     v = md4_R0 3 0 1 2 (X ! 1) 7 0 v;
     v = md4_R0 2 3 0 1 (X ! 2) 11 0 v;
     v = md4_R0 1 2 3 0 (X ! 3) 19 0 v;
     v = md4_R0 0 1 2 3 (X ! 4) 3 0 v;
     v = md4_R0 3 0 1 2 (X ! 5) 7 0 v;
     v = md4_R0 2 3 0 1 (X ! 6) 11 0 v;
     v = md4_R0 1 2 3 0 (X ! 7) 19 0 v;
     v = md4_R0 0 1 2 3 (X ! 8) 3 0 v;
     v = md4_R0 3 0 1 2 (X ! 9) 7 0 v;
     v = md4_R0 2 3 0 1 (X ! 10) 11 0 v;
     v = md4_R0 1 2 3 0 (X ! 11) 19 0 v;
     v = md4_R0 0 1 2 3 (X ! 12) 3 0 v;
     v = md4_R0 3 0 1 2 (X ! 13) 7 0 v;
     v = md4_R0 2 3 0 1 (X ! 14) 11 0 v;
     v = md4_R0 1 2 3 0 (X ! 15) 19 0 v
     in v)"

definition md4_round1 :: "u32 list \<Rightarrow> u32 list \<Rightarrow> u32 list" where
  "md4_round1 X v = (let
     v = md4_R1 0 1 2 3 (X ! 0) 3 0x5a827999 v;
     v = md4_R1 3 0 1 2 (X ! 4) 5 0x5a827999 v;
     v = md4_R1 2 3 0 1 (X ! 8) 9 0x5a827999 v;
     v = md4_R1 1 2 3 0 (X ! 12) 13 0x5a827999 v;
     v = md4_R1 0 1 2 3 (X ! 1) 3 0x5a827999 v;
     v = md4_R1 3 0 1 2 (X ! 5) 5 0x5a827999 v;
     v = md4_R1 2 3 0 1 (X ! 9) 9 0x5a827999 v;
     v = md4_R1 1 2 3 0 (X ! 13) 13 0x5a827999 v;
     v = md4_R1 0 1 2 3 (X ! 2) 3 0x5a827999 v;
     v = md4_R1 3 0 1 2 (X ! 6) 5 0x5a827999 v;
     v = md4_R1 2 3 0 1 (X ! 10) 9 0x5a827999 v;
     v = md4_R1 1 2 3 0 (X ! 14) 13 0x5a827999 v;
     v = md4_R1 0 1 2 3 (X ! 3) 3 0x5a827999 v;
     v = md4_R1 3 0 1 2 (X ! 7) 5 0x5a827999 v;
     v = md4_R1 2 3 0 1 (X ! 11) 9 0x5a827999 v;
     v = md4_R1 1 2 3 0 (X ! 15) 13 0x5a827999 v
     in v)"

definition md4_round2 :: "u32 list \<Rightarrow> u32 list \<Rightarrow> u32 list" where
  "md4_round2 X v = (let
     v = md4_R2 0 1 2 3 (X ! 0) 3 0x6ed9eba1 v;
     v = md4_R2 3 0 1 2 (X ! 8) 9 0x6ed9eba1 v;
     v = md4_R2 2 3 0 1 (X ! 4) 11 0x6ed9eba1 v;
     v = md4_R2 1 2 3 0 (X ! 12) 15 0x6ed9eba1 v;
     v = md4_R2 0 1 2 3 (X ! 2) 3 0x6ed9eba1 v;
     v = md4_R2 3 0 1 2 (X ! 10) 9 0x6ed9eba1 v;
     v = md4_R2 2 3 0 1 (X ! 6) 11 0x6ed9eba1 v;
     v = md4_R2 1 2 3 0 (X ! 14) 15 0x6ed9eba1 v;
     v = md4_R2 0 1 2 3 (X ! 1) 3 0x6ed9eba1 v;
     v = md4_R2 3 0 1 2 (X ! 9) 9 0x6ed9eba1 v;
     v = md4_R2 2 3 0 1 (X ! 5) 11 0x6ed9eba1 v;
     v = md4_R2 1 2 3 0 (X ! 13) 15 0x6ed9eba1 v;
     v = md4_R2 0 1 2 3 (X ! 3) 3 0x6ed9eba1 v;
     v = md4_R2 3 0 1 2 (X ! 11) 9 0x6ed9eba1 v;
     v = md4_R2 2 3 0 1 (X ! 7) 11 0x6ed9eba1 v;
     v = md4_R2 1 2 3 0 (X ! 15) 15 0x6ed9eba1 v
     in v)"

text \<open>
  The sixteen words of a block; the code interleaves these loads with the first round, which does
  not change what they read.
\<close>

definition md4_X :: "bytes \<Rightarrow> u32 list" where
  "md4_X inp = map (\<lambda>i. CRYPTO_load_u32_le (drop (4 * i) inp)) [0..<16]"

definition md4_block :: "u32 list \<Rightarrow> bytes \<Rightarrow> u32 list" where
  "md4_block state inp = (let X = md4_X inp in
     map2 (+) state (md4_round2 X (md4_round1 X (md4_round0 X state))))"

fun md4_block_data_order :: "u32 block_func" where
  "md4_block_data_order state inp 0 = state"
| "md4_block_data_order state inp (Suc num) =
     md4_block_data_order (md4_block state inp) (drop 64 inp) num"

section \<open>Init, update and final\<close>

definition MD4_CBLOCK :: nat where "MD4_CBLOCK = 64"
definition MD4_DIGEST_LENGTH :: nat where "MD4_DIGEST_LENGTH = 16"

definition MD4_Init :: md32_ctx where
  "MD4_Init = \<lparr>md_h = [0x67452301, 0xefcdab89, 0x98badcfe, 0x10325476],
     md_Nl = 0, md_Nh = 0, md_data = replicate MD4_CBLOCK 0, md_num = 0\<rparr>"

definition MD4_Transform :: "md32_ctx \<Rightarrow> bytes \<Rightarrow> md32_ctx" where
  "MD4_Transform c block = c\<lparr>md_h := md4_block_data_order (md_h c) block 1\<rparr>"

definition MD4_Update :: "md32_ctx \<Rightarrow> bytes \<Rightarrow> md32_ctx" where
  "MD4_Update c inp = crypto_md32_update md4_block_data_order MD4_CBLOCK c inp"

definition MD4_Final :: "md32_ctx \<Rightarrow> (md32_ctx, bytes) cres" where
  "MD4_Final c = (let c = crypto_md32_final md4_block_data_order MD4_CBLOCK False c
     in returns (CRYPTO_store_u32_le (md_h c ! 0) @ CRYPTO_store_u32_le (md_h c ! 1)
          @ CRYPTO_store_u32_le (md_h c ! 2) @ CRYPTO_store_u32_le (md_h c ! 3)) c)"

definition MD4 :: "bytes \<Rightarrow> bytes \<Rightarrow> bytes" where
  "MD4 inp out = (case MD4_Final (MD4_Update MD4_Init inp) of
     (Some d, _) \<Rightarrow> OPENSSL_memcpy out 0 d | (None, _) \<Rightarrow> out)"

section \<open>RFC 1320\<close>

definition rfc1320_fun :: "nat \<Rightarrow> u32 \<Rightarrow> u32 \<Rightarrow> u32 \<Rightarrow> u32" where
  "rfc1320_fun i x y z =
     (if i < 16 then (x AND y) OR (NOT x AND z)
      else if i < 32 then (x AND y) OR (x AND z) OR (y AND z)
      else x XOR y XOR z)"

definition rfc1320_k :: "nat \<Rightarrow> nat" where
  "rfc1320_k i =
     (if i < 16 then i else if i < 32 then 4 * (i mod 4) + i mod 16 div 4
      else [0, 8, 4, 12, 2, 10, 6, 14, 1, 9, 5, 13, 3, 11, 7, 15] ! (i mod 16))"

definition rfc1320_s :: "nat \<Rightarrow> nat" where
  "rfc1320_s i = [[3, 7, 11, 19], [3, 5, 9, 13], [3, 9, 11, 15]] ! (i div 16) ! (i mod 4)"

definition rfc1320_T :: "nat \<Rightarrow> u32" where
  "rfc1320_T i = (if i < 16 then 0 else if i < 32 then 0x5a827999 else 0x6ed9eba1)"

definition md4_f :: "u32 list \<Rightarrow> nat \<Rightarrow> u32 \<Rightarrow> u32 \<Rightarrow> u32 \<Rightarrow> u32 \<Rightarrow> u32" where
  "md4_f X i a b c d = word_rotl (rfc1320_s i) (a + rfc1320_fun i b c d + X ! rfc1320_k i + rfc1320_T i)"

definition md4_words :: "bytes \<Rightarrow> u32 list" where
  "md4_words b = map (\<lambda>j. word_of_nat (le_nat (take 4 (drop (4 * j) b)))) [0..<16]"

definition md4_compress :: "u32 list \<Rightarrow> bytes \<Rightarrow> u32 list" where
  "md4_compress hh b = map2 (+) hh (foldl (\<lambda>v i. quad_step (md4_f (md4_words b) i) v) hh [0..<48])"

definition md4_spec :: "bytes \<Rightarrow> bytes" where
  "md4_spec m = concat (map (\<lambda>w. le_bytes 4 (unat w))
     (hash_blocks md4_compress 64 [0x67452301, 0xefcdab89, 0x98badcfe, 0x10325476]
        (md_pad 64 (le_bytes 8 (8 * length m)) m)))"

section \<open>The block function computes the steps of the RFC\<close>

lemma md4_funs:
  "i < 16 \<Longrightarrow> md4_F x y z = rfc1320_fun i x y z"
  "16 \<le> i \<Longrightarrow> i < 32 \<Longrightarrow> md4_G x y z = rfc1320_fun i x y z"
  "32 \<le> i \<Longrightarrow> md4_H x y z = rfc1320_fun i x y z"
  unfolding md4_F_def md4_G_def md4_H_def rfc1320_fun_def
  by (auto intro!: bit_word_eqI simp: bit_simps)

lemma rfc1320_s_range: "i < 48 \<Longrightarrow> 0 < rfc1320_s i \<and> rfc1320_s i < 32"
proof -
  assume "i < 48"
  then have "i div 16 < 3" by simp
  then have "i div 16 \<in> {0, 1, 2}" by auto
  moreover have "i mod 4 < 4" by simp
  then have "i mod 4 \<in> {0, 1, 2, 3}" by auto
  ultimately show ?thesis unfolding rfc1320_s_def by (elim insertE emptyE) simp_all
qed

text \<open>The three macros as one step of the RFC, at the places and with the constants of step \<^verbatim>\<open>t\<close>.\<close>

lemma md4_R_step:
  assumes "quad_inv (md4_f X) v0 t v" and "t < 48" and "[a, b, c, d] = [qreg t 0, qreg t 1, qreg t 2, qreg t 3]"
    and "x = X ! rfc1320_k t" and "s = int (rfc1320_s t)" and "T = rfc1320_T t"
  shows "t < 16 \<Longrightarrow> t' = Suc t \<Longrightarrow> quad_inv (md4_f X) v0 t' (md4_R0 a b c d x s T v)"
    and "16 \<le> t \<Longrightarrow> t < 32 \<Longrightarrow> t' = Suc t \<Longrightarrow> quad_inv (md4_f X) v0 t' (md4_R1 a b c d x s T v)"
    and "32 \<le> t \<Longrightarrow> t' = Suc t \<Longrightarrow> quad_inv (md4_f X) v0 t' (md4_R2 a b c d x s T v)"
proof -
  have len: "length v = 4" using assms(1) by (simp add: quad_inv_def)
  have ab: "qreg t 0 \<noteq> qreg t 1" by (rule mod_4_cases [of t]) (simp_all add: qreg_def)
  have rot: "CRYPTO_rotl_u32 y s = word_rotl (rfc1320_s t) y" for y
    using rotl_u32 rfc1320_s_range [OF assms(2)] by (simp add: assms(5))
  have put: "quad_inv (md4_f X) v0 (Suc t) (v[a := CRYPTO_rotl_u32 (v ! a + (x + T + f (v ! b) (v ! c) (v ! d))) s])"
    if "\<And>x y z. f x y z = rfc1320_fun t x y z" for f
  proof -
    have "CRYPTO_rotl_u32 (v ! a + (x + T + f (v ! b) (v ! c) (v ! d))) s
        = md4_f X t (v ! a) (v ! b) (v ! c) (v ! d)"
      by (simp add: that rot md4_f_def assms(4,6) ac_simps)
    then show ?thesis using quad_inv_step [OF assms(1) refl] assms(3) by simp
  qed
  have ab': "a < length v" "a \<noteq> b" using ab len assms(3) by auto
  show "t < 16 \<Longrightarrow> t' = Suc t \<Longrightarrow> quad_inv (md4_f X) v0 t' (md4_R0 a b c d x s T v)"
    using put [of md4_F] md4_funs(1) ab' by (simp add: md4_R0_def Let_def)
  show "16 \<le> t \<Longrightarrow> t < 32 \<Longrightarrow> t' = Suc t \<Longrightarrow> quad_inv (md4_f X) v0 t' (md4_R1 a b c d x s T v)"
    using put [of md4_G] md4_funs(2) ab' by (simp add: md4_R1_def Let_def)
  show "32 \<le> t \<Longrightarrow> t' = Suc t \<Longrightarrow> quad_inv (md4_f X) v0 t' (md4_R2 a b c d x s T v)"
    using put [of md4_H] md4_funs(3) ab' by (simp add: md4_R2_def Let_def)
qed

lemmas md4_step_simps = qreg_def rfc1320_k_def rfc1320_s_def rfc1320_T_def

lemma md4_rounds:
  "quad_inv (md4_f X) v0 0 v \<Longrightarrow> quad_inv (md4_f X) v0 16 (md4_round0 X v)"
  "quad_inv (md4_f X) v0 16 v \<Longrightarrow> quad_inv (md4_f X) v0 32 (md4_round1 X v)"
  "quad_inv (md4_f X) v0 32 v \<Longrightarrow> quad_inv (md4_f X) v0 48 (md4_round2 X v)"
  subgoal unfolding md4_round0_def Let_def by (intro md4_R_step(1)) (simp_all add: md4_step_simps)
  subgoal unfolding md4_round1_def Let_def by (intro md4_R_step(2)) (simp_all add: md4_step_simps flip: numeral_2_eq_2)
  subgoal unfolding md4_round2_def Let_def by (intro md4_R_step(3)) (simp_all add: md4_step_simps)
  done

lemma md4_X_words: "64 \<le> length b \<Longrightarrow> md4_X b = md4_words (take 64 b)"
  by (auto simp: md4_X_def md4_words_def CRYPTO_load_u32_le_def take_drop min_def intro!: arg_cong [of _ _ le_nat])

lemma md4_block_compress:
  assumes "64 \<le> length b" and "length v = 4"
  shows "md4_block v b = md4_compress v (take 64 b)"
  using quad_inv_result [OF md4_rounds(3) [OF md4_rounds(2) [OF md4_rounds(1)
    [OF quad_inv_init [OF assms(2)], of "md4_X b"]]]]
  unfolding md4_block_def md4_compress_def Let_def md4_X_words [OF assms(1)] by simp

lemma length_md4_compress [simp]: "length (md4_compress v b) = length v"
  by (simp add: md4_compress_def)

interpretation md4_md: md32_hash md4_block_data_order md4_compress 64 "\<lambda>v. length v = 4"
  by unfold_locales (simp_all add: md4_block_compress)

lemma MD4_Update_eq: "MD4_Update = crypto_md32_update md4_block_data_order 64"
  by (intro ext) (simp add: MD4_Update_def MD4_CBLOCK_def)

lemma md4_streaming: "fst (MD4_Final (foldl MD4_Update MD4_Init xs)) = Some (md4_spec (concat xs))"
proof -
  define v where "v = hash_blocks md4_compress 64 (md_h MD4_Init)
    (md_pad 64 (le_bytes 8 (8 * length (concat xs))) (concat xs))"
  have init: "md32_repr md4_compress 64 (md_h MD4_Init) MD4_Init []" "length (md_h MD4_Init) = 4"
    by (simp_all add: md32_repr_def collects_init MD4_Init_def MD4_CBLOCK_def bit_count_def)
  have "md_h (crypto_md32_final md4_block_data_order 64 False (foldl MD4_Update MD4_Init xs)) = v"
    using md4_md.final_updates [OF init, of False xs] by (simp add: MD4_Update_eq v_def md32_length_def)
  moreover have "length v = 4" unfolding v_def by (rule md4_md.valid_hash_blocks [OF init(2)])
  moreover have "md4_spec (concat xs) = concat (map (\<lambda>w. le_bytes 4 (unat w)) v)"
    by (simp add: md4_spec_def v_def MD4_Init_def)
  ultimately show ?thesis
    using length_4 [of v] by (auto simp: MD4_Final_def MD4_CBLOCK_def Let_def store_u32_le
        numeral_2_eq_2 numeral_3_eq_3)
qed

end
