(* ===== verification/LHash.thy ===== *)
theory LHash
  imports CPrelude "HOL-Library.Multiset"
begin

text \<open>
  The chained hash table of \<^verbatim>\<open>crypto/lhash/lhash.c\<close>.  The array of buckets is a list of chains and a
  chain the list of its items; a pointer to a \<^verbatim>\<open>next\<close> field is the position it points to.  The hash and
  comparison callbacks are fields of the table, as in C; the helper arguments of the functions only cast
  pointers.  Which allocation sizes succeed is the parameter \<^verbatim>\<open>alloc\<close>.

  The invariant says that every item is in the bucket of its hash and that no two items are equal; the
  interface \<^verbatim>\<open>equality_table\<close> states what a table promises its callers, and the table is shown to
  meet it through resizing and failing allocations.
\<close>

section \<open>The table\<close>

definition kMinNumBuckets :: nat where "kMinNumBuckets = 16"
definition kMaxAverageChainLength :: nat where "kMaxAverageChainLength = 2"
definition kMinAverageChainLength :: nat where "kMinAverageChainLength = 1"

record 'd lhash_item =
  it_data :: 'd
  it_hash :: u32

record 'd lhash =
  lh_num_items :: nat
  lh_buckets :: "'d lhash_item list list"
  lh_num_buckets :: nat
  lh_callback_depth :: nat
  lh_comp :: "'d \<Rightarrow> 'd \<Rightarrow> int"
  lh_hash :: "'d \<Rightarrow> u32"

text \<open>\<^verbatim>\<open>sizeof(_LHASH)\<close>, \<^verbatim>\<open>sizeof(LHASH_ITEM *)\<close>, \<^verbatim>\<open>sizeof(LHASH_ITEM)\<close> and \<^verbatim>\<open>UINT_MAX\<close> on the target.\<close>

definition sizeof_LHASH :: nat where "sizeof_LHASH = 48"
definition sizeof_item_ptr :: nat where "sizeof_item_ptr = 8"
definition sizeof_LHASH_ITEM :: nat where "sizeof_LHASH_ITEM = 24"
definition LH_UINT_MAX :: nat where "LH_UINT_MAX = 2 ^ 32 - 1"

definition OPENSSL_lh_new :: "(nat \<Rightarrow> bool) \<Rightarrow> ('d \<Rightarrow> u32) \<Rightarrow> ('d \<Rightarrow> 'd \<Rightarrow> int) \<Rightarrow> 'd lhash option" where
  "OPENSSL_lh_new alloc hash cmp =
     (if \<not> alloc sizeof_LHASH then None
      else if \<not> alloc (sizeof_item_ptr * kMinNumBuckets) then None
      else Some \<lparr>lh_num_items = 0, lh_buckets = replicate kMinNumBuckets [], lh_num_buckets = kMinNumBuckets,
                 lh_callback_depth = 0, lh_comp = cmp, lh_hash = hash\<rparr>)"

definition OPENSSL_lh_num_items :: "'d lhash \<Rightarrow> nat" where
  "OPENSSL_lh_num_items lh = lh_num_items lh"

section \<open>Searching\<close>

text \<open>The position in a chain of the first item the test accepts, its length when there is none.\<close>

fun chain_pos :: "('d \<Rightarrow> bool) \<Rightarrow> 'd lhash_item list \<Rightarrow> nat" where
  "chain_pos eq [] = 0"
| "chain_pos eq (cur # rest) = (if eq (it_data cur) then 0 else Suc (chain_pos eq rest))"

definition get_next_ptr_and_hash :: "'d lhash \<Rightarrow> 'd \<Rightarrow> u32 \<times> nat \<times> nat" where
  "get_next_ptr_and_hash lh data = (let
     hash = lh_hash lh data;
     b = unat hash mod lh_num_buckets lh
     in (hash, b, chain_pos (\<lambda>x. lh_comp lh x data = 0) (lh_buckets lh ! b)))"

definition get_next_ptr_by_key :: "'d lhash \<Rightarrow> 'k \<Rightarrow> u32 \<Rightarrow> ('k \<Rightarrow> 'd \<Rightarrow> int) \<Rightarrow> nat \<times> nat" where
  "get_next_ptr_by_key lh key key_hash cmp_key = (let
     b = unat key_hash mod lh_num_buckets lh
     in (b, chain_pos (\<lambda>x. cmp_key key x = 0) (lh_buckets lh ! b)))"

text \<open>\<^verbatim>\<open>*next_ptr == NULL ? NULL : (*next_ptr)->data\<close>.\<close>

definition item_at :: "'d lhash \<Rightarrow> nat \<Rightarrow> nat \<Rightarrow> 'd option" where
  "item_at lh b k = (if k < length (lh_buckets lh ! b) then Some (it_data (lh_buckets lh ! b ! k)) else None)"

definition OPENSSL_lh_retrieve :: "'d lhash \<Rightarrow> 'd \<Rightarrow> 'd option" where
  "OPENSSL_lh_retrieve lh data = (let (_, b, k) = get_next_ptr_and_hash lh data in item_at lh b k)"

definition OPENSSL_lh_retrieve_key :: "'d lhash \<Rightarrow> 'k \<Rightarrow> u32 \<Rightarrow> ('k \<Rightarrow> 'd \<Rightarrow> int) \<Rightarrow> 'd option" where
  "OPENSSL_lh_retrieve_key lh key key_hash cmp_key =
     (let (b, k) = get_next_ptr_by_key lh key key_hash cmp_key in item_at lh b k)"

section \<open>Resizing\<close>

definition move_item :: "nat \<Rightarrow> 'd lhash_item list list \<Rightarrow> 'd lhash_item \<Rightarrow> 'd lhash_item list list" where
  "move_item n new_buckets cur = (let
     new_bucket = unat (it_hash cur) mod n
     in new_buckets[new_bucket := cur # new_buckets ! new_bucket])"

definition lh_rebucket :: "(nat \<Rightarrow> bool) \<Rightarrow> 'd lhash \<Rightarrow> nat \<Rightarrow> 'd lhash" where
  "lh_rebucket alloc lh new_num_buckets = (let
     alloc_size = size_mult sizeof_item_ptr new_num_buckets
     in if alloc_size div sizeof_item_ptr \<noteq> new_num_buckets then lh
        else if \<not> alloc alloc_size then lh
        else lh\<lparr>lh_num_buckets := new_num_buckets,
                lh_buckets := foldl (foldl (move_item new_num_buckets))
                                (replicate new_num_buckets []) (lh_buckets lh)\<rparr>)"

definition lh_maybe_resize :: "(nat \<Rightarrow> bool) \<Rightarrow> 'd lhash \<Rightarrow> 'd lhash" where
  "lh_maybe_resize alloc lh =
     (if lh_callback_depth lh > 0 then lh
      else let avg_chain_length = lh_num_items lh div lh_num_buckets lh in
        if avg_chain_length > kMaxAverageChainLength
        then let new_num_buckets = size_mult (lh_num_buckets lh) 2 in
          if new_num_buckets > lh_num_buckets lh then lh_rebucket alloc lh new_num_buckets else lh
        else if avg_chain_length < kMinAverageChainLength \<and> lh_num_buckets lh > kMinNumBuckets
        then let new_num_buckets = lh_num_buckets lh div 2;
                 new_num_buckets = (if new_num_buckets < kMinNumBuckets then kMinNumBuckets else new_num_buckets)
             in lh_rebucket alloc lh new_num_buckets
        else lh)"

section \<open>Insertion, deletion and iteration\<close>

text \<open>The result carries \<^verbatim>\<open>*old_data\<close>, which is NULL also when the call returns 0.\<close>

definition OPENSSL_lh_insert :: "(nat \<Rightarrow> bool) \<Rightarrow> 'd lhash \<Rightarrow> 'd \<Rightarrow> ('d lhash, 'd option) cres" where
  "OPENSSL_lh_insert alloc lh data = (let
     (hash, b, k) = get_next_ptr_and_hash lh data;
     chain = lh_buckets lh ! b
     in if k < length chain
        then returns (Some (it_data (chain ! k)))
               (lh\<lparr>lh_buckets := (lh_buckets lh)[b := chain[k := (chain ! k)\<lparr>it_data := data\<rparr>]]\<rparr>)
        else if \<not> alloc sizeof_LHASH_ITEM then fails lh
        else returns None (lh_maybe_resize alloc
               (lh\<lparr>lh_buckets := (lh_buckets lh)[b := chain @ [\<lparr>it_data = data, it_hash = hash\<rparr>]],
                   lh_num_items := lh_num_items lh + 1\<rparr>)))"

definition OPENSSL_lh_delete :: "(nat \<Rightarrow> bool) \<Rightarrow> 'd lhash \<Rightarrow> 'd \<Rightarrow> 'd option \<times> 'd lhash" where
  "OPENSSL_lh_delete alloc lh data = (let
     (_, b, k) = get_next_ptr_and_hash lh data;
     chain = lh_buckets lh ! b
     in if \<not> k < length chain then (None, lh)
        else (Some (it_data (chain ! k)), lh_maybe_resize alloc
               (lh\<lparr>lh_buckets := (lh_buckets lh)[b := take k chain @ drop (Suc k) chain],
                   lh_num_items := lh_num_items lh - 1\<rparr>)))"

text \<open>
  The iteration for callbacks that leave the table alone: \<^verbatim>\<open>func\<close> acts on what \<^verbatim>\<open>arg\<close> points to, of
  which the model passes the value along.  \<^verbatim>\<open>callback_depth\<close> saturates at \<^verbatim>\<open>UINT_MAX\<close>.
\<close>

definition OPENSSL_lh_doall_arg :: "(nat \<Rightarrow> bool) \<Rightarrow> 'd lhash \<Rightarrow> ('d \<Rightarrow> 's \<Rightarrow> 's) \<Rightarrow> 's \<Rightarrow> 's \<times> 'd lhash" where
  "OPENSSL_lh_doall_arg alloc lh func arg = (let
     lh = (if lh_callback_depth lh < LH_UINT_MAX then lh\<lparr>lh_callback_depth := lh_callback_depth lh + 1\<rparr> else lh);
     arg = foldl (foldl (\<lambda>arg cur. func (it_data cur) arg)) arg (lh_buckets lh);
     lh = (if lh_callback_depth lh < LH_UINT_MAX then lh\<lparr>lh_callback_depth := lh_callback_depth lh - 1\<rparr> else lh)
     in (arg, lh_maybe_resize alloc lh))"

section \<open>The interface of a table\<close>

text \<open>
  A table keeps at most one item of every class of equal items; \<^verbatim>\<open>same t\<close> is the equality it was
  created with.
\<close>

locale equality_table =
  fixes same :: "'t \<Rightarrow> 'd \<Rightarrow> 'd \<Rightarrow> bool"
    and inv :: "'t \<Rightarrow> bool"
    and look :: "'t \<Rightarrow> 'd \<Rightarrow> 'd option"
    and put :: "'d \<Rightarrow> 't \<Rightarrow> 't"
    and del :: "'d \<Rightarrow> 't \<Rightarrow> 't"
  assumes same_sym: "inv t \<Longrightarrow> same t x y \<Longrightarrow> same t y x"
    and same_trans: "inv t \<Longrightarrow> same t x y \<Longrightarrow> same t y z \<Longrightarrow> same t x z"
    and inv_put: "inv t \<Longrightarrow> inv (put x t)" and inv_del: "inv t \<Longrightarrow> inv (del x t)"
    and same_put: "inv t \<Longrightarrow> same (put x t) = same t" and same_del: "inv t \<Longrightarrow> same (del x t) = same t"
    and look_put: "inv t \<Longrightarrow> look (put x t) y = (if same t x y then Some x else look t y)"
    and look_del: "inv t \<Longrightarrow> look (del x t) y = (if same t x y then None else look t y)"
    and look_same: "inv t \<Longrightarrow> look t y = Some x \<Longrightarrow> same t x y"
begin

lemma del_put: "inv t \<Longrightarrow> look (del x (put x t)) y = look (del x t) y"
  by (simp add: look_del look_put inv_put same_put)

lemma put_put: "inv t \<Longrightarrow> same t x z \<Longrightarrow> look (put x (put z t)) y = look (put x t) y"
  using same_trans [of t x z y] by (auto simp: look_put inv_put same_put)

lemma put_commute:
  "inv t \<Longrightarrow> \<not> same t x z \<Longrightarrow> look (put x (put z t)) y = look (put z (put x t)) y"
  using same_trans [of t x y z] same_sym [of t z y] by (auto simp: look_put inv_put same_put)

end

section \<open>The invariant\<close>

text \<open>
  What the callers of a table provide: the comparison decides an equivalence, and equal data have
  equal hashes.
\<close>

definition lh_callbacks_ok :: "('d \<Rightarrow> 'd \<Rightarrow> int) \<Rightarrow> ('d \<Rightarrow> u32) \<Rightarrow> bool" where
  "lh_callbacks_ok cmp hash \<longleftrightarrow> equivp (\<lambda>x y. cmp x y = 0) \<and> (\<forall>x y. cmp x y = 0 \<longrightarrow> hash x = hash y)"

definition in_place :: "nat \<Rightarrow> 'd lhash_item list list \<Rightarrow> bool" where
  "in_place n bs \<longleftrightarrow> length bs = n \<and> (\<forall>i < n. \<forall>x \<in> set (bs ! i). unat (it_hash x) mod n = i)"

definition apart :: "('d \<Rightarrow> 'd \<Rightarrow> int) \<Rightarrow> 'd lhash_item list \<Rightarrow> bool" where
  "apart cmp xs \<longleftrightarrow> distinct xs \<and> (\<forall>x \<in> set xs. \<forall>y \<in> set xs. cmp (it_data x) (it_data y) = 0 \<longrightarrow> x = y)"

definition lh_inv :: "'d lhash \<Rightarrow> bool" where
  "lh_inv lh \<longleftrightarrow> lh_callbacks_ok (lh_comp lh) (lh_hash lh) \<and>
     kMinNumBuckets \<le> lh_num_buckets lh \<and> in_place (lh_num_buckets lh) (lh_buckets lh) \<and>
     lh_num_items lh = length (concat (lh_buckets lh)) \<and>
     (\<forall>x \<in> set (concat (lh_buckets lh)). it_hash x = lh_hash lh (it_data x)) \<and>
     apart (lh_comp lh) (concat (lh_buckets lh))"

lemma callbacks_ok_equiv:
  assumes "lh_callbacks_ok cmp hash"
  shows "cmp x x = 0" and "cmp x y = 0 \<Longrightarrow> cmp y x = 0" and "cmp x y = 0 \<Longrightarrow> cmp y z = 0 \<Longrightarrow> cmp x z = 0"
    and "cmp x y = 0 \<Longrightarrow> hash x = hash y"
  using assms equivp_reflp equivp_symp equivp_transp unfolding lh_callbacks_ok_def by fast+

section \<open>Chains and buckets\<close>

lemma chain_pos_le: "chain_pos P xs \<le> length xs"
  by (induction xs) auto

lemma chain_pos_less: "chain_pos P xs < length xs \<longleftrightarrow> (\<exists>x \<in> set xs. P (it_data x))"
  by (induction xs) auto

lemma chain_pos_nth: "chain_pos P xs < length xs \<Longrightarrow> P (it_data (xs ! chain_pos P xs))"
  by (induction xs) auto

lemma concat_bucket:
  assumes "b < length bs"
  obtains P Q where "concat bs = P @ bs ! b @ Q" and "\<And>c. concat (bs[b := c]) = P @ c @ Q"
proof (rule that)
  show "concat bs = concat (take b bs) @ bs ! b @ concat (drop (Suc b) bs)"
    using assms by (metis concat.simps(2) concat_append id_take_nth_drop)
  show "concat (bs[b := c]) = concat (take b bs) @ c @ concat (drop (Suc b) bs)" for c
    using assms by (simp add: upd_conv_take_nth_drop)
qed

lemma in_place_update:
  "in_place n bs \<Longrightarrow> (\<And>x. x \<in> set c \<Longrightarrow> unat (it_hash x) mod n = b) \<Longrightarrow> in_place n (bs[b := c])"
  unfolding in_place_def by (metis length_list_update nth_list_update nth_list_update_neq)

lemma in_bucket:
  assumes "in_place n bs" and "x \<in> set (concat bs)"
  shows "x \<in> set (bs ! (unat (it_hash x) mod n))"
proof -
  obtain c where "c \<in> set bs" "x \<in> set c" using assms(2) by auto
  then obtain i where "i < length bs" "x \<in> set (bs ! i)" by (metis in_set_conv_nth)
  with assms(1) show ?thesis by (auto simp: in_place_def)
qed

lemma apart_mset: "mset xs = mset ys \<Longrightarrow> apart cmp xs \<Longrightarrow> apart cmp ys"
  unfolding apart_def using mset_eq_imp_distinct_iff mset_eq_setD by metis

section \<open>Lookup\<close>

lemma lh_retrieve_iff:
  assumes inv: "lh_inv lh"
  shows "OPENSSL_lh_retrieve lh d = Some x
    \<longleftrightarrow> (\<exists>y \<in> set (concat (lh_buckets lh)). it_data y = x \<and> lh_comp lh x d = 0)"
proof -
  define b where "b = unat (lh_hash lh d) mod lh_num_buckets lh"
  define chain where "chain = lh_buckets lh ! b"
  define k where "k = chain_pos (\<lambda>x. lh_comp lh x d = 0) chain"
  have r: "OPENSSL_lh_retrieve lh d = (if k < length chain then Some (it_data (chain ! k)) else None)"
    by (simp add: OPENSSL_lh_retrieve_def get_next_ptr_and_hash_def item_at_def b_def chain_def k_def Let_def)
  note ok = callbacks_ok_equiv [of "lh_comp lh" "lh_hash lh"]
  have ip: "in_place (lh_num_buckets lh) (lh_buckets lh)" and cb: "lh_callbacks_ok (lh_comp lh) (lh_hash lh)"
    and n: "0 < lh_num_buckets lh" and ap: "apart (lh_comp lh) (concat (lh_buckets lh))"
    and hs: "\<And>x. x \<in> set (concat (lh_buckets lh)) \<Longrightarrow> it_hash x = lh_hash lh (it_data x)"
    using inv by (auto simp: lh_inv_def kMinNumBuckets_def)
  have "b < length (lh_buckets lh)" using ip n by (simp add: b_def in_place_def)
  then have sub: "set chain \<subseteq> set (concat (lh_buckets lh))"
    unfolding chain_def by (auto intro!: bexI [of _ "lh_buckets lh ! b"])
  have mem: "y \<in> set chain" if "y \<in> set (concat (lh_buckets lh))" "lh_comp lh (it_data y) d = 0" for y
    using in_bucket [OF ip that(1)] hs [OF that(1)] ok(4) [OF cb that(2)] by (simp add: chain_def b_def)
  have hit: "chain ! k \<in> set (concat (lh_buckets lh))" "lh_comp lh (it_data (chain ! k)) d = 0" if "k < length chain"
    using subsetD [OF sub nth_mem [OF that]] chain_pos_nth [OF that [unfolded k_def], folded k_def] by auto
  show ?thesis
  proof
    assume "OPENSSL_lh_retrieve lh d = Some x"
    then have "k < length chain" "x = it_data (chain ! k)" by (auto simp: r split: if_splits)
    then show "\<exists>y \<in> set (concat (lh_buckets lh)). it_data y = x \<and> lh_comp lh x d = 0"
      using hit by blast
  next
    assume "\<exists>y \<in> set (concat (lh_buckets lh)). it_data y = x \<and> lh_comp lh x d = 0"
    then obtain y where y: "y \<in> set (concat (lh_buckets lh))" "it_data y = x" "lh_comp lh x d = 0" by blast
    then have k: "k < length chain" unfolding k_def chain_pos_less using mem by blast
    have "lh_comp lh (it_data (chain ! k)) (it_data y) = 0"
      using hit(2) [OF k] y(2,3) ok(2,3) [OF cb] by blast
    then have "chain ! k = y" using ap y(1) hit(1) [OF k] unfolding apart_def by blast
    with k y(2) show "OPENSSL_lh_retrieve lh d = Some x" by (simp add: r)
  qed
qed

lemma lh_retrieve_cong:
  assumes "lh_inv a" and "lh_inv b" and "lh_comp a = lh_comp b"
    and "set (concat (lh_buckets a)) = set (concat (lh_buckets b))"
  shows "OPENSSL_lh_retrieve a d = OPENSSL_lh_retrieve b d"
  using lh_retrieve_iff [OF assms(1)] lh_retrieve_iff [OF assms(2)] assms(3,4)
  by (metis option.exhaust)

section \<open>Resizing keeps the items\<close>

lemma move_item_ok:
  assumes "in_place n bs" and "0 < n"
  shows "in_place n (move_item n bs x)" and "mset (concat (move_item n bs x)) = add_mset x (mset (concat bs))"
proof -
  define b where "b = unat (it_hash x) mod n"
  have b: "b < length bs" using assms by (simp add: b_def in_place_def)
  have m: "move_item n bs x = bs[b := x # bs ! b]" by (simp add: move_item_def b_def Let_def)
  show "in_place n (move_item n bs x)"
    unfolding m using assms(1) b by (intro in_place_update) (auto simp: in_place_def b_def)
  obtain P Q where "concat bs = P @ bs ! b @ Q" "\<And>c. concat (bs[b := c]) = P @ c @ Q"
    using concat_bucket [OF b] by blast
  then show "mset (concat (move_item n bs x)) = add_mset x (mset (concat bs))" by (simp add: m)
qed

lemma move_items_ok:
  assumes "0 < n"
  shows "in_place n bs \<Longrightarrow> in_place n (foldl (move_item n) bs xs) \<and>
    mset (concat (foldl (move_item n) bs xs)) = mset xs + mset (concat bs)"
  by (induction xs arbitrary: bs) (simp_all add: move_item_ok assms)

lemma move_chains_ok:
  assumes "0 < n"
  shows "in_place n bs \<Longrightarrow> in_place n (foldl (foldl (move_item n)) bs cs) \<and>
    mset (concat (foldl (foldl (move_item n)) bs cs)) = mset (concat cs) + mset (concat bs)"
  by (induction cs arbitrary: bs) (simp_all add: move_items_ok assms)

lemma lh_rebucket_ok:
  assumes inv: "lh_inv lh" and n: "kMinNumBuckets \<le> n"
  shows "lh_inv (lh_rebucket alloc lh n)"
    and "mset (concat (lh_buckets (lh_rebucket alloc lh n))) = mset (concat (lh_buckets lh))"
    and "lh_comp (lh_rebucket alloc lh n) = lh_comp lh" and "lh_hash (lh_rebucket alloc lh n) = lh_hash lh"
proof -
  have n0: "0 < n" using n by (simp add: kMinNumBuckets_def)
  define new where "new = foldl (foldl (move_item n)) (replicate n []) (lh_buckets lh)"
  have "in_place n (replicate n [] :: 'a lhash_item list list)" by (simp add: in_place_def)
  then have ip: "in_place n new" and ms: "mset (concat new) = mset (concat (lh_buckets lh))"
    using move_chains_ok [OF n0, of "replicate n []" "lh_buckets lh"] by (simp_all add: new_def)
  have cases: "lh_rebucket alloc lh n = lh \<or> lh_rebucket alloc lh n = lh\<lparr>lh_num_buckets := n, lh_buckets := new\<rparr>"
    by (simp add: lh_rebucket_def Let_def new_def)
  have "lh_inv (lh\<lparr>lh_num_buckets := n, lh_buckets := new\<rparr>)"
    using inv n ip mset_eq_setD [OF ms] mset_eq_length [OF ms] apart_mset [OF ms [symmetric]]
    by (simp add: lh_inv_def)
  then show "lh_inv (lh_rebucket alloc lh n)"
    using cases inv by auto
  show "mset (concat (lh_buckets (lh_rebucket alloc lh n))) = mset (concat (lh_buckets lh))"
    using cases ms by auto
  show "lh_comp (lh_rebucket alloc lh n) = lh_comp lh" "lh_hash (lh_rebucket alloc lh n) = lh_hash lh"
    using cases by auto
qed

lemma lh_maybe_resize_cases:
  assumes "lh_inv lh"
  obtains "lh_maybe_resize alloc lh = lh"
  | n where "kMinNumBuckets \<le> n" "lh_maybe_resize alloc lh = lh_rebucket alloc lh n"
proof -
  have "kMinNumBuckets \<le> lh_num_buckets lh" using assms by (simp add: lh_inv_def)
  then show ?thesis
    using that unfolding lh_maybe_resize_def Let_def by (smt (verit) less_imp_le_nat not_less order.trans)
qed

lemma lh_maybe_resize_ok:
  assumes "lh_inv lh"
  shows "lh_inv (lh_maybe_resize alloc lh)"
    and "mset (concat (lh_buckets (lh_maybe_resize alloc lh))) = mset (concat (lh_buckets lh))"
    and "lh_comp (lh_maybe_resize alloc lh) = lh_comp lh" and "lh_hash (lh_maybe_resize alloc lh) = lh_hash lh"
    and "OPENSSL_lh_retrieve (lh_maybe_resize alloc lh) d = OPENSSL_lh_retrieve lh d"
proof -
  show inv: "lh_inv (lh_maybe_resize alloc lh)"
    and ms: "mset (concat (lh_buckets (lh_maybe_resize alloc lh))) = mset (concat (lh_buckets lh))"
    and cmp: "lh_comp (lh_maybe_resize alloc lh) = lh_comp lh" and "lh_hash (lh_maybe_resize alloc lh) = lh_hash lh"
    using assms lh_rebucket_ok [OF assms] by (rule_tac lh_maybe_resize_cases [OF assms, of alloc]; simp)+
  show "OPENSSL_lh_retrieve (lh_maybe_resize alloc lh) d = OPENSSL_lh_retrieve lh d"
    by (rule lh_retrieve_cong [OF inv assms cmp mset_eq_setD [OF ms]])
qed

section \<open>Insertion and deletion\<close>

text \<open>What the search finds: \<^verbatim>\<open>found lh d b k P Q\<close> describes the place \<^verbatim>\<open>(b, k)\<close> and the items around its chain.\<close>

definition found :: "'d lhash \<Rightarrow> 'd \<Rightarrow> nat \<Rightarrow> nat \<Rightarrow> 'd lhash_item list \<Rightarrow> 'd lhash_item list \<Rightarrow> bool" where
  "found lh d b k P Q \<longleftrightarrow> get_next_ptr_and_hash lh d = (lh_hash lh d, b, k) \<and>
     b = unat (lh_hash lh d) mod lh_num_buckets lh \<and>
     concat (lh_buckets lh) = P @ lh_buckets lh ! b @ Q \<and> (\<forall>c. concat ((lh_buckets lh)[b := c]) = P @ c @ Q) \<and>
     (\<forall>x \<in> set (lh_buckets lh ! b). unat (it_hash x) mod lh_num_buckets lh = b) \<and>
     OPENSSL_lh_retrieve lh d =
       (if k < length (lh_buckets lh ! b) then Some (it_data (lh_buckets lh ! b ! k)) else None) \<and>
     (k < length (lh_buckets lh ! b) \<longrightarrow> lh_comp lh (it_data (lh_buckets lh ! b ! k)) d = 0) \<and>
     (\<not> k < length (lh_buckets lh ! b) \<longrightarrow> (\<forall>x \<in> set (concat (lh_buckets lh)). lh_comp lh (it_data x) d \<noteq> 0))"

lemma lh_search:
  assumes inv: "lh_inv lh"
  obtains b k P Q where "found lh d b k P Q"
proof -
  define b where "b = unat (lh_hash lh d) mod lh_num_buckets lh"
  define k where "k = chain_pos (\<lambda>x. lh_comp lh x d = 0) (lh_buckets lh ! b)"
  have b: "b < length (lh_buckets lh)" "b < lh_num_buckets lh"
    using inv by (simp_all add: lh_inv_def in_place_def b_def kMinNumBuckets_def)
  obtain P Q where "concat (lh_buckets lh) = P @ lh_buckets lh ! b @ Q"
    "\<And>c. concat ((lh_buckets lh)[b := c]) = P @ c @ Q" using concat_bucket [OF b(1)] by blast
  moreover have g: "get_next_ptr_and_hash lh d = (lh_hash lh d, b, k)"
    by (simp add: get_next_ptr_and_hash_def b_def k_def Let_def)
  moreover have r: "OPENSSL_lh_retrieve lh d =
      (if k < length (lh_buckets lh ! b) then Some (it_data (lh_buckets lh ! b ! k)) else None)"
    by (simp add: OPENSSL_lh_retrieve_def g item_at_def)
  moreover have "\<forall>x \<in> set (lh_buckets lh ! b). unat (it_hash x) mod lh_num_buckets lh = b"
    using inv b(2) by (simp add: lh_inv_def in_place_def)
  moreover have "k < length (lh_buckets lh ! b) \<longrightarrow> lh_comp lh (it_data (lh_buckets lh ! b ! k)) d = 0"
    using lh_retrieve_iff [OF inv, of d] r by force
  moreover have "\<not> k < length (lh_buckets lh ! b) \<longrightarrow> (\<forall>x \<in> set (concat (lh_buckets lh)). lh_comp lh (it_data x) d \<noteq> 0)"
    using lh_retrieve_iff [OF inv, of d] r by (metis option.distinct(1))
  ultimately show ?thesis using that [of b k P Q] by (simp add: found_def b_def)
qed

lemma foundD:
  assumes "found lh d b k P Q"
  shows "get_next_ptr_and_hash lh d = (lh_hash lh d, b, k)" and "unat (lh_hash lh d) mod lh_num_buckets lh = b"
    and "concat (lh_buckets lh) = P @ lh_buckets lh ! b @ Q" and "concat ((lh_buckets lh)[b := c]) = P @ c @ Q"
    and "x \<in> set (lh_buckets lh ! b) \<Longrightarrow> unat (it_hash x) mod lh_num_buckets lh = b"
    and "OPENSSL_lh_retrieve lh d =
       (if k < length (lh_buckets lh ! b) then Some (it_data (lh_buckets lh ! b ! k)) else None)"
    and "k < length (lh_buckets lh ! b) \<Longrightarrow> lh_comp lh (it_data (lh_buckets lh ! b ! k)) d = 0"
    and "\<not> k < length (lh_buckets lh ! b) \<Longrightarrow> x \<in> set (concat (lh_buckets lh)) \<Longrightarrow> lh_comp lh (it_data x) d \<noteq> 0"
  using assms unfolding found_def by blast+

lemma lh_put_look:
  assumes inv: "lh_inv lh" and l: "lh_inv l" "lh_comp l = lh_comp lh" and "it_data new = d"
    and items: "\<And>z. z \<in> set (concat (lh_buckets l)) \<longleftrightarrow>
      z = new \<or> z \<in> set (concat (lh_buckets lh)) \<and> lh_comp lh (it_data z) d \<noteq> 0"
  shows "OPENSSL_lh_retrieve l e = (if lh_comp lh d e = 0 then Some d else OPENSSL_lh_retrieve lh e)"
proof -
  have "lh_callbacks_ok (lh_comp lh) (lh_hash lh)" using inv by (simp add: lh_inv_def)
  note ok = callbacks_ok_equiv(2,3) [OF this]
  have "OPENSSL_lh_retrieve l e = Some x \<longleftrightarrow> (if lh_comp lh d e = 0 then Some d else OPENSSL_lh_retrieve lh e) = Some x" for x
  proof (cases "lh_comp lh d e = 0")
    case True
    then show ?thesis
      unfolding lh_retrieve_iff [OF l(1)] l(2) using assms(4) items ok by (metis option.inject)
  next
    case False
    then show ?thesis
      unfolding lh_retrieve_iff [OF l(1)] l(2) using lh_retrieve_iff [OF inv] assms(4) items ok by metis
  qed
  then show ?thesis by (metis option.exhaust)
qed

lemma lh_del_look:
  assumes inv: "lh_inv lh" and l: "lh_inv l" "lh_comp l = lh_comp lh"
    and items: "\<And>z. z \<in> set (concat (lh_buckets l)) \<longleftrightarrow>
      z \<in> set (concat (lh_buckets lh)) \<and> lh_comp lh (it_data z) d \<noteq> 0"
  shows "OPENSSL_lh_retrieve l e = (if lh_comp lh d e = 0 then None else OPENSSL_lh_retrieve lh e)"
proof -
  have "lh_callbacks_ok (lh_comp lh) (lh_hash lh)" using inv by (simp add: lh_inv_def)
  note ok = callbacks_ok_equiv(2,3) [OF this]
  have "OPENSSL_lh_retrieve l e = Some x \<longleftrightarrow> (if lh_comp lh d e = 0 then None else OPENSSL_lh_retrieve lh e) = Some x" for x
    unfolding lh_retrieve_iff [OF l(1)] l(2) using lh_retrieve_iff [OF inv] items ok by (metis option.distinct(1))
  then show ?thesis by (metis option.exhaust)
qed

text \<open>Changing one chain of a table.\<close>

lemma lh_inv_update:
  assumes inv: "lh_inv lh" and "\<And>x. x \<in> set c \<Longrightarrow> unat (it_hash x) mod lh_num_buckets lh = b"
    and cc: "concat ((lh_buckets lh)[b := c]) = items" and "apart (lh_comp lh) items" and "n = length items"
    and "\<And>x. x \<in> set items \<Longrightarrow> it_hash x = lh_hash lh (it_data x)"
  shows "lh_inv (lh\<lparr>lh_buckets := (lh_buckets lh)[b := c], lh_num_items := n\<rparr>)"
  using assms in_place_update [of "lh_num_buckets lh" "lh_buckets lh" c b] by (simp add: lh_inv_def)

lemma apart_replace:
  assumes ap: "apart cmp (P @ x # Q)" and cb: "lh_callbacks_ok cmp hash" and "cmp (it_data x) (it_data y) = 0"
  shows "apart cmp (P @ y # Q)"
proof -
  have other: "cmp (it_data z) (it_data y) \<noteq> 0 \<and> cmp (it_data y) (it_data z) \<noteq> 0" if "z \<in> set P \<union> set Q" for z
  proof -
    have "z \<noteq> x" "z \<in> set (P @ x # Q)" using that ap by (auto simp: apart_def)
    then have "cmp (it_data z) (it_data x) \<noteq> 0" using ap by (auto simp: apart_def)
    then show ?thesis using callbacks_ok_equiv(2,3) [OF cb] assms(3) by blast
  qed
  have "y \<notin> set P \<union> set Q" using other callbacks_ok_equiv(1) [OF cb] by blast
  then show ?thesis using ap other unfolding apart_def by auto
qed

lemma apart_insert:
  assumes cb: "lh_callbacks_ok cmp hash" and ap: "apart cmp (A @ B)"
    and n: "\<And>z. z \<in> set (A @ B) \<Longrightarrow> cmp (it_data z) (it_data y) \<noteq> 0"
  shows "apart cmp (A @ y # B)"
proof -
  have "y \<notin> set (A @ B)" using n callbacks_ok_equiv(1) [OF cb] by blast
  moreover have "cmp (it_data y) (it_data z) \<noteq> 0" if "z \<in> set (A @ B)" for z
    using n [OF that] callbacks_ok_equiv(2) [OF cb] by blast
  ultimately show ?thesis using ap n unfolding apart_def by auto
qed

lemma apart_others:
  assumes "apart cmp (A @ x # B)" and cb: "lh_callbacks_ok cmp hash" and "cmp (it_data x) d = 0"
  shows "z \<in> set A \<union> set B \<longleftrightarrow> z \<in> set (A @ x # B) \<and> cmp (it_data z) d \<noteq> 0"
proof -
  have "cmp (it_data z) d \<noteq> 0" if "z \<in> set A \<union> set B"
  proof
    assume "cmp (it_data z) d = 0"
    then have "cmp (it_data z) (it_data x) = 0" using callbacks_ok_equiv(2,3) [OF cb] assms(3) by blast
    then have "z = x" using assms(1) that by (auto simp: apart_def)
    then show False using assms(1) that by (auto simp: apart_def)
  qed
  then show ?thesis using assms(3) by auto
qed

lemma lh_insert_ok:
  assumes inv: "lh_inv lh" and i: "OPENSSL_lh_insert alloc lh d = (Some old, lh')"
  shows "lh_inv lh' \<and> lh_comp lh' = lh_comp lh \<and> lh_hash lh' = lh_hash lh \<and>
    old = OPENSSL_lh_retrieve lh d \<and>
    OPENSSL_lh_retrieve lh' e = (if lh_comp lh d e = 0 then Some d else OPENSSL_lh_retrieve lh e)"
proof -
  obtain b k P Q where f: "found lh d b k P Q" using lh_search [OF inv] by blast
  define chain where "chain = lh_buckets lh ! b"
  note F = foundD [OF f, folded chain_def]
  have cb: "lh_callbacks_ok (lh_comp lh) (lh_hash lh)" and ap: "apart (lh_comp lh) (P @ chain @ Q)"
    and hs: "\<And>x. x \<in> set (P @ chain @ Q) \<Longrightarrow> it_hash x = lh_hash lh (it_data x)"
    and num: "lh_num_items lh = length (P @ chain @ Q)"
    and old: "concat (lh_buckets lh) = P @ chain @ Q"
    using inv F(3) unfolding lh_inv_def chain_def by simp_all
  show ?thesis
  proof (cases "k < length chain")
    case True
    define x where "x = chain ! k"
    define new where "new = x\<lparr>it_data := d\<rparr>"
    have chain: "chain = take k chain @ x # drop (Suc k) chain" using id_take_nth_drop [OF True] by (simp add: x_def)
    have eq: "lh_comp lh (it_data x) d = 0" using F(7) True by (simp add: x_def)
    define c where "c = take k chain @ new # drop (Suc k) chain"
    have lh': "lh' = lh\<lparr>lh_buckets := (lh_buckets lh)[b := c]\<rparr>" "old = Some (it_data x)"
      using i True by (simp_all add: OPENSSL_lh_insert_def F(1) chain_def [symmetric] x_def new_def c_def
          upd_conv_take_nth_drop)
    have items: "concat ((lh_buckets lh)[b := c]) = (P @ take k chain) @ new # drop (Suc k) chain @ Q"
      by (simp add: F(4) c_def)
    have apx: "apart (lh_comp lh) ((P @ take k chain) @ x # drop (Suc k) chain @ Q)"
      using ap by (subst (asm) chain) simp
    have apn: "apart (lh_comp lh) ((P @ take k chain) @ new # drop (Suc k) chain @ Q)"
      using apart_replace [OF apx cb, of new] eq by (simp add: new_def)
    have xs: "P @ chain @ Q = (P @ take k chain) @ x # drop (Suc k) chain @ Q" by (subst chain) simp
    have hn: "it_hash new = lh_hash lh d"
      using hs [of x] True callbacks_ok_equiv(4) [OF cb eq] by (simp add: new_def x_def)
    have "lh_inv (lh\<lparr>lh_buckets := (lh_buckets lh)[b := c], lh_num_items := lh_num_items lh\<rparr>)"
    proof (rule lh_inv_update [OF inv _ items apn])
      show "unat (it_hash y) mod lh_num_buckets lh = b" if "y \<in> set c" for y
        proof -
        have "y = new \<or> y \<in> set chain" using that by (auto simp: c_def dest: in_set_takeD in_set_dropD)
        then show ?thesis using F(5) F(2) hn by metis
      qed
      show "lh_num_items lh = length ((P @ take k chain) @ new # drop (Suc k) chain @ Q)"
        using True by (simp add: num)
      show "it_hash y = lh_hash lh (it_data y)" if "y \<in> set ((P @ take k chain) @ new # drop (Suc k) chain @ Q)" for y
      proof -
        have "y = new \<or> y \<in> set (P @ chain @ Q)" using that unfolding xs by auto
        then show ?thesis using hs hn by (auto simp: new_def)
      qed
    qed
    then have inv': "lh_inv lh'" by (simp add: lh'(1))
    moreover have "z \<in> set (concat (lh_buckets lh')) \<longleftrightarrow>
        z = new \<or> z \<in> set (concat (lh_buckets lh)) \<and> lh_comp lh (it_data z) d \<noteq> 0" for z
      using apart_others [OF apx cb eq, of z] unfolding old xs by (simp add: lh'(1) items)
    ultimately show ?thesis
      using lh_put_look [OF inv inv', of new d e] True by (simp add: lh' F(6) x_def new_def)
  next
    case False
    define new where "new = \<lparr>it_data = d, it_hash = lh_hash lh d\<rparr>"
    define lh1 where "lh1 = lh\<lparr>lh_buckets := (lh_buckets lh)[b := chain @ [new]], lh_num_items := lh_num_items lh + 1\<rparr>"
    have lh': "lh' = lh_maybe_resize alloc lh1" "old = None"
      using i False by (simp_all add: OPENSSL_lh_insert_def F(1) chain_def [symmetric] new_def lh1_def
          split: if_splits)
    have items: "concat ((lh_buckets lh)[b := chain @ [new]]) = P @ chain @ [new] @ Q"
      by (simp add: F(4))
    have none: "lh_comp lh (it_data z) d \<noteq> 0" if "z \<in> set (P @ chain @ Q)" for z
      using F(8) [OF False] that unfolding old by blast
    have "apart (lh_comp lh) (P @ chain @ [new] @ Q)"
      using apart_insert [OF cb, of "P @ chain" Q new] ap none by (simp add: new_def)
    then have inv1: "lh_inv lh1"
      unfolding lh1_def using hs F(2,5)
      by (intro lh_inv_update [OF inv _ items]) (auto simp: num new_def)
    have "z \<in> set (concat (lh_buckets lh1)) \<longleftrightarrow>
        z = new \<or> z \<in> set (concat (lh_buckets lh)) \<and> lh_comp lh (it_data z) d \<noteq> 0" for z
      using none unfolding old by (auto simp: lh1_def items)
    then have "OPENSSL_lh_retrieve lh1 e = (if lh_comp lh d e = 0 then Some d else OPENSSL_lh_retrieve lh e)"
      by (intro lh_put_look [OF inv inv1]) (simp_all add: lh1_def new_def)
    then show ?thesis
      using lh_maybe_resize_ok [OF inv1] False by (simp add: lh' lh1_def F(6))
  qed
qed

lemma lh_insert_fails: "OPENSSL_lh_insert alloc lh d = (None, lh') \<Longrightarrow> lh' = lh"
  by (auto simp: OPENSSL_lh_insert_def get_next_ptr_and_hash_def Let_def split: if_splits)

lemma lh_insert_total: "alloc sizeof_LHASH_ITEM \<Longrightarrow> \<exists>old lh'. OPENSSL_lh_insert alloc lh d = (Some old, lh')"
  by (auto simp: OPENSSL_lh_insert_def get_next_ptr_and_hash_def Let_def)

lemma lh_delete_ok:
  assumes inv: "lh_inv lh" and i: "OPENSSL_lh_delete alloc lh d = (old, lh')"
  shows "lh_inv lh' \<and> lh_comp lh' = lh_comp lh \<and> lh_hash lh' = lh_hash lh \<and>
    old = OPENSSL_lh_retrieve lh d \<and>
    OPENSSL_lh_retrieve lh' e = (if lh_comp lh d e = 0 then None else OPENSSL_lh_retrieve lh e)"
proof -
  obtain b k P Q where f: "found lh d b k P Q" using lh_search [OF inv] by blast
  define chain where "chain = lh_buckets lh ! b"
  note F = foundD [OF f, folded chain_def]
  have cb: "lh_callbacks_ok (lh_comp lh) (lh_hash lh)" and ap: "apart (lh_comp lh) (P @ chain @ Q)"
    and hs: "\<And>x. x \<in> set (P @ chain @ Q) \<Longrightarrow> it_hash x = lh_hash lh (it_data x)"
    and num: "lh_num_items lh = length (P @ chain @ Q)"
    and old: "concat (lh_buckets lh) = P @ chain @ Q"
    using inv F(3) unfolding lh_inv_def chain_def by simp_all
  show ?thesis
  proof (cases "k < length chain")
    case True
    define x where "x = chain ! k"
    define c where "c = take k chain @ drop (Suc k) chain"
    have chain: "chain = take k chain @ x # drop (Suc k) chain" using id_take_nth_drop [OF True] by (simp add: x_def)
    have eq: "lh_comp lh (it_data x) d = 0" using F(7) True by (simp add: x_def)
    define lh1 where "lh1 = lh\<lparr>lh_buckets := (lh_buckets lh)[b := c], lh_num_items := lh_num_items lh - 1\<rparr>"
    have lh': "lh' = lh_maybe_resize alloc lh1" "old = Some (it_data x)"
      using i True by (simp_all add: OPENSSL_lh_delete_def F(1) chain_def [symmetric] x_def c_def lh1_def)
    have xs: "P @ chain @ Q = (P @ take k chain) @ x # drop (Suc k) chain @ Q" by (subst chain) simp
    have items: "concat ((lh_buckets lh)[b := c]) = (P @ take k chain) @ drop (Suc k) chain @ Q"
      by (simp add: F(4) c_def)
    have apx: "apart (lh_comp lh) ((P @ take k chain) @ x # drop (Suc k) chain @ Q)" using ap unfolding xs .
    then have apd: "apart (lh_comp lh) ((P @ take k chain) @ drop (Suc k) chain @ Q)"
      unfolding apart_def by auto
    have inv1: "lh_inv lh1"
      unfolding lh1_def
    proof (rule lh_inv_update [OF inv _ items apd])
      show "unat (it_hash y) mod lh_num_buckets lh = b" if "y \<in> set c" for y
        using F(5) that by (auto simp: c_def dest: in_set_takeD in_set_dropD)
      show "lh_num_items lh - 1 = length ((P @ take k chain) @ drop (Suc k) chain @ Q)"
        using True by (simp add: num)
      show "it_hash y = lh_hash lh (it_data y)" if "y \<in> set ((P @ take k chain) @ drop (Suc k) chain @ Q)" for y
        using hs [of y] that unfolding xs by auto
    qed
    have "z \<in> set (concat (lh_buckets lh1)) \<longleftrightarrow>
        z \<in> set (concat (lh_buckets lh)) \<and> lh_comp lh (it_data z) d \<noteq> 0" for z
      using apart_others [OF apx cb eq, of z] unfolding old xs by (simp add: lh1_def items)
    then have "OPENSSL_lh_retrieve lh1 e = (if lh_comp lh d e = 0 then None else OPENSSL_lh_retrieve lh e)"
      by (intro lh_del_look [OF inv inv1]) (simp_all add: lh1_def)
    then show ?thesis
      using lh_maybe_resize_ok [OF inv1] True by (simp add: lh' lh1_def F(6) x_def)
  next
    case False
    then have "lh' = lh" "old = None"
      using i by (simp_all add: OPENSSL_lh_delete_def F(1) chain_def [symmetric])
    moreover have "OPENSSL_lh_retrieve lh e = (if lh_comp lh d e = 0 then None else OPENSSL_lh_retrieve lh e)"
      using F(8) [OF False] by (intro lh_del_look [OF inv inv]) auto
    ultimately show ?thesis using inv False by (simp add: F(6))
  qed
qed

text \<open>The table meets the interface when items can be allocated; whether it can be resized does not matter.\<close>

abbreviation grants_items :: "(nat \<Rightarrow> bool) \<Rightarrow> nat \<Rightarrow> bool" where
  "grants_items alloc n \<equiv> n = sizeof_LHASH_ITEM \<or> alloc n"

interpretation lh: equality_table "\<lambda>t x y. lh_comp t x y = 0" lh_inv OPENSSL_lh_retrieve
  "\<lambda>x t. snd (OPENSSL_lh_insert (grants_items alloc) t x)" "\<lambda>x t. snd (OPENSSL_lh_delete alloc t x)"
  for alloc :: "nat \<Rightarrow> bool"
proof unfold_locales
  fix t :: "'d lhash" and x y z :: 'd
  assume inv: "lh_inv t"
  have "lh_callbacks_ok (lh_comp t) (lh_hash t)" using inv by (simp add: lh_inv_def)
  note ok = callbacks_ok_equiv [OF this]
  obtain old t1 where i: "OPENSSL_lh_insert (grants_items alloc) t x = (Some old, t1)"
    using lh_insert_total [of "grants_items alloc" t x] by blast
  obtain old2 t2 where d: "OPENSSL_lh_delete alloc t x = (old2, t2)" by (cases "OPENSSL_lh_delete alloc t x")
  note I = lh_insert_ok [OF inv i, of y] and D = lh_delete_ok [OF inv d, of y]
  show "lh_inv (snd (OPENSSL_lh_insert (grants_items alloc) t x))" "lh_inv (snd (OPENSSL_lh_delete alloc t x))"
    "(\<lambda>a b. lh_comp (snd (OPENSSL_lh_insert (grants_items alloc) t x)) a b = 0) = (\<lambda>a b. lh_comp t a b = 0)"
    "(\<lambda>a b. lh_comp (snd (OPENSSL_lh_delete alloc t x)) a b = 0) = (\<lambda>a b. lh_comp t a b = 0)"
    "OPENSSL_lh_retrieve (snd (OPENSSL_lh_insert (grants_items alloc) t x)) y
      = (if lh_comp t x y = 0 then Some x else OPENSSL_lh_retrieve t y)"
    "OPENSSL_lh_retrieve (snd (OPENSSL_lh_delete alloc t x)) y
      = (if lh_comp t x y = 0 then None else OPENSSL_lh_retrieve t y)"
    using I D by (simp_all add: i d)
  show "lh_comp t x y = 0 \<Longrightarrow> lh_comp t y x = 0" "lh_comp t x y = 0 \<Longrightarrow> lh_comp t y z = 0 \<Longrightarrow> lh_comp t x z = 0"
    using ok by blast+
  show "OPENSSL_lh_retrieve t y = Some x \<Longrightarrow> lh_comp t x y = 0"
    using lh_retrieve_iff [OF inv] by blast
qed

lemma lh_new_inv:
  assumes "lh_callbacks_ok cmp hash" and "OPENSSL_lh_new alloc hash cmp = Some lh"
  shows "lh_inv lh" and "lh_comp lh = cmp" and "OPENSSL_lh_retrieve lh d = None"
proof -
  have lh: "lh = \<lparr>lh_num_items = 0, lh_buckets = replicate kMinNumBuckets [], lh_num_buckets = kMinNumBuckets,
      lh_callback_depth = 0, lh_comp = cmp, lh_hash = hash\<rparr>"
    using assms(2) by (simp add: OPENSSL_lh_new_def split: if_splits)
  show inv: "lh_inv lh" using assms(1) by (simp add: lh lh_inv_def in_place_def apart_def)
  show "lh_comp lh = cmp" by (simp add: lh)
  show "OPENSSL_lh_retrieve lh d = None"
    using lh_retrieve_iff [OF inv, of d] by (cases "OPENSSL_lh_retrieve lh d") (auto simp: lh)
qed

section \<open>Runs of a table\<close>

text \<open>
  A run calls the operations one after the other, with an allocator for each call.  The
  specification is a partial function that the comparison makes a map on classes of equal data; an
  insertion that is refused memory changes nothing.
\<close>

datatype 'd lh_op = LhInsert 'd | LhDelete 'd | LhDoall

fun lh_step :: "'d lhash \<Rightarrow> (nat \<Rightarrow> bool) \<times> 'd lh_op \<Rightarrow> 'd lhash" where
  "lh_step lh (alloc, LhInsert d) = snd (OPENSSL_lh_insert alloc lh d)"
| "lh_step lh (alloc, LhDelete d) = snd (OPENSSL_lh_delete alloc lh d)"
| "lh_step lh (alloc, LhDoall) = snd (OPENSSL_lh_doall_arg alloc lh (\<lambda>_ s. s) ())"

fun map_step :: "('d \<Rightarrow> 'd \<Rightarrow> int) \<Rightarrow> ('d \<Rightarrow> 'd option) \<Rightarrow> (nat \<Rightarrow> bool) \<times> 'd lh_op \<Rightarrow> ('d \<Rightarrow> 'd option)" where
  "map_step cmp m (alloc, LhInsert d) =
     (if m d = None \<and> \<not> alloc sizeof_LHASH_ITEM then m else (\<lambda>e. if cmp d e = 0 then Some d else m e))"
| "map_step cmp m (alloc, LhDelete d) = (\<lambda>e. if cmp d e = 0 then None else m e)"
| "map_step cmp m (alloc, LhDoall) = m"

lemma lh_inv_depth [simp]: "lh_inv (lh\<lparr>lh_callback_depth := n\<rparr>) = lh_inv lh"
  by (simp add: lh_inv_def)

lemma lh_retrieve_depth [simp]: "OPENSSL_lh_retrieve (lh\<lparr>lh_callback_depth := n\<rparr>) d = OPENSSL_lh_retrieve lh d"
  by (simp add: OPENSSL_lh_retrieve_def get_next_ptr_and_hash_def item_at_def Let_def)

lemma lh_insert_none_iff:
  assumes "lh_inv lh"
  shows "fst (OPENSSL_lh_insert alloc lh d) = None
    \<longleftrightarrow> OPENSSL_lh_retrieve lh d = None \<and> \<not> alloc sizeof_LHASH_ITEM"
  by (simp add: OPENSSL_lh_insert_def OPENSSL_lh_retrieve_def get_next_ptr_and_hash_def item_at_def Let_def)

lemma lh_step_refines:
  assumes inv: "lh_inv lh"
  shows "lh_inv (lh_step lh op) \<and> lh_comp (lh_step lh op) = lh_comp lh \<and>
    OPENSSL_lh_retrieve (lh_step lh op) = map_step (lh_comp lh) (OPENSSL_lh_retrieve lh) op"
proof (cases op)
  case (Pair alloc c)
  show ?thesis
  proof (cases c)
    case (LhInsert d)
    obtain r lh' where i: "OPENSSL_lh_insert alloc lh d = (r, lh')" by (cases "OPENSSL_lh_insert alloc lh d")
    show ?thesis
    proof (cases r)
      case None
      then have "lh' = lh" using lh_insert_fails [of alloc lh d lh'] i by simp
      with None show ?thesis
        using i lh_insert_none_iff [OF inv, of alloc d] inv by (simp add: Pair LhInsert)
    next
      case (Some old)
      then show ?thesis
        using lh_insert_ok [OF inv, of alloc d old lh'] i lh_insert_none_iff [OF inv, of alloc d]
        by (auto simp: Pair LhInsert)
    qed
  next
    case (LhDelete d)
    obtain r lh' where "OPENSSL_lh_delete alloc lh d = (r, lh')" by (cases "OPENSSL_lh_delete alloc lh d")
    then show ?thesis using lh_delete_ok [OF inv] by (auto simp: Pair LhDelete)
  next
    case LhDoall
    have "\<exists>n. snd (OPENSSL_lh_doall_arg alloc lh (\<lambda>_ s. s) ()) = lh_maybe_resize alloc (lh\<lparr>lh_callback_depth := n\<rparr>)"
      by (cases lh) (auto simp: OPENSSL_lh_doall_arg_def Let_def)
    then obtain n where n: "lh_step lh op = lh_maybe_resize alloc (lh\<lparr>lh_callback_depth := n\<rparr>)"
      by (auto simp: Pair LhDoall)
    show ?thesis
      using lh_maybe_resize_ok [of "lh\<lparr>lh_callback_depth := n\<rparr>" alloc] inv
      unfolding n by (auto simp: Pair LhDoall)
  qed
qed

lemma lh_run_refines:
  "lh_inv lh \<Longrightarrow> lh_inv (foldl lh_step lh ops) \<and> lh_comp (foldl lh_step lh ops) = lh_comp lh \<and>
    OPENSSL_lh_retrieve (foldl lh_step lh ops) = foldl (map_step (lh_comp lh)) (OPENSSL_lh_retrieve lh) ops"
proof (induction ops arbitrary: lh)
  case (Cons op ops)
  from Cons.IH [of "lh_step lh op"] lh_step_refines [OF Cons.prems, of op] show ?case by simp
qed simp

text \<open>C37: A hash table refines a map: after any sequence of insertions, deletions and iterations on a
  new table, each with its own pattern of refused allocations, looking up any datum gives what the map
  gives, through every growing and shrinking of the bucket array.\<close>

theorem lh_refines_map:
  assumes "lh_callbacks_ok cmp hash" and "OPENSSL_lh_new alloc hash cmp = Some lh"
  shows "OPENSSL_lh_retrieve (foldl lh_step lh ops) d = foldl (map_step cmp) (\<lambda>_. None) ops d"
proof -
  have "OPENSSL_lh_retrieve lh = (\<lambda>_. None)" using lh_new_inv(3) [OF assms] by auto
  then show ?thesis
    using lh_run_refines [OF lh_new_inv(1) [OF assms], of ops] lh_new_inv(2) [OF assms] by simp
qed

theorem lh_refines_map_witness:
  "let cmp = (\<lambda>x y. x mod 100 - y mod 100) :: int \<Rightarrow> int \<Rightarrow> int; hash = (\<lambda>x. word_of_int (x mod 100)) :: int \<Rightarrow> u32;
     ops = [(\<lambda>_. True, LhInsert 5), (\<lambda>_. True, LhInsert 21), (\<lambda>_. False, LhInsert 7), (\<lambda>_. False, LhInsert 105),
       (\<lambda>_. True, LhDelete 121)];
     t = foldl lh_step (the (OPENSSL_lh_new (\<lambda>_. True) hash cmp)) ops
   in map (OPENSSL_lh_retrieve t) [5, 21, 7] = [Some 105, None, None]"
proof -
  define cmp :: "int \<Rightarrow> int \<Rightarrow> int" where "cmp = (\<lambda>x y. x mod 100 - y mod 100)"
  define hash :: "int \<Rightarrow> u32" where "hash = (\<lambda>x. word_of_int (x mod 100))"
  have ok: "lh_callbacks_ok cmp hash"
    by (auto simp: lh_callbacks_ok_def cmp_def hash_def intro!: equivpI reflpI sympI transpI)
  obtain t where t: "OPENSSL_lh_new (\<lambda>_. True) hash cmp = Some t" by (simp add: OPENSSL_lh_new_def)
  show ?thesis
    unfolding Let_def cmp_def [symmetric] hash_def [symmetric] t option.sel list.map lh_refines_map [OF ok t]
    by (simp add: cmp_def)
qed

end
