(* ===== verification/Stack.thy ===== *)
theory Stack
  imports Set_Of
begin

text \<open>
  The growable arrays of pointers of \<^verbatim>\<open>crypto/stack/stack.c\<close>.  A pointer is a number, NULL is 0; a
  \<^verbatim>\<open>_STACK *\<close> is an option, None for NULL.  \<^verbatim>\<open>sk_data\<close> is the whole allocated array, of which the first
  \<^verbatim>\<open>sk_num\<close> entries are in use; what a reallocation adds is never read before it is written and is
  0 here.  A comparison function is named by a value of type \<^verbatim>\<open>'c\<close> and \<^verbatim>\<open>cmp\<close> says what calling it on
  two pointers returns, so that the test for another function in \<^verbatim>\<open>sk_set_cmp_func\<close> can be written.

  The stack is shown to be the list of its entries, and \<^verbatim>\<open>sk_find\<close> to return the first match in
  all of its three searches as long as the \<^verbatim>\<open>sorted\<close> flag is right; \<^verbatim>\<open>sk_set\<close> can make it wrong.
\<close>

section \<open>Model\<close>

type_synonym ptr = nat

definition kMinSize :: nat where "kMinSize = 4"
definition sizeof_ptr :: nat where "sizeof_ptr = 8"
definition sizeof_STACK :: nat where "sizeof_STACK = 40"

record 'c stack =
  sk_nm :: nat
  sk_data :: "ptr list"
  sk_sorted :: bool
  sk_num_alloc :: nat
  sk_comp :: "'c option"

text \<open>\<^verbatim>\<open>memmove(&xs[to], &xs[from], n * sizeof(void *))\<close>.\<close>

definition move_ptrs :: "ptr list \<Rightarrow> nat \<Rightarrow> nat \<Rightarrow> nat \<Rightarrow> ptr list" where
  "move_ptrs xs to from n = take to xs @ take n (drop from xs) @ drop (to + n) xs"

definition sk_new :: "(nat \<Rightarrow> bool) \<Rightarrow> 'c option \<Rightarrow> 'c stack option" where
  "sk_new alloc cf =
     (if \<not> alloc sizeof_STACK then None
      else if \<not> alloc (sizeof_ptr * kMinSize) then None
      else Some \<lparr>sk_nm = 0, sk_data = replicate kMinSize 0, sk_sorted = False, sk_num_alloc = kMinSize, sk_comp = cf\<rparr>)"

definition sk_new_null :: "(nat \<Rightarrow> bool) \<Rightarrow> 'c stack option" where
  "sk_new_null alloc = sk_new alloc None"

definition sk_num :: "'c stack option \<Rightarrow> nat" where
  "sk_num s = (case s of None \<Rightarrow> 0 | Some sk \<Rightarrow> sk_nm sk)"

definition sk_zero :: "'c stack option \<Rightarrow> 'c stack option" where
  "sk_zero s = (case s of None \<Rightarrow> None | Some sk \<Rightarrow>
     if sk_nm sk = 0 then s
     else Some (sk\<lparr>sk_data := replicate (sk_nm sk) 0 @ drop (sk_nm sk) (sk_data sk), sk_nm := 0, sk_sorted := False\<rparr>))"

definition sk_value :: "'c stack option \<Rightarrow> nat \<Rightarrow> ptr" where
  "sk_value s i = (case s of None \<Rightarrow> 0 | Some sk \<Rightarrow> if i \<ge> sk_nm sk then 0 else sk_data sk ! i)"

definition sk_set :: "'c stack option \<Rightarrow> nat \<Rightarrow> ptr \<Rightarrow> ptr \<times> 'c stack option" where
  "sk_set s i v = (case s of None \<Rightarrow> (0, None) | Some sk \<Rightarrow>
     if i \<ge> sk_nm sk then (0, s) else (v, Some (sk\<lparr>sk_data := (sk_data sk)[i := v]\<rparr>)))"

text \<open>
  The doubling of the array, and when it overflows the step by one; None when that overflows too or
  the memory is refused.
\<close>

definition sk_grow :: "(nat \<Rightarrow> bool) \<Rightarrow> 'c stack \<Rightarrow> 'c stack option" where
  "sk_grow alloc sk = (let
     new_alloc = size_mult (sk_num_alloc sk) 2;
     alloc_size = size_mult new_alloc sizeof_ptr;
     over = (new_alloc < sk_num_alloc sk \<or> alloc_size div sizeof_ptr \<noteq> new_alloc);
     new_alloc = (if over then size_add (sk_num_alloc sk) 1 else new_alloc);
     alloc_size = (if over then size_mult new_alloc sizeof_ptr else alloc_size)
     in if new_alloc < sk_num_alloc sk \<or> alloc_size div sizeof_ptr \<noteq> new_alloc then None
        else if \<not> alloc alloc_size then None
        else Some (sk\<lparr>sk_data := sk_data sk @ replicate (new_alloc - sk_num_alloc sk) 0, sk_num_alloc := new_alloc\<rparr>))"

definition sk_put :: "'c stack \<Rightarrow> ptr \<Rightarrow> nat \<Rightarrow> 'c stack" where
  "sk_put sk p w =
     (if w \<ge> sk_nm sk then sk\<lparr>sk_data := (sk_data sk)[sk_nm sk := p], sk_nm := sk_nm sk + 1, sk_sorted := False\<rparr>
      else sk\<lparr>sk_data := (move_ptrs (sk_data sk) (w + 1) w (sk_nm sk - w))[w := p],
              sk_nm := sk_nm sk + 1, sk_sorted := False\<rparr>)"

definition sk_insert :: "(nat \<Rightarrow> bool) \<Rightarrow> 'c stack option \<Rightarrow> ptr \<Rightarrow> nat \<Rightarrow> nat \<times> 'c stack option" where
  "sk_insert alloc s p w = (case s of None \<Rightarrow> (0, None) | Some sk \<Rightarrow>
     if sk_num_alloc sk \<le> size_add (sk_nm sk) 1
     then (case sk_grow alloc sk of None \<Rightarrow> (0, s)
           | Some sk \<Rightarrow> let sk = sk_put sk p w in (sk_nm sk, Some sk))
     else let sk = sk_put sk p w in (sk_nm sk, Some sk))"

definition sk_delete :: "'c stack option \<Rightarrow> nat \<Rightarrow> ptr \<times> 'c stack option" where
  "sk_delete s w = (case s of None \<Rightarrow> (0, None) | Some sk \<Rightarrow>
     if w \<ge> sk_nm sk then (0, s)
     else let ret = sk_data sk ! w;
              sk = (if w \<noteq> sk_nm sk - 1
                    then sk\<lparr>sk_data := move_ptrs (sk_data sk) w (w + 1) (sk_nm sk - w - 1)\<rparr> else sk)
          in (ret, Some (sk\<lparr>sk_nm := sk_nm sk - 1\<rparr>)))"

text \<open>The linear searches: the first index at which the test holds.\<close>

fun first_index :: "(ptr \<Rightarrow> bool) \<Rightarrow> ptr list \<Rightarrow> nat option" where
  "first_index P [] = None"
| "first_index P (x # xs) = (if P x then Some 0 else map_option Suc (first_index P xs))"

definition sk_delete_ptr :: "'c stack option \<Rightarrow> ptr \<Rightarrow> ptr \<times> 'c stack option" where
  "sk_delete_ptr s p = (case s of None \<Rightarrow> (0, None) | Some sk \<Rightarrow>
     (case first_index (\<lambda>x. x = p) (take (sk_nm sk) (sk_data sk)) of
        Some i \<Rightarrow> sk_delete s i
      | None \<Rightarrow> (0, s)))"

definition sk_is_sorted :: "'c stack option \<Rightarrow> bool" where
  "sk_is_sorted s = (case s of None \<Rightarrow> True | Some sk \<Rightarrow> sk_sorted sk)"

function sk_bsearch :: "(ptr \<Rightarrow> int) \<Rightarrow> ptr list \<Rightarrow> nat \<Rightarrow> nat \<Rightarrow> nat option" where
  "sk_bsearch cmp_p xs lo hi =
     (if lo < hi
      then let mid = lo + (hi - lo - 1) div 2; r = cmp_p (xs ! mid) in
        if r > 0 then sk_bsearch cmp_p xs (mid + 1) hi
        else if r < 0 then sk_bsearch cmp_p xs lo mid
        else if hi - lo = 1 then Some mid
        else sk_bsearch cmp_p xs lo (mid + 1)
      else None)"
  by pat_completeness auto
termination by (relation "measure (\<lambda>(c, xs, lo, hi). hi - lo)") auto

declare sk_bsearch.simps [simp del]

definition sk_find :: "('c \<Rightarrow> ptr \<Rightarrow> ptr \<Rightarrow> int) \<Rightarrow> 'c stack option \<Rightarrow> ptr \<Rightarrow> nat option" where
  "sk_find cmp s p = (case s of None \<Rightarrow> None | Some sk \<Rightarrow>
     (case sk_comp sk of
        None \<Rightarrow> first_index (\<lambda>x. x = p) (take (sk_nm sk) (sk_data sk))
      | Some c \<Rightarrow>
          if p = 0 then None
          else if \<not> sk_is_sorted s then first_index (\<lambda>x. cmp c p x = 0) (take (sk_nm sk) (sk_data sk))
          else sk_bsearch (cmp c p) (sk_data sk) 0 (sk_nm sk)))"

definition sk_shift :: "'c stack option \<Rightarrow> ptr \<times> 'c stack option" where
  "sk_shift s = (case s of None \<Rightarrow> (0, None) | Some sk \<Rightarrow> if sk_nm sk = 0 then (0, s) else sk_delete s 0)"

definition sk_push :: "(nat \<Rightarrow> bool) \<Rightarrow> 'c stack \<Rightarrow> ptr \<Rightarrow> nat \<times> 'c stack option" where
  "sk_push alloc sk p = sk_insert alloc (Some sk) p (sk_nm sk)"

definition sk_pop :: "'c stack option \<Rightarrow> ptr \<times> 'c stack option" where
  "sk_pop s = (case s of None \<Rightarrow> (0, None) | Some sk \<Rightarrow>
     if sk_nm sk = 0 then (0, s) else sk_delete s (sk_nm sk - 1))"

text \<open>The copy of the array; the entries behind the used ones are not copied.\<close>

definition sk_dup :: "(nat \<Rightarrow> bool) \<Rightarrow> 'c stack option \<Rightarrow> 'c stack option" where
  "sk_dup alloc s = (case s of None \<Rightarrow> None | Some sk \<Rightarrow>
     if \<not> alloc sizeof_STACK then None
     else if \<not> alloc (size_mult sizeof_ptr (sk_num_alloc sk)) then None
     else Some \<lparr>sk_nm = sk_nm sk,
                sk_data = take (sk_nm sk) (sk_data sk) @ replicate (sk_num_alloc sk - sk_nm sk) 0,
                sk_sorted = sk_sorted sk, sk_num_alloc = sk_num_alloc sk, sk_comp = sk_comp sk\<rparr>)"

definition sk_sort :: "('c \<Rightarrow> ptr \<Rightarrow> ptr \<Rightarrow> int) \<Rightarrow> 'c stack option \<Rightarrow> 'c stack option" where
  "sk_sort cmp s = (case s of None \<Rightarrow> None | Some sk \<Rightarrow>
     (case sk_comp sk of None \<Rightarrow> s | Some c \<Rightarrow>
        if sk_sorted sk then s
        else let sk = (if sk_nm sk \<ge> 2
                       then sk\<lparr>sk_data := qsort (cmp c) (take (sk_nm sk) (sk_data sk)) @ drop (sk_nm sk) (sk_data sk)\<rparr>
                       else sk)
             in Some (sk\<lparr>sk_sorted := True\<rparr>)))"

definition sk_set_cmp_func :: "'c stack \<Rightarrow> 'c option \<Rightarrow> 'c option \<times> 'c stack" where
  "sk_set_cmp_func sk cf = (let
     old = sk_comp sk;
     sk = (if sk_comp sk \<noteq> cf then sk\<lparr>sk_sorted := False\<rparr> else sk)
     in (old, sk\<lparr>sk_comp := cf\<rparr>))"

text \<open>
  The deep copy: \<^verbatim>\<open>copy\<close> returns NULL for a failed copy.  The result carries the pointers that were
  freed again when a copy failed.
\<close>

fun deep_copy_loop :: "(ptr \<Rightarrow> ptr) \<Rightarrow> ptr list \<Rightarrow> ptr list \<Rightarrow> ptr list + ptr list" where
  "deep_copy_loop copy made [] = Inr made"
| "deep_copy_loop copy made (x # xs) =
     (if x = 0 then deep_copy_loop copy (made @ [0]) xs
      else if copy x = 0 then Inl (filter (\<lambda>y. y \<noteq> 0) made)
      else deep_copy_loop copy (made @ [copy x]) xs)"

definition sk_deep_copy :: "(nat \<Rightarrow> bool) \<Rightarrow> (ptr \<Rightarrow> ptr) \<Rightarrow> 'c stack option \<Rightarrow> 'c stack option \<times> ptr list" where
  "sk_deep_copy alloc copy s = (case sk_dup alloc s of None \<Rightarrow> (None, []) | Some ret \<Rightarrow>
     (case deep_copy_loop copy [] (take (sk_nm ret) (sk_data ret)) of
        Inl freed \<Rightarrow> (None, freed)
      | Inr made \<Rightarrow> (Some (ret\<lparr>sk_data := made @ drop (sk_nm ret) (sk_data ret)\<rparr>), [])))"

text \<open>\<^verbatim>\<open>sk_pop_free\<close>: the pointers handed to the free function, in order.\<close>

definition sk_pop_free_ex :: "'c stack option \<Rightarrow> ptr list" where
  "sk_pop_free_ex s = (case s of None \<Rightarrow> [] | Some sk \<Rightarrow> filter (\<lambda>x. x \<noteq> 0) (take (sk_nm sk) (sk_data sk)))"

section \<open>What a stack holds\<close>

definition sk_list :: "'c stack \<Rightarrow> ptr list" where
  "sk_list sk = take (sk_nm sk) (sk_data sk)"

text \<open>What \<^verbatim>\<open>qsort\<close> and the binary search ask of a comparison function.\<close>

definition cmp_order :: "(ptr \<Rightarrow> ptr \<Rightarrow> int) \<Rightarrow> bool" where
  "cmp_order f \<longleftrightarrow> (\<forall>a b. f a b \<le> 0 \<longleftrightarrow> 0 \<le> f b a) \<and> (\<forall>a b c. f a b \<le> 0 \<longrightarrow> f b c \<le> 0 \<longrightarrow> f a c \<le> 0)"

definition sk_wf :: "('c \<Rightarrow> ptr \<Rightarrow> ptr \<Rightarrow> int) \<Rightarrow> 'c stack \<Rightarrow> bool" where
  "sk_wf cmp sk \<longleftrightarrow> sk_nm sk < sk_num_alloc sk \<and> length (sk_data sk) = sk_num_alloc sk \<and> sk_num_alloc sk < 2 ^ 64 \<and>
     (\<forall>c. sk_comp sk = Some c \<longrightarrow> sk_sorted sk \<longrightarrow> sorted_wrt (\<lambda>a b. cmp c a b \<le> 0) (sk_list sk))"

lemma length_sk_list [simp]: "sk_wf cmp sk \<Longrightarrow> length (sk_list sk) = sk_nm sk"
  by (simp add: sk_wf_def sk_list_def)

section \<open>Searching\<close>

lemma first_index_Some:
  "first_index P xs = Some i \<longleftrightarrow> i < length xs \<and> P (xs ! i) \<and> (\<forall>j < i. \<not> P (xs ! j))"
proof (induction xs arbitrary: i)
  case (Cons x xs)
  then show ?case by (cases i) (auto simp: All_less_Suc2)
qed simp

lemma bsearch_Some:
  assumes up: "\<And>i j. i \<le> j \<Longrightarrow> j < n \<Longrightarrow> g (xs ! j) > 0 \<Longrightarrow> g (xs ! i) > 0"
    and down: "\<And>i j. i \<le> j \<Longrightarrow> j < n \<Longrightarrow> g (xs ! i) < 0 \<Longrightarrow> g (xs ! j) < 0"
  shows "hi \<le> n \<Longrightarrow> sk_bsearch g xs lo hi = Some i \<longleftrightarrow>
    lo \<le> i \<and> i < hi \<and> g (xs ! i) = 0 \<and> (\<forall>j. lo \<le> j \<longrightarrow> j < i \<longrightarrow> g (xs ! j) \<noteq> 0)"
proof (induction g\<equiv>g xs\<equiv>xs lo hi rule: sk_bsearch.induct)
  case (1 lo hi)
  define mid where "mid = lo + (hi - lo - 1) div 2"
  show ?case
  proof (cases "lo < hi")
    case True
    then have mid: "lo \<le> mid" "mid < hi" "mid < n" using "1.prems" by (auto simp: mid_def)
    have eq: "sk_bsearch g xs lo hi =
        (if g (xs ! mid) > 0 then sk_bsearch g xs (mid + 1) hi
         else if g (xs ! mid) < 0 then sk_bsearch g xs lo mid
         else if hi - lo = 1 then Some mid else sk_bsearch g xs lo (mid + 1))"
      using True unfolding sk_bsearch.simps [of g xs lo hi] Let_def mid_def [symmetric] by simp
    consider "g (xs ! mid) > 0" | "g (xs ! mid) < 0" | "g (xs ! mid) = 0" "hi - lo = 1"
      | "g (xs ! mid) = 0" "hi - lo \<noteq> 1" by linarith
    then show ?thesis
    proof cases
      case 1
      have "g (xs ! j) \<noteq> 0" if "j \<le> mid" for j using up [OF that mid(3) 1] by simp
      moreover have "sk_bsearch g xs (mid + 1) hi = Some i \<longleftrightarrow>
          mid + 1 \<le> i \<and> i < hi \<and> g (xs ! i) = 0 \<and> (\<forall>j. mid + 1 \<le> j \<longrightarrow> j < i \<longrightarrow> g (xs ! j) \<noteq> 0)"
        using "1.hyps"(1) [OF True mid_def refl] 1 "1.prems" by blast
      ultimately show ?thesis
        unfolding eq using 1 mid(1) by simp (metis Suc_leI le_trans not_less not_less_eq_eq le_SucI)
    next
      case 2
      have "g (xs ! j) \<noteq> 0" if "mid \<le> j" "j < hi" for j using down [OF that(1) _ 2] that "1.prems" by simp
      moreover have "sk_bsearch g xs lo mid = Some i \<longleftrightarrow>
          lo \<le> i \<and> i < mid \<and> g (xs ! i) = 0 \<and> (\<forall>j. lo \<le> j \<longrightarrow> j < i \<longrightarrow> g (xs ! j) \<noteq> 0)"
        using "1.hyps"(2) [OF True mid_def refl] 2 mid "1.prems" by simp
      ultimately show ?thesis
        unfolding eq using 2 mid(2) by simp (metis less_trans not_less)
    next
      case 3
      then have "mid = lo" "hi = Suc lo" by (simp_all add: mid_def)
      with 3 show ?thesis unfolding eq by auto
    next
      case 4
      have "sk_bsearch g xs lo (mid + 1) = Some i \<longleftrightarrow>
          lo \<le> i \<and> i < mid + 1 \<and> g (xs ! i) = 0 \<and> (\<forall>j. lo \<le> j \<longrightarrow> j < i \<longrightarrow> g (xs ! j) \<noteq> 0)"
        using "1.hyps"(3) [OF True mid_def refl] 4 mid "1.prems" by simp
      moreover have "i < mid + 1" if "\<forall>j. lo \<le> j \<longrightarrow> j < i \<longrightarrow> g (xs ! j) \<noteq> 0"
        using that mid(1) 4(1) by (metis less_Suc_eq_le add.commute plus_1_eq_Suc not_less)
      ultimately show ?thesis
        unfolding eq using 4 mid(2) by auto
    qed
  qed (simp add: sk_bsearch.simps)
qed

lemma bsearch_first:
  assumes ord: "cmp_order f" and srt: "sorted_wrt (\<lambda>a b. f a b \<le> 0) xs" and n: "n = length xs" and xs: "xs = take n ys"
    and len: "n \<le> length ys"
  shows "sk_bsearch (f p) ys 0 n = first_index (\<lambda>x. f p x = 0) xs"
proof -
  have nth: "ys ! i = xs ! i" if "i < n" for i using that by (simp add: xs)
  have le: "f (ys ! i) (ys ! j) \<le> 0" if "i \<le> j" "j < n" for i j
  proof (cases "i = j")
    case True
    then show ?thesis using ord unfolding cmp_order_def by (metis linear)
  next
    case False
    then show ?thesis using sorted_wrt_nth_less [OF srt, of i j] that nth n by simp
  qed
  have trans: "f a c \<le> 0" if "f a b \<le> 0" "f b c \<le> 0" for a b c using ord that unfolding cmp_order_def by blast
  have anti: "f a b \<le> 0 \<longleftrightarrow> 0 \<le> f b a" for a b using ord unfolding cmp_order_def by blast
  have "sk_bsearch (f p) ys 0 n = Some i \<longleftrightarrow> first_index (\<lambda>x. f p x = 0) xs = Some i" for i
  proof (subst bsearch_Some [of n])
    show "0 < f p (ys ! i)" if "i \<le> j" "j < n" "0 < f p (ys ! j)" for i j
      using trans [of p "ys ! i" "ys ! j"] le [OF that(1,2)] that(3) by linarith
    show "f p (ys ! j) < 0" if "i \<le> j" "j < n" "f p (ys ! i) < 0" for i j
      using trans [of "ys ! i" "ys ! j" p] le [OF that(1,2)] that(3) anti by (meson not_less linorder_not_le)
    show "(0 \<le> i \<and> i < n \<and> f p (ys ! i) = 0 \<and> (\<forall>j. 0 \<le> j \<longrightarrow> j < i \<longrightarrow> f p (ys ! j) \<noteq> 0))
        = (first_index (\<lambda>x. f p x = 0) xs = Some i)"
      unfolding first_index_Some n [symmetric] using nth by auto
  qed simp
  then show ?thesis by (metis option.exhaust)
qed

section \<open>A stack is the list of its entries\<close>

lemma sk_wfD:
  assumes "sk_wf cmp sk"
  shows "sk_nm sk < sk_num_alloc sk" and "length (sk_data sk) = sk_num_alloc sk" and "sk_num_alloc sk < 2 ^ 64"
    and "sk_comp sk = Some c \<Longrightarrow> sk_sorted sk \<Longrightarrow> sorted_wrt (\<lambda>a b. cmp c a b \<le> 0) (sk_list sk)"
  using assms by (auto simp: sk_wf_def)

lemma sk_grow_ok:
  assumes wf: "sk_wf cmp sk" and g: "sk_grow alloc sk = Some sk'"
  shows "sk_wf cmp sk'" and "sk_list sk' = sk_list sk" and "sk_nm sk' = sk_nm sk" and "sk_nm sk + 1 < sk_num_alloc sk'"
proof -
  define na where "na = sk_num_alloc sk"
  have na: "0 < na" "na < 2 ^ 64" "sk_nm sk < na" using sk_wfD [OF wf] by (auto simp: na_def)
  have dbl: "size_mult na 2 = 2 * na" if "na \<le> size_mult na 2"
  proof (rule ccontr)
    assume "size_mult na 2 \<noteq> 2 * na"
    then have "2 ^ 64 \<le> 2 * na" by (cases "2 * na < 2 ^ 64") (auto simp: size_mult_def mult.commute)
    then have "size_mult na 2 = 2 * na - 2 ^ 64" using na(2) by (simp add: size_mult_def le_mod_geq mult.commute)
    then have "na \<le> 2 * na - 2 ^ 64" using that by metis
    with \<open>2 ^ 64 \<le> 2 * na\<close> na(2) show False by linarith
  qed
  have inc: "size_add na 1 = na + 1" if "na \<le> size_add na 1"
  proof (cases "na + 1 = 2 ^ 64")
    case True
    then have "size_add na 1 = 0" by (simp only: size_add_def mod_self)
    with that na(1) show ?thesis by simp
  next
    case False
    with na(2) show ?thesis by (simp add: size_add_def)
  qed
  obtain n where sk': "sk' = sk\<lparr>sk_data := sk_data sk @ replicate (n - na) 0, sk_num_alloc := n\<rparr>"
    and n: "na \<le> n" "n = size_mult na 2 \<or> n = size_add na 1"
    using g unfolding sk_grow_def Let_def na_def [symmetric] by (auto split: if_splits)
  then have "na + 1 \<le> n" using dbl inc na(1) by auto
  moreover have "n < 2 ^ 64" using n(2) by (auto simp: size_mult_def size_add_def)
  ultimately show "sk_wf cmp sk'" "sk_list sk' = sk_list sk" "sk_nm sk' = sk_nm sk" "sk_nm sk + 1 < sk_num_alloc sk'"
    using sk_wfD [OF wf] na by (auto simp: sk' sk_wf_def sk_list_def na_def)
qed

lemma sk_put_ok:
  assumes wf: "sk_wf cmp sk" and room: "sk_nm sk + 1 < sk_num_alloc sk"
  shows "sk_wf cmp (sk_put sk p w)" and "sk_list (sk_put sk p w) = take w (sk_list sk) @ p # drop w (sk_list sk)"
    and "sk_nm (sk_put sk p w) = sk_nm sk + 1"
proof -
  note W = sk_wfD [OF wf]
  show "sk_nm (sk_put sk p w) = sk_nm sk + 1" by (simp add: sk_put_def)
  show "sk_wf cmp (sk_put sk p w)"
    using W room by (auto simp: sk_put_def sk_wf_def move_ptrs_def)
  show "sk_list (sk_put sk p w) = take w (sk_list sk) @ p # drop w (sk_list sk)"
  proof (cases "w \<ge> sk_nm sk")
    case True
    then show ?thesis using W by (simp add: sk_put_def sk_list_def take_Suc_conv_app_nth)
  next
    case False
    define k where "k = sk_nm sk - w"
    have nm: "sk_nm sk = w + k" "0 < k" using False by (simp_all add: k_def)
    have "(move_ptrs (sk_data sk) (w + 1) w k)[w := p]
        = take w (sk_data sk) @ p # take k (drop w (sk_data sk)) @ drop (w + 1 + k) (sk_data sk)"
      using W nm by (simp add: move_ptrs_def list_update_append upd_conv_take_nth_drop take_Suc_conv_app_nth)
    moreover have "take (Suc (w + k)) (take w (sk_data sk) @ p # take k (drop w (sk_data sk)) @ drop (w + 1 + k) (sk_data sk))
        = take w (sk_data sk) @ p # take k (drop w (sk_data sk))"
      using W nm by simp
    ultimately show ?thesis
      using W nm by (simp add: sk_put_def sk_list_def drop_take min_def)
  qed
qed

lemma sk_insert_ok:
  assumes wf: "sk_wf cmp sk" and i: "sk_insert alloc (Some sk) p w = (n, s)"
  shows "(n = 0 \<and> s = Some sk) \<or>
    (\<exists>sk'. s = Some sk' \<and> n = sk_nm sk + 1 \<and> sk_wf cmp sk' \<and>
       sk_list sk' = take w (sk_list sk) @ p # drop w (sk_list sk))"
proof -
  note W = sk_wfD [OF wf]
  have sz: "size_add (sk_nm sk) (Suc 0) = Suc (sk_nm sk)" using W by (simp add: size_add_def)
  show ?thesis
  proof (cases "sk_num_alloc sk \<le> sk_nm sk + 1")
    case True
    show ?thesis
    proof (cases "sk_grow alloc sk")
      case None
      then show ?thesis using i True by (simp add: sk_insert_def sz)
    next
      case (Some sk1)
      note G = sk_grow_ok [OF wf Some]
      have "sk_nm sk1 + 1 < sk_num_alloc sk1" using G(3,4) by simp
      note P = sk_put_ok [OF G(1) this, of p w]
      show ?thesis using i True Some P G(2,3) by (auto simp: sk_insert_def sz Let_def)
    qed
  next
    case False
    then have "sk_nm sk + 1 < sk_num_alloc sk" by simp
    from sk_put_ok [OF wf this, of p w] show ?thesis
      using i False by (auto simp: sk_insert_def sz Let_def)
  qed
qed

lemma sorted_wrt_remove: "sorted_wrt P xs \<Longrightarrow> sorted_wrt P (take w xs @ drop (Suc w) xs)"
proof (induction xs arbitrary: w)
  case (Cons x xs)
  then show ?case by (cases w) (auto dest: in_set_takeD in_set_dropD)
qed simp

lemma sk_delete_ok:
  assumes wf: "sk_wf cmp sk" and w: "w < sk_nm sk"
  obtains sk' where "sk_delete (Some sk) w = (sk_list sk ! w, Some sk')" and "sk_wf cmp sk'"
    and "sk_list sk' = take w (sk_list sk) @ drop (Suc w) (sk_list sk)" and "sk_nm sk' = sk_nm sk - 1"
proof -
  note W = sk_wfD [OF wf]
  define sk' where "sk' = (if w \<noteq> sk_nm sk - 1
     then sk\<lparr>sk_data := move_ptrs (sk_data sk) w (w + 1) (sk_nm sk - w - 1), sk_nm := sk_nm sk - 1\<rparr>
     else sk\<lparr>sk_nm := sk_nm sk - 1\<rparr>)"
  have eq: "sk_delete (Some sk) w = (sk_list sk ! w, Some sk')"
    using w by (simp add: sk_delete_def sk'_def sk_list_def Let_def)
  have l: "sk_list sk' = take w (sk_list sk) @ drop (Suc w) (sk_list sk)"
  proof (cases "w = sk_nm sk - 1")
    case True
    then show ?thesis using w by (simp add: sk'_def sk_list_def min_def)
  next
    case False
    define k where "k = sk_nm sk - w - 1"
    have nm: "sk_nm sk = w + 1 + k" using w by (simp add: k_def)
    show ?thesis using W False nm by (simp add: sk'_def sk_list_def move_ptrs_def min_def drop_take)
  qed
  have "sorted_wrt (\<lambda>a b. cmp c a b \<le> 0) (sk_list sk')" if "sk_comp sk = Some c" "sk_sorted sk" for c
    unfolding l by (rule sorted_wrt_remove) (rule W(4) [OF that])
  then have "sk_wf cmp sk'"
    using W(1-3) w unfolding sk_wf_def by (auto simp: sk'_def move_ptrs_def)
  with eq l show ?thesis using that by (simp add: sk'_def)
qed

text \<open>Sorting.\<close>

lemma cmp_order_trans: "cmp_order f \<Longrightarrow> f a b \<le> 0 \<Longrightarrow> f b c \<le> 0 \<Longrightarrow> f a c \<le> 0"
  by (auto simp: cmp_order_def)

lemma cmp_order_linear: "cmp_order f \<Longrightarrow> \<not> f a b \<le> 0 \<Longrightarrow> f b a \<le> 0"
  unfolding cmp_order_def by (metis linear)

lemma set_qsort_insert [simp]: "set (qsort_insert f x xs) = insert x (set xs)"
  by (induction xs) auto

lemma mset_qsort_insert: "mset (qsort_insert f x xs) = add_mset x (mset xs)"
  by (induction xs) auto

lemma mset_qsort [simp]: "mset (qsort f xs) = mset xs"
  by (induction xs) (simp_all add: qsort_def mset_qsort_insert)

lemma length_qsort [simp]: "length (qsort f xs) = length xs"
  by (rule mset_eq_length) simp

lemma sorted_qsort_insert:
  assumes "cmp_order f"
  shows "sorted_wrt (\<lambda>a b. f a b \<le> 0) xs \<Longrightarrow> sorted_wrt (\<lambda>a b. f a b \<le> 0) (qsort_insert f x xs)"
proof (induction xs)
  case (Cons y ys)
  show ?case
  proof (cases "f x y \<le> 0")
    case True
    then have "f x z \<le> 0" if "z \<in> set ys" for z using Cons.prems that cmp_order_trans [OF assms True] by simp
    with True Cons.prems show ?thesis by simp
  next
    case False
    with Cons cmp_order_linear [OF assms False] show ?thesis by simp
  qed
qed simp

lemma sorted_qsort: "cmp_order f \<Longrightarrow> sorted_wrt (\<lambda>a b. f a b \<le> 0) (qsort f xs)"
  by (induction xs) (simp_all add: qsort_def sorted_qsort_insert)

lemma sk_sort_ok:
  assumes wf: "sk_wf cmp sk" and ord: "\<And>c. cmp_order (cmp c)"
  obtains sk' where "sk_sort cmp (Some sk) = Some sk'" and "sk_wf cmp sk'" and "mset (sk_list sk') = mset (sk_list sk)"
proof (cases "sk_comp sk")
  case None
  then show ?thesis using that wf by (simp add: sk_sort_def)
next
  case (Some c)
  note W = sk_wfD [OF wf]
  define xs where "xs = (if sk_nm sk \<ge> 2 then qsort (cmp c) (sk_list sk) else sk_list sk)"
  have "sorted_wrt (\<lambda>a b. cmp c a b \<le> 0) (sk_list sk)" if "\<not> 2 \<le> sk_nm sk"
    using that wf by (cases "sk_list sk" rule: list.exhaust; cases "tl (sk_list sk)") (auto dest: length_sk_list)
  then have srt: "sorted_wrt (\<lambda>a b. cmp c a b \<le> 0) xs" using sorted_qsort [OF ord] by (simp add: xs_def)
  have len: "length xs = sk_nm sk" and ms: "mset xs = mset (sk_list sk)" using wf by (simp_all add: xs_def)
  let ?sk = "sk\<lparr>sk_data := xs @ drop (sk_nm sk) (sk_data sk), sk_sorted := True\<rparr>"
  show ?thesis
  proof (cases "sk_sorted sk")
    case True
    then show ?thesis using that [of sk] wf Some by (simp add: sk_sort_def)
  next
    case False
    have "sk_sort cmp (Some sk) = Some ?sk"
      using Some False by (simp add: sk_sort_def xs_def sk_list_def Let_def)
    moreover have "sk_wf cmp ?sk" using W srt len Some by (simp add: sk_wf_def sk_list_def)
    moreover have "mset (sk_list ?sk) = mset (sk_list sk)" using len ms by (simp add: sk_list_def)
    ultimately show ?thesis by (rule that)
  qed
qed

text \<open>Copying.\<close>

lemma sk_dup_ok:
  assumes wf: "sk_wf cmp sk" and d: "sk_dup alloc (Some sk) = Some sk'"
  shows "sk_wf cmp sk'" and "sk_list sk' = sk_list sk" and "sk_comp sk' = sk_comp sk" and "sk_nm sk' = sk_nm sk"
  using sk_wfD [OF wf] d by (auto simp: sk_dup_def sk_wf_def sk_list_def split: if_splits)

definition copied :: "(ptr \<Rightarrow> ptr) \<Rightarrow> ptr \<Rightarrow> ptr" where
  "copied copy x = (if x = 0 then 0 else copy x)"

lemma deep_copy_loop_Inr:
  "deep_copy_loop copy made xs = Inr ys \<longleftrightarrow> ys = made @ map (copied copy) xs \<and> (\<forall>x \<in> set xs. x \<noteq> 0 \<longrightarrow> copy x \<noteq> 0)"
  by (induction copy made xs rule: deep_copy_loop.induct) (auto simp: copied_def)

lemma deep_copy_loop_Inl:
  assumes "deep_copy_loop copy made xs = Inl zs"
  obtains us x vs where "xs = us @ x # vs" and "x \<noteq> 0" and "copy x = 0"
    and "zs = filter (\<lambda>y. y \<noteq> 0) (made @ map (copied copy) us)"
  using assms
proof (induction copy made xs arbitrary: thesis rule: deep_copy_loop.induct)
  case (2 copy made x xs)
  consider "x = 0" | "x \<noteq> 0" "copy x = 0" | "x \<noteq> 0" "copy x \<noteq> 0" by blast
  then show ?case
  proof cases
    case 1
    show ?thesis
      by (rule "2.IH"(1) [OF 1]) (use 1 "2.prems" in \<open>auto intro: "2.prems"(1) [of "x # _"] simp: copied_def\<close>)
  next
    case 2
    with "2.prems"(2) show ?thesis by (intro "2.prems"(1) [of "[]"]) auto
  next
    case 3
    show ?thesis
      by (rule "2.IH"(2) [OF 3]) (use 3 "2.prems" in \<open>auto intro: "2.prems"(1) [of "x # _"] simp: copied_def\<close>)
  qed
qed simp

section \<open>The operations on the list of entries\<close>

lemma sk_new_ok:
  "sk_new alloc cf = Some sk \<Longrightarrow> sk_wf cmp sk \<and> sk_list sk = []"
  by (auto simp: sk_new_def sk_wf_def sk_list_def kMinSize_def split: if_splits)

lemma sk_zero_ok:
  assumes "sk_wf cmp sk"
  obtains sk' where "sk_zero (Some sk) = Some sk'" and "sk_wf cmp sk'" and "sk_list sk' = []"
proof (cases "sk_nm sk = 0")
  case True
  then show ?thesis using that [of sk] assms by (simp add: sk_zero_def sk_list_def)
next
  case False
  let ?sk = "sk\<lparr>sk_data := replicate (sk_nm sk) 0 @ drop (sk_nm sk) (sk_data sk), sk_nm := 0, sk_sorted := False\<rparr>"
  have "sk_zero (Some sk) = Some ?sk" using False by (simp add: sk_zero_def)
  moreover have "sk_wf cmp ?sk" using sk_wfD [OF assms] by (simp add: sk_wf_def)
  ultimately show ?thesis using that by (simp add: sk_list_def)
qed

lemma sk_set_cmp_func_ok: "sk_wf cmp sk \<Longrightarrow> sk_wf cmp (snd (sk_set_cmp_func sk cf))"
  by (auto simp: sk_set_cmp_func_def sk_wf_def sk_list_def Let_def)

lemma sk_delete_wf:
  assumes "sk_wf cmp sk" and "sk_delete (Some sk) w = (r, Some sk')"
  shows "sk_wf cmp sk'"
proof (cases "w < sk_nm sk")
  case True
  from sk_delete_ok [OF assms(1) this] assms(2) show ?thesis by (metis option.inject prod.inject)
next
  case False
  then show ?thesis using assms by (simp add: sk_delete_def)
qed

lemma sk_deep_copy_ok:
  assumes wf: "sk_wf cmp sk" and d: "sk_deep_copy alloc copy (Some sk) = (Some sk', fr)"
    and keeps: "\<And>c a b. cmp c (copied copy a) (copied copy b) = cmp c a b"
  shows "sk_wf cmp sk'" and "sk_list sk' = map (copied copy) (sk_list sk)" and "sk_comp sk' = sk_comp sk"
proof -
  obtain r where r: "sk_dup alloc (Some sk) = Some r" and
    sk': "sk' = r\<lparr>sk_data := map (copied copy) (sk_list r) @ drop (sk_nm r) (sk_data r)\<rparr>"
    using d by (auto simp: sk_deep_copy_def sk_list_def deep_copy_loop_Inr split: option.splits sum.splits)
  note D = sk_dup_ok [OF wf r]
  have len: "length (sk_list r) = sk_nm r" using D(1) by simp
  have l: "sk_list sk' = map (copied copy) (sk_list r)" using len by (simp add: sk' sk_list_def)
  show "sk_wf cmp sk'"
    using sk_wfD [OF D(1)] len unfolding sk_wf_def l by (auto simp: sk' sorted_wrt_map keeps)
  show "sk_list sk' = map (copied copy) (sk_list sk)" "sk_comp sk' = sk_comp sk" using D l by (simp_all add: sk')
qed

lemma sk_find_first:
  assumes wf: "sk_wf cmp sk" and ord: "\<And>c. cmp_order (cmp c)"
  shows "sk_find cmp (Some sk) p = first_index
    (\<lambda>x. case sk_comp sk of None \<Rightarrow> x = p | Some c \<Rightarrow> p \<noteq> 0 \<and> cmp c p x = 0) (sk_list sk)"
proof (cases "sk_comp sk")
  case None
  then show ?thesis by (simp add: sk_find_def sk_list_def)
next
  case (Some c)
  have none: "first_index (\<lambda>x. False) xs = None" for xs by (induction xs) simp_all
  have "sk_bsearch (cmp c p) (sk_data sk) 0 (sk_nm sk) = first_index (\<lambda>x. cmp c p x = 0) (sk_list sk)" if "sk_sorted sk"
    using bsearch_first [OF ord sk_wfD(4) [OF wf Some that], of "sk_nm sk"] sk_wfD [OF wf] wf
    by (simp add: sk_list_def [symmetric])
  with Some show ?thesis by (auto simp: sk_find_def sk_is_sorted_def none sk_list_def [symmetric])
qed

section \<open>Every stack the functions make\<close>

text \<open>
  One call on a stack: all functions of the file that change one, but \<^verbatim>\<open>sk_set\<close>.  A failed insertion is
  a step too.  A deep copy is one when the copies compare like the originals.
\<close>

inductive sk_step :: "(nat \<Rightarrow> bool) \<Rightarrow> ('c \<Rightarrow> ptr \<Rightarrow> ptr \<Rightarrow> int) \<Rightarrow> 'c stack \<Rightarrow> 'c stack \<Rightarrow> bool"
  for alloc cmp where
  insert: "sk_insert alloc (Some sk) p w = (n, Some sk') \<Longrightarrow> sk_step alloc cmp sk sk'"
| push: "sk_push alloc sk p = (n, Some sk') \<Longrightarrow> sk_step alloc cmp sk sk'"
| delete: "sk_delete (Some sk) w = (r, Some sk') \<Longrightarrow> sk_step alloc cmp sk sk'"
| delete_ptr: "sk_delete_ptr (Some sk) p = (r, Some sk') \<Longrightarrow> sk_step alloc cmp sk sk'"
| shift: "sk_shift (Some sk) = (r, Some sk') \<Longrightarrow> sk_step alloc cmp sk sk'"
| pop: "sk_pop (Some sk) = (r, Some sk') \<Longrightarrow> sk_step alloc cmp sk sk'"
| zero: "sk_zero (Some sk) = Some sk' \<Longrightarrow> sk_step alloc cmp sk sk'"
| dup: "sk_dup alloc (Some sk) = Some sk' \<Longrightarrow> sk_step alloc cmp sk sk'"
| sort: "sk_sort cmp (Some sk) = Some sk' \<Longrightarrow> sk_step alloc cmp sk sk'"
| set_cmp_func: "sk_set_cmp_func sk cf = (old, sk') \<Longrightarrow> sk_step alloc cmp sk sk'"
| deep_copy: "sk_deep_copy alloc copy (Some sk) = (Some sk', fr) \<Longrightarrow>
    \<forall>c a b. cmp c (copied copy a) (copied copy b) = cmp c a b \<Longrightarrow> sk_step alloc cmp sk sk'"

inductive sk_reachable :: "(nat \<Rightarrow> bool) \<Rightarrow> ('c \<Rightarrow> ptr \<Rightarrow> ptr \<Rightarrow> int) \<Rightarrow> 'c stack \<Rightarrow> bool"
  for alloc cmp where
  new: "sk_new alloc cf = Some sk \<Longrightarrow> sk_reachable alloc cmp sk"
| step: "sk_reachable alloc cmp sk \<Longrightarrow> sk_step alloc cmp sk sk' \<Longrightarrow> sk_reachable alloc cmp sk'"

lemma sk_step_wf:
  assumes "sk_step alloc cmp sk sk'" and ord: "\<And>c. cmp_order (cmp c)" and wf: "sk_wf cmp sk"
  shows "sk_wf cmp sk'"
  using assms(1)
proof cases
  case (insert p w n)
  from sk_insert_ok [OF wf this] wf show ?thesis by auto
next
  case (push p n)
  from sk_insert_ok [OF wf this [unfolded sk_push_def]] wf show ?thesis by auto
next
  case (delete_ptr p r)
  then show ?thesis using wf by (auto simp: sk_delete_ptr_def split: option.splits dest: sk_delete_wf)
next
  case (shift r)
  then show ?thesis using wf by (auto simp: sk_shift_def split: if_splits dest: sk_delete_wf)
next
  case (pop r)
  then show ?thesis using wf by (auto simp: sk_pop_def split: if_splits dest: sk_delete_wf)
next
  case zero
  then show ?thesis using sk_zero_ok [OF wf] by (metis option.inject)
next
  case sort
  then show ?thesis using sk_sort_ok [OF wf ord] by (metis option.inject)
next
  case (set_cmp_func cf old)
  then show ?thesis using sk_set_cmp_func_ok [OF wf, of cf] by simp
next
  case (deep_copy copy fr)
  show ?thesis by (rule sk_deep_copy_ok(1) [OF wf deep_copy(1)]) (use deep_copy(2) in blast)
qed (use wf in \<open>auto dest: sk_delete_wf sk_dup_ok(1)\<close>)

lemma sk_reachable_wf:
  assumes "sk_reachable alloc cmp sk" and "\<And>c. cmp_order (cmp c)"
  shows "sk_wf cmp sk"
  using assms(1)
proof induction
  case (new cf sk)
  then show ?case using sk_new_ok by blast
next
  case (step sk sk')
  show ?case by (rule sk_step_wf [OF step.hyps(2) assms(2) step.IH])
qed


definition sk_example_cmp :: "unit \<Rightarrow> ptr \<Rightarrow> ptr \<Rightarrow> int" where
  "sk_example_cmp c a b = int a - int b"

definition sk_example :: "unit stack" where
  "sk_example = \<lparr>sk_nm = 4, sk_data = [3, 5, 5, 7, 0, 0, 0, 0], sk_sorted = True, sk_num_alloc = 8, sk_comp = Some ()\<rparr>"

lemma sk_example_order: "cmp_order (sk_example_cmp c)"
  by (auto simp: cmp_order_def sk_example_cmp_def)

lemma sk_example_reachable: "sk_reachable (\<lambda>_. True) sk_example_cmp sk_example"
proof -
  let ?sk = "\<lambda>n xs. \<lparr>sk_nm = n, sk_data = xs, sk_sorted = False, sk_num_alloc = length xs, sk_comp = Some ()\<rparr>"
  let ?R = "sk_reachable (\<lambda>_. True) sk_example_cmp"
  note E = sk_push_def sk_insert_def sk_grow_def sk_put_def move_ptrs_def size_add_def size_mult_def sizeof_ptr_def
  have four: "replicate 4 (0::nat) = [0, 0, 0, 0]" by (simp add: numeral_eq_Suc)
  have "?R (?sk 0 [0, 0, 0, 0])"
    by (rule sk_reachable.new [of _ "Some ()"]) (simp add: sk_new_def kMinSize_def numeral_eq_Suc)
  then have "?R (?sk 1 [5, 0, 0, 0])"
    by (rule sk_reachable.step) (rule sk_step.push [of _ _ 5 1], simp add: E)
  then have "?R (?sk 2 [5, 3, 0, 0])"
    by (rule sk_reachable.step) (rule sk_step.push [of _ _ 3 2], simp add: E)
  then have "?R (?sk 3 [5, 5, 3, 0])"
    by (rule sk_reachable.step) (rule sk_step.insert [of _ _ 5 1 3], simp add: E)
  then have "?R (?sk 4 [5, 5, 3, 7, 0, 0, 0, 0])"
    by (rule sk_reachable.step) (rule sk_step.push [of _ _ 7 4], simp add: E four)
  then show ?thesis
    by (rule sk_reachable.step) (rule sk_step.sort, simp add: sk_sort_def qsort_def sk_example_def sk_example_cmp_def)
qed


text \<open>C39: A stack is the list of its entries: on a well-formed stack sk_insert puts the pointer at its place
  and returns the new length, or leaves the stack as it was and returns 0; sk_delete returns the
  entry and removes just it; sk_value reads the list, and is NULL behind its end.\<close>

theorem sk_refines_list:
  assumes wf: "sk_wf cmp sk"
  shows "(sk_insert alloc (Some sk) p w = (0, Some sk) \<or>
      (\<exists>sk'. sk_insert alloc (Some sk) p w = (length (sk_list sk) + 1, Some sk') \<and> sk_wf cmp sk' \<and>
         sk_list sk' = take w (sk_list sk) @ p # drop w (sk_list sk))) \<and>
    (w < length (sk_list sk) \<longrightarrow> (\<exists>sk'. sk_delete (Some sk) w = (sk_list sk ! w, Some sk') \<and> sk_wf cmp sk' \<and>
         sk_list sk' = take w (sk_list sk) @ drop (Suc w) (sk_list sk))) \<and>
    sk_value (Some sk) w = (if w < length (sk_list sk) then sk_list sk ! w else 0)"
proof (intro conjI impI)
  obtain n s where i: "sk_insert alloc (Some sk) p w = (n, s)" by (cases "sk_insert alloc (Some sk) p w")
  from sk_insert_ok [OF wf i] i wf
  show "sk_insert alloc (Some sk) p w = (0, Some sk) \<or>
      (\<exists>sk'. sk_insert alloc (Some sk) p w = (length (sk_list sk) + 1, Some sk') \<and> sk_wf cmp sk' \<and>
         sk_list sk' = take w (sk_list sk) @ p # drop w (sk_list sk))" by auto
  show "\<exists>sk'. sk_delete (Some sk) w = (sk_list sk ! w, Some sk') \<and> sk_wf cmp sk' \<and>
         sk_list sk' = take w (sk_list sk) @ drop (Suc w) (sk_list sk)" if "w < length (sk_list sk)"
    using sk_delete_ok [OF wf] that wf by (metis length_sk_list)
  show "sk_value (Some sk) w = (if w < length (sk_list sk) then sk_list sk ! w else 0)"
    using wf by (simp add: sk_value_def) (simp add: sk_list_def)
qed

theorem sk_refines_list_witness:
  "sk_delete (Some sk_example) 0 = (3, Some (sk_example\<lparr>sk_nm := 3, sk_data := [5, 5, 7, 7, 0, 0, 0, 0]\<rparr>)) \<and>
   (\<exists>sk'. sk_delete (Some sk_example) 0 = (3, Some sk') \<and> sk_list sk' = [5, 5, 7])"
proof
  show "sk_delete (Some sk_example) 0 = (3, Some (sk_example\<lparr>sk_nm := 3, sk_data := [5, 5, 7, 7, 0, 0, 0, 0]\<rparr>))"
    by (simp add: sk_delete_def sk_example_def move_ptrs_def)
  have "sk_wf sk_example_cmp sk_example"
    by (simp add: sk_wf_def sk_example_def sk_example_cmp_def sk_list_def)
  from sk_refines_list [OF this, of "\<lambda>_. True" 0 0]
  show "\<exists>sk'. sk_delete (Some sk_example) 0 = (3, Some sk') \<and> sk_list sk' = [5, 5, 7]"
    by (auto simp: sk_list_def sk_example_def)
qed


end
