(* ===== verification/Nanopb_Decode.thy ===== *)
theory Nanopb_Decode
  imports Nanopb_Encode
begin

text \<open>
  The message decoder of \<^verbatim>\<open>pb_decode.c\<close>.  It reads fields from an input stream and stores them into a
  message in memory, through the same descriptors and iterator as the encoder.  The state is the
  stream together with the memory, in which the blocks of \<^verbatim>\<open>realloc\<close> and \<^verbatim>\<open>free\<close> are tracked.  What the
  application and the C library supply is in \<^verbatim>\<open>pb_denv\<close>: descriptor arrays, callbacks, and where an
  allocation goes.  The one local variable whose address is taken, \<^verbatim>\<open>fixed_count_size\<close> of
  \<^verbatim>\<open>pb_decode_noinit\<close>, has its address from \<^verbatim>\<open>frame\<close>.

  The recursion into submessages, the calls of one callback and the walks along extension lists have
  a bound; a run that needs more fails in the model.
\<close>

unbundle bit_operations_syntax

section \<open>Memory and heap\<close>

definition write_bytes :: "mem \<Rightarrow> nat \<Rightarrow> bytes \<Rightarrow> mem" where
  "write_bytes m a bs = (\<lambda>x. if a \<le> x \<and> x < a + length bs then bs ! (x - a) else m x)"

text \<open>
  \<^verbatim>\<open>hblocks\<close> has the sizes of the live blocks, \<^verbatim>\<open>hwild\<close> becomes true when something else than a live
  block or NULL is freed or reallocated.
\<close>

record heap =
  hmem :: mem
  hblocks :: "nat \<rightharpoonup> nat"
  hwild :: bool

type_synonym 'st decoder = "'st pb_istream \<times> heap \<Rightarrow> ('st pb_istream \<times> heap, unit) cres"

text \<open>
  \<^verbatim>\<open>place\<close> is the address an allocation gets, 0 when it is refused.  A decoding callback is one C function;
  \<^verbatim>\<open>decode_cb\<close> is its behaviour on the stream of the message, \<^verbatim>\<open>decode_cb_buf\<close> on a stream over a buffer.
\<close>

record 'st pb_denv =
  ddescs :: "nat \<Rightarrow> pb_field list"
  place :: "heap \<Rightarrow> nat \<Rightarrow> nat \<Rightarrow> nat"
  decode_cb :: "nat \<Rightarrow> pb_field \<Rightarrow> nat \<Rightarrow> 'st decoder"
  decode_cb_buf :: "nat \<Rightarrow> pb_field \<Rightarrow> nat \<Rightarrow> bytes decoder"
  extension_dec :: "nat \<Rightarrow> nat \<Rightarrow> u32 \<Rightarrow> u32 \<Rightarrow> 'st decoder"
  frame :: "nat \<Rightarrow> nat"

definition poke_heap :: "nat \<Rightarrow> bytes \<Rightarrow> heap \<Rightarrow> heap" where
  "poke_heap a bs h = h\<lparr>hmem := write_bytes (hmem h) a bs\<rparr>"

definition store :: "nat \<Rightarrow> bytes \<Rightarrow> 'st pb_istream \<times> heap \<Rightarrow> 'st pb_istream \<times> heap" where
  "store a bs sh = (fst sh, poke_heap a bs (snd sh))"

definition on_stream ::
    "('st pb_istream \<Rightarrow> ('st pb_istream, 'a) cres) \<Rightarrow> 'st pb_istream \<times> heap \<Rightarrow> ('st pb_istream \<times> heap, 'a) cres" where
  "on_stream f sh = (fst (f (fst sh)), (snd (f (fst sh)), snd sh))"

definition dec_error :: "string \<Rightarrow> 'st pb_istream \<times> heap \<Rightarrow> ('st pb_istream \<times> heap, 'a) cres" where
  "dec_error msg sh = fails (pb_set_ierror msg (fst sh), snd sh)"

definition pb_realloc :: "'st pb_denv \<Rightarrow> nat \<Rightarrow> nat \<Rightarrow> heap \<Rightarrow> nat \<times> heap" where
  "pb_realloc env p n h = (let
     q = place env h p n;
     old = (case hblocks h p of None \<Rightarrow> 0 | Some k \<Rightarrow> k);
     wild = (hwild h \<or> (p \<noteq> 0 \<and> hblocks h p = None))
     in if q = 0 then (0, h\<lparr>hwild := wild\<rparr>)
        else (q, h\<lparr>hmem := write_bytes (hmem h) q (read_bytes (hmem h) p (min old n)),
                   hblocks := (hblocks h)(p := None, q := Some n), hwild := wild\<rparr>))"

definition pb_free :: "nat \<Rightarrow> heap \<Rightarrow> heap" where
  "pb_free p h = (if p = 0 then h
     else h\<lparr>hblocks := (hblocks h)(p := None), hwild := hwild h \<or> hblocks h p = None\<rparr>)"

definition allocate_field :: "'st pb_denv \<Rightarrow> nat \<Rightarrow> nat \<Rightarrow> nat \<Rightarrow> 'st decoder" where
  "allocate_field env d dsize asize sh = (let
     p = read_ptr (hmem (snd sh)) d
     in if dsize = 0 \<or> asize = 0 then dec_error ''invalid size'' sh
        else if (dsize \<ge> 2 ^ 32 \<or> asize \<ge> 2 ^ 32) \<and> (2 ^ 64 - 1) div asize < dsize
        then dec_error ''size too large'' sh
        else (case pb_realloc env p (size_mult asize dsize) (snd sh) of (q, h) \<Rightarrow>
          if q = 0 then dec_error ''realloc failed'' (fst sh, h)
          else returns () (store d (le_bytes 8 q) (fst sh, h))))"

section \<open>Decoders of values\<close>

definition pb_dec_bool :: "pb_field \<Rightarrow> nat \<Rightarrow> 'st decoder" where
  "pb_dec_bool field dest sh =
     try_op (on_stream pb_decode_varint32 sh) (\<lambda>value sh.
       returns () (store dest [if value \<noteq> 0 then 1 else 0] sh))"

definition pb_decode_bool :: "nat \<Rightarrow> 'st decoder" where
  "pb_decode_bool dest sh = pb_dec_bool PB_LAST_FIELD dest sh"

text \<open>
  The value that a field of \<^verbatim>\<open>n\<close> bytes holds after the 64 bits were assigned to it, widened again; None
  when there is no such integer type.
\<close>

definition clamp_signed :: "nat \<Rightarrow> u64 \<Rightarrow> u64 option" where
  "clamp_signed n v =
     (if n = 8 then Some v
      else if n = 4 then Some (scast (ucast v :: u32))
      else if n = 2 then Some (scast (ucast v :: u16))
      else if n = 1 then Some (scast (ucast v :: u8))
      else None)"

definition clamp_unsigned :: "nat \<Rightarrow> u64 \<Rightarrow> u64 option" where
  "clamp_unsigned n v =
     (if n = 8 then Some v
      else if n = 4 then Some (ucast (ucast v :: u32))
      else if n = 2 then Some (ucast (ucast v :: u16))
      else if n = 1 then Some (ucast (ucast v :: u8))
      else None)"

definition store_clamped :: "u64 option \<Rightarrow> u64 \<Rightarrow> nat \<Rightarrow> nat \<Rightarrow> 'st decoder" where
  "store_clamped clamped value n dest sh =
     (case clamped of None \<Rightarrow> dec_error ''invalid data_size'' sh
      | Some c \<Rightarrow>
          let sh = store dest (le_bytes n (unat value)) sh in
          if c \<noteq> value then dec_error ''integer too large'' sh else returns () sh)"

definition pb_dec_varint :: "pb_field \<Rightarrow> nat \<Rightarrow> 'st decoder" where
  "pb_dec_varint field dest sh =
     try_op (on_stream pb_decode_varint sh) (\<lambda>value sh.
       let n = unat (data_size field);
           svalue = (if n = 8 then value else scast (ucast value :: u32)) in
       store_clamped (clamp_signed n svalue) svalue n dest sh)"

definition pb_dec_uvarint :: "pb_field \<Rightarrow> nat \<Rightarrow> 'st decoder" where
  "pb_dec_uvarint field dest sh =
     try_op (on_stream pb_decode_varint sh) (\<lambda>value sh.
       let n = unat (data_size field) in store_clamped (clamp_unsigned n value) value n dest sh)"

definition pb_dec_svarint :: "pb_field \<Rightarrow> nat \<Rightarrow> 'st decoder" where
  "pb_dec_svarint field dest sh =
     try_op (on_stream pb_decode_svarint sh) (\<lambda>value sh.
       let n = unat (data_size field) in store_clamped (clamp_signed n value) value n dest sh)"

definition pb_dec_fixed32 :: "pb_field \<Rightarrow> nat \<Rightarrow> 'st decoder" where
  "pb_dec_fixed32 field dest sh =
     try_op (on_stream pb_decode_fixed32 sh) (\<lambda>value sh. returns () (store dest (le_bytes 4 (unat value)) sh))"

definition pb_dec_fixed64 :: "pb_field \<Rightarrow> nat \<Rightarrow> 'st decoder" where
  "pb_dec_fixed64 field dest sh =
     try_op (on_stream pb_decode_fixed64 sh) (\<lambda>value sh. returns () (store dest (le_bytes 8 (unat value)) sh))"

text \<open>\<^verbatim>\<open>pb_read\<close> into memory.\<close>

definition read_to :: "nat \<Rightarrow> nat \<Rightarrow> 'st decoder" where
  "read_to a n sh = try_op (on_stream (pb_read False n) sh) (\<lambda>bs sh. returns () (store a bs sh))"

definition PB_BYTES_ARRAY_T_ALLOCSIZE :: "nat \<Rightarrow> nat" where
  "PB_BYTES_ARRAY_T_ALLOCSIZE n = size_add n offsetof_bytes"

definition pb_dec_bytes :: "'st pb_denv \<Rightarrow> pb_field \<Rightarrow> nat \<Rightarrow> 'st decoder" where
  "pb_dec_bytes env field dest sh =
     try_op (on_stream pb_decode_varint32 sh) (\<lambda>size sh.
       let alloc_size = PB_BYTES_ARRAY_T_ALLOCSIZE (unat size) in
       if size > PB_SIZE_MAX then dec_error ''bytes overflow'' sh
       else if unat size > alloc_size then dec_error ''size too large'' sh
       else
         try_op
           (if PB_ATYPE (ftype field) = PB_ATYPE_POINTER then
              if bytes_left (fst sh) < unat size then dec_error ''end-of-stream'' sh
              else try_op (allocate_field env dest alloc_size 1 sh) (\<lambda>_ sh.
                returns (read_ptr (hmem (snd sh)) dest) sh)
            else if alloc_size > unat (data_size field) then dec_error ''bytes overflow'' sh
            else returns dest sh)
           (\<lambda>bdest sh. read_to (bdest + offsetof_bytes) (unat size) (store bdest (le_bytes 4 (unat size)) sh)))"

text \<open>\<^verbatim>\<open>size + 1\<close> is computed in 32 bits.\<close>

definition pb_dec_string :: "'st pb_denv \<Rightarrow> pb_field \<Rightarrow> nat \<Rightarrow> 'st decoder" where
  "pb_dec_string env field dest sh =
     try_op (on_stream pb_decode_varint32 sh) (\<lambda>size sh.
       let alloc_size = unat (size + 1) in
       if alloc_size < unat size then dec_error ''size too large'' sh
       else
         try_op
           (if PB_ATYPE (ftype field) = PB_ATYPE_POINTER then
              if bytes_left (fst sh) < unat size then dec_error ''end-of-stream'' sh
              else try_op (allocate_field env dest alloc_size 1 sh) (\<lambda>_ sh.
                returns (read_ptr (hmem (snd sh)) dest) sh)
            else if alloc_size > unat (data_size field) then dec_error ''string overflow'' sh
            else returns dest sh)
           (\<lambda>dest sh. case read_to dest (unat size) sh of (status, sh) \<Rightarrow>
              (status, store (dest + unat size) [0] sh)))"

definition pb_dec_fixed_length_bytes :: "pb_field \<Rightarrow> nat \<Rightarrow> 'st decoder" where
  "pb_dec_fixed_length_bytes field dest sh =
     try_op (on_stream pb_decode_varint32 sh) (\<lambda>size sh.
       let n = unat (data_size field) in
       if size > PB_SIZE_MAX then dec_error ''bytes overflow'' sh
       else if size = 0 then returns () (store dest (replicate n 0) sh)
       else if size \<noteq> data_size field then dec_error ''incorrect fixed length bytes size'' sh
       else read_to dest n sh)"

section \<open>Submessages\<close>

text \<open>Closing a substream after \<^verbatim>\<open>status\<close> was computed on it.\<close>

definition close_substream :: "unit option \<Rightarrow> 'st pb_istream \<Rightarrow> 'st decoder" where
  "close_substream status substream sh =
     try_op (on_stream (pb_close_string_substream substream) sh) (\<lambda>_ sh. (status, sh))"

text \<open>\<^verbatim>\<open>di\<close> and \<^verbatim>\<open>dn\<close> are \<^verbatim>\<open>pb_decode\<close> and \<^verbatim>\<open>pb_decode_noinit\<close> one level further down.\<close>

type_synonym 'st msg_decoder = "pb_field list \<Rightarrow> nat \<Rightarrow> 'st decoder"

definition pb_dec_submessage ::
    "'st msg_decoder \<Rightarrow> 'st msg_decoder \<Rightarrow> 'st pb_denv \<Rightarrow> pb_field \<Rightarrow> nat \<Rightarrow> 'st decoder" where
  "pb_dec_submessage di dn env field dest sh =
     try_op (on_stream pb_make_string_substream sh) (\<lambda>substream sh.
       if ptr field = 0 then dec_error ''invalid field descriptor'' sh
       else
         (case (if PB_HTYPE (ftype field) = PB_HTYPE_REPEATED then di else dn)
                 (ddescs env (ptr field)) dest (substream, snd sh) of
            (status, (substream, h)) \<Rightarrow> close_substream status substream (fst sh, h)))"

text \<open>The entry for extensions is a null pointer and there is none behind the last: such a call fails here.\<close>

definition PB_DECODERS ::
    "'st msg_decoder \<Rightarrow> 'st msg_decoder \<Rightarrow> 'st pb_denv \<Rightarrow> u8 \<Rightarrow> pb_field \<Rightarrow> nat \<Rightarrow> 'st decoder" where
  "PB_DECODERS di dn env lt =
     (if lt = PB_LTYPE_BOOL then pb_dec_bool
      else if lt = PB_LTYPE_VARINT then pb_dec_varint
      else if lt = PB_LTYPE_UVARINT then pb_dec_uvarint
      else if lt = PB_LTYPE_SVARINT then pb_dec_svarint
      else if lt = PB_LTYPE_FIXED32 then pb_dec_fixed32
      else if lt = PB_LTYPE_FIXED64 then pb_dec_fixed64
      else if lt = PB_LTYPE_BYTES then pb_dec_bytes env
      else if lt = PB_LTYPE_STRING then pb_dec_string env
      else if lt = PB_LTYPE_SUBMESSAGE then pb_dec_submessage di dn env
      else if lt = PB_LTYPE_FIXED_LENGTH_BYTES then pb_dec_fixed_length_bytes
      else (\<lambda>field dest sh. fails sh))"

section \<open>Extensions and default values\<close>

text \<open>
  \<^verbatim>\<open>pb_extension_t\<close> holds \<^verbatim>\<open>type\<close>, \<^verbatim>\<open>dest\<close>, \<^verbatim>\<open>next\<close> and \<^verbatim>\<open>found\<close> at offsets 0, 8, 16 and 24;
  \<^verbatim>\<open>pb_extension_type_t\<close> holds \<^verbatim>\<open>decode\<close> and \<^verbatim>\<open>arg\<close> at offsets 0 and 16.
\<close>

definition extension_field :: "'st pb_denv \<Rightarrow> nat \<Rightarrow> heap \<Rightarrow> pb_field list" where
  "extension_field env ext h = ddescs env (read_ptr (hmem h) (read_ptr (hmem h) ext + 16))"

definition iter_from_extension :: "'st pb_denv \<Rightarrow> nat \<Rightarrow> heap \<Rightarrow> pb_field_iter" where
  "iter_from_extension env ext h = (let
     fs = extension_field env ext h;
     dest = read_ptr (hmem h) (ext + 8);
     iter = (snd (pb_field_iter_begin fs dest))\<lparr>pData := dest, pSize := ext + 24\<rparr>
     in if PB_ATYPE (ftype (fld fs 0)) = PB_ATYPE_POINTER then iter\<lparr>pData := ext + 8\<rparr> else iter)"

text \<open>The loops along a list of extensions, \<^verbatim>\<open>k\<close> rounds at most.\<close>

fun ext_loop :: "nat \<Rightarrow> (nat \<Rightarrow> heap \<Rightarrow> heap) \<Rightarrow> nat \<Rightarrow> heap \<Rightarrow> heap" where
  "ext_loop 0 f ext h = h"
| "ext_loop (Suc k) f ext h =
     (if ext = 0 then h else let h = f ext h in ext_loop k f (read_ptr (hmem h) (ext + 16)) h)"

text \<open>A walk over the fields of a message that cannot fail.\<close>

definition iter_do :: "(pb_field_iter \<Rightarrow> 's \<Rightarrow> 's) \<Rightarrow> pb_field_iter \<Rightarrow> 's \<Rightarrow> 's" where
  "iter_do f iter s = snd (iter_while (\<lambda>iter s. returns () (f iter s)) iter s)"

fun pb_field_set_to_default :: "nat \<Rightarrow> 'st pb_denv \<Rightarrow> pb_field_iter \<Rightarrow> heap \<Rightarrow> heap"
  and pb_message_set_to_defaults :: "nat \<Rightarrow> 'st pb_denv \<Rightarrow> pb_field list \<Rightarrow> nat \<Rightarrow> heap \<Rightarrow> heap" where
  "pb_field_set_to_default 0 env iter h = h"
| "pb_field_set_to_default (Suc n) env iter h =
     (let field = cur iter; t = ftype field; d = pData iter; z = pSize iter in
      if PB_LTYPE t = PB_LTYPE_EXTENSION then
        ext_loop n (\<lambda>ext h.
          let h = poke_heap (ext + 24) [0] h in
          pb_field_set_to_default n env (iter_from_extension env ext h) h) (read_ptr (hmem h) d) h
      else if PB_ATYPE t = PB_ATYPE_STATIC then
        let counted = (PB_HTYPE t = PB_HTYPE_REPEATED \<or> PB_HTYPE t = PB_HTYPE_ONEOF);
            has_flag = (PB_HTYPE t = PB_HTYPE_OPTIONAL \<and> z \<noteq> d);
            h = (if has_flag then poke_heap z [0] h
                 else if counted then poke_heap z (le_bytes 4 0) h
                 else h);
            init_data = (has_flag \<or> \<not> counted)
        in if \<not> init_data then h
           else if PB_LTYPE t = PB_LTYPE_SUBMESSAGE
           then pb_message_set_to_defaults n env (ddescs env (ptr field)) d h
           else if ptr field \<noteq> 0
           then poke_heap d (read_bytes (hmem h) (ptr field) (unat (data_size field))) h
           else poke_heap d (replicate (unat (data_size field)) 0) h
      else if PB_ATYPE t = PB_ATYPE_POINTER then
        let h = poke_heap d (le_bytes 8 0) h in
        if PB_HTYPE t = PB_HTYPE_REPEATED \<or> PB_HTYPE t = PB_HTYPE_ONEOF
        then poke_heap z (le_bytes 4 0) h else h
      else h)"
| "pb_message_set_to_defaults n env fs dest h =
     (case pb_field_iter_begin fs dest of (nonempty, iter) \<Rightarrow>
        if \<not> nonempty then h else iter_do (pb_field_set_to_default n env) iter h)"

declare pb_message_set_to_defaults.simps [simp del]

section \<open>Releasing what a message owns\<close>

text \<open>The loops that free the entries of an array of pointers, and release an array of submessages.\<close>

fun free_items :: "nat \<Rightarrow> nat \<Rightarrow> heap \<Rightarrow> heap" where
  "free_items 0 p h = h"
| "free_items (Suc c) p h =
     free_items c (p + sizeof_ptr) (poke_heap p (le_bytes 8 0) (pb_free (read_ptr (hmem h) p) h))"

fun release_items :: "(nat \<Rightarrow> heap \<Rightarrow> heap) \<Rightarrow> nat \<Rightarrow> nat \<Rightarrow> nat \<Rightarrow> heap \<Rightarrow> heap" where
  "release_items f 0 p step h = h"
| "release_items f (Suc c) p step h = release_items f c (p + step) step (f p h)"

definition release_count :: "pb_field_iter \<Rightarrow> heap \<Rightarrow> nat" where
  "release_count iter h = (let field = cur iter; t = ftype field in
     if PB_HTYPE t = PB_HTYPE_REPEATED then
       let count = (if PB_ATYPE t = PB_ATYPE_STATIC \<and> pSize iter = pData iter then array_size field
                    else read_size (hmem h) (pSize iter)) in
       if PB_ATYPE t = PB_ATYPE_STATIC \<and> count > array_size field then unat (array_size field) else unat count
     else 1)"

text \<open>The last part of \<^verbatim>\<open>pb_release_single_field\<close>, for pointer fields.\<close>

definition release_pointer :: "pb_field_iter \<Rightarrow> heap \<Rightarrow> heap" where
  "release_pointer iter h = (let
     t = ftype (cur iter); d = pData iter; z = pSize iter;
     h = (if PB_HTYPE t = PB_HTYPE_REPEATED \<and> (PB_LTYPE t = PB_LTYPE_STRING \<or> PB_LTYPE t = PB_LTYPE_BYTES)
          then free_items (unat (read_size (hmem h) z)) (read_ptr (hmem h) d) h else h);
     h = (if PB_HTYPE t = PB_HTYPE_REPEATED then poke_heap z (le_bytes 4 0) h else h)
     in poke_heap d (le_bytes 8 0) (pb_free (read_ptr (hmem h) d) h))"

fun pb_release_single_field :: "nat \<Rightarrow> 'st pb_denv \<Rightarrow> pb_field_iter \<Rightarrow> heap \<Rightarrow> heap"
  and pb_release :: "nat \<Rightarrow> 'st pb_denv \<Rightarrow> pb_field list \<Rightarrow> nat \<Rightarrow> heap \<Rightarrow> heap" where
  "pb_release_single_field 0 env iter h = h"
| "pb_release_single_field (Suc n) env iter h =
     (let field = cur iter; t = ftype field; d = pData iter in
      if PB_HTYPE t = PB_HTYPE_ONEOF \<and> read_size (hmem h) (pSize iter) \<noteq> tag field then h
      else
        let h =
          (if PB_LTYPE t = PB_LTYPE_EXTENSION then
             ext_loop n (\<lambda>ext h. pb_release_single_field n env (iter_from_extension env ext h) h)
               (read_ptr (hmem h) d) h
           else if PB_LTYPE t = PB_LTYPE_SUBMESSAGE \<and> PB_ATYPE t \<noteq> PB_ATYPE_CALLBACK then
             let item = (if PB_ATYPE t = PB_ATYPE_POINTER then read_ptr (hmem h) d else d) in
             if item \<noteq> 0
             then release_items (pb_release n env (ddescs env (ptr field))) (release_count iter h) item
                    (unat (data_size field)) h
             else h
           else h)
        in if PB_ATYPE t = PB_ATYPE_POINTER then release_pointer iter h else h)"
| "pb_release n env fs dest h =
     (if dest = 0 then h
      else (case pb_field_iter_begin fs dest of (nonempty, iter) \<Rightarrow>
        if \<not> nonempty then h else iter_do (pb_release_single_field n env) iter h))"

declare pb_release.simps [simp del]

text \<open>The iterator is moved to the old member of the union and back; its state is the result.\<close>

definition pb_release_union_field ::
    "nat \<Rightarrow> 'st pb_denv \<Rightarrow> pb_field_iter \<Rightarrow> 'st pb_istream \<times> heap \<Rightarrow> ('st pb_istream \<times> heap, pb_field_iter) cres" where
  "pb_release_union_field n env iter sh = (let
     old_tag = read_size (hmem (snd sh)) (pSize iter);
     new_tag = tag (cur iter)
     in if old_tag = 0 then returns iter sh
        else if old_tag = new_tag then returns iter sh
        else
          (case pb_field_iter_find old_tag iter of (found, iter) \<Rightarrow>
             if \<not> found then dec_error ''invalid union tag'' sh
             else
               let sh = (fst sh, pb_release_single_field n env iter (snd sh)) in
               (case pb_field_iter_find new_tag iter of (found, iter) \<Rightarrow>
                  if \<not> found then dec_error ''iterator error'' sh
                  else if PB_ATYPE (ftype (cur iter)) = PB_ATYPE_POINTER
                  then returns iter (store (pData iter) (le_bytes 8 0) sh)
                  else returns iter sh)))"

section \<open>Fields\<close>

definition size_at :: "pb_field_iter \<Rightarrow> 'st pb_istream \<times> heap \<Rightarrow> u32" where
  "size_at iter sh = read_size (hmem (snd sh)) (pSize iter)"

definition set_size :: "pb_field_iter \<Rightarrow> u32 \<Rightarrow> 'st pb_istream \<times> heap \<Rightarrow> 'st pb_istream \<times> heap" where
  "set_size iter v sh = store (pSize iter) (le_bytes 4 (unat v)) sh"

text \<open>
  The loop over a packed array in a static field.  A round takes at least a byte from the substream,
  so that as many rounds as it has bytes are enough.  An item's offset is computed in 32 bits.
\<close>

fun decode_packed :: "nat \<Rightarrow> (nat \<Rightarrow> 'st decoder) \<Rightarrow> pb_field_iter \<Rightarrow> 'st decoder" where
  "decode_packed 0 func iter sh = returns () sh"
| "decode_packed (Suc k) func iter sh =
     (if bytes_left (fst sh) > 0 \<and> size_at iter sh < array_size (cur iter) then
        try_op (func (pData iter + unat (data_size (cur iter) * size_at iter sh)) sh) (\<lambda>_ sh.
          decode_packed k func iter (set_size iter (size_at iter sh + 1) sh))
      else returns () sh)"

definition decode_packed_array :: "(nat \<Rightarrow> 'st decoder) \<Rightarrow> pb_field_iter \<Rightarrow> 'st decoder" where
  "decode_packed_array func iter sh =
     try_op (on_stream pb_make_string_substream sh) (\<lambda>substream sh.
       case decode_packed (bytes_left substream) func iter (substream, snd sh) of
         (status, (substream, h)) \<Rightarrow>
           if bytes_left substream \<noteq> 0 then dec_error ''array overflow'' (fst sh, h)
           else close_substream status substream (fst sh, h))"

definition decode_array_item :: "(nat \<Rightarrow> 'st decoder) \<Rightarrow> pb_field_iter \<Rightarrow> 'st decoder" where
  "decode_array_item func iter sh =
     (let size = size_at iter sh; sh = set_size iter (size + 1) sh in
      if size \<ge> array_size (cur iter) then dec_error ''array overflow'' sh
      else func (pData iter + unat (data_size (cur iter) * size)) sh)"

definition decode_static_field ::
    "nat \<Rightarrow> 'st msg_decoder \<Rightarrow> 'st msg_decoder \<Rightarrow> 'st pb_denv \<Rightarrow> u32 \<Rightarrow> pb_field_iter \<Rightarrow> 'st decoder" where
  "decode_static_field n di dn env wire_type iter sh =
     (let field = cur iter; t = ftype field; func = PB_DECODERS di dn env (PB_LTYPE t) field in
      if PB_HTYPE t = PB_HTYPE_REQUIRED then func (pData iter) sh
      else if PB_HTYPE t = PB_HTYPE_OPTIONAL then
        func (pData iter) (if pSize iter \<noteq> pData iter then store (pSize iter) [1] sh else sh)
      else if PB_HTYPE t = PB_HTYPE_REPEATED then
        if wire_type = PB_WT_STRING \<and> PB_LTYPE t \<le> PB_LTYPE_LAST_PACKABLE then
          decode_packed_array func iter sh
        else decode_array_item func iter sh
      else if PB_HTYPE t = PB_HTYPE_ONEOF then
        let sh =
          (if PB_LTYPE t = PB_LTYPE_SUBMESSAGE \<and> size_at iter sh \<noteq> tag field
           then (fst sh, pb_message_set_to_defaults n env (ddescs env (ptr field)) (pData iter)
                   (poke_heap (pData iter) (replicate (unat (data_size field)) 0) (snd sh)))
           else sh)
        in func (pData iter) (set_size iter (tag field) sh)
      else dec_error ''invalid field type'' sh)"

definition initialize_pointer_field :: "nat \<Rightarrow> 'st pb_denv \<Rightarrow> nat \<Rightarrow> pb_field_iter \<Rightarrow> heap \<Rightarrow> heap" where
  "initialize_pointer_field n env item iter h =
     (let field = cur iter; lt = PB_LTYPE (ftype field) in
      if lt = PB_LTYPE_STRING \<or> lt = PB_LTYPE_BYTES then poke_heap item (le_bytes 8 0) h
      else if lt = PB_LTYPE_SUBMESSAGE then
        pb_message_set_to_defaults n env (ddescs env (ptr field)) item
          (poke_heap item (replicate (unat (data_size field)) 0) h)
      else h)"

text \<open>
  The loop over a packed array in a pointer field, with the number of entries there is room for.  The
  message for too many entries goes to the outer stream; the loop returns it for that.
\<close>

fun decode_packed_pointer ::
    "nat \<Rightarrow> nat \<Rightarrow> 'st pb_denv \<Rightarrow> (nat \<Rightarrow> 'st decoder) \<Rightarrow> pb_field_iter \<Rightarrow> nat \<Rightarrow> 'st pb_istream \<times> heap \<Rightarrow>
     string option \<times> ('st pb_istream \<times> heap, unit) cres" where
  "decode_packed_pointer 0 n env func iter allocated sh = (None, returns () sh)"
| "decode_packed_pointer (Suc k) n env func iter allocated sh =
     (let field = cur iter; size = size_at iter sh in
      if bytes_left (fst sh) = 0 then (None, returns () sh)
      else if size = PB_SIZE_MAX then (Some ''too many array entries'', fails sh)
      else
        let more = (unat size + 1 > allocated);
            remain = (bytes_left (fst sh) - 1) div unat (data_size field) + 1;
            allocated = (if more then
                           if remain < unat PB_SIZE_MAX - allocated then allocated + remain else allocated + 1
                         else allocated)
        in case (if more then allocate_field env (pData iter) (unat (data_size field)) allocated sh
                 else returns () sh) of
             (None, sh) \<Rightarrow> (None, fails sh)
           | (Some _, sh) \<Rightarrow>
               let item = read_ptr (hmem (snd sh)) (pData iter) + unat (data_size field * size_at iter sh) in
               if item = 0 then (None, fails sh)
               else
                 (case func item (fst sh, initialize_pointer_field n env item iter (snd sh)) of
                    (None, sh) \<Rightarrow> (None, fails sh)
                  | (Some _, sh) \<Rightarrow>
                      decode_packed_pointer k n env func iter allocated (set_size iter (size_at iter sh + 1) sh)))"

definition decode_pointer_field ::
    "nat \<Rightarrow> 'st msg_decoder \<Rightarrow> 'st msg_decoder \<Rightarrow> 'st pb_denv \<Rightarrow> u32 \<Rightarrow> pb_field_iter \<Rightarrow> 'st decoder" where
  "decode_pointer_field n di dn env wire_type iter sh =
     (let field = cur iter; t = ftype field; lt = PB_LTYPE t; func = PB_DECODERS di dn env lt field in
      if PB_HTYPE t = PB_HTYPE_REQUIRED \<or> PB_HTYPE t = PB_HTYPE_OPTIONAL \<or> PB_HTYPE t = PB_HTYPE_ONEOF then
        let sh = (if lt = PB_LTYPE_SUBMESSAGE \<and> read_ptr (hmem (snd sh)) (pData iter) \<noteq> 0
                  then (fst sh, pb_release_single_field n env iter (snd sh)) else sh);
            sh = (if PB_HTYPE t = PB_HTYPE_ONEOF then set_size iter (tag field) sh else sh)
        in if lt = PB_LTYPE_STRING \<or> lt = PB_LTYPE_BYTES then func (pData iter) sh
           else
             try_op (allocate_field env (pData iter) (unat (data_size field)) 1 sh) (\<lambda>_ sh.
               let item = read_ptr (hmem (snd sh)) (pData iter);
                   h = initialize_pointer_field n env item iter (snd sh)
               in func (read_ptr (hmem h) (pData iter)) (fst sh, h))
      else if PB_HTYPE t = PB_HTYPE_REPEATED then
        if wire_type = PB_WT_STRING \<and> lt \<le> PB_LTYPE_LAST_PACKABLE then
          let allocated = unat (size_at iter sh) in
          try_op (on_stream pb_make_string_substream sh) (\<lambda>substream sh.
            case decode_packed_pointer (bytes_left substream) n env func iter allocated (substream, snd sh) of
              (msg, (status, (substream, h))) \<Rightarrow>
                close_substream status substream
                  ((case msg of None \<Rightarrow> fst sh | Some m \<Rightarrow> (fst sh)\<lparr>ierrmsg := Some m\<rparr>), h))
        else if size_at iter sh = PB_SIZE_MAX then dec_error ''too many array entries'' sh
        else
          try_op (allocate_field env (pData iter) (unat (data_size field)) (unat (size_at iter sh + 1)) sh) (\<lambda>_ sh.
            let item = read_ptr (hmem (snd sh)) (pData iter) + unat (data_size field * size_at iter sh);
                sh = set_size iter (size_at iter sh + 1) sh
            in func item (fst sh, initialize_pointer_field n env item iter (snd sh)))
      else dec_error ''invalid field type'' sh)"

text \<open>The callback is called until its substream is empty, \<^verbatim>\<open>k\<close> times at most.\<close>

fun callback_loop :: "nat \<Rightarrow> 'st decoder \<Rightarrow> 'st decoder" where
  "callback_loop 0 f sh = fails sh"
| "callback_loop (Suc k) f sh =
     try_op (f sh) (\<lambda>_ sh. if bytes_left (fst sh) \<noteq> 0 then callback_loop k f sh else returns () sh)"

definition decode_callback_field :: "nat \<Rightarrow> 'st pb_denv \<Rightarrow> u32 \<Rightarrow> pb_field_iter \<Rightarrow> 'st decoder" where
  "decode_callback_field n env wire_type iter sh =
     (let f = read_ptr (hmem (snd sh)) (pData iter); arg = pData iter + sizeof_ptr in
      if pData iter = 0 \<or> f = 0 then on_stream (pb_skip_field wire_type) sh
      else if wire_type = PB_WT_STRING then
        try_op (on_stream pb_make_string_substream sh) (\<lambda>substream sh.
          case callback_loop n (decode_cb env f (cur iter) arg) (substream, snd sh) of
            (None, (substream, h)) \<Rightarrow> dec_error ''callback failed'' (fst sh, h)
          | (Some _, (substream, h)) \<Rightarrow> close_substream (Some ()) substream (fst sh, h))
      else
        try_op (on_stream (read_raw_value wire_type 10) sh) (\<lambda>buffer sh.
          case decode_cb_buf env f (cur iter) arg (pb_istream_from_buffer buffer (length buffer), snd sh) of
            (status, (_, h)) \<Rightarrow> (status, (fst sh, h))))"

text \<open>The result is the iterator, which the release of a union may have moved.\<close>

definition decode_field ::
    "nat \<Rightarrow> 'st msg_decoder \<Rightarrow> 'st msg_decoder \<Rightarrow> 'st pb_denv \<Rightarrow> u32 \<Rightarrow> pb_field_iter \<Rightarrow>
     'st pb_istream \<times> heap \<Rightarrow> ('st pb_istream \<times> heap, pb_field_iter) cres" where
  "decode_field n di dn env wire_type iter sh =
     try_op
       (if PB_HTYPE (ftype (cur iter)) = PB_HTYPE_ONEOF then pb_release_union_field n env iter sh
        else returns iter sh)
       (\<lambda>iter sh.
          let at = PB_ATYPE (ftype (cur iter)) in
          try_op
            (if at = PB_ATYPE_STATIC then decode_static_field n di dn env wire_type iter sh
             else if at = PB_ATYPE_POINTER then decode_pointer_field n di dn env wire_type iter sh
             else if at = PB_ATYPE_CALLBACK then decode_callback_field n env wire_type iter sh
             else dec_error ''invalid field type'' sh)
            (\<lambda>_ sh. returns iter sh))"

section \<open>Unknown fields\<close>

definition default_extension_decoder ::
    "nat \<Rightarrow> 'st msg_decoder \<Rightarrow> 'st msg_decoder \<Rightarrow> 'st pb_denv \<Rightarrow> nat \<Rightarrow> u32 \<Rightarrow> u32 \<Rightarrow> 'st decoder" where
  "default_extension_decoder n di dn env ext t wire_type sh =
     (if tag (fld (extension_field env ext (snd sh)) 0) \<noteq> t then returns () sh
      else
        let iter = iter_from_extension env ext (snd sh); sh = store (ext + 24) [1] sh in
        try_op (decode_field n di dn env wire_type iter sh) (\<lambda>_ sh. returns () sh))"

fun decode_extension_loop ::
    "nat \<Rightarrow> nat \<Rightarrow> 'st msg_decoder \<Rightarrow> 'st msg_decoder \<Rightarrow> 'st pb_denv \<Rightarrow> nat \<Rightarrow> u32 \<Rightarrow> u32 \<Rightarrow> nat \<Rightarrow> 'st decoder" where
  "decode_extension_loop 0 n di dn env left t wire_type ext sh =
     (if ext \<noteq> 0 \<and> left = bytes_left (fst sh) then fails sh else returns () sh)"
| "decode_extension_loop (Suc k) n di dn env left t wire_type ext sh =
     (if ext \<noteq> 0 \<and> left = bytes_left (fst sh) then
        let f = read_ptr (hmem (snd sh)) (read_ptr (hmem (snd sh)) ext) in
        try_op
          (if f \<noteq> 0 then extension_dec env f ext t wire_type sh
           else default_extension_decoder n di dn env ext t wire_type sh)
          (\<lambda>_ sh. decode_extension_loop k n di dn env left t wire_type (read_ptr (hmem (snd sh)) (ext + 16)) sh)
      else returns () sh)"

definition decode_extension ::
    "nat \<Rightarrow> 'st msg_decoder \<Rightarrow> 'st msg_decoder \<Rightarrow> 'st pb_denv \<Rightarrow> u32 \<Rightarrow> u32 \<Rightarrow> pb_field_iter \<Rightarrow> 'st decoder" where
  "decode_extension n di dn env t wire_type iter sh =
     decode_extension_loop n n di dn env (bytes_left (fst sh)) t wire_type (read_ptr (hmem (snd sh)) (pData iter)) sh"

fun find_extension_loop :: "nat \<Rightarrow> nat \<Rightarrow> pb_field_iter \<Rightarrow> bool \<times> pb_field_iter" where
  "find_extension_loop 0 stop iter = (False, iter)"
| "find_extension_loop (Suc k) stop iter =
     (if PB_LTYPE (ftype (cur iter)) = PB_LTYPE_EXTENSION then (True, iter)
      else
        let iter = snd (pb_field_iter_next iter) in
        if pos iter \<noteq> stop then find_extension_loop k stop iter else (False, iter))"

text \<open>As in \<^verbatim>\<open>pb_field_iter_find\<close>, one round per entry of the array is enough.\<close>

definition find_extension_field :: "pb_field_iter \<Rightarrow> bool \<times> pb_field_iter" where
  "find_extension_field iter = find_extension_loop (Suc (length (start iter))) (pos iter) iter"

section \<open>Messages\<close>

definition PB_MAX_REQUIRED_FIELDS :: u32 where "PB_MAX_REQUIRED_FIELDS = 64"

text \<open>The local variables of \<^verbatim>\<open>pb_decode_noinit\<close>; \<^verbatim>\<open>fixed_count_field\<close> is an index into the descriptors.\<close>

record noinit_locals =
  it :: pb_field_iter
  fields_seen :: "u32 list"
  extension_range_start :: u32
  fixed_count_field :: "nat option"

definition handle_unknown_field ::
    "nat \<Rightarrow> 'st msg_decoder \<Rightarrow> 'st msg_decoder \<Rightarrow> 'st pb_denv \<Rightarrow> u32 \<Rightarrow> u32 \<Rightarrow> noinit_locals \<Rightarrow>
     'st pb_istream \<times> heap \<Rightarrow> ('st pb_istream \<times> heap, noinit_locals) cres" where
  "handle_unknown_field n di dn env wire_type t L sh = (let
     skip = (\<lambda>L sh. try_op (on_stream (pb_skip_field wire_type) sh) (\<lambda>_ sh. returns L sh))
     in if t \<ge> extension_range_start L then
          (case find_extension_field (it L) of (found, iter) \<Rightarrow>
             let L = L\<lparr>it := iter, extension_range_start := (if found then tag (cur iter) else -1)\<rparr> in
             if t \<ge> extension_range_start L then
               let left = bytes_left (fst sh) in
               try_op (decode_extension n di dn env t wire_type iter sh) (\<lambda>_ sh.
                 if left \<noteq> bytes_left (fst sh) then returns L sh else skip L sh)
             else skip L sh)
        else skip L sh)"

text \<open>The counter of an array of fixed size, which the message has no room for.\<close>

definition use_fixed_count ::
    "nat \<Rightarrow> noinit_locals \<Rightarrow> 'st pb_istream \<times> heap \<Rightarrow> ('st pb_istream \<times> heap, noinit_locals) cres" where
  "use_fixed_count slot L sh = (let iter = it L; use = L\<lparr>it := iter\<lparr>pSize := slot\<rparr>\<rparr> in
     if PB_HTYPE (ftype (cur iter)) = PB_HTYPE_REPEATED \<and> pSize iter = pData iter then
       if fixed_count_field L \<noteq> Some (pos iter) then
         (case fixed_count_field L of
            Some p \<Rightarrow>
              if read_size (hmem (snd sh)) slot \<noteq> array_size (fld (start iter) p)
              then dec_error ''wrong size for fixed count field'' sh
              else returns (use\<lparr>fixed_count_field := Some (pos iter)\<rparr>) (store slot (le_bytes 4 0) sh)
          | None \<Rightarrow> returns (use\<lparr>fixed_count_field := Some (pos iter)\<rparr>) (store slot (le_bytes 4 0) sh))
       else returns use sh
     else returns L sh)"

definition mark_required :: "noinit_locals \<Rightarrow> noinit_locals" where
  "mark_required L = (let iter = it L; i = required_field_index iter in
     if PB_HTYPE (ftype (cur iter)) = PB_HTYPE_REQUIRED \<and> i < PB_MAX_REQUIRED_FIELDS
     then L\<lparr>fields_seen := (fields_seen L)[unat (drop_bit 5 i) :=
              fields_seen L ! unat (drop_bit 5 i) OR push_bit (unat (i AND 31)) 1]\<rparr>
     else L)"

definition handle_field ::
    "nat \<Rightarrow> 'st msg_decoder \<Rightarrow> 'st msg_decoder \<Rightarrow> 'st pb_denv \<Rightarrow> u32 \<Rightarrow> u32 \<Rightarrow> noinit_locals \<Rightarrow>
     'st pb_istream \<times> heap \<Rightarrow> ('st pb_istream \<times> heap, noinit_locals) cres" where
  "handle_field n di dn env wire_type t L sh =
     (case pb_field_iter_find t (it L) of (found, iter) \<Rightarrow>
        if \<not> found then handle_unknown_field n di dn env wire_type t (L\<lparr>it := iter\<rparr>) sh
        else
          try_op (use_fixed_count (frame env n) (L\<lparr>it := iter\<rparr>) sh) (\<lambda>L sh.
            let L = mark_required L in
            try_op (decode_field n di dn env wire_type (it L) sh) (\<lambda>iter sh. returns (L\<lparr>it := iter\<rparr>) sh)))"

text \<open>The loop over the fields of the input: each takes the bytes of its tag at least.\<close>

fun noinit_loop ::
    "nat \<Rightarrow> nat \<Rightarrow> 'st msg_decoder \<Rightarrow> 'st msg_decoder \<Rightarrow> 'st pb_denv \<Rightarrow> noinit_locals \<Rightarrow>
     'st pb_istream \<times> heap \<Rightarrow> ('st pb_istream \<times> heap, noinit_locals) cres" where
  "noinit_loop 0 n di dn env L sh = (if bytes_left (fst sh) = 0 then returns L sh else fails sh)"
| "noinit_loop (Suc k) n di dn env L sh =
     (if bytes_left (fst sh) = 0 then returns L sh
      else
        (case pb_decode_tag (fst sh) of
           ((None, s), eof) \<Rightarrow> if eof then returns L (s, snd sh) else fails (s, snd sh)
         | ((Some (wire_type, t), s), eof) \<Rightarrow>
             try_op (handle_field n di dn env wire_type t L (s, snd sh)) (\<lambda>L sh.
               noinit_loop k n di dn env L sh)))"

text \<open>The walk to the last field: its required index and type, and the iterator behind it.\<close>

function seek_last :: "pb_field_iter \<Rightarrow> u32 \<times> u8 \<times> pb_field_iter" where
  "seek_last iter =
     (if fst (pb_field_iter_next iter) then seek_last (snd (pb_field_iter_next iter))
      else (required_field_index iter, ftype (cur iter), snd (pb_field_iter_next iter)))"
  by pat_completeness auto
termination
proof (relation "measure (\<lambda>iter. length (start iter) - pos iter)")
  fix iter :: pb_field_iter
  assume "fst (pb_field_iter_next iter)"
  then have "pos iter < length (start iter) \<and> pos (snd (pb_field_iter_next iter)) = Suc (pos iter)"
    by (auto simp: pb_field_iter_next_def Let_def fld_def PB_LAST_FIELD_def split: if_splits)
  then show "(snd (pb_field_iter_next iter), iter) \<in> measure (\<lambda>iter. length (start iter) - pos iter)"
    by (auto simp: iter_next_start)
qed simp

declare seek_last.simps [simp del]

definition all_required_seen :: "noinit_locals \<Rightarrow> bool" where
  "all_required_seen L = (case seek_last (it L) of (req_field_count, last_type, iter) \<Rightarrow>
     let req_field_count =
           (if PB_HTYPE last_type = PB_HTYPE_REQUIRED \<and> tag (cur iter) \<noteq> 0 then req_field_count + 1 else req_field_count);
         req_field_count = (if req_field_count > PB_MAX_REQUIRED_FIELDS then PB_MAX_REQUIRED_FIELDS else req_field_count);
         w = unat (drop_bit 5 req_field_count); b = unat (req_field_count AND 31)
     in (\<forall>i < w. fields_seen L ! i = -1) \<and> (b \<noteq> 0 \<longrightarrow> fields_seen L ! w = drop_bit (32 - b) (-1)))"

definition noinit_finish :: "nat \<Rightarrow> noinit_locals \<Rightarrow> 'st decoder" where
  "noinit_finish slot L sh =
     (if (case fixed_count_field L of None \<Rightarrow> False
          | Some p \<Rightarrow> read_size (hmem (snd sh)) slot \<noteq> array_size (fld (start (it L)) p))
      then dec_error ''wrong size for fixed count field'' sh
      else if \<not> all_required_seen L then dec_error ''missing required field'' sh
      else returns () sh)"

text \<open>\<^verbatim>\<open>pb_decode\<close> by way of \<^verbatim>\<open>pb_decode_noinit\<close>.\<close>

definition pb_decode_with :: "nat \<Rightarrow> 'st msg_decoder \<Rightarrow> 'st pb_denv \<Rightarrow> 'st msg_decoder" where
  "pb_decode_with n dn env fs dest sh =
     (case dn fs dest (fst sh, pb_message_set_to_defaults n env fs dest (snd sh)) of
        (None, (s, h)) \<Rightarrow> fails (s, pb_release n env fs dest h)
      | (Some _, sh) \<Rightarrow> returns () sh)"

fun pb_decode_noinit :: "nat \<Rightarrow> 'st pb_denv \<Rightarrow> 'st msg_decoder" where
  "pb_decode_noinit 0 env fs dest sh = fails sh"
| "pb_decode_noinit (Suc n) env fs dest sh = (let
     dn = pb_decode_noinit n env;
     di = pb_decode_with n dn env;
     L = \<lparr>it = snd (pb_field_iter_begin fs dest), fields_seen = [0, 0], extension_range_start = 0,
          fixed_count_field = None\<rparr>;
     sh = store (frame env n) (le_bytes 4 0) sh
     in try_op (noinit_loop (bytes_left (fst sh)) n di dn env L sh) (\<lambda>L sh. noinit_finish (frame env n) L sh))"

definition pb_decode :: "nat \<Rightarrow> 'st pb_denv \<Rightarrow> 'st msg_decoder" where
  "pb_decode n env = pb_decode_with n (pb_decode_noinit n env) env"

text \<open>The body of the two functions for messages with a length in front.\<close>

definition decode_delimited :: "'st msg_decoder \<Rightarrow> 'st msg_decoder" where
  "decode_delimited dec fs dest sh =
     try_op (on_stream pb_make_string_substream sh) (\<lambda>substream sh.
       case dec fs dest (substream, snd sh) of
         (status, (substream, h)) \<Rightarrow> close_substream status substream (fst sh, h))"

definition pb_decode_delimited_noinit :: "nat \<Rightarrow> 'st pb_denv \<Rightarrow> 'st msg_decoder" where
  "pb_decode_delimited_noinit n env = decode_delimited (pb_decode_noinit n env)"

definition pb_decode_delimited :: "nat \<Rightarrow> 'st pb_denv \<Rightarrow> 'st msg_decoder" where
  "pb_decode_delimited n env = decode_delimited (pb_decode n env)"

definition pb_decode_nullterminated :: "nat \<Rightarrow> 'st pb_denv \<Rightarrow> 'st msg_decoder" where
  "pb_decode_nullterminated n env = pb_decode n env"

end
