(* ===== verification/Nanopb_Safety.thy ===== *)
theory Nanopb_Safety
  imports Nanopb_Decode
begin

text \<open>
  What the decoder of \<^verbatim>\<open>pb_decode.c\<close> may write to.  For a message whose fields are all static (no
  pointers, callbacks or extensions, submessages included) and whose descriptors describe a struct of
  \<^verbatim>\<open>size\<close> bytes, no input and no stream make \<^verbatim>\<open>pb_decode\<close> write outside of that struct, apart from its own
  local variables.
\<close>

section \<open>Runs that write only into a region\<close>

definition same_outside :: "nat set \<Rightarrow> heap \<Rightarrow> heap \<Rightarrow> bool" where
  "same_outside A h h' \<longleftrightarrow> hblocks h' = hblocks h \<and> hwild h' = hwild h \<and> (\<forall>a. a \<notin> A \<longrightarrow> hmem h' a = hmem h a)"

lemma same_outside_refl [simp]: "same_outside A h h"
  by (simp add: same_outside_def)

lemma same_outside_trans [trans]: "same_outside A h h' \<Longrightarrow> same_outside A h' h'' \<Longrightarrow> same_outside A h h''"
  by (simp add: same_outside_def)

lemma same_outside_mono: "same_outside A h h' \<Longrightarrow> A \<subseteq> B \<Longrightarrow> same_outside B h h'"
  by (auto simp: same_outside_def)

lemma same_outside_poke: "{a..<a + length bs} \<subseteq> A \<Longrightarrow> same_outside A h (poke_heap a bs h)"
  by (auto simp: same_outside_def poke_heap_def write_bytes_def)

text \<open>A read callback that stores no more bytes than it was asked for.\<close>

definition stream_sound :: "'st pb_istream \<Rightarrow> bool" where
  "stream_sound s \<longleftrightarrow> (\<forall>st n bs st'. icallback s st n = (Some bs, st') \<longrightarrow> length bs \<le> n)"

text \<open>A result that was reached from a state by writes into \<^verbatim>\<open>A\<close> only, on the same kind of stream.\<close>

definition confined :: "nat set \<Rightarrow> 'st pb_istream \<times> heap \<Rightarrow> ('st pb_istream \<times> heap, 'a) cres \<Rightarrow> bool" where
  "confined A sh r \<longleftrightarrow> icallback (fst (snd r)) = icallback (fst sh) \<and> same_outside A (snd sh) (snd (snd r))"

lemma confined_refl [simp]: "confined A sh (r, sh)"
  by (simp add: confined_def)

lemma confined_mono: "confined A sh r \<Longrightarrow> A \<subseteq> B \<Longrightarrow> confined B sh r"
  by (auto simp: confined_def intro: same_outside_mono)

lemma confined_error [simp]: "confined A sh (dec_error msg sh)"
  by (simp add: confined_def dec_error_def pb_set_ierror_def)

lemma try_op_error [simp]: "try_op (dec_error msg sh) k = dec_error msg sh"
  by (simp add: dec_error_def)

lemma confined_sound: "confined A sh r \<Longrightarrow> stream_sound (fst sh) \<Longrightarrow> stream_sound (fst (snd r))"
  by (simp add: confined_def stream_sound_def)

lemma confined_bind:
  assumes "confined A sh r" and "\<And>x sh'. r = (Some x, sh') \<Longrightarrow> confined A sh' (k x sh')"
  shows "confined A sh (try_op r k)"
proof (cases "fst r")
  case None
  then have "r = (None, snd r)" by (metis prod.collapse)
  then have "try_op r k = (None, snd r)" by (metis try_op_None)
  then show ?thesis using assms(1) by (simp add: confined_def)
next
  case (Some x)
  then have r: "r = (Some x, snd r)" by (metis prod.collapse)
  then have eq: "try_op r k = k x (snd r)" by (metis try_op_Some)
  from assms(2) [OF r] assms(1) show ?thesis unfolding eq by (auto simp: confined_def intro: same_outside_trans)
qed

lemma confined_store:
  "{a..<a + length bs} \<subseteq> A \<Longrightarrow> confined A (store a bs sh) r \<Longrightarrow> confined A sh r"
  by (auto simp: confined_def store_def intro: same_outside_trans [OF same_outside_poke])

lemma confined_heap:
  "same_outside A (snd sh) h \<Longrightarrow> confined A (fst sh, h) r \<Longrightarrow> confined A sh r"
  by (auto simp: confined_def intro: same_outside_trans)

lemma confined_on_stream:
  "(\<And>s. icallback (snd (f s)) = icallback s) \<Longrightarrow> confined A sh (on_stream f sh)"
  by (simp add: confined_def on_stream_def)

subsection \<open>Reading leaves the callback alone\<close>

named_theorems same_callback \<open>stream operations keep the callback\<close>

lemma set_ierror_callback [simp]: "icallback (pb_set_ierror msg s) = icallback s"
  by (simp add: pb_set_ierror_def)

lemma readbyte_callback [same_callback]: "icallback (snd (pb_readbyte s)) = icallback s"
  by (auto simp: pb_readbyte_def split: prod.splits option.splits)

lemma read_callback_callback: "icallback (snd (pb_read_callback n s)) = icallback s"
  by (auto simp: pb_read_callback_def split: prod.splits option.splits)

lemma read_into_callback: "icallback (snd (pb_read_into n s)) = icallback s"
  by (simp add: pb_read_into_def read_callback_callback)

lemma try_op_callback:
  assumes "icallback (snd r) = c" and "\<And>x s. icallback s = c \<Longrightarrow> icallback (snd (k x s)) = c"
  shows "icallback (snd (try_op r k)) = c"
  using assms by (auto split: try_op_splits)

lemma read_skip_callback: "icallback (snd (pb_read_skip n s)) = icallback s"
proof (induction n s rule: pb_read_skip.induct)
  case (1 n s)
  show ?case
  proof (cases "n > 16")
    case True
    then have eq: "pb_read_skip n s = try_op (pb_read_into 16 s) (\<lambda>_ s. pb_read_skip (n - 16) s)"
      by (simp add: pb_read_skip.simps [of n])
    show ?thesis unfolding eq
      using 1 [OF True] by (intro try_op_callback read_into_callback) auto
  next
    case False
    then have eq: "pb_read_skip n s = pb_read_into n s" by (simp add: pb_read_skip.simps [of n])
    show ?thesis unfolding eq by (rule read_into_callback)
  qed
qed

lemma read_callback [same_callback]: "icallback (snd (pb_read nul n s)) = icallback s"
  by (simp add: pb_read_def read_callback_callback read_skip_callback)

lemma varint32_loop_callback: "icallback (snd (decode_varint32_loop b r s)) = icallback s"
proof (induction b r s rule: decode_varint32_loop.induct)
  case (1 b r s)
  show ?case
  proof (cases "pb_readbyte s")
    case (Pair x s')
    then have "icallback s' = icallback s" using readbyte_callback [of s] by simp
    with Pair show ?thesis using 1
      by (cases x) (auto simp: decode_varint32_loop.simps [of b r s] Let_def)
  qed
qed

lemma varint32_eof_callback: "icallback (snd (fst (pb_decode_varint32_eof s))) = icallback s"
proof (cases "pb_readbyte s")
  case (Pair x s')
  then have "icallback s' = icallback s" using readbyte_callback [of s] by simp
  with Pair show ?thesis
    by (cases x) (auto simp: pb_decode_varint32_eof_def varint32_loop_callback intro!: try_op_callback split: prod.splits)
qed

lemma varint32_callback [same_callback]: "icallback (snd (pb_decode_varint32 s)) = icallback s"
  by (simp add: pb_decode_varint32_def varint32_eof_callback)

lemma varint_loop_callback: "icallback (snd (decode_varint_loop b r s)) = icallback s"
proof (induction b r s rule: decode_varint_loop.induct)
  case (1 b r s)
  show ?case
  proof (cases "pb_readbyte s")
    case (Pair x s')
    then have "icallback s' = icallback s" using readbyte_callback [of s] by simp
    with Pair show ?thesis using 1
      by (cases x) (auto simp: decode_varint_loop.simps [of b r s] Let_def)
  qed
qed

lemma varint_callback [same_callback]: "icallback (snd (pb_decode_varint s)) = icallback s"
  by (simp add: pb_decode_varint_def varint_loop_callback)

lemma svarint_callback [same_callback]: "icallback (snd (pb_decode_svarint s)) = icallback s"
  unfolding pb_decode_svarint_def by (intro try_op_callback varint_callback) simp

lemma fixed_callback [same_callback]:
  "icallback (snd (pb_decode_fixed32 s)) = icallback s" "icallback (snd (pb_decode_fixed64 s)) = icallback s"
  unfolding pb_decode_fixed32_def pb_decode_fixed64_def by (intro try_op_callback read_callback; simp)+

lemma tag_callback: "icallback (snd (fst (pb_decode_tag s))) = icallback s"
  using varint32_eof_callback [of s]
  by (auto simp: pb_decode_tag_def split: prod.splits option.splits)

lemma skip_varint_callback: "icallback (snd (pb_skip_varint s)) = icallback s"
proof (induction s rule: pb_skip_varint.induct)
  case (1 s)
  show ?case
  proof (cases "pb_read False 1 s")
    case (Pair x s')
    then have "icallback s' = icallback s" using read_callback [of False 1 s] by simp
    with Pair show ?thesis using 1
      by (cases x) (auto simp: pb_skip_varint.simps [of s])
  qed
qed

lemma skip_field_callback [same_callback]: "icallback (snd (pb_skip_field wt s)) = icallback s"
proof -
  have "icallback (snd (pb_skip_string s)) = icallback s"
    unfolding pb_skip_string_def by (intro try_op_callback varint32_callback) (auto intro!: try_op_callback simp: read_callback)
  moreover have "icallback (snd (try_op (pb_read True n s) (\<lambda>_ s. returns () s))) = icallback s" for n
    by (intro try_op_callback read_callback) simp
  ultimately show ?thesis by (simp add: pb_skip_field_def skip_varint_callback)
qed

lemma make_substream_callback [same_callback]: "icallback (snd (pb_make_string_substream s)) = icallback s"
  unfolding pb_make_string_substream_def by (intro try_op_callback varint32_callback) simp

lemma make_substream_sub:
  "pb_make_string_substream s = (Some sub, s') \<Longrightarrow> icallback sub = icallback s \<and> icallback s' = icallback s"
  using varint32_callback [of s]
  by (auto simp: pb_make_string_substream_def split: try_op_splits if_splits)

lemma close_substream_callback [same_callback]:
  "icallback (snd (pb_close_string_substream sub s)) = icallback s"
  by (auto simp: pb_close_string_substream_def split: prod.splits option.splits)

lemmas confined_stream = same_callback [THEN confined_on_stream]

lemma confined_close [simp]: "confined A sh (close_substream status sub sh)"
  unfolding close_substream_def by (intro confined_bind confined_on_stream same_callback) simp

lemma confined_skip: "confined A sh (try_op (on_stream (pb_skip_field wt) sh) (\<lambda>_ sh. returns x sh))"
  by (intro confined_bind confined_on_stream same_callback) simp

text \<open>What happens on a substream happens to the memory of the stream.\<close>

lemma confined_substream:
  assumes "confined A (sub, snd sh) (status, (sub', h))"
  shows "confined A sh (close_substream st sub' (fst sh, h))" and "confined A sh (dec_error msg (fst sh, h))"
proof -
  have "same_outside A (snd sh) h" using assms by (simp add: confined_def)
  then show "confined A sh (close_substream st sub' (fst sh, h))" "confined A sh (dec_error msg (fst sh, h))"
    by (rule confined_heap, simp)+
qed

section \<open>Layouts\<close>

text \<open>The offsets of a field and of its counter in the struct; members of a union share them.\<close>

definition joins :: "pb_field \<Rightarrow> pb_field \<Rightarrow> bool" where
  "joins prev f \<longleftrightarrow> PB_HTYPE (ftype prev) = PB_HTYPE_ONEOF \<and> PB_HTYPE (ftype f) = PB_HTYPE_ONEOF \<and> data_offset f = PB_SIZE_MAX"

fun offset_of :: "pb_field list \<Rightarrow> nat \<Rightarrow> nat" where
  "offset_of fs 0 = unat (data_offset (fld fs 0))"
| "offset_of fs (Suc i) =
     (if joins (fld fs i) (fld fs (Suc i)) then offset_of fs i
      else offset_of fs i + prev_size_of (fld fs i) + unat (data_offset (fld fs (Suc i))))"

fun size_offset_of :: "pb_field list \<Rightarrow> nat \<Rightarrow> int" where
  "size_offset_of fs 0 = int (offset_of fs 0) + sint (size_offset (fld fs 0))"
| "size_offset_of fs (Suc i) =
     (if joins (fld fs i) (fld fs (Suc i)) then size_offset_of fs i
      else int (offset_of fs (Suc i)) + sint (size_offset (fld fs (Suc i))))"

text \<open>
  A static field inside a struct of \<^verbatim>\<open>sz\<close> bytes.  The four bytes of a counter are asked for also where
  an array of fixed size has none: \<^verbatim>\<open>pb_field_set_to_default\<close> clears them in any case.
\<close>

definition field_fits :: "nat \<Rightarrow> pb_field list \<Rightarrow> nat \<Rightarrow> bool" where
  "field_fits sz fs i \<longleftrightarrow> (let f = fld fs i; t = ftype f; z = size_offset_of fs i in
     PB_ATYPE t = PB_ATYPE_STATIC \<and> PB_LTYPE t \<noteq> PB_LTYPE_EXTENSION \<and>
     offset_of fs i + prev_size_of f \<le> sz \<and> 0 \<le> z \<and> z \<le> int sz \<and>
     (PB_HTYPE t = PB_HTYPE_OPTIONAL \<longrightarrow> z + 1 \<le> int sz) \<and>
     (PB_HTYPE t = PB_HTYPE_REPEATED \<or> PB_HTYPE t = PB_HTYPE_ONEOF \<longrightarrow> z + 4 \<le> int sz) \<and>
     (PB_LTYPE t = PB_LTYPE_BOOL \<longrightarrow> 1 \<le> unat (data_size f)) \<and>
     (PB_LTYPE t = PB_LTYPE_FIXED32 \<longrightarrow> 4 \<le> unat (data_size f)) \<and>
     (PB_LTYPE t = PB_LTYPE_FIXED64 \<longrightarrow> 8 \<le> unat (data_size f)))"

fun layout_ok :: "nat \<Rightarrow> 'st pb_denv \<Rightarrow> pb_field list \<Rightarrow> nat \<Rightarrow> bool" where
  "layout_ok 0 env fs sz = False"
| "layout_ok (Suc n) env fs sz =
     (fs \<noteq> [] \<and> fields_ok fs \<and> (\<forall>i < length fs. field_fits sz fs i) \<and>
      (\<forall>f \<in> set fs. PB_LTYPE (ftype f) = PB_LTYPE_SUBMESSAGE \<longrightarrow>
         layout_ok n env (ddescs env (ptr f)) (unat (data_size f))))"

text \<open>The iterator at the \<^verbatim>\<open>i\<close>th field.\<close>

fun it_at :: "pb_field list \<Rightarrow> nat \<Rightarrow> nat \<Rightarrow> pb_field_iter" where
  "it_at fs dest 0 = snd (pb_field_iter_begin fs dest)"
| "it_at fs dest (Suc i) = snd (pb_field_iter_next (it_at fs dest i))"

lemma it_at_pos:
  assumes "fields_ok fs" and "i < length fs"
  shows "pos (it_at fs dest i) = i \<and> start (it_at fs dest i) = fs \<and> dest_struct (it_at fs dest i) = dest"
  using assms(2)
proof (induction i)
  case (Suc i)
  then have IH: "pos (it_at fs dest i) = i" "start (it_at fs dest i) = fs" "dest_struct (it_at fs dest i) = dest" by auto
  have "pos (snd (pb_field_iter_next (it_at fs dest i))) = Suc i"
    using iter_next_pos(1) [of "it_at fs dest i"] assms(1) IH Suc.prems by simp
  then show ?case using IH iter_next_start [of "it_at fs dest i"] by simp
qed (simp add: iter_begin_pos)

lemma it_at_sel [simp]:
  assumes "fields_ok fs" and "i < length fs"
  shows "pos (it_at fs dest i) = i" and "start (it_at fs dest i) = fs" and "dest_struct (it_at fs dest i) = dest"
  using it_at_pos [OF assms] by simp_all

declare it_at.simps [simp del]

lemma it_at_next:
  assumes "fields_ok fs" and "i < length fs"
  shows "pb_field_iter_next (it_at fs dest i) =
    (Suc i < length fs, if Suc i < length fs then it_at fs dest (Suc i) else it_at fs dest 0)"
proof (cases "Suc i < length fs")
  case True
  have "fst (pb_field_iter_next (it_at fs dest i))" using iter_next_pos(2) [of "it_at fs dest i"] assms True by simp
  with True show ?thesis by (simp add: prod_eq_iff it_at.simps(2))
next
  case False
  then have "tag (fld fs (Suc i)) = 0" "tag (fld fs i) \<noteq> 0" using fld_tag [OF assms(1)] assms(2) by simp_all
  with False show ?thesis using assms by (simp add: pb_field_iter_next_def it_at.simps(1))
qed

lemma addr_add_eq:
  assumes "0 \<le> int a + z" and "int a + z < 2 ^ 64"
  shows "addr_add a z = nat (int a + z)"
  using assms by (simp add: addr_add_def mod_pos_pos_trivial)

lemma addr_add_nat: "a + k < 2 ^ 64 \<Longrightarrow> addr_add a (int k) = a + k"
  by (subst addr_add_eq) (simp_all flip: of_nat_add)

lemma addr_add_nat2: "a + k + l < 2 ^ 64 \<Longrightarrow> addr_add a (int k + int l) = a + k + l"
  using addr_add_nat [of a "k + l"] by (simp only: of_nat_add add.assoc)

lemma addr_add_within:
  assumes "0 \<le> int k + z" "int k + z \<le> int sz" "dest + sz < 2 ^ 64"
  shows "addr_add (dest + k) z = nat (int dest + (int k + z))"
proof -
  have "int dest + int sz < 2 ^ 64" using assms(3) by (metis of_nat_add of_nat_less_numeral_power_cancel_iff)
  then show ?thesis using assms(1,2) by (subst addr_add_eq) (simp_all add: of_nat_add algebra_simps)
qed

lemma layout_okD:
  assumes "layout_ok n env fs sz"
  shows "fs \<noteq> []" and "fields_ok fs" and "\<And>i. i < length fs \<Longrightarrow> field_fits sz fs i"
    and "\<And>i. i < length fs \<Longrightarrow> PB_LTYPE (ftype (fld fs i)) = PB_LTYPE_SUBMESSAGE \<Longrightarrow>
      \<exists>m. layout_ok m env (ddescs env (ptr (fld fs i))) (unat (data_size (fld fs i)))"
  using assms by (cases n; auto simp: fld_in)+

lemma field_fitsD:
  assumes "field_fits sz fs i"
  shows "offset_of fs i + prev_size_of (fld fs i) \<le> sz" and "0 \<le> size_offset_of fs i"
    and "size_offset_of fs i \<le> int sz"
  using assms by (simp_all add: field_fits_def Let_def)

lemma it_at_addr:
  assumes lay: "fields_ok fs" "\<And>i. i < length fs \<Longrightarrow> field_fits sz fs i"
    and dest: "dest \<noteq> 0" "dest + sz < 2 ^ 64" and i: "i < length fs"
  shows "pData (it_at fs dest i) = dest + offset_of fs i \<and>
    pSize (it_at fs dest i) = nat (int dest + size_offset_of fs i)"
  using i
proof (induction i)
  case 0
  then have F: "offset_of fs 0 \<le> sz" "0 \<le> size_offset_of fs 0" "size_offset_of fs 0 \<le> int sz"
    using field_fitsD [OF lay(2) [of 0]] by auto
  have a: "addr_add dest (int (unat (data_offset (fld fs 0)))) = dest + unat (data_offset (fld fs 0))"
    using F(1) dest by (intro addr_add_nat) simp
  have "addr_add (dest + unat (data_offset (fld fs 0))) (sint (size_offset (fld fs 0))) = nat (int dest + size_offset_of fs 0)"
    using F(2,3) dest(2) unfolding offset_of.simps size_offset_of.simps by (rule addr_add_within)
  with a dest show ?case by (simp add: pb_field_iter_begin_def Let_def it_at.simps(1))
next
  case (Suc i)
  let ?it = "it_at fs dest i"
  have IH: "pData ?it = dest + offset_of fs i" "pSize ?it = nat (int dest + size_offset_of fs i)" using Suc by auto
  have F: "offset_of fs (Suc i) \<le> sz" "0 \<le> size_offset_of fs (Suc i)" "size_offset_of fs (Suc i) \<le> int sz"
    using field_fitsD [OF lay(2) [OF Suc.prems]] by auto
  have tags: "tag (fld fs i) \<noteq> 0" "tag (fld fs (Suc i)) \<noteq> 0" using fld_tag [OF lay(1)] Suc.prems by simp_all
  have sel: "start ?it = fs" "pos ?it = i" using lay(1) Suc.prems by simp_all
  show ?case
  proof (cases "joins (fld fs i) (fld fs (Suc i))")
    case True
    then have "pb_field_iter_next ?it = (True, ?it\<lparr>pos := Suc i\<rparr>)"
      using tags sel by (simp add: pb_field_iter_next_def joins_def)
    with True IH show ?thesis by (simp add: it_at.simps(2))
  next
    case False
    have a: "addr_add (pData ?it) (int (prev_size_of (fld fs i)) + int (unat (data_offset (fld fs (Suc i)))))
        = dest + offset_of fs (Suc i)"
      using F(1) dest False unfolding IH by (subst addr_add_nat2) auto
    have z: "addr_add (dest + offset_of fs (Suc i)) (sint (size_offset (fld fs (Suc i)))) = nat (int dest + size_offset_of fs (Suc i))"
      using addr_add_within [of "offset_of fs (Suc i)" "sint (size_offset (fld fs (Suc i)))" sz dest] F dest False by simp
    have "snd (pb_field_iter_next ?it) = ?it\<lparr>pos := Suc i, required_field_index :=
        (if PB_HTYPE (ftype (fld fs i)) = PB_HTYPE_REQUIRED then required_field_index ?it + 1 else required_field_index ?it),
        pData := dest + offset_of fs (Suc i), pSize := nat (int dest + size_offset_of fs (Suc i))\<rparr>"
      using tags False [unfolded joins_def]
      unfolding pb_field_iter_next_def Let_def sel Suc_eq_plus1 [symmetric] a z by (simp only: if_False if_True snd_conv)
    then show ?thesis by (simp add: it_at.simps(2))
  qed
qed

section \<open>A message in memory\<close>

abbreviation box :: "nat \<Rightarrow> nat \<Rightarrow> nat set" where
  "box a n \<equiv> {a..<a + n}"

definition msg_at :: "'st pb_denv \<Rightarrow> pb_field list \<Rightarrow> nat \<Rightarrow> nat \<Rightarrow> bool" where
  "msg_at env fs dest sz \<longleftrightarrow> (\<exists>n. layout_ok n env fs sz) \<and> dest \<noteq> 0 \<and> dest + sz < 2 ^ 64"

lemma msg_atD:
  assumes "msg_at env fs dest sz"
  shows "fs \<noteq> []" and "fields_ok fs" and "dest \<noteq> 0" and "\<And>i. i < length fs \<Longrightarrow> field_fits sz fs i"
  using assms layout_okD unfolding msg_at_def by blast+

lemma msg_at_addr:
  assumes "msg_at env fs dest sz" and "i < length fs"
  shows "pData (it_at fs dest i) = dest + offset_of fs i"
    and "pSize (it_at fs dest i) = nat (int dest + size_offset_of fs i)"
  using it_at_addr [OF msg_atD(2,4) [OF assms(1)]] assms unfolding msg_at_def by auto

text \<open>Room for one item of a field, and what a field needs for its kind of value.\<close>

definition value_fits :: "pb_field \<Rightarrow> bool" where
  "value_fits f \<longleftrightarrow> (let t = ftype f in PB_ATYPE t = PB_ATYPE_STATIC \<and>
     (PB_LTYPE t = PB_LTYPE_BOOL \<longrightarrow> 1 \<le> unat (data_size f)) \<and>
     (PB_LTYPE t = PB_LTYPE_FIXED32 \<longrightarrow> 4 \<le> unat (data_size f)) \<and>
     (PB_LTYPE t = PB_LTYPE_FIXED64 \<longrightarrow> 8 \<le> unat (data_size f)))"

lemma msg_at_value_fits: "msg_at env fs dest sz \<Longrightarrow> i < length fs \<Longrightarrow> value_fits (fld fs i)"
  using msg_atD(4) [of env fs dest sz i] by (auto simp: field_fits_def value_fits_def Let_def)

definition inside :: "nat \<Rightarrow> nat \<Rightarrow> nat \<Rightarrow> nat \<Rightarrow> bool" where
  "inside a n dest sz \<longleftrightarrow> dest \<le> a \<and> a + n \<le> dest + sz"

lemma inside_box: "inside a n dest sz \<Longrightarrow> box a n \<subseteq> box dest sz"
  by (auto simp: inside_def)

lemma msg_at_sub:
  assumes "msg_at env fs dest sz" and "i < length fs" and "PB_LTYPE (ftype (fld fs i)) = PB_LTYPE_SUBMESSAGE"
    and "inside a (unat (data_size (fld fs i))) dest sz"
  shows "msg_at env (ddescs env (ptr (fld fs i))) a (unat (data_size (fld fs i)))"
  using assms(1,4) layout_okD(4) [OF _ assms(2,3)] unfolding msg_at_def inside_def by fastforce

lemma msg_at_item:
  assumes "msg_at env fs dest sz" and "i < length fs"
  shows "PB_HTYPE (ftype (fld fs i)) \<noteq> PB_HTYPE_REPEATED \<Longrightarrow>
      inside (pData (it_at fs dest i)) (unat (data_size (fld fs i))) dest sz"
    and "PB_HTYPE (ftype (fld fs i)) = PB_HTYPE_REPEATED \<Longrightarrow> k < array_size (fld fs i) \<Longrightarrow>
      inside (pData (it_at fs dest i) + unat (data_size (fld fs i) * k)) (unat (data_size (fld fs i))) dest sz"
    and "PB_HTYPE (ftype (fld fs i)) = PB_HTYPE_OPTIONAL \<Longrightarrow> inside (pSize (it_at fs dest i)) 1 dest sz"
    and "PB_HTYPE (ftype (fld fs i)) = PB_HTYPE_REPEATED \<or> PB_HTYPE (ftype (fld fs i)) = PB_HTYPE_ONEOF \<Longrightarrow>
      inside (pSize (it_at fs dest i)) 4 dest sz"
proof -
  let ?f = "fld fs i"
  have F: "field_fits sz fs i" using msg_atD(4) [OF assms(1)] assms(2) by blast
  have st: "PB_ATYPE (ftype ?f) = PB_ATYPE_STATIC" using F by (simp add: field_fits_def Let_def)
  have o: "offset_of fs i + prev_size_of ?f \<le> sz" using field_fitsD(1) [OF F] .
  note A = msg_at_addr [OF assms]
  have "PB_ATYPE_STATIC \<noteq> PB_ATYPE_POINTER" by (simp add: PB_ATYPE_STATIC_def PB_ATYPE_POINTER_def)
  then show "inside (pData (it_at fs dest i)) (unat (data_size ?f)) dest sz"
    if "PB_HTYPE (ftype ?f) \<noteq> PB_HTYPE_REPEATED"
    using that o st by (simp add: inside_def A prev_size_of_def)
  show "inside (pData (it_at fs dest i) + unat (data_size ?f * k)) (unat (data_size ?f)) dest sz"
    if r: "PB_HTYPE (ftype ?f) = PB_HTYPE_REPEATED" and k: "k < array_size ?f"
  proof -
    have b: "unat (data_size ?f) < 2 ^ 32" "unat (array_size ?f) < 2 ^ 32"
      using unsigned_less [of "data_size ?f"] unsigned_less [of "array_size ?f"] by simp_all
    have "unat (data_size ?f) * unat (array_size ?f) < 2 ^ 32 * 2 ^ 32" using b by (rule mult_strict_mono) auto
    then have p: "prev_size_of ?f = unat (data_size ?f) * unat (array_size ?f)"
      using r st by (simp add: prev_size_of_def size_mult_def)
    have "unat (data_size ?f * k) \<le> unat (data_size ?f) * unat k"
      unfolding unat_word_ariths by (rule mod_less_eq_dividend)
    moreover have "unat (data_size ?f) * Suc (unat k) \<le> unat (data_size ?f) * unat (array_size ?f)"
      using k by (intro mult_le_mono) (auto simp: word_less_nat_alt)
    ultimately show ?thesis using o p by (simp add: inside_def A)
  qed
  have "0 \<le> size_offset_of fs i" using field_fitsD(2) [OF F] .
  then show "inside (pSize (it_at fs dest i)) 1 dest sz" if "PB_HTYPE (ftype ?f) = PB_HTYPE_OPTIONAL"
    using that F by (auto simp: inside_def A field_fits_def Let_def)
  show "inside (pSize (it_at fs dest i)) 4 dest sz"
    if "PB_HTYPE (ftype ?f) = PB_HTYPE_REPEATED \<or> PB_HTYPE (ftype ?f) = PB_HTYPE_ONEOF"
    using that F \<open>0 \<le> size_offset_of fs i\<close> by (auto simp: inside_def A field_fits_def Let_def)
qed

section \<open>Values\<close>

lemma confined_read_to:
  assumes "stream_sound (fst sh)" and "box a n \<subseteq> A"
  shows "confined A sh (read_to a n sh)"
  unfolding read_to_def
proof (rule confined_bind)
  show "confined A sh (on_stream (pb_read False n) sh)" by (intro confined_on_stream same_callback)
  fix bs sh' assume "on_stream (pb_read False n) sh = (Some bs, sh')"
  then have "length bs \<le> n"
    using assms(1) by (auto simp: on_stream_def pb_read_def pb_read_callback_def stream_sound_def split: if_splits prod.splits option.splits)
  then have "box a (length bs) \<subseteq> A" using assms(2) by auto
  then show "confined A sh' (returns () (store a bs sh'))" by (rule confined_store) simp
qed

lemma confined_put:
  assumes "box a (length bs) \<subseteq> A"
  shows "confined A sh (x, store a bs sh)" and "confined A sh (dec_error msg (store a bs sh))"
  using assms by (rule confined_store, simp)+

lemma confined_scalar:
  assumes "\<And>s. icallback (snd (rd s)) = icallback s" and "\<And>v. box a (length (bs v)) \<subseteq> A"
  shows "confined A sh (try_op (on_stream rd sh) (\<lambda>v sh. returns () (store a (bs v) sh)))"
  by (rule confined_bind [OF confined_on_stream [OF assms(1)]]) (rule confined_put [OF assms(2)])

lemma confined_clamped:
  assumes "box a n \<subseteq> A"
  shows "confined A sh (store_clamped c v n a sh)"
  using assms by (cases c) (auto simp: store_clamped_def Let_def intro!: confined_put)

lemma confined_varint:
  assumes "box a (unat (data_size f)) \<subseteq> A"
  shows "confined A sh (pb_dec_varint f a sh)" and "confined A sh (pb_dec_uvarint f a sh)"
    and "confined A sh (pb_dec_svarint f a sh)"
  unfolding pb_dec_varint_def pb_dec_uvarint_def pb_dec_svarint_def Let_def
  by (intro confined_bind confined_on_stream same_callback confined_clamped assms)+

text \<open>The decoders of one-value fields that read a length first.\<close>

lemma confined_length_prefixed:
  assumes "\<And>size sh'. icallback (fst sh') = icallback (fst sh) \<Longrightarrow> confined A sh' (k size sh')"
  shows "confined A sh (try_op (on_stream pb_decode_varint32 sh) k)"
proof (rule confined_bind)
  show "confined A sh (on_stream pb_decode_varint32 sh)" by (intro confined_on_stream same_callback)
  fix x sh' assume "on_stream pb_decode_varint32 sh = (Some x, sh')"
  then have "icallback (fst sh') = icallback (fst sh)" using varint32_callback [of "fst sh"] by (auto simp: on_stream_def)
  then show "confined A sh' (k x sh')" by (rule assms)
qed

lemma stream_sound_cong: "icallback s = icallback s' \<Longrightarrow> stream_sound s' \<Longrightarrow> stream_sound s"
  by (simp add: stream_sound_def)

lemma unat_u32_bound: "unat n < 4294967296" for n :: u32
  using unsigned_less [of n] by simp

lemma unat_u32_Suc: "\<not> unat (n + 1) < unat n \<Longrightarrow> unat (n + 1) = unat n + 1" for n :: u32
  using unat_u32_bound [of n] by (cases "unat n + 1 = 4294967296") (simp_all add: unat_word_ariths)

lemma static_not_pointer [simp]: "PB_ATYPE_STATIC \<noteq> PB_ATYPE_POINTER" "PB_ATYPE_STATIC \<noteq> PB_ATYPE_CALLBACK"
  by (simp_all add: PB_ATYPE_STATIC_def PB_ATYPE_POINTER_def PB_ATYPE_CALLBACK_def)

lemma confined_bytes:
  assumes snd: "stream_sound (fst sh)" and box: "box a (unat (data_size f)) \<subseteq> A" and st: "PB_ATYPE (ftype f) = PB_ATYPE_STATIC"
  shows "confined A sh (pb_dec_bytes env f a sh)"
  unfolding pb_dec_bytes_def
proof (rule confined_length_prefixed, goal_cases)
  case (1 n sh')
  then have snd': "stream_sound (fst (store a bs sh'))" for bs
    using snd stream_sound_cong [of "fst sh'" "fst sh"] by (simp add: store_def)
  have n: "PB_BYTES_ARRAY_T_ALLOCSIZE (unat n) = unat n + 4"
    using unat_u32_bound [of n] by (simp add: PB_BYTES_ARRAY_T_ALLOCSIZE_def offsetof_bytes_def size_add_def)
  have "confined A sh' (read_to (a + offsetof_bytes) (unat n) (store a (le_bytes 4 (unat n)) sh'))"
    if "unat n + 4 \<le> unat (data_size f)"
  proof (rule confined_store [of a "le_bytes 4 (unat n)"])
    show "box a (length (le_bytes 4 (unat n))) \<subseteq> A" using that box by (auto simp: subset_iff)
    show "confined A (store a (le_bytes 4 (unat n)) sh') (read_to (a + offsetof_bytes) (unat n) (store a (le_bytes 4 (unat n)) sh'))"
      using that box by (intro confined_read_to snd') (auto simp: offsetof_bytes_def subset_iff)
  qed
  then show ?case using st by (cases "unat n + 4 \<le> unat (data_size f)") (simp_all add: n Let_def)
qed

lemma confined_string:
  assumes snd: "stream_sound (fst sh)" and box: "box a (unat (data_size f)) \<subseteq> A" and st: "PB_ATYPE (ftype f) = PB_ATYPE_STATIC"
  shows "confined A sh (pb_dec_string env f a sh)"
  unfolding pb_dec_string_def
proof (rule confined_length_prefixed, goal_cases)
  case (1 n sh')
  then have snd': "stream_sound (fst sh')" using snd stream_sound_cong by blast
  have "confined A sh' (case read_to a (unat n) sh' of (status, sh) \<Rightarrow> (status, store (a + unat n) [0] sh))"
    if "unat n + 1 \<le> unat (data_size f)"
  proof -
    obtain status sh'' where r: "read_to a (unat n) sh' = (status, sh'')" by (cases "read_to a (unat n) sh'")
    have "confined A sh' (status, sh'')"
      using confined_read_to [OF snd', of a "unat n" A] that box unfolding r by (auto simp: subset_iff)
    moreover have "confined A sh'' (status, store (a + unat n) [0] sh'')"
      using that box by (intro confined_put) (auto simp: subset_iff)
    ultimately show ?thesis unfolding r by (auto simp: confined_def intro: same_outside_trans)
  qed
  then show ?case
    using st unat_u32_Suc [of n]
    by (cases "unat (n + 1) < unat n"; cases "unat n + 1 \<le> unat (data_size f)") (simp_all add: Let_def del: One_nat_def)
qed

lemma confined_fixed_length_bytes:
  assumes "stream_sound (fst sh)" and "box a (unat (data_size f)) \<subseteq> A"
  shows "confined A sh (pb_dec_fixed_length_bytes f a sh)"
  unfolding pb_dec_fixed_length_bytes_def
proof (rule confined_length_prefixed, goal_cases)
  case (1 n sh')
  then have "stream_sound (fst sh')" using assms(1) stream_sound_cong by blast
  with assms(2) show ?case by (auto simp: Let_def intro!: confined_put confined_read_to)
qed

lemma confined_submessage:
  assumes sub: "\<And>s h. icallback s = icallback (fst sh) \<Longrightarrow>
      confined A (s, h) (di (ddescs env (ptr f)) a (s, h)) \<and> confined A (s, h) (dn (ddescs env (ptr f)) a (s, h))"
  shows "confined A sh (pb_dec_submessage di dn env f a sh)"
  unfolding pb_dec_submessage_def
proof (rule confined_bind)
  show "confined A sh (on_stream pb_make_string_substream sh)" by (intro confined_on_stream same_callback)
  fix substream sh' assume "on_stream pb_make_string_substream sh = (Some substream, sh')"
  then have cb: "icallback substream = icallback (fst sh)"
    using make_substream_sub [of "fst sh" substream] by (auto simp: on_stream_def prod_eq_iff)
  let ?r = "(if PB_HTYPE (ftype f) = PB_HTYPE_REPEATED then di else dn) (ddescs env (ptr f)) a (substream, snd sh')"
  obtain status sub' h where r: "?r = (status, (sub', h))" by (metis prod.exhaust)
  have "confined A (substream, snd sh') (status, (sub', h))" using sub [OF cb, of "snd sh'"] r by (simp split: if_splits)
  from confined_substream(1) [OF this]
  show "confined A sh' (if ptr f = 0 then dec_error ''invalid field descriptor'' sh'
     else case ?r of (status, substream, h) \<Rightarrow> close_substream status substream (fst sh', h))"
    unfolding r by simp
qed

lemma confined_value:
  assumes "stream_sound (fst sh)" and "value_fits f" and box: "box a (unat (data_size f)) \<subseteq> A"
    and sub: "\<And>s h. PB_LTYPE (ftype f) = PB_LTYPE_SUBMESSAGE \<Longrightarrow> icallback s = icallback (fst sh) \<Longrightarrow>
      confined A (s, h) (di (ddescs env (ptr f)) a (s, h)) \<and> confined A (s, h) (dn (ddescs env (ptr f)) a (s, h))"
  shows "confined A sh (PB_DECODERS di dn env (PB_LTYPE (ftype f)) f a sh)"
proof -
  have "PB_ATYPE (ftype f) = PB_ATYPE_STATIC" using assms(2) by (simp add: value_fits_def Let_def)
  note R = confined_varint [OF box] confined_bytes [OF assms(1) box this] confined_string [OF assms(1) box this]
    confined_fixed_length_bytes [OF assms(1) box]
  have s: "PB_LTYPE (ftype f) = PB_LTYPE_SUBMESSAGE \<Longrightarrow> confined A sh (pb_dec_submessage di dn env f a sh)"
    by (rule confined_submessage) (rule sub)
  have b: "PB_LTYPE (ftype f) = PB_LTYPE_BOOL \<Longrightarrow> confined A sh (pb_dec_bool f a sh)"
    unfolding pb_dec_bool_def using assms(2) box
    by (intro confined_scalar same_callback) (auto simp: value_fits_def Let_def subset_iff)
  have f: "PB_LTYPE (ftype f) = PB_LTYPE_FIXED32 \<Longrightarrow> confined A sh (pb_dec_fixed32 f a sh)"
    "PB_LTYPE (ftype f) = PB_LTYPE_FIXED64 \<Longrightarrow> confined A sh (pb_dec_fixed64 f a sh)"
    unfolding pb_dec_fixed32_def pb_dec_fixed64_def using assms(2) box
    by (intro confined_scalar same_callback; auto simp: value_fits_def Let_def subset_iff)+
  show ?thesis unfolding PB_DECODERS_def by (simp add: R b f s split: if_split)
qed

section \<open>Where the iterator can be\<close>

lemma optional_static: "PB_HTYPE_OPTIONAL \<noteq> PB_HTYPE_REPEATED" "PB_HTYPE_OPTIONAL \<noteq> PB_HTYPE_ONEOF" "PB_HTYPE_ONEOF \<noteq> PB_HTYPE_REPEATED"
  by (simp_all add: PB_HTYPE_OPTIONAL_def PB_HTYPE_REPEATED_def PB_HTYPE_ONEOF_def)

text \<open>
  During decoding the iterator stands at a field of the message; only for an array of fixed size its
  counter may have been replaced by the local variable at \<^verbatim>\<open>slot\<close>.
\<close>

definition at_field :: "nat \<Rightarrow> pb_field list \<Rightarrow> nat \<Rightarrow> nat \<Rightarrow> pb_field_iter \<Rightarrow> bool" where
  "at_field slot fs dest i iter \<longleftrightarrow> i < length fs \<and> (iter = it_at fs dest i \<or>
     (iter = (it_at fs dest i)\<lparr>pSize := slot\<rparr> \<and> PB_HTYPE (ftype (fld fs i)) = PB_HTYPE_REPEATED))"

lemma at_field_sel:
  assumes "fields_ok fs" and "at_field slot fs dest i iter"
  shows "i < length fs" and "start iter = fs" and "pos iter = i" and "pData iter = pData (it_at fs dest i)"
    and "pSize iter = pSize (it_at fs dest i) \<or> (pSize iter = slot \<and> PB_HTYPE (ftype (fld fs i)) = PB_HTYPE_REPEATED)"
  using assms by (auto simp: at_field_def)

lemma next_other_size:
  assumes "PB_HTYPE (ftype (cur iter)) \<noteq> PB_HTYPE_ONEOF" and "tag (cur iter) \<noteq> 0"
  shows "pb_field_iter_next (iter\<lparr>pSize := z\<rparr>) = pb_field_iter_next iter"
  using assms by (auto simp: pb_field_iter_next_def Let_def)

lemma at_field_next:
  assumes ok: "fields_ok fs" and "at_field slot fs dest i iter"
  shows "pb_field_iter_next iter = (Suc i < length fs, if Suc i < length fs then it_at fs dest (Suc i) else it_at fs dest 0)"
proof -
  have i: "i < length fs" using assms(2) by (simp add: at_field_def)
  have t: "tag (cur (it_at fs dest i)) \<noteq> 0" using fld_tag [OF ok, of i] ok i by simp
  have "pb_field_iter_next iter = pb_field_iter_next (it_at fs dest i)"
    using assms(2) next_other_size [OF _ t] ok i optional_static(3) by (auto simp: at_field_def)
  then show ?thesis using it_at_next [OF ok i] by simp
qed

lemma at_field_it_at: "j < length fs \<Longrightarrow> at_field slot fs dest j (it_at fs dest j)"
  by (simp add: at_field_def)

lemma at_field_step:
  assumes ok: "fields_ok fs" and a: "at_field slot fs dest i iter"
  obtains j where "at_field slot fs dest j (snd (pb_field_iter_next iter))"
proof (cases "Suc i < length fs")
  case True
  then show ?thesis using that [of "Suc i"] at_field_next [OF ok a] by (simp add: at_field_it_at)
next
  case False
  have "0 < length fs" using at_field_sel(1) [OF ok a] by linarith
  then show ?thesis using that [of 0] at_field_next [OF ok a] False by (simp add: at_field_it_at)
qed

lemma find_loop_at_field:
  assumes "fields_ok fs"
  shows "at_field slot fs dest i iter \<Longrightarrow> \<exists>j. at_field slot fs dest j (snd (iter_find_loop k stop t iter))"
proof (induction k arbitrary: i iter)
  case (Suc k)
  obtain j where "at_field slot fs dest j (snd (pb_field_iter_next iter))" using at_field_step [OF assms Suc.prems] .
  with Suc show ?case by (auto simp: Let_def)
qed auto

lemma find_at_field:
  "fields_ok fs \<Longrightarrow> at_field slot fs dest i iter \<Longrightarrow> \<exists>j. at_field slot fs dest j (snd (pb_field_iter_find t iter))"
  unfolding pb_field_iter_find_def by (rule find_loop_at_field)

lemma find_extension_loop_none:
  assumes "fields_ok fs" and "\<And>i. i < length fs \<Longrightarrow> PB_LTYPE (ftype (fld fs i)) \<noteq> PB_LTYPE_EXTENSION"
  shows "at_field slot fs dest i iter \<Longrightarrow>
    \<not> fst (find_extension_loop k stop iter) \<and> (\<exists>j. at_field slot fs dest j (snd (find_extension_loop k stop iter)))"
proof (induction k arbitrary: i iter)
  case (Suc k)
  obtain j where "at_field slot fs dest j (snd (pb_field_iter_next iter))" using at_field_step [OF assms(1) Suc.prems] .
  with Suc assms(2) [of i] at_field_sel(1-3) [OF assms(1) Suc.prems] show ?case by (auto simp: Let_def)
qed auto

section \<open>Defaults and release\<close>

lemma iter_do_step:
  "iter_do f iter s =
     (if fst (pb_field_iter_next iter) then iter_do f (snd (pb_field_iter_next iter)) (f iter s) else f iter s)"
  unfolding iter_do_def by (subst iter_while.simps) simp

lemma iter_do_inv:
  assumes "fields_ok fs" and "\<And>j s. j < length fs \<Longrightarrow> P s \<Longrightarrow> P (f (it_at fs dest j) s)"
  shows "i < length fs \<Longrightarrow> P s \<Longrightarrow> P (iter_do f (it_at fs dest i) s)"
proof (induction "length fs - i" arbitrary: i s rule: less_induct)
  case less
  note N = it_at_next [OF assms(1) less.prems(1)]
  have step: "P (f (it_at fs dest i) s)" using assms(2) less.prems by blast
  show ?case
  proof (cases "Suc i < length fs")
    case True
    then show ?thesis using less.hyps [OF _ True step] by (subst iter_do_step) (simp add: N)
  next
    case False
    then show ?thesis using step by (subst iter_do_step) (simp add: N)
  qed
qed

lemma begin_it_at: "fs \<noteq> [] \<Longrightarrow> fields_ok fs \<Longrightarrow> pb_field_iter_begin fs dest = (True, it_at fs dest 0)"
  by (auto simp: pb_field_iter_begin_def Let_def fields_ok_def fld_def it_at.simps(1))

text \<open>Setting one field of a message to its default, given that submessages stay in their place.\<close>

lemma field_default_confined:
  assumes msg: "msg_at env fs dest sz" and i: "i < length fs"
    and sub: "\<And>h. PB_LTYPE (ftype (fld fs i)) = PB_LTYPE_SUBMESSAGE \<Longrightarrow>
      PB_HTYPE (ftype (fld fs i)) \<noteq> PB_HTYPE_REPEATED \<Longrightarrow>
      same_outside (box dest sz) h (pb_message_set_to_defaults n env (ddescs env (ptr (fld fs i))) (pData (it_at fs dest i)) h)"
  shows "same_outside (box dest sz) h (pb_field_set_to_default (Suc n) env (it_at fs dest i) h)"
proof -
  let ?f = "fld fs i" and ?it = "it_at fs dest i"
  let ?t = "ftype ?f"
  have c: "cur ?it = ?f" using msg_atD(2) [OF msg] i by simp
  have k: "PB_ATYPE ?t = PB_ATYPE_STATIC" "PB_LTYPE ?t \<noteq> PB_LTYPE_EXTENSION"
    using msg_atD(4) [OF msg i] by (simp_all add: field_fits_def Let_def)
  define counted where "counted \<longleftrightarrow> PB_HTYPE ?t = PB_HTYPE_REPEATED \<or> PB_HTYPE ?t = PB_HTYPE_ONEOF"
  define flag where "flag \<longleftrightarrow> PB_HTYPE ?t = PB_HTYPE_OPTIONAL \<and> pSize ?it \<noteq> pData ?it"
  define h1 where "h1 = (if flag then poke_heap (pSize ?it) [0] h
    else if counted then poke_heap (pSize ?it) (le_bytes 4 0) h else h)"
  have z1: "box (pSize ?it) 1 \<subseteq> box dest sz" if flag
    using that msg_at_item(3) [OF msg i] unfolding flag_def by (blast dest: inside_box)
  have z4: "box (pSize ?it) 4 \<subseteq> box dest sz" if counted
    using that msg_at_item(4) [OF msg i] unfolding counted_def by (blast dest: inside_box)
  have s1: "same_outside (box dest sz) h h1"
    unfolding h1_def using z1 z4 same_outside_poke [of "pSize ?it" "[0]" "box dest sz" h]
      same_outside_poke [of "pSize ?it" "le_bytes 4 0" "box dest sz" h]
    by (simp split: if_split)
  define h2 where "h2 = (if \<not> (flag \<or> \<not> counted) then h1
    else if PB_LTYPE ?t = PB_LTYPE_SUBMESSAGE then pb_message_set_to_defaults n env (ddescs env (ptr ?f)) (pData ?it) h1
    else if ptr ?f \<noteq> 0 then poke_heap (pData ?it) (read_bytes (hmem h1) (ptr ?f) (unat (data_size ?f))) h1
    else poke_heap (pData ?it) (replicate (unat (data_size ?f)) 0) h1)"
  have eq: "pb_field_set_to_default (Suc n) env ?it h = h2"
    using k unfolding pb_field_set_to_default.simps Let_def c h1_def h2_def counted_def flag_def
    by (simp only: if_True if_False refl)
  have nr: "PB_HTYPE ?t \<noteq> PB_HTYPE_REPEATED" if "flag \<or> \<not> counted"
    using that optional_static by (auto simp: flag_def counted_def)
  have "same_outside (box dest sz) h1 h2"
  proof (cases "flag \<or> \<not> counted")
    case True
    have "box (pData ?it) (unat (data_size ?f)) \<subseteq> box dest sz"
      using msg_at_item(1) [OF msg i nr [OF True]] by (rule inside_box)
    then have p: "same_outside (box dest sz) h1 (poke_heap (pData ?it) bs h1)" if "length bs = unat (data_size ?f)" for bs
      using that by (intro same_outside_poke) simp
    show ?thesis unfolding h2_def
      by (simp add: True sub [OF _ nr [OF True]] p read_bytes_def split: if_split)
  qed (simp add: h2_def)
  with s1 show ?thesis unfolding eq by (rule same_outside_trans)
qed

lemma defaults_confined:
  "msg_at env fs dest sz \<Longrightarrow> same_outside (box dest sz) h (pb_message_set_to_defaults n env fs dest h)"
proof (induction n arbitrary: fs dest sz h)
  case (0 fs dest sz h)
  note M = msg_atD [OF 0]
  have "same_outside (box dest sz) h (iter_do (pb_field_set_to_default 0 env) (it_at fs dest 0) h)"
    by (rule iter_do_inv [OF M(2)]) (use M(1) in simp_all)
  then show ?case using M by (simp add: begin_it_at pb_message_set_to_defaults.simps)
next
  case (Suc n fs dest sz h)
  note M = msg_atD [OF Suc.prems]
  have "same_outside (box dest sz) h (iter_do (pb_field_set_to_default (Suc n) env) (it_at fs dest 0) h)"
  proof (rule iter_do_inv [OF M(2)])
    fix j h' assume j: "j < length fs" and h': "same_outside (box dest sz) h h'"
    have "same_outside (box dest sz) h' (pb_field_set_to_default (Suc n) env (it_at fs dest j) h')"
    proof (rule field_default_confined [OF Suc.prems j])
      fix h'' assume t: "PB_LTYPE (ftype (fld fs j)) = PB_LTYPE_SUBMESSAGE" "PB_HTYPE (ftype (fld fs j)) \<noteq> PB_HTYPE_REPEATED"
      note I = msg_at_item(1) [OF Suc.prems j t(2)]
      show "same_outside (box dest sz) h''
          (pb_message_set_to_defaults n env (ddescs env (ptr (fld fs j))) (pData (it_at fs dest j)) h'')"
        by (rule same_outside_mono [OF Suc.IH [OF msg_at_sub [OF Suc.prems j t(1) I]] inside_box [OF I]])
    qed
    with h' show "same_outside (box dest sz) h (pb_field_set_to_default (Suc n) env (it_at fs dest j) h')"
      by (rule same_outside_trans)
  qed (use M(1) in simp_all)
  then show ?case using M by (simp add: begin_it_at pb_message_set_to_defaults.simps)
qed

lemma msg_at_nth_item:
  assumes "msg_at env fs dest sz" and "i < length fs" and r: "PB_HTYPE (ftype (fld fs i)) = PB_HTYPE_REPEATED"
    and k: "k < unat (array_size (fld fs i))"
  shows "inside (pData (it_at fs dest i) + k * unat (data_size (fld fs i))) (unat (data_size (fld fs i))) dest sz"
proof -
  let ?f = "fld fs i"
  have F: "field_fits sz fs i" using msg_atD(4) [OF assms(1,2)] .
  then have st: "PB_ATYPE (ftype ?f) = PB_ATYPE_STATIC" by (simp add: field_fits_def Let_def)
  have "unat (data_size ?f) * unat (array_size ?f) < 2 ^ 32 * 2 ^ 32"
    using unat_u32_bound [of "data_size ?f"] unat_u32_bound [of "array_size ?f"] by (intro mult_strict_mono) auto
  then have p: "prev_size_of ?f = unat (data_size ?f) * unat (array_size ?f)"
    using r st by (simp add: prev_size_of_def size_mult_def)
  have "Suc k * unat (data_size ?f) \<le> unat (array_size ?f) * unat (data_size ?f)"
    using k by (intro mult_le_mono) auto
  with field_fitsD(1) [OF F] p show ?thesis
    by (simp add: inside_def msg_at_addr [OF assms(1,2)] mult.commute)
qed

lemma release_items_same:
  "(\<And>k h. k < c \<Longrightarrow> f (p + k * step) h = h) \<Longrightarrow> release_items f c p step h = h"
proof (induction c arbitrary: p h)
  case (Suc c)
  have "f (p + step + k * step) h = h" if "k < c" for k h using Suc.prems [of "Suc k" h] that by (simp add: algebra_simps)
  with Suc.IH [of "p + step"] Suc.prems [of 0] show ?case by simp
qed simp

lemma release_count_le:
  assumes "PB_ATYPE (ftype (cur iter)) = PB_ATYPE_STATIC" and "PB_HTYPE (ftype (cur iter)) = PB_HTYPE_REPEATED"
  shows "release_count iter h \<le> unat (array_size (cur iter))"
  using assms by (auto simp: release_count_def Let_def word_le_nat_alt not_less)

text \<open>A message without pointers owns nothing.\<close>

lemma release_field_static:
  assumes msg: "msg_at env fs dest sz" and a: "at_field slot fs dest i iter"
    and sub: "\<And>fs' d sz' h. msg_at env fs' d sz' \<Longrightarrow> pb_release n env fs' d h = h"
  shows "pb_release_single_field (Suc n) env iter h = h"
proof -
  let ?f = "fld fs i"
  note S = at_field_sel [OF msg_atD(2) [OF msg] a]
  have i: "i < length fs" and c: "cur iter = ?f" and d: "pData iter = pData (it_at fs dest i)" using S by simp_all
  have k: "PB_ATYPE (ftype ?f) = PB_ATYPE_STATIC" "PB_LTYPE (ftype ?f) \<noteq> PB_LTYPE_EXTENSION"
    using msg_atD(4) [OF msg i] by (simp_all add: field_fits_def Let_def)
  have "release_items (pb_release n env (ddescs env (ptr ?f))) (release_count iter h) (pData iter) (unat (data_size ?f)) h = h"
    if t: "PB_LTYPE (ftype ?f) = PB_LTYPE_SUBMESSAGE"
  proof (rule release_items_same)
    fix j h' assume j: "j < release_count iter h"
    have "inside (pData iter + j * unat (data_size ?f)) (unat (data_size ?f)) dest sz"
    proof (cases "PB_HTYPE (ftype ?f) = PB_HTYPE_REPEATED")
      case True
      then have "j < unat (array_size ?f)" using release_count_le [of iter h] c k(1) j by simp
      then show ?thesis unfolding d by (rule msg_at_nth_item [OF msg i True])
    next
      case False
      then have "j = 0" using j c by (simp add: release_count_def)
      with msg_at_item(1) [OF msg i False] d show ?thesis by simp
    qed
    then show "pb_release n env (ddescs env (ptr ?f)) (pData iter + j * unat (data_size ?f)) h' = h'"
      by (intro sub [OF msg_at_sub [OF msg i t]])
  qed
  then show ?thesis using k by (simp add: c Let_def)
qed

lemma release_static: "msg_at env fs dest sz \<Longrightarrow> pb_release n env fs dest h = h"
proof (induction n arbitrary: fs dest sz h)
  case (0 fs dest sz h)
  note M = msg_atD [OF 0]
  have "iter_do (pb_release_single_field 0 env) (it_at fs dest 0) h = h"
    by (rule iter_do_inv [OF M(2), where P = "\<lambda>h'. h' = h"]) (use M(1) in simp_all)
  then show ?case using M by (simp add: begin_it_at pb_release.simps)
next
  case (Suc n fs dest sz h)
  note M = msg_atD [OF Suc.prems]
  have "iter_do (pb_release_single_field (Suc n) env) (it_at fs dest 0) h = h"
    by (rule iter_do_inv [OF M(2), where P = "\<lambda>h'. h' = h"])
      (use M(1) release_field_static [OF Suc.prems at_field_it_at Suc.IH] in \<open>simp_all del: pb_release_single_field.simps\<close>)
  then show ?case using M by (simp add: begin_it_at pb_release.simps)
qed

section \<open>Fields\<close>

text \<open>What is known about the decoders of submessages.\<close>

definition subs_ok :: "'st pb_denv \<Rightarrow> nat set \<Rightarrow> 'st msg_decoder \<Rightarrow> 'st msg_decoder \<Rightarrow> bool" where
  "subs_ok env L di dn \<longleftrightarrow> (\<forall>fs d sz s h. msg_at env fs d sz \<longrightarrow> stream_sound s \<longrightarrow>
     confined (box d sz \<union> L) (s, h) (di fs d (s, h)) \<and> confined (box d sz \<union> L) (s, h) (dn fs d (s, h)))"

lemma item_confined:
  assumes msg: "msg_at env fs dest sz" and i: "i < length fs" and ins: "inside a (unat (data_size (fld fs i))) dest sz"
    and A: "box dest sz \<subseteq> A" "L \<subseteq> A" and sub: "subs_ok env L di dn" and snd: "stream_sound (fst sh)"
  shows "confined A sh (PB_DECODERS di dn env (PB_LTYPE (ftype (fld fs i))) (fld fs i) a sh)"
proof (rule confined_value [OF snd msg_at_value_fits [OF msg i]])
  show "box a (unat (data_size (fld fs i))) \<subseteq> A" using inside_box [OF ins] A(1) by blast
  fix s :: "'a pb_istream" and h assume t: "PB_LTYPE (ftype (fld fs i)) = PB_LTYPE_SUBMESSAGE" and cb: "icallback s = icallback (fst sh)"
  have "stream_sound s" using cb snd stream_sound_cong by blast
  moreover have "box a (unat (data_size (fld fs i))) \<union> L \<subseteq> A" using inside_box [OF ins] A by blast
  ultimately show "confined A (s, h) (di (ddescs env (ptr (fld fs i))) a (s, h)) \<and>
      confined A (s, h) (dn (ddescs env (ptr (fld fs i))) a (s, h))"
    using sub msg_at_sub [OF msg i t ins] unfolding subs_ok_def by (blast intro: confined_mono)
qed

lemma counter_box:
  assumes msg: "msg_at env fs dest sz" and a: "at_field slot fs dest i iter"
    and A: "box dest sz \<subseteq> A" "box slot 4 \<subseteq> A"
    and t: "PB_HTYPE (ftype (fld fs i)) = PB_HTYPE_REPEATED \<or> PB_HTYPE (ftype (fld fs i)) = PB_HTYPE_ONEOF"
  shows "box (pSize iter) 4 \<subseteq> A"
  using at_field_sel(5) [OF msg_atD(2) [OF msg] a] A
    inside_box [OF msg_at_item(4) [OF msg at_field_sel(1) [OF msg_atD(2) [OF msg] a] t]] by force

lemma store_sound: "stream_sound (fst (store a bs sh)) = stream_sound (fst sh)"
  by (simp add: store_def)

lemma set_size_confined:
  "box (pSize iter) 4 \<subseteq> A \<Longrightarrow> confined A (set_size iter v sh) r \<Longrightarrow> confined A sh r"
  unfolding set_size_def by (rule confined_store) simp_all

lemma packed_confined:
  assumes item: "\<And>v sh. v < array_size (cur iter) \<Longrightarrow> stream_sound (fst sh) \<Longrightarrow>
      confined A sh (func (pData iter + unat (data_size (cur iter) * v)) sh)"
    and z: "box (pSize iter) 4 \<subseteq> A"
  shows "stream_sound (fst sh) \<Longrightarrow> confined A sh (decode_packed k func iter sh)"
proof (induction k arbitrary: sh)
  case (Suc k)
  show ?case
  proof (cases "bytes_left (fst sh) > 0 \<and> size_at iter sh < array_size (cur iter)")
    case True
    let ?r = "func (pData iter + unat (data_size (cur iter) * size_at iter sh)) sh"
    have c: "confined A sh ?r" using item True Suc.prems by blast
    have "confined A sh (try_op ?r (\<lambda>_ sh. decode_packed k func iter (set_size iter (size_at iter sh + 1) sh)))"
    proof (rule confined_bind [OF c])
      fix x sh' assume "?r = (Some x, sh')"
      then have "stream_sound (fst sh')" using confined_sound [OF c Suc.prems] by simp
      then show "confined A sh' (decode_packed k func iter (set_size iter (size_at iter sh' + 1) sh'))"
        by (intro set_size_confined [OF z Suc.IH]) (simp add: set_size_def store_sound)
    qed
    with True show ?thesis by simp
  qed (simp only: decode_packed.simps if_False confined_refl)
qed simp

lemma substream_callback:
  "on_stream pb_make_string_substream sh = (Some substream, sh') \<Longrightarrow> icallback substream = icallback (fst sh)"
  using make_substream_sub [of "fst sh" substream] by (auto simp: on_stream_def prod_eq_iff)

text \<open>The two ways to read an array: a packed one, and one item of it.\<close>

lemma array_confined:
  assumes item: "\<And>v sh. v < array_size (cur iter) \<Longrightarrow> stream_sound (fst sh) \<Longrightarrow>
      confined A sh (func (pData iter + unat (data_size (cur iter) * v)) sh)"
    and z: "box (pSize iter) 4 \<subseteq> A" and snd: "stream_sound (fst sh)"
  shows "confined A sh (decode_packed_array func iter sh)" and "confined A sh (decode_array_item func iter sh)"
proof -
  show "confined A sh (decode_array_item func iter sh)"
  proof (cases "size_at iter sh \<ge> array_size (cur iter)")
    case True
    then show ?thesis using set_size_confined [OF z confined_error] by (simp add: decode_array_item_def Let_def)
  next
    case False
    have "stream_sound (fst (set_size iter v sh))" for v using snd by (simp add: set_size_def store_sound)
    from set_size_confined [OF z item [OF _ this]] False show ?thesis by (simp add: decode_array_item_def Let_def)
  qed
  show "confined A sh (decode_packed_array func iter sh)"
    unfolding decode_packed_array_def
  proof (rule confined_bind [OF confined_on_stream [OF make_substream_callback]], goal_cases)
    case (1 substream sh')
    then have ss: "stream_sound (fst (substream, snd sh'))"
      using stream_sound_cong [OF substream_callback snd] by simp
    have "confined A (substream, snd sh') (decode_packed (bytes_left substream) func iter (substream, snd sh'))"
      by (rule packed_confined) (fact item, fact z, fact ss)
    then show ?case by (auto split: prod.split intro: confined_substream)
  qed
qed

text \<open>A member of a union is cleared when another one was there.\<close>

lemma union_cleared:
  assumes msg: "msg_at env fs dest sz" and i: "i < length fs" and I: "inside d (unat (data_size (fld fs i))) dest sz"
    and A: "box dest sz \<subseteq> A" and t: "PB_LTYPE (ftype (fld fs i)) = PB_LTYPE_SUBMESSAGE"
  shows "same_outside A h (pb_message_set_to_defaults n env (ddescs env (ptr (fld fs i))) d
     (poke_heap d (replicate (unat (data_size (fld fs i))) 0) h))"
proof -
  let ?h = "poke_heap d (replicate (unat (data_size (fld fs i))) 0) h"
  have bx: "box d (unat (data_size (fld fs i))) \<subseteq> A" using inside_box [OF I] A by blast
  then have "same_outside A h ?h" by (intro same_outside_poke) simp
  also have "same_outside A ?h (pb_message_set_to_defaults n env (ddescs env (ptr (fld fs i))) d ?h)"
    by (rule same_outside_mono [OF defaults_confined [OF msg_at_sub [OF msg i t I]] bx])
  finally show ?thesis .
qed

lemma htypes_distinct [simp]:
  "PB_HTYPE_OPTIONAL \<noteq> PB_HTYPE_REQUIRED" "PB_HTYPE_REPEATED \<noteq> PB_HTYPE_REQUIRED" "PB_HTYPE_ONEOF \<noteq> PB_HTYPE_REQUIRED"
  "PB_HTYPE_REQUIRED \<noteq> PB_HTYPE_REPEATED" "PB_HTYPE_REPEATED \<noteq> PB_HTYPE_OPTIONAL" "PB_HTYPE_ONEOF \<noteq> PB_HTYPE_OPTIONAL"
  "PB_HTYPE_OPTIONAL \<noteq> PB_HTYPE_REPEATED" "PB_HTYPE_ONEOF \<noteq> PB_HTYPE_REPEATED"
  by (simp_all add: PB_HTYPE_OPTIONAL_def PB_HTYPE_REQUIRED_def PB_HTYPE_REPEATED_def PB_HTYPE_ONEOF_def)

lemma static_field_confined:
  assumes msg: "msg_at env fs dest sz" and a: "at_field slot fs dest i iter"
    and A: "box dest sz \<subseteq> A" "L \<subseteq> A" "box slot 4 \<subseteq> A" and sub: "subs_ok env L di dn" and snd: "stream_sound (fst sh)"
  shows "confined A sh (decode_static_field n di dn env wt iter sh)"
proof -
  note S = at_field_sel [OF msg_atD(2) [OF msg] a]
  let ?f = "fld fs i"
  let ?t = "ftype ?f"
  define func where "func = PB_DECODERS di dn env (PB_LTYPE ?t) ?f"
  have c: "cur iter = ?f" using S(2,3) by simp
  have item: "confined A sh' (func b sh')" if "inside b (unat (data_size ?f)) dest sz" "stream_sound (fst sh')" for b sh'
    unfolding func_def using item_confined [OF msg S(1) that(1) A(1,2) sub that(2)] .
  have one: "inside (pData iter) (unat (data_size ?f)) dest sz" if "PB_HTYPE ?t \<noteq> PB_HTYPE_REPEATED"
    using msg_at_item(1) [OF msg S(1) that] S(4) by simp
  consider (req) "PB_HTYPE ?t = PB_HTYPE_REQUIRED" | (opt) "PB_HTYPE ?t = PB_HTYPE_OPTIONAL"
    | (rep) "PB_HTYPE ?t = PB_HTYPE_REPEATED" | (uni) "PB_HTYPE ?t = PB_HTYPE_ONEOF"
    | (bad) "PB_HTYPE ?t \<notin> {PB_HTYPE_REQUIRED, PB_HTYPE_OPTIONAL, PB_HTYPE_REPEATED, PB_HTYPE_ONEOF}" by blast
  then show ?thesis
  proof cases
    case req
    then show ?thesis using item [OF one snd] by (simp add: decode_static_field_def c func_def [symmetric])
  next
    case opt
    have "pSize iter = pSize (it_at fs dest i)" using S(5) opt by simp
    then have "box (pSize iter) (length [1::u8]) \<subseteq> A"
      using subset_trans [OF inside_box [OF msg_at_item(3) [OF msg S(1) opt]] A(1)] by simp
    then have "confined A sh (func (pData iter) (store (pSize iter) [1] sh))"
      by (rule confined_store) (use opt in \<open>simp add: item one store_sound snd\<close>)
    with opt show ?thesis
      by (simp add: decode_static_field_def c func_def [symmetric] Let_def item one snd)
  next
    case rep
    have nth: "confined A sh' (func (pData iter + unat (data_size (cur iter) * v)) sh')"
      if "v < array_size (cur iter)" "stream_sound (fst sh')" for v sh'
    proof (rule item [OF _ that(2)])
      have "v < array_size ?f" using that(1) unfolding c .
      from msg_at_item(2) [OF msg S(1) rep this]
      show "inside (pData iter + unat (data_size (cur iter) * v)) (unat (data_size ?f)) dest sz" unfolding S(4) c .
    qed
    have z: "box (pSize iter) 4 \<subseteq> A" using counter_box [OF msg a A(1,3)] rep by blast
    have "decode_static_field n di dn env wt iter sh = (if wt = PB_WT_STRING \<and> PB_LTYPE ?t \<le> PB_LTYPE_LAST_PACKABLE
        then decode_packed_array func iter sh else decode_array_item func iter sh)"
      unfolding decode_static_field_def Let_def c func_def [symmetric] rep
      by (simp only: htypes_distinct if_False if_True simp_thms)
    then show ?thesis using array_confined [of iter A func sh, OF nth z snd] by presburger
  next
    case uni
    have z: "box (pSize iter) 4 \<subseteq> A" using counter_box [OF msg a A(1,3)] uni by blast
    have I: "inside (pData iter) (unat (data_size ?f)) dest sz" using one uni by simp
    have go: "confined A sh (func (pData iter) (set_size iter (tag ?f) (fst sh, h1)))" if "same_outside A (snd sh) h1" for h1
      using that by (rule confined_heap) (rule set_size_confined [OF z], rule item [OF I], simp add: set_size_def store_sound snd)
    from go [OF union_cleared [OF msg S(1) I A(1)]] go [OF same_outside_refl] uni show ?thesis
      by (simp add: decode_static_field_def c func_def [symmetric] Let_def)
  next
    case bad
    then show ?thesis by (simp add: decode_static_field_def c Let_def)
  qed
qed

lemma union_field_confined:
  assumes msg: "msg_at env fs dest sz" and a: "at_field slot fs dest i iter"
  shows "confined A sh (pb_release_union_field n env iter sh)"
    and "pb_release_union_field n env iter sh = (Some iter', sh') \<Longrightarrow> sh' = sh \<and> (\<exists>j. at_field slot fs dest j iter')"
proof -
  note ok = msg_atD(2) [OF msg]
  have same: "pb_release_single_field n env it h = h" if "at_field slot fs dest j it" for it j h
  proof (cases n)
    case (Suc m)
    show ?thesis unfolding Suc by (rule release_field_static [OF msg that]) (rule release_static)
  qed simp
  have static: "PB_ATYPE (ftype (cur it)) \<noteq> PB_ATYPE_POINTER" if "at_field slot fs dest j it" for it j
    using at_field_sel(1-3) [OF ok that] msg_at_value_fits [OF msg, of j] by (simp add: value_fits_def Let_def)
  obtain it1 f1 where 1: "pb_field_iter_find (read_size (hmem (snd sh)) (pSize iter)) iter = (f1, it1)" by fastforce
  then obtain j1 where j1: "at_field slot fs dest j1 it1" using find_at_field [OF ok a] by (metis snd_conv)
  obtain it2 f2 where 2: "pb_field_iter_find (tag (cur iter)) it1 = (f2, it2)" by fastforce
  then obtain j2 where j2: "at_field slot fs dest j2 it2" using find_at_field [OF ok j1] by (metis snd_conv)
  have eq: "pb_release_union_field n env iter sh =
      (let old_tag = read_size (hmem (snd sh)) (pSize iter) in
       if old_tag = 0 \<or> old_tag = tag (cur iter) then returns iter sh
       else if \<not> f1 then dec_error ''invalid union tag'' sh
       else if \<not> f2 then dec_error ''iterator error'' sh else returns it2 sh)"
    using static [OF j2] by (simp add: pb_release_union_field_def Let_def 1 2 same [OF j1])
  show "confined A sh (pb_release_union_field n env iter sh)" unfolding eq Let_def by simp
  show "sh' = sh \<and> (\<exists>j. at_field slot fs dest j iter')" if "pb_release_union_field n env iter sh = (Some iter', sh')"
    using that a j2 unfolding eq Let_def by (auto simp: dec_error_def split: if_splits)
qed

lemma decode_field_confined:
  assumes msg: "msg_at env fs dest sz" and a: "at_field slot fs dest i iter"
    and A: "box dest sz \<subseteq> A" "L \<subseteq> A" "box slot 4 \<subseteq> A" and sub: "subs_ok env L di dn" and snd: "stream_sound (fst sh)"
  shows "confined A sh (decode_field n di dn env wt iter sh)"
    and "decode_field n di dn env wt iter sh = (Some iter', sh') \<Longrightarrow> \<exists>j. at_field slot fs dest j iter'"
proof -
  let ?u = "if PB_HTYPE (ftype (cur iter)) = PB_HTYPE_ONEOF then pb_release_union_field n env iter sh else returns iter sh"
  have u: "confined A sh ?u" using union_field_confined(1) [OF msg a] by simp
  have us: "sh1 = sh \<and> (\<exists>j. at_field slot fs dest j it1)" if "?u = (Some it1, sh1)" for it1 sh1
    using that union_field_confined(2) [OF msg a, of n sh it1 sh1] a by (auto split: if_splits)
  have st: "PB_ATYPE (ftype (cur it1)) = PB_ATYPE_STATIC" if "at_field slot fs dest j it1" for it1 j
    using at_field_sel(1-3) [OF msg_atD(2) [OF msg] that] msg_at_value_fits [OF msg, of j] by (simp add: value_fits_def Let_def)
  show "confined A sh (decode_field n di dn env wt iter sh)"
    unfolding decode_field_def
  proof (rule confined_bind [OF u], goal_cases)
    case (1 it1 sh1)
    then obtain j where j: "at_field slot fs dest j it1" and [simp]: "sh1 = sh" using us by blast
    show ?case using st [OF j] static_field_confined [OF msg j A sub snd] by (simp add: confined_bind)
  qed
  show "\<exists>j. at_field slot fs dest j iter'" if "decode_field n di dn env wt iter sh = (Some iter', sh')"
    using that us unfolding decode_field_def Let_def try_op_eq_Some by (metis option.inject prod.inject)
qed

lemma unknown_field_confined:
  assumes msg: "msg_at env fs dest sz" and a: "at_field slot fs dest i (it L)" and t: "t \<noteq> -1"
  shows "confined A sh (handle_unknown_field n di dn env wt t L sh)"
    and "handle_unknown_field n di dn env wt t L sh = (Some L', sh') \<Longrightarrow> \<exists>j. at_field slot fs dest j (it L')"
proof -
  note ok = msg_atD(2) [OF msg]
  have ne: "\<And>i. i < length fs \<Longrightarrow> PB_LTYPE (ftype (fld fs i)) \<noteq> PB_LTYPE_EXTENSION"
    using msg_atD(4) [OF msg] by (simp add: field_fits_def Let_def)
  obtain j it1 where f: "find_extension_field (it L) = (False, it1)" and j: "at_field slot fs dest j it1"
    using find_extension_loop_none [OF ok ne a] unfolding find_extension_field_def by (metis prod.collapse)
  have "\<not> -1 \<le> t" using t by (metis word_order.extremum_uniqueI)
  then have eq: "handle_unknown_field n di dn env wt t L sh =
      try_op (on_stream (pb_skip_field wt) sh) (\<lambda>_ sh. returns
        (if t \<ge> extension_range_start L then L\<lparr>it := it1, extension_range_start := -1\<rparr> else L) sh)"
    by (simp add: handle_unknown_field_def f Let_def)
  show "confined A sh (handle_unknown_field n di dn env wt t L sh)" unfolding eq by (rule confined_skip)
  show "\<exists>j. at_field slot fs dest j (it L')" if "handle_unknown_field n di dn env wt t L sh = (Some L', sh')"
    using that a j unfolding eq by (auto simp: try_op_eq_Some)
qed

lemma fixed_count_confined:
  assumes ok: "fields_ok fs" and a: "at_field slot fs dest i (it L)" and A: "box slot 4 \<subseteq> A"
  shows "confined A sh (use_fixed_count slot L sh)"
    and "use_fixed_count slot L sh = (Some L', sh') \<Longrightarrow> at_field slot fs dest i (it L')"
proof -
  show "confined A sh (use_fixed_count slot L sh)"
    using confined_put(1) [of slot "le_bytes 4 0" A sh] A
    by (auto simp: use_fixed_count_def Let_def split: option.split intro!: confined_put)
  have c: "cur (it L) = fld fs i" and i: "i < length fs" using at_field_sel(1-3) [OF ok a] by simp_all
  have *: "at_field slot fs dest i ((it L)\<lparr>pSize := slot\<rparr>)" if "PB_HTYPE (ftype (fld fs i)) = PB_HTYPE_REPEATED"
    using a that by (auto simp: at_field_def)
  show "at_field slot fs dest i (it L')" if "use_fixed_count slot L sh = (Some L', sh')"
    using that a * by (auto simp: use_fixed_count_def Let_def c dec_error_def split: option.splits if_splits)
qed

lemma handle_field_confined:
  assumes msg: "msg_at env fs dest sz" and a: "at_field (frame env n) fs dest i (it L)" and t: "t \<noteq> -1"
    and A: "box dest sz \<subseteq> A" "Ls \<subseteq> A" "box (frame env n) 4 \<subseteq> A" and sub: "subs_ok env Ls di dn"
    and snd: "stream_sound (fst sh)"
  shows "confined A sh (handle_field n di dn env wt t L sh)"
    and "handle_field n di dn env wt t L sh = (Some L', sh') \<Longrightarrow> \<exists>j. at_field (frame env n) fs dest j (it L')"
proof -
  note ok = msg_atD(2) [OF msg]
  obtain found it1 where f: "pb_field_iter_find t (it L) = (found, it1)" by fastforce
  then obtain j where "at_field (frame env n) fs dest j it1" using find_at_field [OF ok a] by (metis snd_conv)
  then have j: "at_field (frame env n) fs dest j (it (L\<lparr>it := it1\<rparr>))" by simp
  let ?c = "use_fixed_count (frame env n) (L\<lparr>it := it1\<rparr>) sh"
  note F = fixed_count_confined [OF ok j A(3)]
  have known: "confined A sh1 (decode_field n di dn env wt (it (mark_required L1)) sh1)"
    "decode_field n di dn env wt (it (mark_required L1)) sh1 = (Some it2, sh2) \<Longrightarrow> \<exists>j. at_field (frame env n) fs dest j it2"
    if "?c = (Some L1, sh1)" for L1 sh1 it2 sh2
  proof -
    have "it (mark_required L1) = it L1" by (simp add: mark_required_def Let_def)
    moreover have "stream_sound (fst sh1)" using confined_sound [OF F(1) snd] that by (metis snd_conv)
    ultimately show "confined A sh1 (decode_field n di dn env wt (it (mark_required L1)) sh1)"
      "decode_field n di dn env wt (it (mark_required L1)) sh1 = (Some it2, sh2) \<Longrightarrow> \<exists>j. at_field (frame env n) fs dest j it2"
      using decode_field_confined [OF msg F(2) [OF that] A sub] by simp_all
  qed
  show "confined A sh (handle_field n di dn env wt t L sh)"
  proof (cases found)
    case True
    then show ?thesis using known by (auto simp: handle_field_def f Let_def intro!: confined_bind [OF F(1)] confined_bind)
  next
    case False
    then show ?thesis using unknown_field_confined(1) [OF msg j t] by (simp add: handle_field_def f)
  qed
  show "\<exists>j. at_field (frame env n) fs dest j (it L')" if "handle_field n di dn env wt t L sh = (Some L', sh')"
  proof (cases found)
    case True
    then show ?thesis using that known(2) by (auto simp: handle_field_def f Let_def try_op_eq_Some)
  next
    case False
    then show ?thesis using that unknown_field_confined(2) [OF msg j t] by (simp add: handle_field_def f)
  qed
qed

section \<open>Messages\<close>

lemma decode_tag_small:
  assumes "pb_decode_tag s = ((Some (wt, t), s'), eof)"
  shows "t \<noteq> -1"
proof
  assume "t = -1"
  moreover obtain temp :: u32 where "t = drop_bit 3 temp"
    using assms by (auto simp: pb_decode_tag_def split: prod.splits option.splits if_splits)
  ultimately have "unat (drop_bit 3 temp) = unat (-1 :: u32)" by simp
  moreover have "unat (-1 :: u32) = 4294967295" by (simp add: unsigned_minus_1_eq_mask mask_eq_exp_minus_1)
  ultimately show False using unat_u32_bound [of temp] by (simp add: unat_drop_bit)
qed

lemma noinit_loop_confined:
  assumes msg: "msg_at env fs dest sz"
    and A: "box dest sz \<subseteq> A" "Ls \<subseteq> A" "box (frame env n) 4 \<subseteq> A" and sub: "subs_ok env Ls di dn"
  shows "at_field (frame env n) fs dest i (it L) \<Longrightarrow> stream_sound (fst sh) \<Longrightarrow>
    confined A sh (noinit_loop k n di dn env L sh)"
proof (induction k arbitrary: i L sh)
  case (Suc k)
  show ?case
  proof (cases "bytes_left (fst sh) = 0")
    case False
    obtain r s eof where d: "pb_decode_tag (fst sh) = ((r, s), eof)" by (metis prod.exhaust)
    have cb: "icallback s = icallback (fst sh)" using tag_callback [of "fst sh"] d by simp
    then have snd: "stream_sound (fst (s, snd sh))" using Suc.prems(2) stream_sound_cong by (metis fst_conv)
    have heap: "confined A sh r'" if "confined A (s, snd sh) r'" for r' :: "('a pb_istream \<times> heap, noinit_locals) cres"
      using that cb by (simp add: confined_def)
    show ?thesis
    proof (cases r)
      case None
      then show ?thesis using False d heap [of "(_, (s, snd sh))"] by simp
    next
      case (Some wtt)
      obtain wt t where w: "wtt = (wt, t)" by (cases wtt)
      have t: "t \<noteq> -1" using decode_tag_small d Some w by blast
      note H = handle_field_confined [OF msg Suc.prems(1) t A sub snd, of wt]
      have "confined A (s, snd sh) (try_op (handle_field n di dn env wt t L (s, snd sh)) (noinit_loop k n di dn env))"
      proof (rule confined_bind [OF H(1)])
        fix L' sh' assume h: "handle_field n di dn env wt t L (s, snd sh) = (Some L', sh')"
        have "stream_sound (fst sh')" using confined_sound [OF H(1) snd] h by simp
        with H(2) [OF h] Suc.IH show "confined A sh' (noinit_loop k n di dn env L' sh')" by blast
      qed
      with False d Some w heap show ?thesis by simp
    qed
  qed simp
qed simp

definition locals :: "'st pb_denv \<Rightarrow> nat \<Rightarrow> nat set" where
  "locals env n = (\<Union>m < n. box (frame env m) 4)"

lemma decode_with_confined:
  assumes msg: "msg_at env fs dest sz" and A: "box dest sz \<subseteq> A"
    and dn: "\<And>h. confined A (fst sh, h) (dn fs dest (fst sh, h))"
  shows "confined A sh (pb_decode_with n dn env fs dest sh)"
proof -
  let ?h = "pb_message_set_to_defaults n env fs dest (snd sh)"
  have h: "same_outside A (snd sh) ?h" using same_outside_mono [OF defaults_confined [OF msg] A] .
  obtain r s' h' where d: "dn fs dest (fst sh, ?h) = (r, (s', h'))" by (metis prod.exhaust)
  have "confined A sh (r, (s', h'))" using confined_heap [OF h dn] unfolding d .
  then show ?thesis using release_static [OF msg]
    by (cases r) (simp_all add: pb_decode_with_def d confined_def)
qed

lemma noinit_confined:
  "msg_at env fs dest sz \<Longrightarrow> stream_sound (fst sh) \<Longrightarrow>
     confined (box dest sz \<union> locals env n) sh (pb_decode_noinit n env fs dest sh)"
proof (induction n arbitrary: fs dest sz sh)
  case (Suc n)
  let ?dn = "pb_decode_noinit n env" and ?A = "box dest sz \<union> locals env (Suc n)"
  let ?di = "pb_decode_with n ?dn env"
  have sub: "subs_ok env (locals env n) ?di ?dn"
    unfolding subs_ok_def using Suc.IH by (auto intro!: decode_with_confined)
  have A: "box dest sz \<subseteq> ?A" "locals env n \<subseteq> ?A" "box (frame env n) 4 \<subseteq> ?A"
    by (auto simp: locals_def less_Suc_eq)
  define L where "L = \<lparr>it = snd (pb_field_iter_begin fs dest), fields_seen = [0, 0], extension_range_start = 0,
    fixed_count_field = None\<rparr>"
  define sh1 where "sh1 = store (frame env n) (le_bytes 4 0) sh"
  have "0 < length fs" using msg_atD(1) [OF Suc.prems(1)] by simp
  then have a: "at_field (frame env n) fs dest 0 (it L)" using at_field_it_at by (simp add: L_def it_at.simps(1) [symmetric])
  have s1: "stream_sound (fst sh1)" using Suc.prems(2) by (simp add: sh1_def store_sound)
  have "confined ?A sh1 (try_op (noinit_loop (bytes_left (fst sh1)) n ?di ?dn env L sh1)
      (\<lambda>L sh. noinit_finish (frame env n) L sh))"
    by (rule confined_bind [OF noinit_loop_confined [OF Suc.prems(1) A sub a s1]]) (simp add: noinit_finish_def)
  then have "confined ?A sh (try_op (noinit_loop (bytes_left (fst sh1)) n ?di ?dn env L sh1)
      (\<lambda>L sh. noinit_finish (frame env n) L sh))"
    unfolding sh1_def by (rule confined_store [rotated]) (use A(3) in simp)
  then show ?case by (simp add: L_def sh1_def Let_def)
qed simp


text \<open>A message with a required number, an optional text, an array of at most two numbers and a submessage.\<close>

definition ex_sub :: "pb_field list" where
  "ex_sub = [\<lparr>tag = 1, ftype = 0x04, data_offset = 0, size_offset = 0, data_size = 4, array_size = 0, ptr = 0\<rparr>]"

definition ex_msg :: "pb_field list" where
  "ex_msg = [\<lparr>tag = 1, ftype = 0x02, data_offset = 0, size_offset = 0, data_size = 4, array_size = 0, ptr = 0\<rparr>,
     \<lparr>tag = 2, ftype = 0x17, data_offset = 1, size_offset = -1, data_size = 7, array_size = 0, ptr = 0\<rparr>,
     \<lparr>tag = 3, ftype = 0x22, data_offset = 4, size_offset = -4, data_size = 4, array_size = 2, ptr = 0\<rparr>,
     \<lparr>tag = 4, ftype = 0x18, data_offset = 1, size_offset = -1, data_size = 4, array_size = 0, ptr = 7\<rparr>]"

definition ex_denv :: "bytes pb_denv" where
  "ex_denv = \<lparr>ddescs = (\<lambda>_. ex_sub), place = (\<lambda>h p n. 0), decode_cb = (\<lambda>_ _ _ sh. fails sh),
     decode_cb_buf = (\<lambda>_ _ _ sh. fails sh), extension_dec = (\<lambda>_ _ _ _ sh. fails sh), frame = (\<lambda>n. 100 + 4 * n)\<rparr>"

lemma ex_layout: "layout_ok 2 ex_denv ex_msg 29"
  by code_simp

lemma buffer_stream_sound: "stream_sound (pb_istream_from_buffer buffer n)"
  by (auto simp: stream_sound_def pb_istream_from_buffer_def buf_read_def)


section \<open>Fixed-size arrays smaller than a counter\<close>

text \<open>A message with the one field \<^verbatim>\<open>bool flags[1]\<close>, declared with \<^verbatim>\<open>PB_REPEATED_FIXED_COUNT\<close>: a struct of one byte.\<close>

definition ex_fixed_bool :: "pb_field list" where
  "ex_fixed_bool = [\<lparr>tag = 1, ftype = 0x20, data_offset = 0, size_offset = 0, data_size = 1, array_size = 1, ptr = 0\<rparr>]"

text \<open>C24: An array of fixed size has no counter and its pSize is its data, where pb_field_set_to_default
  stores the 4 bytes of a zero count.  Setting a message that is one byte long, an array of one bool, to
  its defaults, as pb_decode does first, clears the three bytes behind the message.
\<close>

theorem fixed_count_default_overflow:
  "read_bytes (hmem (pb_message_set_to_defaults (Suc n) ex_denv ex_fixed_bool 8 h)) 8 5 = [0, 0, 0, 0, hmem h 12]"
proof -
  let ?iter = "\<lparr>start = ex_fixed_bool, pos = 0, required_field_index = 0, dest_struct = 8, pData = 8, pSize = 8\<rparr>"
  have "pb_field_iter_begin ex_fixed_bool 8 = (True, ?iter)" and "\<not> fst (pb_field_iter_next ?iter)"
    by code_simp+
  moreover have "pb_field_set_to_default (Suc n) ex_denv ?iter h = poke_heap 8 [0, 0, 0, 0] h"
  proof -
    have "PB_LTYPE (ftype (fld ex_fixed_bool 0)) \<noteq> PB_LTYPE_EXTENSION" "PB_ATYPE (ftype (fld ex_fixed_bool 0)) = PB_ATYPE_STATIC"
      "PB_HTYPE (ftype (fld ex_fixed_bool 0)) = PB_HTYPE_REPEATED" "le_bytes 4 0 = [0, 0, 0, 0]"
      by code_simp+
    then show ?thesis by (simp add: Let_def)
  qed
  ultimately show ?thesis
    by (simp add: pb_message_set_to_defaults.simps iter_do_step poke_heap_def write_bytes_def read_bytes_def upt_rec)
qed

end
