(* ===== verification/Nanopb_Progress.thy ===== *)
theory Nanopb_Progress
  imports Nanopb_Safety
begin

text \<open>
  The loops of \<^verbatim>\<open>pb_decode.c\<close> come to an end: no step of the decoder gives bytes back to the stream, a
  field takes its tag at least, and an item of a packed array takes a byte.  So the loops of the model,
  which run once per byte that is left, never stop early.  This holds for all messages, with pointers,
  callbacks and extensions, as long as a callback for extensions gives nothing back either.
\<close>

section \<open>Steps that take bytes\<close>

definition takes :: "'st pb_istream \<times> heap \<Rightarrow> ('st pb_istream \<times> heap, 'a) cres \<Rightarrow> bool" where
  "takes sh r \<longleftrightarrow> bytes_left (fst (snd r)) \<le> bytes_left (fst sh)"

lemma takes_refl [simp]: "takes sh (x, sh)"
  by (simp add: takes_def)

lemma takes_error [simp]: "takes sh (dec_error msg sh)"
  by (simp add: takes_def dec_error_def pb_set_ierror_def)

lemma takes_bind:
  assumes "takes sh r" and "\<And>x sh'. takes sh' (k x sh')"
  shows "takes sh (try_op r k)"
proof (cases "fst r")
  case None
  then show ?thesis using assms(1) by (cases r) (simp add: takes_def)
next
  case (Some x)
  then have "try_op r k = k x (snd r)" by (cases r) simp
  then show ?thesis using assms(1) assms(2) [of "snd r" x] by (simp add: takes_def)
qed

lemma takes_same_left: "bytes_left (fst sh') = bytes_left (fst sh) \<Longrightarrow> takes sh' r \<Longrightarrow> takes sh r"
  by (simp add: takes_def)

lemma left_store [simp]: "bytes_left (fst (store a bs sh)) = bytes_left (fst sh)"
  by (simp add: store_def)

lemma left_set_size [simp]: "bytes_left (fst (set_size iter v sh)) = bytes_left (fst sh)"
  by (simp add: set_size_def)

lemma takes_stored [simp]:
  "takes sh (x, store a bs sh)" "takes sh (dec_error msg (store a bs sh))" "takes sh (dec_error msg (set_size iter v sh))"
  by (auto intro: takes_same_left [of "store a bs sh"] takes_same_left [of "set_size iter v sh"])

lemma takes_on_stream: "(\<And>s. bytes_left (snd (f s)) \<le> bytes_left s) \<Longrightarrow> takes sh (on_stream f sh)"
  by (simp add: takes_def on_stream_def)

subsection \<open>Streams\<close>

named_theorems left_mono \<open>stream operations give no bytes back\<close>

lemma left_error [simp]: "bytes_left (pb_set_ierror msg s) = bytes_left s"
  by (simp add: pb_set_ierror_def)

lemma left_try_op:
  assumes "bytes_left (snd r) \<le> b" and "\<And>x s. bytes_left s \<le> b \<Longrightarrow> bytes_left (snd (k x s)) \<le> b"
  shows "bytes_left (snd (try_op r k)) \<le> b"
  using assms by (auto split: try_op_splits)

lemma left_readbyte [left_mono]: "bytes_left (snd (pb_readbyte s)) \<le> bytes_left s"
  by (auto simp: pb_readbyte_def split: prod.splits option.splits)

lemma left_read_callback: "bytes_left (snd (pb_read_callback n s)) \<le> bytes_left s"
  by (auto simp: pb_read_callback_def split: prod.splits option.splits)

lemma left_read_skip: "bytes_left (snd (pb_read_skip n s)) \<le> bytes_left s"
proof (induction n s rule: pb_read_skip.induct)
  case (1 n s)
  have i: "bytes_left (snd (pb_read_into m t)) \<le> bytes_left t" for m t
    by (simp add: pb_read_into_def left_read_callback)
  show ?case
  proof (cases "n > 16")
    case True
    then have eq: "pb_read_skip n s = try_op (pb_read_into 16 s) (\<lambda>_ s. pb_read_skip (n - 16) s)"
      by (simp add: pb_read_skip.simps [of n])
    show ?thesis unfolding eq
      using 1 [OF True] by (intro left_try_op i) (meson le_trans)
  next
    case False
    then have "pb_read_skip n s = pb_read_into n s" by (simp add: pb_read_skip.simps [of n])
    then show ?thesis using i by simp
  qed
qed

lemma left_read [left_mono]: "bytes_left (snd (pb_read nul n s)) \<le> bytes_left s"
  by (simp add: pb_read_def left_read_callback left_read_skip)

lemma left_varint32_loop: "bytes_left (snd (decode_varint32_loop b r s)) \<le> bytes_left s"
proof (induction b r s rule: decode_varint32_loop.induct)
  case (1 b r s)
  show ?case
  proof (cases "pb_readbyte s")
    case (Pair x s')
    then have le: "bytes_left s' \<le> bytes_left s" using left_readbyte [of s] by simp
    with Pair show ?thesis using 1
      by (cases x) (auto simp: decode_varint32_loop.simps [of b r s] Let_def intro!: le_trans [OF _ le])
  qed
qed

text \<open>Reading a varint takes a byte at least when it succeeds.\<close>

lemma left_varint32_eof:
  "bytes_left (snd (fst (pb_decode_varint32_eof s))) \<le> bytes_left s \<and>
   (fst (fst (pb_decode_varint32_eof s)) \<noteq> None \<longrightarrow> bytes_left (snd (fst (pb_decode_varint32_eof s))) < bytes_left s)"
proof (cases "pb_readbyte s")
  case (Pair x s')
  show ?thesis
  proof (cases x)
    case None
    then show ?thesis using Pair left_readbyte [of s] by (simp add: pb_decode_varint32_eof_def)
  next
    case (Some b)
    then have lt: "bytes_left s' < bytes_left s" using pb_readbyte_bytes_left Pair by blast
    have "bytes_left (snd (fst (pb_decode_varint32_eof s))) \<le> bytes_left s'"
      using Pair Some
      by (auto simp: pb_decode_varint32_eof_def left_varint32_loop intro!: left_try_op split: prod.splits)
    with lt show ?thesis by simp
  qed
qed

lemma left_varint32 [left_mono]: "bytes_left (snd (pb_decode_varint32 s)) \<le> bytes_left s"
  using left_varint32_eof [of s] by (simp add: pb_decode_varint32_def)

lemma left_varint32_less: "pb_decode_varint32 s = (Some v, s') \<Longrightarrow> bytes_left s' < bytes_left s"
  using left_varint32_eof [of s] by (simp add: pb_decode_varint32_def)

lemma left_varint_loop:
  "bytes_left (snd (decode_varint_loop b r s)) \<le> bytes_left s \<and>
   (fst (decode_varint_loop b r s) \<noteq> None \<longrightarrow> bytes_left (snd (decode_varint_loop b r s)) < bytes_left s)"
proof (induction b r s rule: decode_varint_loop.induct)
  case (1 b r s)
  show ?case
  proof (cases "pb_readbyte s")
    case (Pair x s')
    show ?thesis
    proof (cases x)
      case None
      then show ?thesis using Pair left_readbyte [of s] by (simp add: decode_varint_loop.simps [of b r s])
    next
      case (Some byte)
      then have lt: "bytes_left s' < bytes_left s" using pb_readbyte_bytes_left Pair by blast
      show ?thesis
      proof (cases "b \<ge> 64")
        case False
        from lt 1 [OF False Pair [symmetric] Some refl] Some Pair False show ?thesis
          by (auto simp: decode_varint_loop.simps [of b r s] Let_def)
      qed (simp add: decode_varint_loop.simps [of b r s])
    qed
  qed
qed

lemma left_varint [left_mono]: "bytes_left (snd (pb_decode_varint s)) \<le> bytes_left s"
  using left_varint_loop [of 0 0 s] by (simp add: pb_decode_varint_def)

lemma left_varint_less: "pb_decode_varint s = (Some v, s') \<Longrightarrow> bytes_left s' < bytes_left s"
  using left_varint_loop [of 0 0 s] by (simp add: pb_decode_varint_def)

lemma left_svarint [left_mono]: "bytes_left (snd (pb_decode_svarint s)) \<le> bytes_left s"
  unfolding pb_decode_svarint_def by (intro left_try_op left_varint) simp

lemma left_fixed [left_mono]:
  "bytes_left (snd (pb_decode_fixed32 s)) \<le> bytes_left s" "bytes_left (snd (pb_decode_fixed64 s)) \<le> bytes_left s"
  unfolding pb_decode_fixed32_def pb_decode_fixed64_def by (intro left_try_op left_read; simp)+

lemma left_tag_less: "pb_decode_tag s = ((Some wt, s'), eof) \<Longrightarrow> bytes_left s' < bytes_left s"
  using left_varint32_eof [of s] by (auto simp: pb_decode_tag_def split: prod.splits option.splits if_splits)

lemma left_skip_varint: "bytes_left (snd (pb_skip_varint s)) \<le> bytes_left s"
proof (induction s rule: pb_skip_varint.induct)
  case (1 s)
  show ?case
  proof (cases "pb_read False 1 s")
    case (Pair x s')
    then have "bytes_left s' \<le> bytes_left s" using left_read [of False 1 s] by simp
    with Pair show ?thesis using 1
      by (cases x) (auto simp: pb_skip_varint.simps [of s] intro: le_trans)
  qed
qed

lemma left_skip_field [left_mono]: "bytes_left (snd (pb_skip_field wt s)) \<le> bytes_left s"
proof -
  have "bytes_left (snd (pb_skip_string s)) \<le> bytes_left s"
    unfolding pb_skip_string_def
    by (intro left_try_op left_varint32) (auto intro: left_try_op le_trans [OF left_read])
  moreover have "bytes_left (snd (try_op (pb_read True n s) (\<lambda>_ s. returns () s))) \<le> bytes_left s" for n
    by (intro left_try_op left_read) simp
  ultimately show ?thesis by (simp add: pb_skip_field_def left_skip_varint)
qed

lemma left_make_substream [left_mono]: "bytes_left (snd (pb_make_string_substream s)) \<le> bytes_left s"
  unfolding pb_make_string_substream_def by (intro left_try_op left_varint32) (auto intro: le_trans [OF diff_le_self])

lemma left_close_substream [left_mono]: "bytes_left (snd (pb_close_string_substream sub s)) \<le> bytes_left s"
  by (auto simp: pb_close_string_substream_def split: prod.splits option.splits)

lemma left_read_raw [left_mono]: "bytes_left (snd (read_raw_value wt n s)) \<le> bytes_left s"
proof -
  have raw: "bytes_left (snd (read_raw_varint n s)) \<le> bytes_left s" for n s
  proof (induction n arbitrary: s)
    case (Suc n)
    show ?case unfolding read_raw_varint.simps
      by (intro left_try_op left_read) (auto intro: left_try_op le_trans [OF Suc])
  qed simp
  show ?thesis by (simp add: read_raw_value_def left_read raw)
qed

lemma takes_close [simp]: "takes sh (close_substream status sub (fst sh, h))"
proof -
  have "takes (fst sh, h) (close_substream status sub (fst sh, h))"
    unfolding close_substream_def by (intro takes_bind takes_on_stream left_mono) simp
  then show ?thesis by (simp add: takes_def)
qed

lemma takes_error_heap [simp]: "takes sh (dec_error msg (fst sh, h))"
  by (simp add: takes_def dec_error_def)

section \<open>Values\<close>

lemma takes_eq_left: "takes sh r \<Longrightarrow> bytes_left (fst sh') = bytes_left (fst sh) \<Longrightarrow> takes sh' r"
  by (simp add: takes_def)

lemma takes_allocate [simp]: "takes sh (allocate_field env d a b sh)"
  by (auto simp: allocate_field_def Let_def takes_def dec_error_def split: prod.splits)

lemma takes_clamped [simp]: "takes sh (store_clamped c v n dest sh)"
  by (auto simp: store_clamped_def Let_def split: option.splits)

lemma takes_read_to: "takes sh (read_to a n sh)"
  unfolding read_to_def by (intro takes_bind takes_on_stream left_mono) simp

lemma takes_read_to_stored [simp]: "takes sh (read_to a n (store b bs sh))"
  by (rule takes_eq_left [OF takes_read_to]) simp

lemma takes_scalar [simp]:
  "takes sh (pb_dec_bool f d sh)" "takes sh (pb_dec_varint f d sh)" "takes sh (pb_dec_uvarint f d sh)"
  "takes sh (pb_dec_svarint f d sh)" "takes sh (pb_dec_fixed32 f d sh)" "takes sh (pb_dec_fixed64 f d sh)"
  unfolding pb_dec_bool_def pb_dec_varint_def pb_dec_uvarint_def pb_dec_svarint_def pb_dec_fixed32_def
    pb_dec_fixed64_def Let_def
  by (intro takes_bind takes_on_stream left_mono; simp)+

lemma takes_bytes [simp]: "takes sh (pb_dec_bytes env f d sh)"
  unfolding pb_dec_bytes_def Let_def
  by (intro takes_bind takes_on_stream left_mono) (auto intro!: takes_bind)

lemma takes_string [simp]: "takes sh (pb_dec_string env f d sh)"
proof -
  have "takes sh (case read_to a n sh of (status, sh) \<Rightarrow> (status, store b bs sh))" for a n b bs and sh :: "'a pb_istream \<times> heap"
    using takes_read_to [of sh a n] by (auto simp: takes_def split: prod.splits)
  then show ?thesis
    unfolding pb_dec_string_def Let_def
    by (intro takes_bind takes_on_stream left_mono) (auto intro!: takes_bind)
qed

lemma takes_fixed_length_bytes [simp]: "takes sh (pb_dec_fixed_length_bytes f d sh)"
  unfolding pb_dec_fixed_length_bytes_def Let_def
  by (intro takes_bind takes_on_stream left_mono) (auto intro: takes_read_to)

lemma takes_submessage [simp]: "takes sh (pb_dec_submessage di dn env f d sh)"
  unfolding pb_dec_submessage_def
  by (intro takes_bind takes_on_stream left_mono) (auto split: prod.splits)

lemma takes_decoders: "takes sh (PB_DECODERS di dn env lt f d sh)"
  by (simp add: PB_DECODERS_def)

lemma takes_decoders_from: "bytes_left (fst sh') = bytes_left (fst sh) \<Longrightarrow> takes sh (PB_DECODERS di dn env lt f d sh')"
  by (rule takes_eq_left [OF takes_decoders]) simp

section \<open>Fields\<close>

lemma takes_packed_array: "takes sh (decode_packed_array func iter sh)"
  unfolding decode_packed_array_def
  by (intro takes_bind takes_on_stream left_mono) (auto split: prod.splits)

lemma takes_array_item: "takes sh (decode_array_item (PB_DECODERS di dn env lt f) iter sh)"
  by (simp add: decode_array_item_def Let_def takes_decoders_from)

lemma takes_static: "takes sh (decode_static_field n di dn env wt iter sh)"
  by (simp add: decode_static_field_def Let_def takes_decoders_from takes_packed_array takes_array_item)

lemma takes_if: "(b \<Longrightarrow> takes sh r1) \<Longrightarrow> (\<not> b \<Longrightarrow> takes sh r2) \<Longrightarrow> takes sh (if b then r1 else r2)"
  by simp

lemma takes_pointer: "takes sh (decode_pointer_field n di dn env wt iter sh)"
proof -
  have close: "takes sh (close_substream status sub ((case m of None \<Rightarrow> fst sh | Some m \<Rightarrow> (fst sh)\<lparr>ierrmsg := Some m\<rparr>), h))"
    for status sub m h and sh :: "'a pb_istream \<times> heap"
    using takes_close [of "((case m of None \<Rightarrow> fst sh | Some m \<Rightarrow> (fst sh)\<lparr>ierrmsg := Some m\<rparr>), h)" status sub h]
    by (auto simp: takes_def split: option.splits)
  have alloc: "takes sh (try_op (allocate_field env d a b sh') k)"
    if "bytes_left (fst sh') = bytes_left (fst sh)" "\<And>x sh. takes sh (k x sh)"
    for d a b k and sh sh' :: "'a pb_istream \<times> heap"
    by (rule takes_eq_left [OF takes_bind [OF takes_allocate that(2)]]) (simp add: that(1))
  have packed: "takes sh (try_op (on_stream pb_make_string_substream sh) (\<lambda>substream sh.
      case decode_packed_pointer (bytes_left substream) n env func iter allocated (substream, snd sh) of
        (msg, (status, (substream, h))) \<Rightarrow> close_substream status substream
          ((case msg of None \<Rightarrow> fst sh | Some m \<Rightarrow> (fst sh)\<lparr>ierrmsg := Some m\<rparr>), h)))" for func allocated
    by (intro takes_bind takes_on_stream left_mono) (simp add: close split: prod.splits)
  have left_if: "bytes_left (fst (if b then sh1 else sh2)) = (if b then bytes_left (fst sh1) else bytes_left (fst sh2))"
    for b and sh1 sh2 :: "'a pb_istream \<times> heap" by simp
  show ?thesis
    unfolding decode_pointer_field_def Let_def
    by (intro takes_if packed alloc takes_error takes_decoders_from) (simp_all add: left_if)
qed

lemma takes_same_stream:
  "takes (s, h) (x, (s, h'))" "takes (s, h) (dec_error msg (s, h'))" "takes (s, h) (close_substream status sub (s, h'))"
  using takes_close [of "(s, h)" status sub h'] by (simp_all add: takes_def dec_error_def)

lemma takes_callback: "takes sh (decode_callback_field n env wt iter sh)"
  unfolding decode_callback_field_def Let_def
  by (auto simp: takes_same_stream intro!: takes_bind takes_on_stream left_mono split: prod.splits option.splits)

lemma takes_release_union: "takes sh (pb_release_union_field n env iter sh)"
  by (auto simp: pb_release_union_field_def Let_def takes_def dec_error_def split: prod.splits)

lemma takes_decode_field: "takes sh (decode_field n di dn env wt iter sh)"
  unfolding decode_field_def Let_def
  by (intro takes_bind) (auto simp: takes_release_union intro!: takes_bind takes_static takes_pointer takes_callback)

section \<open>Extensions and unknown fields\<close>

definition ext_takes :: "'st pb_denv \<Rightarrow> bool" where
  "ext_takes env \<longleftrightarrow> (\<forall>f ext t wt sh. takes sh (extension_dec env f ext t wt sh))"

lemma takes_default_extension: "takes sh (default_extension_decoder n di dn env ext t wt sh)"
proof -
  have "takes sh' (try_op (decode_field n di dn env wt iter sh') (\<lambda>_ sh. returns () sh))" for iter sh'
    by (rule takes_bind [OF takes_decode_field]) simp
  then have "takes sh (try_op (decode_field n di dn env wt iter (store (ext + 24) [1] sh)) (\<lambda>_ sh. returns () sh))" for iter
    by (rule takes_same_left [rotated]) simp
  then show ?thesis by (simp add: default_extension_decoder_def Let_def)
qed

lemma takes_extension_loop: "ext_takes env \<Longrightarrow> takes sh (decode_extension_loop k n di dn env left t wt ext sh)"
  by (induction k arbitrary: ext sh)
     (auto simp: ext_takes_def Let_def intro!: takes_bind takes_default_extension)

lemma takes_unknown: "ext_takes env \<Longrightarrow> takes sh (handle_unknown_field n di dn env wt t L sh)"
  unfolding handle_unknown_field_def Let_def decode_extension_def
  by (auto intro!: takes_bind takes_extension_loop takes_on_stream left_mono split: prod.splits)

lemma takes_fixed_count: "takes sh (use_fixed_count slot L sh)"
  by (auto simp: use_fixed_count_def Let_def split: option.splits)

lemma takes_handle_field: "ext_takes env \<Longrightarrow> takes sh (handle_field n di dn env wt t L sh)"
  unfolding handle_field_def Let_def
  by (auto intro!: takes_bind takes_unknown takes_fixed_count takes_decode_field split: prod.splits)

section \<open>The loop over the fields\<close>

text \<open>
  The loop \<^verbatim>\<open>while (stream->bytes_left)\<close> of \<^verbatim>\<open>pb_decode_noinit\<close> as it stands in the code, with no bound on
  its rounds: the state that a run of it ends in.
\<close>

inductive noinit_runs ::
    "nat \<Rightarrow> 'st msg_decoder \<Rightarrow> 'st msg_decoder \<Rightarrow> 'st pb_denv \<Rightarrow> noinit_locals \<Rightarrow> 'st pb_istream \<times> heap \<Rightarrow>
     ('st pb_istream \<times> heap, noinit_locals) cres \<Rightarrow> bool" for n di dn env where
  runs_empty: "bytes_left s = 0 \<Longrightarrow> noinit_runs n di dn env L (s, h) (returns L (s, h))"
| runs_eof: "bytes_left s \<noteq> 0 \<Longrightarrow> pb_decode_tag s = ((None, s'), True) \<Longrightarrow>
    noinit_runs n di dn env L (s, h) (returns L (s', h))"
| runs_bad_tag: "bytes_left s \<noteq> 0 \<Longrightarrow> pb_decode_tag s = ((None, s'), False) \<Longrightarrow>
    noinit_runs n di dn env L (s, h) (fails (s', h))"
| runs_bad_field: "bytes_left s \<noteq> 0 \<Longrightarrow> pb_decode_tag s = ((Some (wt, t), s'), eof) \<Longrightarrow>
    handle_field n di dn env wt t L (s', h) = fails sh' \<Longrightarrow> noinit_runs n di dn env L (s, h) (fails sh')"
| runs_field: "bytes_left s \<noteq> 0 \<Longrightarrow> pb_decode_tag s = ((Some (wt, t), s'), eof) \<Longrightarrow>
    handle_field n di dn env wt t L (s', h) = returns L' sh' \<Longrightarrow> noinit_runs n di dn env L' sh' r \<Longrightarrow>
    noinit_runs n di dn env L (s, h) r"

inductive_cases noinit_runs_elim: "noinit_runs n di dn env L (s, h) r"

lemma noinit_runs_step:
  "bytes_left s \<noteq> 0 \<Longrightarrow> noinit_runs n di dn env L (s, h) r \<longleftrightarrow>
     (case pb_decode_tag s of
        ((None, s'), eof) \<Rightarrow> r = (if eof then returns L (s', h) else fails (s', h))
      | ((Some (wt, t), s'), eof) \<Rightarrow>
          (case handle_field n di dn env wt t L (s', h) of
             (None, sh') \<Rightarrow> r = fails sh'
           | (Some L', sh') \<Rightarrow> noinit_runs n di dn env L' sh' r))"
  (is "_ \<Longrightarrow> ?runs \<longleftrightarrow> ?step")
proof
  show ?step if "bytes_left s \<noteq> 0" ?runs
    by (rule noinit_runs_elim [OF that(2)]) (use that(1) in auto)
  show ?runs if "bytes_left s \<noteq> 0" ?step
  proof (cases "fst (fst (pb_decode_tag s))")
    case None
    then show ?thesis using that by (auto intro: noinit_runs.intros split: prod.splits if_splits)
  next
    case (Some wt_t)
    then obtain wt t s' eof where tag: "pb_decode_tag s = ((Some (wt, t), s'), eof)"
      by (cases "pb_decode_tag s"; cases "fst (pb_decode_tag s)"; cases wt_t) auto
    obtain x sh' where "handle_field n di dn env wt t L (s', h) = (x, sh')" by (cases "handle_field n di dn env wt t L (s', h)")
    then show ?thesis using that tag by (cases x) (auto intro: runs_bad_field runs_field)
  qed
qed

lemma noinit_loop_runs:
  assumes "ext_takes env" and "bytes_left (fst sh) \<le> k"
  shows "noinit_runs n di dn env L sh r \<longleftrightarrow> r = noinit_loop k n di dn env L sh"
  using assms(2)
proof (induction k arbitrary: L sh)
  case 0
  then show ?case by (cases sh) (auto elim: noinit_runs_elim intro: noinit_runs.intros)
next
  case (Suc k)
  obtain s h where sh: "sh = (s, h)" by (cases sh)
  show ?case
  proof (cases "bytes_left s = 0")
    case True
    then show ?thesis unfolding sh by (auto elim: noinit_runs_elim intro: noinit_runs.intros)
  next
    case False
    have IH: "noinit_runs n di dn env L' sh' r \<longleftrightarrow> r = noinit_loop k n di dn env L' sh'"
      if "pb_decode_tag s = ((Some (wt, t), s'), eof)" "handle_field n di dn env wt t L (s', h) = (Some L', sh')"
      for wt t s' eof L' sh'
    proof (rule Suc.IH)
      have "bytes_left (fst sh') \<le> bytes_left s'"
        using takes_handle_field [OF assms(1), of "(s', h)" n di dn wt t L] that(2) by (simp add: takes_def)
      then show "bytes_left (fst sh') \<le> k" using left_tag_less [OF that(1)] Suc.prems sh by simp
    qed
    show ?thesis unfolding sh noinit_runs_step [OF False] using False IH
      by (auto split: prod.splits option.splits try_op_splits)
  qed
qed

section \<open>Packed arrays\<close>

definition eats :: "'st pb_istream \<times> heap \<Rightarrow> ('st pb_istream \<times> heap, 'a) cres \<Rightarrow> bool" where
  "eats sh r \<longleftrightarrow> (fst r \<noteq> None \<longrightarrow> bytes_left (fst (snd r)) < bytes_left (fst sh))"

lemma eats_bind:
  assumes "\<And>x s'. f (fst sh) = (Some x, s') \<Longrightarrow> bytes_left s' < bytes_left (fst sh)"
    and "\<And>x sh'. takes sh' (k x sh')"
  shows "eats sh (try_op (on_stream f sh) k)"
proof (cases "f (fst sh)")
  case (Pair x s')
  then show ?thesis using assms(1) assms(2) [of "(s', snd sh)"]
    by (cases x) (auto simp: eats_def on_stream_def takes_def intro: le_less_trans)
qed

lemma left_read_less: "pb_read False n s = (Some bs, s') \<Longrightarrow> 0 < n \<Longrightarrow> bytes_left s' < bytes_left s"
  by (auto simp: pb_read_def pb_read_callback_def split: if_splits prod.splits option.splits)

lemma left_svarint_less: "pb_decode_svarint s = (Some v, s') \<Longrightarrow> bytes_left s' < bytes_left s"
  by (auto simp: pb_decode_svarint_def dest: left_varint_less split: try_op_splits)

lemma left_fixed_less:
  "pb_decode_fixed32 s = (Some v, s') \<Longrightarrow> bytes_left s' < bytes_left s"
  "pb_decode_fixed64 s = (Some w, s') \<Longrightarrow> bytes_left s' < bytes_left s"
  by (auto simp: pb_decode_fixed32_def pb_decode_fixed64_def dest: left_read_less split: try_op_splits)

lemma eats_scalar:
  "eats sh (pb_dec_bool f d sh)" "eats sh (pb_dec_varint f d sh)" "eats sh (pb_dec_uvarint f d sh)"
  "eats sh (pb_dec_svarint f d sh)" "eats sh (pb_dec_fixed32 f d sh)" "eats sh (pb_dec_fixed64 f d sh)"
  unfolding pb_dec_bool_def pb_dec_varint_def pb_dec_uvarint_def pb_dec_svarint_def pb_dec_fixed32_def
    pb_dec_fixed64_def Let_def
  by (rule eats_bind; simp add: left_varint32_less left_varint_less left_svarint_less left_fixed_less)+

lemma eats_packable:
  assumes "lt \<le> PB_LTYPE_LAST_PACKABLE"
  shows "eats sh (PB_DECODERS di dn env lt f d sh)"
proof -
  have "unat lt \<le> 5" using assms by (simp add: PB_LTYPE_LAST_PACKABLE_def word_le_nat_alt)
  then have "unat lt \<in> {0, 1, 2, 3, 4, 5}" by auto
  then have "lt \<in> of_nat ` {0, 1, 2, 3, 4, 5}" by (intro image_eqI [of lt of_nat "unat lt"]) simp_all
  then show ?thesis
    by (auto simp: PB_DECODERS_def eats_scalar PB_LTYPE_BOOL_def PB_LTYPE_VARINT_def PB_LTYPE_UVARINT_def
      PB_LTYPE_SVARINT_def PB_LTYPE_FIXED32_def PB_LTYPE_FIXED64_def)
qed

text \<open>As many rounds as there are bytes are enough for a packed array, so that more make no difference.\<close>

lemma decode_packed_enough:
  assumes "\<And>d sh. eats sh (func d sh)" and "bytes_left (fst sh) \<le> k"
  shows "decode_packed k func iter sh = decode_packed (bytes_left (fst sh)) func iter sh"
proof -
  have "decode_packed k func iter sh = decode_packed j func iter sh"
    if "bytes_left (fst sh) \<le> k" "bytes_left (fst sh) \<le> j" for k j sh
    using that
  proof (induction k arbitrary: j sh)
    case 0
    then show ?case by (cases j) auto
  next
    case (Suc k)
    show ?case
    proof (cases j)
      case 0
      then show ?thesis using Suc.prems by simp
    next
      case (Suc j')
      let ?d = "pData iter + unat (data_size (cur iter) * size_at iter sh)"
      obtain x sh' where run: "func ?d sh = (x, sh')" by (cases "func ?d sh")
      have "bytes_left (fst sh') < bytes_left (fst sh)" if "x \<noteq> None"
        using assms(1) [of sh ?d] run that by (simp add: eats_def)
      then show ?thesis
        using Suc.IH [of "set_size iter (size_at iter sh' + 1) sh'" j'] Suc.prems run Suc by (cases x) auto
    qed
  qed
  from this [OF assms(2) order_refl] show ?thesis .
qed

lemma decode_packed_array_enough:
  assumes "PB_LTYPE (ftype (cur iter)) \<le> PB_LTYPE_LAST_PACKABLE" and "bytes_left s \<le> k"
  shows "decode_packed k (PB_DECODERS di dn env (PB_LTYPE (ftype (cur iter))) (cur iter)) iter (s, h) =
    decode_packed (bytes_left s) (PB_DECODERS di dn env (PB_LTYPE (ftype (cur iter))) (cur iter)) iter (s, h)"
  by (rule decode_packed_enough [where sh = "(s, h)", unfolded fst_conv]) (auto intro: eats_packable assms)

section \<open>The loop ends\<close>

text \<open>C23: The loop of pb_decode_noinit over the fields of its input ends for every input, every message type
  and every state, with exactly one result, and that is the result of the bounded loop of the model: one
  round per byte left is always enough.  Extension callbacks must not give bytes back to the stream.
\<close>

theorem noinit_loop_terminates:
  assumes "ext_takes env"
  shows "noinit_runs n di dn env L sh r \<longleftrightarrow> r = noinit_loop (bytes_left (fst sh)) n di dn env L sh"
  by (rule noinit_loop_runs [OF assms order_refl])

theorem noinit_loop_terminates_witness:
  "let sh = (pb_istream_from_buffer [0x08, 0x05, 0x12, 0x01, 0x41] 5, \<lparr>hmem = (\<lambda>_. 0), hblocks = Map.empty, hwild = False\<rparr>);
       L = \<lparr>it = snd (pb_field_iter_begin ex_msg 8), fields_seen = [0, 0], extension_range_start = 0, fixed_count_field = None\<rparr>;
       dn = pb_decode_noinit 1 ex_denv
   in ext_takes ex_denv \<and>
      (\<exists>r. noinit_runs 1 (pb_decode_with 1 dn ex_denv) dn ex_denv L sh r \<and> fst r \<noteq> None)"
proof -
  let ?sh = "(pb_istream_from_buffer [0x08, 0x05, 0x12, 0x01, 0x41] 5, \<lparr>hmem = (\<lambda>_. 0), hblocks = Map.empty, hwild = False\<rparr>)" and
    ?L = "\<lparr>it = snd (pb_field_iter_begin ex_msg 8), fields_seen = [0, 0], extension_range_start = 0, fixed_count_field = None\<rparr>" and
    ?dn = "pb_decode_noinit 1 ex_denv"
  have e: "ext_takes ex_denv" by (simp add: ext_takes_def ex_denv_def)
  moreover have "fst (noinit_loop (bytes_left (fst ?sh)) 1 (pb_decode_with 1 ?dn ex_denv) ?dn ex_denv ?L ?sh) \<noteq> None"
    by code_simp
  ultimately show ?thesis using noinit_loop_terminates [OF e, of 1 _ ?dn ?L ?sh] by (auto simp only: Let_def)
qed

end
