(* ===== verification/Nanopb_Roundtrip.thy ===== *)
theory Nanopb_Roundtrip
  imports Nanopb_Progress Nanopb_Message
begin

text \<open>
  Encoder and decoder of nanopb fit together: what \<^verbatim>\<open>pb_encode\<close> writes for a message is accepted by
  \<^verbatim>\<open>pb_decode\<close>, and the struct it fills is encoded to the same bytes again.  The messages are those with
  static fields: required, optional with a flag, and arrays with a counter, of all types of values,
  submessages to any depth.
\<close>

unbundle bit_operations_syntax

section \<open>Memory\<close>

definition agree :: "nat set \<Rightarrow> mem \<Rightarrow> mem \<Rightarrow> bool" where
  "agree A m m' \<longleftrightarrow> (\<forall>a \<in> A. m a = m' a)"

lemma agree_mono: "agree A m m' \<Longrightarrow> B \<subseteq> A \<Longrightarrow> agree B m m'"
  by (auto simp: agree_def)

lemma same_outside_agree: "same_outside A h h' \<Longrightarrow> A \<inter> B = {} \<Longrightarrow> agree B (hmem h) (hmem h')"
  by (auto simp: same_outside_def agree_def)

lemma agree_read:
  assumes "agree (box a n) m m'"
  shows "read_bytes m a n = read_bytes m' a n" and "read_nat m a n = read_nat m' a n"
proof -
  show "read_bytes m a n = read_bytes m' a n" using assms by (auto simp: agree_def read_bytes_def)
  then show "read_nat m a n = read_nat m' a n" by (simp add: read_nat_def)
qed

lemma agree_size: "agree (box a 4) m m' \<Longrightarrow> read_size m a = read_size m' a"
  using agree_read(2) [of a 4] by (simp add: read_size_def)

lemma read_poke: "length bs = n \<Longrightarrow> read_bytes (hmem (poke_heap a bs h)) a n = bs"
  by (auto simp: read_bytes_def poke_heap_def write_bytes_def intro: nth_equalityI)

lemma read_poke_other: "box a n \<inter> box b (length bs) = {} \<Longrightarrow> read_bytes (hmem (poke_heap b bs h)) a n = read_bytes (hmem h) a n"
  by (rule agree_read [symmetric]) (auto simp: agree_def poke_heap_def write_bytes_def)

lemma poke_same: "same_outside (box a (length bs)) h (poke_heap a bs h)"
  by (rule same_outside_poke) simp

lemma poke_at: "hmem (poke_heap a [b] h) a = b"
  by (simp add: poke_heap_def write_bytes_def)

text \<open>A decoder that takes exactly \<^verbatim>\<open>bs\<close> from a buffer and writes only into \<^verbatim>\<open>A\<close>, as a triple.\<close>

definition reads :: "(heap \<Rightarrow> bool) \<Rightarrow> bytes decoder \<Rightarrow> bytes \<Rightarrow> nat set \<Rightarrow> (heap \<Rightarrow> bool) \<Rightarrow> bool" where
  "reads P f bs A Q \<longleftrightarrow> (\<forall>tail rest e h. P h \<longrightarrow>
     (\<exists>h'. f (src (bs @ tail) rest e, h) = (Some (), (src tail rest e, h')) \<and> same_outside A h h' \<and> Q h'))"

lemma readsI:
  assumes "\<And>tail rest e h. P h \<Longrightarrow> f (src (bs @ tail) rest e, h) = (Some (), (src tail rest e, g h))"
    and "\<And>h. P h \<Longrightarrow> same_outside A h (g h)" and "\<And>h. P h \<Longrightarrow> Q (g h)"
  shows "reads P f bs A Q"
  using assms unfolding reads_def by blast

lemma readsE:
  assumes "reads P f bs A Q" and "P h"
  obtains h' where "f (src (bs @ tail) rest e, h) = (Some (), (src tail rest e, h'))" "same_outside A h h'" "Q h'"
  using assms unfolding reads_def by blast

lemma reads_mono:
  assumes "reads P f bs A Q" and "\<And>h. P' h \<Longrightarrow> P h" and "A \<subseteq> B" and "\<And>h. Q h \<Longrightarrow> Q' h"
  shows "reads P' f bs B Q'"
  using assms unfolding reads_def by (meson same_outside_mono)

section \<open>Values\<close>

abbreviation with_mem :: "'st pb_env \<Rightarrow> mem \<Rightarrow> 'st pb_env" where
  "with_mem env m \<equiv> env\<lparr>mem_of := m\<rparr>"

lemma store_on_stream: "store a bs (s, h) = (s, poke_heap a bs h)"
  by (simp add: store_def)

lemma reads_bool:
  "reads (\<lambda>_. True) (pb_dec_bool f d) (leb128 (if b then 1 else 0)) (box d 1) (\<lambda>h. safe_read_bool (hmem h) d = b)"
proof (rule readsI [where g = "\<lambda>h. poke_heap d [if b then 1 else 0] h"])
  fix tail rest e h
  show "pb_dec_bool f d (src (leb128 (if b then 1 else 0) @ tail) rest e, h) =
      (Some (), src tail rest e, poke_heap d [if b then 1 else 0] h)"
    using decode_varint32_leb128 [of "if b then 1 else 0" tail rest e]
    by (simp add: pb_dec_bool_def on_stream_def store_on_stream split: if_splits)
qed (use poke_same [of d "[if b then 1 else 0]"] in \<open>simp_all add: safe_read_bool_def poke_at\<close>)

lemma sign_extended:
  fixes x8 :: u8 and x16 :: u16 and x32 :: u32
  shows "scast (ucast (scast x8 :: u64) :: u8) = (scast x8 :: u64)" "scast (ucast (scast x8 :: u64) :: u32) = (scast x8 :: u64)"
    "scast (ucast (scast x16 :: u64) :: u16) = (scast x16 :: u64)" "scast (ucast (scast x16 :: u64) :: u32) = (scast x16 :: u64)"
    "scast (ucast (scast x32 :: u64) :: u32) = (scast x32 :: u64)"
  by (rule bit_word_eqI; auto simp: bit_simps min_def)+

lemma int_value_clamp:
  assumes "int_value n v = Some w"
  shows "clamp_signed n w = Some w" and "n \<noteq> 8 \<Longrightarrow> scast (ucast w :: u32) = w" and "n \<in> {1, 2, 4, 8}"
  using assms by (auto simp: int_value_def clamp_signed_def sign_extended split: if_splits)

lemma word_of_nat_mod: "k = LENGTH('a) \<Longrightarrow> (word_of_nat (v mod 2 ^ k) :: 'a::len word) = word_of_nat v"
  by (simp add: word_unat_eq_iff unat_of_nat)

lemma int_value_mod:
  assumes "int_value n v = Some w"
  shows "int_value n (unat w mod 256 ^ n) = Some w"
proof -
  have u: "(word_of_nat (unat w mod 256) :: u8) = ucast w" "(word_of_nat (unat w mod 65536) :: u16) = ucast w"
    "(word_of_nat (unat w mod 4294967296) :: u32) = ucast w" "(word_of_nat (unat w mod 18446744073709551616) :: u64) = w"
    using unat_u64_bound [of w] by (simp_all add: word_unat_eq_iff unat_of_nat unat_ucast take_bit_eq_mod)
  show ?thesis
    using int_value_clamp(3) [OF assms] assms u by (auto simp: int_value_def sign_extended)
qed

lemma reads_stored:
  assumes "\<And>tail rest e h. f (src (bs @ tail) rest e, h) = store_clamped (Some w) w n d (src tail rest e, h)"
  shows "reads (\<lambda>_. True) f bs (box d n) (\<lambda>h. read_nat (hmem h) d n = unat w mod 256 ^ n)"
proof (rule readsI [where g = "poke_heap d (le_bytes n (unat w))"])
  show "f (src (bs @ tail) rest e, h) = (Some (), src tail rest e, poke_heap d (le_bytes n (unat w)) h)" for tail rest e h
    by (simp add: assms store_clamped_def store_on_stream)
qed (use poke_same [of d "le_bytes n (unat w)"] in \<open>simp_all add: read_nat_def read_poke le_nat_le_bytes\<close>)

lemma reads_varint:
  assumes "int_value (unat (data_size f)) v = Some w"
  shows "reads (\<lambda>_. True) (pb_dec_varint f d) (leb128 (unat w)) (box d (unat (data_size f)))
    (\<lambda>h. int_value (unat (data_size f)) (read_nat (hmem h) d (unat (data_size f))) = Some w)"
proof (rule reads_mono [OF reads_stored [of _ _ w "unat (data_size f)" d]])
  show "pb_dec_varint f d (src (leb128 (unat w) @ tail) rest e, h) =
      store_clamped (Some w) w (unat (data_size f)) d (src tail rest e, h)" for tail rest e h
    using int_value_clamp(1,2) [OF assms] by (auto simp: pb_dec_varint_def on_stream_def decode_varint_leb128 Let_def)
qed (simp_all add: int_value_mod [OF assms])

lemma reads_svarint:
  assumes "int_value (unat (data_size f)) v = Some w"
  shows "reads (\<lambda>_. True) (pb_dec_svarint f d) (leb128 (unat (zigzag w))) (box d (unat (data_size f)))
    (\<lambda>h. int_value (unat (data_size f)) (read_nat (hmem h) d (unat (data_size f))) = Some w)"
proof (rule reads_mono [OF reads_stored [of _ _ w "unat (data_size f)" d]])
  show "pb_dec_svarint f d (src (leb128 (unat (zigzag w)) @ tail) rest e, h) =
      store_clamped (Some w) w (unat (data_size f)) d (src tail rest e, h)" for tail rest e h
    using int_value_clamp(1) [OF assms] by (simp add: pb_dec_svarint_def on_stream_def decode_svarint_leb128 Let_def)
qed (simp_all add: int_value_mod [OF assms])

lemma uint_value_clamp:
  assumes "uint_value n v = Some w" and "v < 256 ^ n"
  shows "clamp_unsigned n w = Some w" and "unat w = v"
proof -
  show u: "unat w = v" using assms by (auto simp: uint_value_def unat_of_nat split: if_splits)
  have "ucast (ucast w :: u8) = w" if "v < 256" using that u by (simp add: word_unat_eq_iff unat_ucast take_bit_nat_eq_self)
  moreover have "ucast (ucast w :: u16) = w" if "v < 65536" using that u by (simp add: word_unat_eq_iff unat_ucast take_bit_nat_eq_self)
  moreover have "ucast (ucast w :: u32) = w" if "v < 4294967296" using that u by (simp add: word_unat_eq_iff unat_ucast take_bit_nat_eq_self)
  ultimately show "clamp_unsigned n w = Some w"
    using assms by (auto simp: uint_value_def clamp_unsigned_def split: if_splits)
qed

lemma reads_uvarint:
  assumes "uint_value (unat (data_size f)) v = Some w" and "v < 256 ^ unat (data_size f)"
  shows "reads (\<lambda>_. True) (pb_dec_uvarint f d) (leb128 (unat w)) (box d (unat (data_size f)))
    (\<lambda>h. uint_value (unat (data_size f)) (read_nat (hmem h) d (unat (data_size f))) = Some w)"
proof (rule reads_mono [OF reads_stored [of _ _ w "unat (data_size f)" d]])
  show "pb_dec_uvarint f d (src (leb128 (unat w) @ tail) rest e, h) =
      store_clamped (Some w) w (unat (data_size f)) d (src tail rest e, h)" for tail rest e h
    using uint_value_clamp(1) [OF assms] by (simp add: pb_dec_uvarint_def on_stream_def decode_varint_leb128 Let_def)
qed (use uint_value_clamp(2) [OF assms] assms in simp_all)

lemma reads_fixed32:
  assumes "length bs = 4"
  shows "reads (\<lambda>_. True) (pb_dec_fixed32 f d) bs (box d 4) (\<lambda>h. read_bytes (hmem h) d 4 = bs)"
proof (rule readsI [where g = "poke_heap d bs"])
  have "le_nat bs < 2 ^ 32" using le_nat_bound [of bs] assms by simp
  then have "le_bytes 4 (unat (word_of_nat (le_nat bs) :: u32)) = bs"
    using le_bytes_le_nat [of bs] assms by (simp add: unat_of_nat)
  then show "pb_dec_fixed32 f d (src (bs @ tail) rest e, h) = (Some (), src tail rest e, poke_heap d bs h)" for tail rest e h
    by (simp add: pb_dec_fixed32_def on_stream_def decode_fixed32_le [OF assms] store_on_stream)
qed (use poke_same [of d bs] assms in \<open>simp_all add: read_poke\<close>)

lemma reads_fixed64:
  assumes "length bs = 8"
  shows "reads (\<lambda>_. True) (pb_dec_fixed64 f d) bs (box d 8) (\<lambda>h. read_bytes (hmem h) d 8 = bs)"
proof (rule readsI [where g = "poke_heap d bs"])
  have "le_nat bs < 2 ^ 64" using le_nat_bound [of bs] assms by simp
  then have "le_bytes 8 (unat (word_of_nat (le_nat bs) :: u64)) = bs"
    using le_bytes_le_nat [of bs] assms by (simp add: unat_of_nat)
  then show "pb_dec_fixed64 f d (src (bs @ tail) rest e, h) = (Some (), src tail rest e, poke_heap d bs h)" for tail rest e h
    by (simp add: pb_dec_fixed64_def on_stream_def decode_fixed64_le [OF assms] store_on_stream)
qed (use poke_same [of d bs] assms in \<open>simp_all add: read_poke\<close>)

lemma reads_to:
  "read_to a (length bs) (src (bs @ tail) rest e, h) = (Some (), (src tail rest e, poke_heap a bs h))"
  by (simp add: read_to_def on_stream_def store_on_stream)

lemma reads_fixed_length:
  assumes "length bs = unat (data_size f)"
  shows "reads (\<lambda>_. True) (pb_dec_fixed_length_bytes f d) (delimited bs) (box d (length bs))
    (\<lambda>h. read_bytes (hmem h) d (unat (data_size f)) = bs)"
proof (rule readsI [where g = "poke_heap d bs"])
  have l: "length bs < 2 ^ 32" using assms unat_u32_bound [of "data_size f"] by simp
  have w: "word_of_nat (length bs) = data_size f" using assms by simp
  show "pb_dec_fixed_length_bytes f d (src (delimited bs @ tail) rest e, h) = (Some (), src tail rest e, poke_heap d bs h)"
    for tail rest e h
  proof (cases "data_size f = 0")
    case True
    then have "bs = []" using assms by simp
    then show ?thesis using True decode_varint32_leb128 [OF l, of tail rest e]
      by (simp add: pb_dec_fixed_length_bytes_def delimited_def on_stream_def store_on_stream PB_SIZE_MAX_def)
  next
    case False
    then show ?thesis using decode_varint32_leb128 [OF l, of "bs @ tail" rest e] reads_to [of d bs tail rest e h] assms w
        unat_u32_bound [of "data_size f"]
      by (simp add: pb_dec_fixed_length_bytes_def delimited_def on_stream_def PB_SIZE_MAX_def word_less_nat_alt Let_def)
  qed
qed (use poke_same [of d bs] assms in \<open>simp_all add: read_poke\<close>)

lemma size_limit:
  fixes w :: u32
  assumes "n \<le> unat (ucast w - word_of_nat offsetof_bytes :: u64)" and "4 \<le> unat w"
  shows "n + 4 \<le> unat w"
proof -
  have "unat (ucast w :: u64) = unat w" by (simp add: unat_ucast_up)
  then have "unat (ucast w - word_of_nat offsetof_bytes :: u64) = unat w - 4"
    using assms(2) by (subst unat_sub) (simp_all add: offsetof_bytes_def word_le_nat_alt)
  then show ?thesis using assms by simp
qed

lemma reads_bytes:
  assumes static: "PB_ATYPE (ftype f) = PB_ATYPE_STATIC" and room: "4 \<le> unat (data_size f)" and d: "d \<noteq> 0"
    and spec: "spec_bytes m f a = Some bs" and a: "a \<noteq> 0"
  shows "reads (\<lambda>_. True) (pb_dec_bytes env f d) bs (box d (unat (data_size f))) (\<lambda>h. spec_bytes (hmem h) f d = Some bs)"
proof -
  define n where "n = unat (read_size m a)"
  define cs where "cs = read_bytes m (a + offsetof_bytes) n"
  have lim: "n \<le> unat (ucast (data_size f) - word_of_nat offsetof_bytes :: u64)" and bs: "bs = delimited cs"
    using spec static a by (auto simp: spec_bytes_def n_def cs_def not_less split: if_splits)
  have n4: "n + 4 \<le> unat (data_size f)" by (rule size_limit [OF lim room])
  have n32: "n < 2 ^ 32" using n4 unat_u32_bound [of "data_size f"] by simp
  have len: "length cs = n" by (simp add: cs_def)
  have u: "unat (word_of_nat n :: u32) = n" using n32 by (simp add: unat_of_nat)
  have al: "PB_BYTES_ARRAY_T_ALLOCSIZE n = n + 4"
    using n32 by (simp add: PB_BYTES_ARRAY_T_ALLOCSIZE_def offsetof_bytes_def size_add_def)
  have np: "PB_ATYPE_STATIC \<noteq> PB_ATYPE_POINTER" by (simp add: PB_ATYPE_STATIC_def PB_ATYPE_POINTER_def)
  let ?g = "\<lambda>h. poke_heap (d + 4) cs (poke_heap d (le_bytes 4 n) h)"
  show ?thesis
  proof (rule readsI [where g = ?g])
    show "pb_dec_bytes env f d (src (bs @ tail) rest e, h) = (Some (), src tail rest e, ?g h)" for tail rest e h
      using decode_varint32_leb128 [of n "cs @ tail" rest e] reads_to [of "d + 4" cs tail rest e] n32 n4 u static np
      by (simp add: pb_dec_bytes_def bs delimited_def len on_stream_def store_on_stream al offsetof_bytes_def
        PB_SIZE_MAX_def word_less_nat_alt)
    fix h
    show "same_outside (box d (unat (data_size f))) h (?g h)"
    proof (rule same_outside_trans)
      show "same_outside (box d (unat (data_size f))) h (poke_heap d (le_bytes 4 n) h)"
        using n4 by (intro same_outside_poke) auto
      show "same_outside (box d (unat (data_size f))) (poke_heap d (le_bytes 4 n) h) (?g h)"
        using n4 len by (intro same_outside_poke) auto
    qed
    have "read_bytes (hmem (?g h)) d 4 = le_bytes 4 n" by (simp add: read_poke_other read_poke)
    then have "read_size (hmem (?g h)) d = word_of_nat n"
      using n32 by (simp add: read_size_def read_nat_def le_nat_le_bytes)
    moreover have "read_bytes (hmem (?g h)) (d + 4) n = cs" using len by (simp add: read_poke)
    ultimately show "spec_bytes (hmem (?g h)) f d = Some bs"
      using lim d u by (simp add: spec_bytes_def bs offsetof_bytes_def)
  qed
qed

lemma string_scan_found:
  assumes "\<And>k. i \<le> k \<Longrightarrow> k < len \<Longrightarrow> m (p + k) \<noteq> 0" and "m (p + len) = 0" and "i \<le> len" and "len < lim"
  shows "string_scan m p i lim = len"
  using assms
proof (induction "len - i" arbitrary: i)
  case 0
  then show ?case by (subst string_scan.simps) simp
next
  case (Suc k)
  then show ?case by (subst string_scan.simps) auto
qed

lemma string_scan_spec:
  "string_scan m p i lim = len \<Longrightarrow> i \<le> k \<Longrightarrow> k < len \<Longrightarrow> m (p + k) \<noteq> 0"
proof (induction m p i lim rule: string_scan.induct)
  case (1 m p i lim)
  from 1(2) have "if i < lim \<and> m (p + i) \<noteq> 0 then string_scan m p (i + 1) lim = len else i = len"
    by (subst (asm) string_scan.simps) (auto split: if_splits)
  with 1 show ?case by (cases "k = i") (auto split: if_splits)
qed

lemma reads_string:
  assumes static: "PB_ATYPE (ftype f) = PB_ATYPE_STATIC" and d: "d \<noteq> 0" and a: "a \<noteq> 0"
    and ends: "string_scan m a 0 (unat (data_size f)) < unat (data_size f)"
  shows "reads (\<lambda>_. True) (pb_dec_string env f d) (spec_string m f a) (box d (unat (data_size f)))
    (\<lambda>h. spec_string (hmem h) f d = spec_string m f a)"
proof -
  define n where "n = string_scan m a 0 (unat (data_size f))"
  define cs where "cs = read_bytes m a n"
  have np: "PB_ATYPE_STATIC \<noteq> PB_ATYPE_POINTER" by (simp add: PB_ATYPE_STATIC_def PB_ATYPE_POINTER_def)
  have bs: "spec_string m f a = delimited cs" using static a np by (simp add: spec_string_def n_def cs_def)
  have len: "length cs = n" by (simp add: cs_def)
  have n1: "n < unat (data_size f)" using ends by (simp add: n_def)
  then have n32: "n + 1 < 2 ^ 32" using unat_u32_bound [of "data_size f"] by simp
  have u: "unat (word_of_nat n :: u32) = n" "unat (word_of_nat n + 1 :: u32) = n + 1"
    using n32 by (simp_all add: unat_of_nat unat_word_ariths)
  let ?g = "\<lambda>h. poke_heap (d + n) [0] (poke_heap d cs h)"
  show ?thesis unfolding bs
  proof (rule readsI [where g = ?g])
    show "pb_dec_string env f d (src (delimited cs @ tail) rest e, h) = (Some (), src tail rest e, ?g h)" for tail rest e h
      using decode_varint32_leb128 [of n "cs @ tail" rest e] reads_to [of d cs tail rest e] n32 n1 u static np
      by (simp add: pb_dec_string_def delimited_def len on_stream_def store_on_stream)
    fix h
    show "same_outside (box d (unat (data_size f))) h (?g h)"
    proof (rule same_outside_trans)
      show "same_outside (box d (unat (data_size f))) h (poke_heap d cs h)"
        using n1 len by (intro same_outside_poke) auto
      show "same_outside (box d (unat (data_size f))) (poke_heap d cs h) (?g h)"
        using n1 by (intro same_outside_poke) auto
    qed
    have r: "read_bytes (hmem (?g h)) d n = cs" by (simp add: read_poke_other read_poke len)
    have "string_scan (hmem (?g h)) d 0 (unat (data_size f)) = n"
    proof (rule string_scan_found)
      fix k assume k: "k < n"
      have "hmem (?g h) (d + k) = cs ! k" using k len by (simp add: poke_heap_def write_bytes_def)
      also have "\<dots> = m (a + k)" using k by (simp add: cs_def read_bytes_def)
      finally show "hmem (?g h) (d + k) \<noteq> 0" using string_scan_spec [OF n_def [symmetric] _ k] by simp
    qed (use n1 in \<open>simp_all add: poke_at\<close>)
    then show "spec_string (hmem (?g h)) f d = delimited cs" using r static d np by (simp add: spec_string_def)
  qed
qed

section \<open>Messages\<close>

text \<open>
  The bytes a field has in the struct, and those of its flag or counter.  The messages considered have
  only static fields, with a flag where they are optional and with a counter where they are arrays,
  and all these parts are disjoint.
\<close>

definition flag_len :: "pb_field \<Rightarrow> nat" where
  "flag_len f = (if PB_HTYPE (ftype f) = PB_HTYPE_OPTIONAL then 1 else if PB_HTYPE (ftype f) = PB_HTYPE_REPEATED then 4 else 0)"

definition flag_offset :: "pb_field list \<Rightarrow> nat \<Rightarrow> nat" where
  "flag_offset fs i = nat (size_offset_of fs i)"

abbreviation data_part :: "pb_field list \<Rightarrow> nat \<Rightarrow> nat \<Rightarrow> nat set" where
  "data_part fs dest i \<equiv> box (dest + offset_of fs i) (prev_size_of (fld fs i))"

abbreviation flag_part :: "pb_field list \<Rightarrow> nat \<Rightarrow> nat \<Rightarrow> nat set" where
  "flag_part fs dest i \<equiv> box (dest + flag_offset fs i) (flag_len (fld fs i))"

definition field_part :: "pb_field list \<Rightarrow> nat \<Rightarrow> nat \<Rightarrow> nat set" where
  "field_part fs dest i = data_part fs dest i \<union> flag_part fs dest i"

definition plain_field :: "pb_field \<Rightarrow> bool" where
  "plain_field f \<longleftrightarrow> (let t = ftype f in
     (PB_HTYPE t = PB_HTYPE_REQUIRED \<or> PB_HTYPE t = PB_HTYPE_OPTIONAL \<and> size_offset f \<noteq> 0 \<or>
      PB_HTYPE t = PB_HTYPE_REPEATED \<and> size_offset f \<noteq> 0 \<and> uint (data_size f) * uint (array_size f) < 2 ^ 32) \<and>
     (PB_LTYPE t = PB_LTYPE_BYTES \<longrightarrow> 4 \<le> unat (data_size f)) \<and>
     (PB_LTYPE t = PB_LTYPE_SUBMESSAGE \<longrightarrow> ptr f \<noteq> 0) \<and> tag f < 0x20000000)"

lemma plain_field_nat:
  "plain_field f \<longleftrightarrow> (let t = ftype f in
     (PB_HTYPE t = PB_HTYPE_REQUIRED \<or> PB_HTYPE t = PB_HTYPE_OPTIONAL \<and> size_offset f \<noteq> 0 \<or>
      PB_HTYPE t = PB_HTYPE_REPEATED \<and> size_offset f \<noteq> 0 \<and> unat (data_size f) * unat (array_size f) < 2 ^ 32) \<and>
     (PB_LTYPE t = PB_LTYPE_BYTES \<longrightarrow> 4 \<le> unat (data_size f)) \<and>
     (PB_LTYPE t = PB_LTYPE_SUBMESSAGE \<longrightarrow> ptr f \<noteq> 0) \<and> unat (tag f) < 2 ^ 29)"
proof -
  have "uint (data_size f) * uint (array_size f) < 2 ^ 32 \<longleftrightarrow> unat (data_size f) * unat (array_size f) < 2 ^ 32"
    unfolding uint_nat of_nat_mult [symmetric] by (simp only: of_nat_less_numeral_power_cancel_iff)
  moreover have "tag f < 0x20000000 \<longleftrightarrow> unat (tag f) < 2 ^ 29" by (simp add: word_less_nat_alt)
  ultimately show ?thesis by (simp only: plain_field_def)
qed

fun plain :: "nat \<Rightarrow> (nat \<Rightarrow> pb_field list) \<Rightarrow> pb_field list \<Rightarrow> nat \<Rightarrow> bool" where
  "plain 0 D fs sz = False"
| "plain (Suc n) D fs sz =
     (fs \<noteq> [] \<and> int (length fs) < 2 ^ 32 \<and> fields_ok fs \<and> distinct (map tag fs) \<and>
      (\<forall>f \<in> set fs. plain_field f) \<and> (\<forall>i < length fs. field_fits sz fs i) \<and>
      (\<forall>i < length fs. data_part fs 0 i \<inter> flag_part fs 0 i = {}) \<and>
      (\<forall>i < length fs. \<forall>j < i. field_part fs 0 i \<inter> field_part fs 0 j = {}) \<and>
      (\<forall>f \<in> set fs. PB_LTYPE (ftype f) = PB_LTYPE_SUBMESSAGE \<longrightarrow> plain n D (D (ptr f)) (unat (data_size f))))"

definition plain_at :: "nat \<Rightarrow> (nat \<Rightarrow> pb_field list) \<Rightarrow> pb_field list \<Rightarrow> nat \<Rightarrow> nat \<Rightarrow> bool" where
  "plain_at n D fs dest sz \<longleftrightarrow> plain n D fs sz \<and> dest \<noteq> 0 \<and> dest + sz < 2 ^ 64"

lemma part_shift: "data_part fs dest i = (+) dest ` data_part fs 0 i" "flag_part fs dest i = (+) dest ` flag_part fs 0 i"
  "field_part fs dest i = (+) dest ` field_part fs 0 i"
  by (simp_all add: field_part_def image_Un ac_simps)

lemma shift_disjoint: "A \<inter> B = {} \<Longrightarrow> (+) (d :: nat) ` A \<inter> (+) d ` B = {}"
  by (simp flip: image_Int)

lemma plain_atD:
  assumes "plain_at (Suc n) D fs dest sz"
  shows "fs \<noteq> []" and "fields_ok fs" and "length fs < 2 ^ 32" and "distinct (map tag fs)" and "dest \<noteq> 0"
    and "\<And>i. i < length fs \<Longrightarrow> field_fits sz fs i" and "\<And>i. i < length fs \<Longrightarrow> plain_field (fld fs i)"
    and "\<And>i. i < length fs \<Longrightarrow> data_part fs dest i \<inter> flag_part fs dest i = {}"
    and "\<And>i j. i < length fs \<Longrightarrow> j < length fs \<Longrightarrow> i \<noteq> j \<Longrightarrow> field_part fs dest i \<inter> field_part fs dest j = {}"
proof -
  have P: "plain (Suc n) D fs sz" "dest \<noteq> 0" using assms by (auto simp: plain_at_def)
  then show "fs \<noteq> []" "fields_ok fs" "length fs < 2 ^ 32" "distinct (map tag fs)" "dest \<noteq> 0" by auto
  show "field_fits sz fs i" "plain_field (fld fs i)" if "i < length fs" for i using P that by (auto simp: fld_in)
  show "data_part fs dest i \<inter> flag_part fs dest i = {}" if "i < length fs" for i
    unfolding part_shift(1,2) [where dest = dest] using P that by (intro shift_disjoint) auto
  have "field_part fs 0 i \<inter> field_part fs 0 j = {}" if "i < length fs" "j < length fs" "i \<noteq> j" for i j
  proof -
    have "\<forall>i < length fs. \<forall>j < i. field_part fs 0 i \<inter> field_part fs 0 j = {}" using P(1) by simp
    with that show ?thesis by (metis inf_commute linorder_neqE_nat)
  qed
  then show "field_part fs dest i \<inter> field_part fs dest j = {}" if "i < length fs" "j < length fs" "i \<noteq> j" for i j
    unfolding part_shift(3) [where dest = dest] using that by (intro shift_disjoint) blast
qed

lemma plain_at_addr:
  assumes "plain_at (Suc n) D fs dest sz" and "i < length fs"
  shows "pData (it_at fs dest i) = dest + offset_of fs i" and "pSize (it_at fs dest i) = dest + flag_offset fs i"
    and "PB_HTYPE (ftype (fld fs i)) \<noteq> PB_HTYPE_REQUIRED \<Longrightarrow> pSize (it_at fs dest i) \<noteq> pData (it_at fs dest i)"
    and "addr_add (dest + offset_of fs i) (sint (size_offset (fld fs i))) = dest + flag_offset fs i"
    and "dest + offset_of fs i \<noteq> 0"
proof -
  note P = plain_atD [OF assms(1)]
  have F: "0 \<le> size_offset_of fs i" "size_offset_of fs i \<le> int sz" using field_fitsD [OF P(6) [OF assms(2)]] by auto
  have A: "pData (it_at fs dest i) = dest + offset_of fs i \<and> pSize (it_at fs dest i) = nat (int dest + size_offset_of fs i)"
    by (rule it_at_addr [OF P(2,6,5) _ assms(2)]) (use assms(1) in \<open>simp_all add: plain_at_def\<close>)
  then show "pData (it_at fs dest i) = dest + offset_of fs i" by simp
  show z: "pSize (it_at fs dest i) = dest + flag_offset fs i" using A F by (simp add: flag_offset_def nat_add_distrib)
  have nj: "\<not> joins g (fld fs i)" for g
    using P(7) [OF assms(2)] by (auto simp: plain_field_nat joins_def Let_def PB_HTYPE_ONEOF_def PB_HTYPE_REQUIRED_def
      PB_HTYPE_OPTIONAL_def PB_HTYPE_REPEATED_def)
  have s: "size_offset_of fs i = int (offset_of fs i) + sint (size_offset (fld fs i))"
    using nj by (cases i) simp_all
  have "dest + sz < 2 ^ 64" using assms(1) by (simp add: plain_at_def)
  from addr_add_within [OF _ _ this, of "offset_of fs i" "sint (size_offset (fld fs i))"]
  show "addr_add (dest + offset_of fs i) (sint (size_offset (fld fs i))) = dest + flag_offset fs i"
    using F s by (simp add: flag_offset_def nat_add_distrib)
  show "dest + offset_of fs i \<noteq> 0" using P(5) by simp
  assume "PB_HTYPE (ftype (fld fs i)) \<noteq> PB_HTYPE_REQUIRED"
  then have "size_offset (fld fs i) \<noteq> 0" using P(7) [OF assms(2)] by (auto simp: plain_field_nat Let_def)
  then have "sint (size_offset (fld fs i)) \<noteq> 0" by (metis sint_0 signed_word_eqI)
  with F(1) A s show "pSize (it_at fs dest i) \<noteq> pData (it_at fs dest i)" by auto
qed

lemma plain_at_parts:
  assumes "plain_at (Suc n) D fs dest sz" and "i < length fs"
  shows "field_part fs dest i \<subseteq> box dest sz"
proof -
  have "field_fits sz fs i" by (rule plain_atD(6) [OF assms])
  then have "offset_of fs i + prev_size_of (fld fs i) \<le> sz" "flag_offset fs i + flag_len (fld fs i) \<le> sz"
    by (auto simp: field_fits_def flag_len_def flag_offset_def Let_def optional_static nat_le_iff)
  then show ?thesis by (auto simp: field_part_def)
qed

text \<open>The items of a field are in its data part; there is one when the field is no array.\<close>

definition is_item :: "pb_field list \<Rightarrow> nat \<Rightarrow> nat \<Rightarrow> nat \<Rightarrow> bool" where
  "is_item fs dest i p \<longleftrightarrow> dest + offset_of fs i \<le> p \<and>
     p + unat (data_size (fld fs i)) \<le> dest + offset_of fs i + prev_size_of (fld fs i)"

lemma item_box: "is_item fs dest i p \<Longrightarrow> box p (unat (data_size (fld fs i))) \<subseteq> data_part fs dest i"
  by (auto simp: is_item_def)

lemma item_part:
  assumes "plain_at (Suc n) D fs dest sz" and "i < length fs"
    and "PB_HTYPE (ftype (fld fs i)) = PB_HTYPE_REPEATED \<Longrightarrow> k < unat (array_size (fld fs i))"
    and "PB_HTYPE (ftype (fld fs i)) \<noteq> PB_HTYPE_REPEATED \<Longrightarrow> k = 0"
  shows "is_item fs dest i (dest + offset_of fs i + k * unat (data_size (fld fs i)))"
proof -
  let ?f = "fld fs i"
  have F: "field_fits sz fs i" and R: "plain_field ?f" using plain_atD [OF assms(1)] assms(2) by auto
  have st: "PB_ATYPE (ftype ?f) = PB_ATYPE_STATIC" using F by (simp add: field_fits_def Let_def)
  have np: "PB_ATYPE_STATIC \<noteq> PB_ATYPE_POINTER" by (simp add: PB_ATYPE_STATIC_def PB_ATYPE_POINTER_def)
  have "Suc k * unat (data_size ?f) \<le> prev_size_of ?f"
  proof (cases "PB_HTYPE (ftype ?f) = PB_HTYPE_REPEATED")
    case True
    then have "unat (data_size ?f) * unat (array_size ?f) < 2 ^ 32"
      using R by (auto simp: plain_field_nat Let_def PB_HTYPE_REQUIRED_def PB_HTYPE_OPTIONAL_def PB_HTYPE_REPEATED_def)
    then have "prev_size_of ?f = unat (array_size ?f) * unat (data_size ?f)"
      using True st by (simp add: prev_size_of_def size_mult_def mult.commute)
    then show ?thesis using assms(3) [OF True] by (metis Suc_leI mult_le_mono1)
  next
    case False
    then show ?thesis using assms(4) st np by (simp add: prev_size_of_def)
  qed
  then show ?thesis by (simp add: is_item_def)
qed

lemma plain_at_sub:
  assumes "plain_at (Suc n) D fs dest sz" and "i < length fs" and "PB_LTYPE (ftype (fld fs i)) = PB_LTYPE_SUBMESSAGE"
    and "is_item fs dest i p"
  shows "plain_at n D (D (ptr (fld fs i))) p (unat (data_size (fld fs i)))"
proof -
  have "fld fs i \<in> set fs" using assms(2) by (simp add: fld_in)
  then have "plain n D (D (ptr (fld fs i))) (unat (data_size (fld fs i)))" using assms(1,3) by (auto simp: plain_at_def)
  then show ?thesis
    using assms(1,4) plain_atD(5,6) [OF assms(1)] assms(2) field_fitsD(1) [of sz fs i] by (auto simp: plain_at_def is_item_def)
qed

section \<open>Encodings\<close>

text \<open>What is written for one value, for one field, and for the fields from the \<^verbatim>\<open>i\<close>th on.\<close>

definition val :: "nat \<Rightarrow> 'st pb_env \<Rightarrow> pb_spec \<Rightarrow> pb_field \<Rightarrow> nat \<Rightarrow> bytes option" where
  "val n env sp f = spec_value (spec_message n env sp) env (PB_LTYPE (ftype f)) f"

definition enc :: "nat \<Rightarrow> 'st pb_env \<Rightarrow> pb_spec \<Rightarrow> pb_field list \<Rightarrow> nat \<Rightarrow> nat \<Rightarrow> bytes option" where
  "enc n env sp fs dest i = spec_field n (spec_message n env sp) env sp (fld fs i) (dest + offset_of fs i)"

fun cats :: "(nat \<Rightarrow> bytes option) \<Rightarrow> nat \<Rightarrow> nat \<Rightarrow> bytes option" where
  "cats g i 0 = Some []"
| "cats g i (Suc k) = cat (g i) (cats g (Suc i) k)"

lemma cats_cong: "(\<And>j. i \<le> j \<Longrightarrow> j < i + k \<Longrightarrow> g j = g' j) \<Longrightarrow> cats g i k = cats g' i k"
  by (induction k arbitrary: i) auto

lemma spec_message_enc:
  assumes "plain_at (Suc n) D fs dest sz"
  shows "spec_message (Suc n) env sp fs dest = cats (enc n env sp fs dest) 0 (length fs)"
proof -
  note P = plain_atD [OF assms]
  let ?F = "\<lambda>iter. if PB_LTYPE (ftype (cur iter)) = PB_LTYPE_EXTENSION
            then spec_extensions n n (spec_message n env sp) env sp (read_ptr (mem_of env) (pData iter))
            else spec_field n (spec_message n env sp) env sp (cur iter) (pData iter)"
  have F: "?F (it_at fs dest i) = enc n env sp fs dest i" if "i < length fs" for i
    using that P(2) P(6) [OF that] plain_at_addr(1) [OF assms that] by (simp add: enc_def field_fits_def Let_def)
  have "spec_walk ?F (it_at fs dest i) = cats (enc n env sp fs dest) i (length fs - i)" if "i < length fs" for i
    using that
  proof (induction "length fs - i" arbitrary: i)
    case (Suc k)
    note N = it_at_next [OF P(2) Suc.prems]
    show ?case
    proof (cases "Suc i < length fs")
      case True
      then have "spec_walk ?F (it_at fs dest (Suc i)) = cats (enc n env sp fs dest) (Suc i) (length fs - Suc i)"
        using Suc by simp
      moreover have "length fs - i = Suc (length fs - Suc i)" using Suc.prems by simp
      ultimately show ?thesis using True F [OF Suc.prems] by (subst spec_walk.simps) (simp only: N if_True fst_conv snd_conv cats.simps)
    next
      case False
      then have "length fs - i = 1" using Suc.prems by simp
      then show ?thesis using False F [OF Suc.prems] by (subst spec_walk.simps) (simp only: N if_False fst_conv One_nat_def cats.simps)
    qed
  qed simp
  from this [of 0] show ?thesis using P(1,2) by (simp add: begin_it_at)
qed

lemma htypes: "PB_HTYPE_OPTIONAL \<noteq> PB_HTYPE_REQUIRED" "PB_HTYPE_REPEATED \<noteq> PB_HTYPE_REQUIRED"
  "PB_HTYPE_REPEATED \<noteq> PB_HTYPE_OPTIONAL" "PB_HTYPE_ONEOF \<noteq> PB_HTYPE_REQUIRED"
  by (simp_all add: PB_HTYPE_OPTIONAL_def PB_HTYPE_REQUIRED_def PB_HTYPE_REPEATED_def PB_HTYPE_ONEOF_def)

lemma plain_cases:
  assumes "plain_at (Suc n) D fs dest sz" and "i < length fs"
  obtains (required) "PB_HTYPE (ftype (fld fs i)) = PB_HTYPE_REQUIRED"
    | (optional) "PB_HTYPE (ftype (fld fs i)) = PB_HTYPE_OPTIONAL" "size_offset (fld fs i) \<noteq> 0"
    | (repeated) "PB_HTYPE (ftype (fld fs i)) = PB_HTYPE_REPEATED" "size_offset (fld fs i) \<noteq> 0"
        "unat (data_size (fld fs i)) * unat (array_size (fld fs i)) < 2 ^ 32"
  using plain_atD(7) [OF assms] by (auto simp: plain_field_nat Let_def)

lemma plain_static:
  assumes "plain_at (Suc n) D fs dest sz" and "i < length fs"
  shows "PB_ATYPE (ftype (fld fs i)) = PB_ATYPE_STATIC" and "PB_LTYPE (ftype (fld fs i)) \<noteq> PB_LTYPE_EXTENSION"
  using plain_atD(6) [OF assms] by (auto simp: field_fits_def Let_def)

definition enc_array :: "pb_field \<Rightarrow> (nat \<Rightarrow> bytes option) \<Rightarrow> nat \<Rightarrow> nat \<Rightarrow> bytes option" where
  "enc_array f v p c =
     (if c = 0 then Some [] else if c > unat (array_size f) then None
      else if PB_LTYPE (ftype f) \<le> PB_LTYPE_LAST_PACKABLE
      then cat (Some (tag_bytes PB_WT_STRING (tag f))) (map_option delimited (spec_items v p (unat (data_size f)) c))
      else spec_items (\<lambda>q. cat (spec_tag f) (v q)) p (unat (data_size f)) c)"

lemma enc_simps:
  assumes "plain_at (Suc n) D fs dest sz" and "i < length fs"
  shows "PB_HTYPE (ftype (fld fs i)) = PB_HTYPE_REQUIRED \<Longrightarrow>
      enc n env sp fs dest i = cat (spec_tag (fld fs i)) (val n env sp (fld fs i) (dest + offset_of fs i))"
    and "PB_HTYPE (ftype (fld fs i)) = PB_HTYPE_OPTIONAL \<Longrightarrow>
      enc n env sp fs dest i = (if mem_of env (dest + flag_offset fs i) \<noteq> 0
        then cat (spec_tag (fld fs i)) (val n env sp (fld fs i) (dest + offset_of fs i)) else Some [])"
    and "PB_HTYPE (ftype (fld fs i)) = PB_HTYPE_REPEATED \<Longrightarrow>
      enc n env sp fs dest i = enc_array (fld fs i) (val n env sp (fld fs i)) (dest + offset_of fs i)
        (unat (read_size (mem_of env) (dest + flag_offset fs i)))"
proof -
  note S = plain_static [OF assms] and A = plain_at_addr(4,5) [OF assms]
  have e: "enc n env sp fs dest i = spec_basic_field n (spec_message n env sp) env (fld fs i) (dest + offset_of fs i)"
    using S(1) by (simp add: enc_def spec_field_def Let_def)
  show "enc n env sp fs dest i = cat (spec_tag (fld fs i)) (val n env sp (fld fs i) (dest + offset_of fs i))"
    if "PB_HTYPE (ftype (fld fs i)) = PB_HTYPE_REQUIRED"
    unfolding e spec_basic_field_def Let_def using that S(1) plain_atD(5) [OF assms(1)] static_not_pointer(1) by (simp add: val_def)
  have z: "size_offset (fld fs i) \<noteq> 0" if "PB_HTYPE (ftype (fld fs i)) \<noteq> PB_HTYPE_REQUIRED"
    using plain_cases [OF assms] that by metis
  show "enc n env sp fs dest i = (if mem_of env (dest + flag_offset fs i) \<noteq> 0
      then cat (spec_tag (fld fs i)) (val n env sp (fld fs i) (dest + offset_of fs i)) else Some [])"
    if "PB_HTYPE (ftype (fld fs i)) = PB_HTYPE_OPTIONAL"
    unfolding e spec_basic_field_def Let_def using that S(1) A z static_not_pointer(1) htypes
    by (simp add: val_def safe_read_bool_def)
  show "enc n env sp fs dest i = enc_array (fld fs i) (val n env sp (fld fs i)) (dest + offset_of fs i)
      (unat (read_size (mem_of env) (dest + flag_offset fs i)))"
    if "PB_HTYPE (ftype (fld fs i)) = PB_HTYPE_REPEATED"
    unfolding e spec_basic_field_def Let_def using that S(1) A z static_not_pointer(1) htypes
    by (simp add: val_def spec_array_def enc_array_def Let_def)
qed

section \<open>What an encoding depends on\<close>

lemma spec_items_cong:
  "(\<And>k. k < c \<Longrightarrow> v (p + k * step) = v' (p' + k * step)) \<Longrightarrow> spec_items v p step c = spec_items v' p' step c"
proof (induction c arbitrary: p p')
  case (Suc c)
  have "v (p + step + k * step) = v' (p' + step + k * step)" if "k < c" for k
    using Suc.prems [of "Suc k"] that by (simp add: algebra_simps)
  with Suc.IH [of "p + step" "p' + step"] Suc.prems [of 0] show ?case by simp
qed simp

lemma string_scan_cong:
  assumes "agree (box p lim) m m'"
  shows "string_scan m p i lim = string_scan m' p i lim"
  using assms
proof (induction m p i lim rule: string_scan.induct)
  case (1 m p i lim)
  then show ?case by (subst (1 2) string_scan.simps) (auto simp: agree_def)
qed

lemma string_scan_le: "i \<le> lim \<Longrightarrow> string_scan m p i lim \<le> lim"
proof (induction m p i lim rule: string_scan.induct)
  case (1 m p i lim)
  then show ?case by (subst string_scan.simps) auto
qed

lemma read_bytes_0: "read_bytes m a 0 = []"
  by (simp add: read_bytes_def)

lemma value_agree:
  assumes static: "PB_ATYPE (ftype f) = PB_ATYPE_STATIC" and fits: "value_fits f"
    and bytes: "PB_LTYPE (ftype f) = PB_LTYPE_BYTES \<Longrightarrow> 4 \<le> unat (data_size f)"
    and ag: "agree (box p (unat (data_size f))) m m'"
    and sub: "PB_LTYPE (ftype f) = PB_LTYPE_SUBMESSAGE \<Longrightarrow>
      spec_message n (with_mem env m) sp (descs env (ptr f)) p = spec_message n (with_mem env m') sp (descs env (ptr f)) p"
  shows "val n (with_mem env m) sp f p = val n (with_mem env m') sp f p"
proof -
  let ?n = "unat (data_size f)" and ?lt = "PB_LTYPE (ftype f)"
  have sub_box: "agree (box q k) m m'" if "p \<le> q" "q + k \<le> p + ?n" for q k
    using ag that by (auto simp: agree_def)
  have "safe_read_bool m p = safe_read_bool m' p" if "?lt = PB_LTYPE_BOOL"
    using that fits sub_box [of p 1] by (simp add: value_fits_def Let_def agree_def safe_read_bool_def)
  moreover have "read_nat m p ?n = read_nat m' p ?n" "read_bytes m p ?n = read_bytes m' p ?n" using agree_read [OF ag] by auto
  moreover have "read_bytes m p 4 = read_bytes m' p 4" if "?lt = PB_LTYPE_FIXED32"
    using that fits by (intro agree_read sub_box) (simp_all add: value_fits_def Let_def)
  moreover have "read_bytes m p 8 = read_bytes m' p 8" if "?lt = PB_LTYPE_FIXED64"
    using that fits by (intro agree_read sub_box) (simp_all add: value_fits_def Let_def)
  moreover have "spec_bytes m f p = spec_bytes m' f p" if b: "?lt = PB_LTYPE_BYTES"
  proof -
    have z: "read_size m p = read_size m' p" using bytes [OF b] by (intro agree_size sub_box) simp_all
    have "read_bytes m (p + offsetof_bytes) (unat (read_size m' p)) = read_bytes m' (p + offsetof_bytes) (unat (read_size m' p))"
      if "\<not> unat (read_size m' p) > unat (ucast (data_size f) - word_of_nat offsetof_bytes :: u64)"
      using that size_limit [OF _ bytes [OF b], of "unat (read_size m' p)"]
      by (intro agree_read sub_box) (auto simp: offsetof_bytes_def)
    then show ?thesis using z static by (simp add: spec_bytes_def)
  qed
  moreover have "spec_string m f p = spec_string m' f p"
  proof -
    have "string_scan m p 0 ?n = string_scan m' p 0 ?n" by (rule string_scan_cong [OF ag])
    moreover have "read_bytes m p (string_scan m' p 0 ?n) = read_bytes m' p (string_scan m' p 0 ?n)"
      using string_scan_le [of 0 ?n m' p] by (intro agree_read sub_box) simp_all
    ultimately show ?thesis using static static_not_pointer by (simp add: spec_string_def read_bytes_0)
  qed
  ultimately show ?thesis using sub by (simp add: val_def spec_value_def Let_def cong: if_cong)
qed

lemma plain_value:
  assumes "plain_at (Suc n) D fs dest sz" and "i < length fs"
  shows "value_fits (fld fs i)" and "PB_LTYPE (ftype (fld fs i)) = PB_LTYPE_BYTES \<Longrightarrow> 4 \<le> unat (data_size (fld fs i))"
    and "PB_LTYPE (ftype (fld fs i)) = PB_LTYPE_SUBMESSAGE \<Longrightarrow> ptr (fld fs i) \<noteq> 0" and "unat (tag (fld fs i)) < 2 ^ 29"
  using plain_atD(6,7) [OF assms] by (auto simp: field_fits_def value_fits_def plain_field_nat Let_def)

lemma item_agree:
  assumes P: "plain_at (Suc n) (descs env) fs dest sz" "i < length fs"
    and item: "is_item fs dest i p" and ag: "agree (box p (unat (data_size (fld fs i)))) m m'"
    and sub: "\<And>fs p sz m m'. plain_at n (descs env) fs p sz \<Longrightarrow> agree (box p sz) m m' \<Longrightarrow>
      spec_message n (with_mem env m) sp fs p = spec_message n (with_mem env m') sp fs p"
  shows "val n (with_mem env m) sp (fld fs i) p = val n (with_mem env m') sp (fld fs i) p"
proof (rule value_agree)
  assume "PB_LTYPE (ftype (fld fs i)) = PB_LTYPE_SUBMESSAGE"
  from sub [OF plain_at_sub [OF P this item] ag]
  show "spec_message n (with_mem env m) sp (descs env (ptr (fld fs i))) p =
      spec_message n (with_mem env m') sp (descs env (ptr (fld fs i))) p" .
qed (use plain_static [OF P] plain_value [OF P] ag in auto)

lemma enc_agree:
  assumes P: "plain_at (Suc n) (descs env) fs dest sz" "i < length fs" and ag: "agree (field_part fs dest i) m m'"
    and sub: "\<And>fs p sz m m'. plain_at n (descs env) fs p sz \<Longrightarrow> agree (box p sz) m m' \<Longrightarrow>
      spec_message n (with_mem env m) sp fs p = spec_message n (with_mem env m') sp fs p"
  shows "enc n (with_mem env m) sp fs dest i = enc n (with_mem env m') sp fs dest i"
proof -
  have ad: "agree (data_part fs dest i) m m'" and af: "agree (flag_part fs dest i) m m'"
    using ag by (auto simp: field_part_def agree_def)
  have I: "val n (with_mem env m) sp (fld fs i) p = val n (with_mem env m') sp (fld fs i) p" if "is_item fs dest i p" for p
    by (rule item_agree [OF P that agree_mono [OF ad item_box [OF that]] sub])
  show ?thesis using P
  proof (cases rule: plain_cases)
    case required
    then have "is_item fs dest i (dest + offset_of fs i)" using item_part [OF P, of 0] htypes by simp
    from I [OF this] show ?thesis by (simp add: enc_simps(1) [OF P required])
  next
    case optional
    then have "is_item fs dest i (dest + offset_of fs i)" using item_part [OF P, of 0] htypes by simp
    moreover have "m (dest + flag_offset fs i) = m' (dest + flag_offset fs i)"
      using af optional by (simp add: agree_def flag_len_def)
    ultimately show ?thesis using I by (simp add: enc_simps(2) [OF P optional(1)])
  next
    case repeated
    let ?c = "unat (read_size m (dest + flag_offset fs i))"
    have z: "read_size m (dest + flag_offset fs i) = read_size m' (dest + flag_offset fs i)"
      using af repeated(1) htypes by (intro agree_size) (simp add: flag_len_def)
    have v: "val n (with_mem env m) sp (fld fs i) (dest + offset_of fs i + k * unat (data_size (fld fs i))) =
        val n (with_mem env m') sp (fld fs i) (dest + offset_of fs i + k * unat (data_size (fld fs i)))"
      if "k < unat (array_size (fld fs i))" for k
      using that repeated(1) by (intro I item_part [OF P]) simp_all
    have "enc_array (fld fs i) (val n (with_mem env m) sp (fld fs i)) (dest + offset_of fs i) ?c =
        enc_array (fld fs i) (val n (with_mem env m') sp (fld fs i)) (dest + offset_of fs i) ?c"
      by (auto simp: enc_array_def v intro!: arg_cong2 [where f = cat] arg_cong [where f = "map_option delimited"] spec_items_cong)
    then show ?thesis by (simp add: enc_simps(3) [OF P repeated(1)] z)
  qed
qed

lemma message_agree:
  "plain_at n (descs env) fs p sz \<Longrightarrow> agree (box p sz) m m' \<Longrightarrow>
     spec_message n (with_mem env m) sp fs p = spec_message n (with_mem env m') sp fs p"
proof (induction n arbitrary: fs p sz m m')
  case (Suc n)
  have "enc n (with_mem env m) sp fs p i = enc n (with_mem env m') sp fs p i" if "i < length fs" for i
  proof (rule enc_agree [OF Suc.prems(1) that])
    show "agree (field_part fs p i) m m'" by (rule agree_mono [OF Suc.prems(2) plain_at_parts [OF Suc.prems(1) that]])
  qed (rule Suc.IH)
  then show ?case unfolding spec_message_enc [OF Suc.prems(1)] by (intro cats_cong) simp
qed simp

section \<open>Reading a value back\<close>

text \<open>
  Source messages: every string that is sent has its end inside its field.  The encoder also sends a string
  that fills its field without a terminator, and the decoder refuses that.
\<close>

definition count_of :: "pb_field list \<Rightarrow> nat \<Rightarrow> mem \<Rightarrow> nat \<Rightarrow> nat" where
  "count_of fs a m i =
     (if PB_HTYPE (ftype (fld fs i)) = PB_HTYPE_REPEATED then unat (read_size m (a + flag_offset fs i))
      else if PB_HTYPE (ftype (fld fs i)) = PB_HTYPE_OPTIONAL \<and> m (a + flag_offset fs i) = 0 then 0 else 1)"

definition text_item :: "(pb_field list \<Rightarrow> nat \<Rightarrow> bool) \<Rightarrow> (nat \<Rightarrow> pb_field list) \<Rightarrow> mem \<Rightarrow> pb_field \<Rightarrow> nat \<Rightarrow> bool" where
  "text_item sub D m f q \<longleftrightarrow>
     (PB_LTYPE (ftype f) = PB_LTYPE_STRING \<longrightarrow> string_scan m q 0 (unat (data_size f)) < unat (data_size f)) \<and>
     (PB_LTYPE (ftype f) = PB_LTYPE_SUBMESSAGE \<longrightarrow> sub (D (ptr f)) q)"

fun text_ok :: "nat \<Rightarrow> (nat \<Rightarrow> pb_field list) \<Rightarrow> mem \<Rightarrow> pb_field list \<Rightarrow> nat \<Rightarrow> bool" where
  "text_ok 0 D m fs a = True"
| "text_ok (Suc n) D m fs a = (\<forall>i < length fs. \<forall>k < count_of fs a m i.
     text_item (text_ok n D m) D m (fld fs i) (a + offset_of fs i + k * unat (data_size (fld fs i))))"

text \<open>A message with nothing in it yet: no flag is set, no array has items.\<close>

definition blank_field ::
    "(pb_field list \<Rightarrow> nat \<Rightarrow> bool) \<Rightarrow> (nat \<Rightarrow> pb_field list) \<Rightarrow> mem \<Rightarrow> pb_field list \<Rightarrow> nat \<Rightarrow> nat \<Rightarrow> bool" where
  "blank_field sub D m fs dest i \<longleftrightarrow> (let f = fld fs i; t = ftype f in
     (PB_HTYPE t = PB_HTYPE_OPTIONAL \<longrightarrow> m (dest + flag_offset fs i) = 0) \<and>
     (PB_HTYPE t = PB_HTYPE_REPEATED \<longrightarrow> read_size m (dest + flag_offset fs i) = 0) \<and>
     (PB_LTYPE t = PB_LTYPE_SUBMESSAGE \<longrightarrow> PB_HTYPE t \<noteq> PB_HTYPE_REPEATED \<longrightarrow> sub (D (ptr f)) (dest + offset_of fs i)))"

fun blank :: "nat \<Rightarrow> (nat \<Rightarrow> pb_field list) \<Rightarrow> mem \<Rightarrow> pb_field list \<Rightarrow> nat \<Rightarrow> bool" where
  "blank 0 D m fs dest = True"
| "blank (Suc n) D m fs dest = (\<forall>i < length fs. blank_field (blank n D m) D m fs dest i)"

lemma blank_field_agree:
  assumes P: "plain_at (Suc n) D fs dest sz" "i < length fs" and ag: "agree (field_part fs dest i) m m'"
    and sub: "\<And>fs p sz. plain_at n D fs p sz \<Longrightarrow> agree (box p sz) m m' \<Longrightarrow> blank n D m fs p = blank n D m' fs p"
  shows "blank_field (blank n D m) D m fs dest i = blank_field (blank n D m') D m' fs dest i"
proof -
  have ad: "agree (data_part fs dest i) m m'" and af: "agree (flag_part fs dest i) m m'"
    using ag by (auto simp: field_part_def agree_def)
  have "m (dest + flag_offset fs i) = m' (dest + flag_offset fs i)" if "PB_HTYPE (ftype (fld fs i)) = PB_HTYPE_OPTIONAL"
    using af that by (simp add: agree_def flag_len_def)
  moreover have "read_size m (dest + flag_offset fs i) = read_size m' (dest + flag_offset fs i)"
    if "PB_HTYPE (ftype (fld fs i)) = PB_HTYPE_REPEATED"
    using af that htypes by (intro agree_size) (simp add: flag_len_def)
  moreover have "blank n D m (D (ptr (fld fs i))) (dest + offset_of fs i) = blank n D m' (D (ptr (fld fs i))) (dest + offset_of fs i)"
    if "PB_LTYPE (ftype (fld fs i)) = PB_LTYPE_SUBMESSAGE" "PB_HTYPE (ftype (fld fs i)) \<noteq> PB_HTYPE_REPEATED"
  proof -
    have it: "is_item fs dest i (dest + offset_of fs i)" using item_part [OF P, of 0] that by simp
    show ?thesis by (rule sub [OF plain_at_sub [OF P that(1) it] agree_mono [OF ad item_box [OF it]]])
  qed
  ultimately show ?thesis by (auto simp: blank_field_def Let_def)
qed

lemma blank_agree: "plain_at n D fs dest sz \<Longrightarrow> agree (box dest sz) m m' \<Longrightarrow> blank n D m fs dest = blank n D m' fs dest"
proof (induction n arbitrary: fs dest sz)
  case (Suc n)
  have "blank_field (blank n D m) D m fs dest i = blank_field (blank n D m') D m' fs dest i" if "i < length fs" for i
    by (rule blank_field_agree [OF Suc.prems(1) that agree_mono [OF Suc.prems(2) plain_at_parts [OF Suc.prems(1) that]] Suc.IH])
  then show ?case by auto
qed simp

text \<open>Decoding a whole stream.\<close>

definition reads_all :: "(heap \<Rightarrow> bool) \<Rightarrow> bytes decoder \<Rightarrow> bytes \<Rightarrow> nat set \<Rightarrow> (heap \<Rightarrow> bool) \<Rightarrow> bool" where
  "reads_all P f bs A Q \<longleftrightarrow> (\<forall>rest e h. P h \<longrightarrow>
     (\<exists>h'. f (src bs rest e, h) = (Some (), (src [] rest e, h')) \<and> same_outside A h h' \<and> Q h'))"

lemma reads_submessage:
  assumes r: "reads_all P ((if PB_HTYPE (ftype f) = PB_HTYPE_REPEATED then di else dn) (ddescs env (ptr f)) p) bs A Q"
    and "ptr f \<noteq> 0" and "length bs < 2 ^ 32"
  shows "reads P (pb_dec_submessage di dn env f p) (delimited bs) A Q"
  unfolding reads_def
proof (intro allI impI)
  fix tail rest e h
  assume "P h"
  then obtain h' where h': "(if PB_HTYPE (ftype f) = PB_HTYPE_REPEATED then di else dn) (ddescs env (ptr f)) p (src bs (tail @ rest) e, h) =
      (Some (), (src [] (tail @ rest) e, h'))" "same_outside A h h'" "Q h'"
    using r unfolding reads_all_def by blast
  have "pb_dec_submessage di dn env f p (src (delimited bs @ tail) rest e, h) = (Some (), src tail rest e, h')"
    using make_string_substream_leb128 [OF assms(3), where bs = tail and rest = rest and e = e] h'(1) assms(2)
      close_string_substream_src [where left = "[]" and bs = tail and rest = rest and e' = e and e = e and any = "bs @ tail @ rest"]
    by (simp add: pb_dec_submessage_def delimited_def on_stream_def close_substream_def)
  with h' show "\<exists>h'. pb_dec_submessage di dn env f p (src (delimited bs @ tail) rest e, h) = (Some (), src tail rest e, h') \<and>
      same_outside A h h' \<and> Q h'" by blast
qed

definition subs_back ::
    "nat \<Rightarrow> bytes pb_env \<Rightarrow> bytes pb_denv \<Rightarrow> pb_spec \<Rightarrow> nat set \<Rightarrow> bytes msg_decoder \<Rightarrow> bytes msg_decoder \<Rightarrow> bool" where
  "subs_back n env denv sp Loc di dn \<longleftrightarrow> (\<forall>m fs q p sz bs.
     plain_at n (descs env) fs q sz \<longrightarrow> plain_at n (descs env) fs p sz \<longrightarrow> text_ok n (descs env) m fs q \<longrightarrow>
     spec_message n (with_mem env m) sp fs q = Some bs \<longrightarrow> length bs < 2 ^ 32 \<longrightarrow> box p sz \<inter> Loc = {} \<longrightarrow>
     reads_all (\<lambda>h. blank n (descs env) (hmem h) fs p) (dn fs p) bs (box p sz \<union> Loc)
       (\<lambda>h. spec_message n (with_mem env (hmem h)) sp fs p = Some bs) \<and>
     reads_all (\<lambda>_. True) (di fs p) bs (box p sz \<union> Loc)
       (\<lambda>h. spec_message n (with_mem env (hmem h)) sp fs p = Some bs))"

text \<open>What has to hold of the memory before an item is decoded into its place.\<close>

definition item_pre :: "nat \<Rightarrow> (nat \<Rightarrow> pb_field list) \<Rightarrow> pb_field \<Rightarrow> nat \<Rightarrow> heap \<Rightarrow> bool" where
  "item_pre n D f p h \<longleftrightarrow> (PB_LTYPE (ftype f) = PB_LTYPE_SUBMESSAGE \<longrightarrow> PB_HTYPE (ftype f) \<noteq> PB_HTYPE_REPEATED \<longrightarrow>
     blank n D (hmem h) (D (ptr f)) p)"

lemma length_delimited: "length bs \<le> length (delimited bs)"
  by (simp add: delimited_def)

lemmas ltype_defs = PB_LTYPE_BOOL_def PB_LTYPE_VARINT_def PB_LTYPE_UVARINT_def PB_LTYPE_SVARINT_def PB_LTYPE_FIXED32_def
  PB_LTYPE_FIXED64_def PB_LTYPE_BYTES_def PB_LTYPE_STRING_def PB_LTYPE_SUBMESSAGE_def PB_LTYPE_FIXED_LENGTH_BYTES_def
  PB_LTYPE_EXTENSION_def

lemma spec_value_type:
  assumes "spec_value sub env lt f a = Some bs"
  shows "lt \<in> {PB_LTYPE_BOOL, PB_LTYPE_VARINT, PB_LTYPE_UVARINT, PB_LTYPE_SVARINT, PB_LTYPE_FIXED32, PB_LTYPE_FIXED64,
    PB_LTYPE_BYTES, PB_LTYPE_STRING, PB_LTYPE_SUBMESSAGE, PB_LTYPE_FIXED_LENGTH_BYTES}"
  using assms by (auto simp: spec_value_def Let_def split: if_splits)

lemma value_back:
  assumes v: "val n (with_mem env m) sp f q = Some bs" and len: "length bs < 2 ^ 32"
    and static: "PB_ATYPE (ftype f) = PB_ATYPE_STATIC" and fits: "value_fits f"
    and bytes: "PB_LTYPE (ftype f) = PB_LTYPE_BYTES \<Longrightarrow> 4 \<le> unat (data_size f)"
    and pq: "p \<noteq> 0" "q \<noteq> 0" and str: "text_item (text_ok n (descs env) m) (descs env) m f q"
    and D: "ddescs denv = descs env"
    and sub: "\<And>sb. PB_LTYPE (ftype f) = PB_LTYPE_SUBMESSAGE \<Longrightarrow> spec_message n (with_mem env m) sp (descs env (ptr f)) q = Some sb \<Longrightarrow>
      length sb < 2 ^ 32 \<Longrightarrow> ptr f \<noteq> 0 \<Longrightarrow>
      reads_all (item_pre n (descs env) f p) ((if PB_HTYPE (ftype f) = PB_HTYPE_REPEATED then di else dn) (ddescs denv (ptr f)) p) sb
        (box p (unat (data_size f)) \<union> Loc) (\<lambda>h. spec_message n (with_mem env (hmem h)) sp (descs env (ptr f)) p = Some sb)"
  shows "reads (item_pre n (descs env) f p) (PB_DECODERS di dn denv (PB_LTYPE (ftype f)) f p) bs
    (box p (unat (data_size f)) \<union> Loc) (\<lambda>h. val n (with_mem env (hmem h)) sp f p = Some bs)"
proof -
  let ?lt = "PB_LTYPE (ftype f)" and ?A = "box p (unat (data_size f)) \<union> Loc"
  have R: ?thesis if "reads (\<lambda>_. True) g bs (box p k) Q" "PB_DECODERS di dn denv ?lt f p = g" "k \<le> unat (data_size f)"
      "\<And>h. Q h \<Longrightarrow> val n (with_mem env (hmem h)) sp f p = Some bs" for g k Q
    unfolding that(2) by (rule reads_mono [OF that(1)]) (use that in auto)
  note decs = PB_DECODERS_def val_def spec_value_def Let_def ltype_defs value_fits_def
  from spec_value_type [OF v [unfolded val_def]]
  consider "?lt = PB_LTYPE_BOOL" | "?lt = PB_LTYPE_VARINT" | "?lt = PB_LTYPE_UVARINT" | "?lt = PB_LTYPE_SVARINT"
    | "?lt = PB_LTYPE_FIXED32" | "?lt = PB_LTYPE_FIXED64" | "?lt = PB_LTYPE_BYTES" | "?lt = PB_LTYPE_STRING"
    | "?lt = PB_LTYPE_SUBMESSAGE" | "?lt = PB_LTYPE_FIXED_LENGTH_BYTES" by blast
  then show ?thesis
  proof cases
    case 1
    then have bs: "bs = leb128 (if safe_read_bool m q then 1 else 0)" using v by (simp add: val_def spec_value_def)
    show ?thesis by (rule R [OF reads_bool [of f p "safe_read_bool m q", folded bs]]) (use 1 bs fits in \<open>auto simp: decs\<close>)
  next
    case 2
    then obtain w where w: "int_value (unat (data_size f)) (read_nat m q (unat (data_size f))) = Some w" "bs = leb128 (unat w)"
      using v by (auto simp: val_def spec_value_def Let_def ltype_defs)
    show ?thesis by (rule R [OF reads_varint [OF w(1), folded w(2)]]) (use 2 w in \<open>auto simp: decs\<close>)
  next
    case 3
    then obtain w where w: "uint_value (unat (data_size f)) (read_nat m q (unat (data_size f))) = Some w" "bs = leb128 (unat w)"
      using v by (auto simp: val_def spec_value_def Let_def ltype_defs)
    show ?thesis by (rule R [OF reads_uvarint [OF w(1) read_nat_less, folded w(2)]]) (use 3 w in \<open>auto simp: decs\<close>)
  next
    case 4
    then obtain w where w: "int_value (unat (data_size f)) (read_nat m q (unat (data_size f))) = Some w" "bs = leb128 (unat (zigzag w))"
      using v by (auto simp: val_def spec_value_def Let_def ltype_defs)
    show ?thesis by (rule R [OF reads_svarint [OF w(1), folded w(2)]]) (use 4 w in \<open>auto simp: decs\<close>)
  next
    case 5
    then have bs: "bs = read_bytes m q 4" using v by (simp add: val_def spec_value_def Let_def ltype_defs)
    have "length bs = 4" by (simp add: bs)
    from R [OF reads_fixed32 [OF this]] show ?thesis using 5 fits by (auto simp: decs)
  next
    case 6
    then have bs: "bs = read_bytes m q 8" using v by (simp add: val_def spec_value_def Let_def ltype_defs)
    have "length bs = 8" by (simp add: bs)
    from R [OF reads_fixed64 [OF this]] show ?thesis using 6 fits by (auto simp: decs)
  next
    case 7
    then have bs: "spec_bytes m f q = Some bs" using v by (simp add: val_def spec_value_def Let_def ltype_defs)
    show ?thesis by (rule R [OF reads_bytes [OF static bytes [OF 7] pq(1) bs pq(2)]]) (use 7 in \<open>auto simp: decs\<close>)
  next
    case 8
    then have bs: "bs = spec_string m f q" using v by (simp add: val_def spec_value_def Let_def ltype_defs)
    have ends: "string_scan m q 0 (unat (data_size f)) < unat (data_size f)" using str 8 by (simp add: text_item_def)
    show ?thesis by (rule R [OF reads_string [OF static pq(1,2) ends, folded bs]]) (use 8 in \<open>auto simp: decs\<close>)
  next
    case 9
    then obtain sb where sb: "spec_message n (with_mem env m) sp (descs env (ptr f)) q = Some sb" "bs = delimited sb" "ptr f \<noteq> 0"
      using v by (auto simp: val_def spec_value_def Let_def ltype_defs split: if_splits)
    then have "length sb < 2 ^ 32" using len length_delimited [of sb] by simp
    note r = reads_submessage [OF sub [OF 9 sb(1) this sb(3)] sb(3) this]
    have "PB_DECODERS di dn denv ?lt f p = pb_dec_submessage di dn denv f p" using 9 by (simp add: PB_DECODERS_def ltype_defs)
    moreover have "spec_message n (with_mem env (hmem h)) sp (descs env (ptr f)) p = Some sb \<Longrightarrow>
        val n (with_mem env (hmem h)) sp f p = Some bs" for h
      using 9 sb by (simp add: val_def spec_value_def Let_def ltype_defs)
    ultimately show ?thesis using r sb(2) by (auto intro: reads_mono)
  next
    case 10
    then have bs: "bs = delimited (read_bytes m q (unat (data_size f)))" using v by (simp add: val_def spec_value_def Let_def ltype_defs)
    show ?thesis by (rule R [OF reads_fixed_length [OF length_read_bytes [of m q "unat (data_size f)"], folded bs]]) (use 10 bs in \<open>auto simp: decs\<close>)
  qed
qed

lemma item_back:
  assumes P: "plain_at (Suc n) (descs env) fs dest sz" and S: "plain_at (Suc n) (descs env) fs a sz" and i: "i < length fs"
    and items: "is_item fs dest i p" "is_item fs a i q"
    and v: "val n (with_mem env m) sp (fld fs i) q = Some bs" and len: "length bs < 2 ^ 32"
    and str: "text_item (text_ok n (descs env) m) (descs env) m (fld fs i) q"
    and D: "ddescs denv = descs env" and sub: "subs_back n env denv sp Loc di dn" and Loc: "box dest sz \<inter> Loc = {}"
  shows "reads (item_pre n (descs env) (fld fs i) p) (PB_DECODERS di dn denv (PB_LTYPE (ftype (fld fs i))) (fld fs i) p) bs
    (box p (unat (data_size (fld fs i))) \<union> Loc) (\<lambda>h. val n (with_mem env (hmem h)) sp (fld fs i) p = Some bs)"
proof (rule value_back [OF v len])
  let ?f = "fld fs i"
  fix sb
  assume t: "PB_LTYPE (ftype ?f) = PB_LTYPE_SUBMESSAGE" and s: "spec_message n (with_mem env m) sp (descs env (ptr ?f)) q = Some sb"
    and l: "length sb < 2 ^ 32"
  have "box p (unat (data_size ?f)) \<inter> Loc = {}"
    using Loc item_box [OF items(1)] plain_at_parts [OF P i] unfolding field_part_def by blast
  moreover have "text_ok n (descs env) m (descs env (ptr ?f)) q" using str t by (simp add: text_item_def)
  ultimately have r:
    "reads_all (\<lambda>h. blank n (descs env) (hmem h) (descs env (ptr ?f)) p) (dn (descs env (ptr ?f)) p) sb
       (box p (unat (data_size ?f)) \<union> Loc) (\<lambda>h. spec_message n (with_mem env (hmem h)) sp (descs env (ptr ?f)) p = Some sb)"
    "reads_all (\<lambda>_. True) (di (descs env (ptr ?f)) p) sb
       (box p (unat (data_size ?f)) \<union> Loc) (\<lambda>h. spec_message n (with_mem env (hmem h)) sp (descs env (ptr ?f)) p = Some sb)"
    using sub plain_at_sub [OF P i t items(1)] plain_at_sub [OF S i t items(2)] s l unfolding subs_back_def by blast+
  show "reads_all (item_pre n (descs env) ?f p)
      ((if PB_HTYPE (ftype ?f) = PB_HTYPE_REPEATED then di else dn) (ddescs denv (ptr ?f)) p) sb
      (box p (unat (data_size ?f)) \<union> Loc) (\<lambda>h. spec_message n (with_mem env (hmem h)) sp (descs env (ptr ?f)) p = Some sb)"
    using r t D by (simp add: item_pre_def reads_all_def)
qed (use plain_static [OF P i] plain_value [OF P i] items str D plain_atD(5) [OF P] plain_atD(5) [OF S]
  in \<open>auto simp: is_item_def\<close>)

section \<open>The loop over the fields\<close>

definition nloop ::
    "nat \<Rightarrow> bytes msg_decoder \<Rightarrow> bytes msg_decoder \<Rightarrow> bytes pb_denv \<Rightarrow> noinit_locals \<Rightarrow>
     bytes pb_istream \<times> heap \<Rightarrow> (bytes pb_istream \<times> heap, noinit_locals) cres" where
  "nloop n di dn denv L sh = noinit_loop (bytes_left (fst sh)) n di dn denv L sh"

lemma nloop_empty: "nloop n di dn denv L (src [] rest e, h) = (Some L, (src [] rest e, h))"
  by (simp add: nloop_def)

lemma nloop_field:
  assumes "ext_takes denv" and "unat wt < 8" and "unat t < 2 ^ 29" and "t \<noteq> 0"
    and "handle_field n di dn denv wt t L (src bs rest e, h) = (Some L', sh')"
  shows "nloop n di dn denv L (src (tag_bytes wt t @ bs) rest e, h) = nloop n di dn denv L' sh'"
proof -
  have t: "unat t \<noteq> 0" using assms(4) by (simp add: unat_eq_zero)
  then have d: "pb_decode_tag (src (tag_bytes wt t @ bs) rest e) = ((Some (wt, t), src bs rest e), False)"
    unfolding tag_bytes_def by (intro decode_tag_leb128 assms) simp
  have "leb128 k \<noteq> []" for k by (subst leb128.simps) simp
  then have ne: "bytes_left (src (tag_bytes wt t @ bs) rest e) \<noteq> 0" by (simp add: tag_bytes_def)
  have "noinit_runs n di dn denv L' sh' (nloop n di dn denv L' sh')"
    using noinit_loop_runs [OF assms(1) order_refl] by (simp add: nloop_def)
  from runs_field [OF ne d assms(5) this]
  show ?thesis using noinit_loop_runs [OF assms(1) order_refl] by (metis nloop_def)
qed

lemma find_loop_it_at:
  assumes "fields_ok fs"
  shows "j < length fs \<Longrightarrow> \<exists>l < length fs. snd (iter_find_loop k stop t (it_at fs dest j)) = it_at fs dest l"
proof (induction k arbitrary: j)
  case (Suc k)
  define l where "l = (if Suc j < length fs then Suc j else 0)"
  have "l < length fs" "snd (pb_field_iter_next (it_at fs dest j)) = it_at fs dest l"
    using it_at_next [OF assms Suc.prems, of dest] Suc.prems by (auto simp: l_def)
  then show ?case using Suc by (auto simp: Let_def)
qed auto

lemma iter_find_it_at:
  assumes "fields_ok fs" and "distinct (map tag fs)" and "i < length fs" and "j < length fs"
    and "PB_LTYPE (ftype (fld fs i)) \<noteq> PB_LTYPE_EXTENSION"
  shows "pb_field_iter_find (tag (fld fs i)) (it_at fs dest j) = (True, it_at fs dest i)"
proof -
  let ?r = "pb_field_iter_find (tag (fld fs i)) (it_at fs dest j)"
  have sel: "start (it_at fs dest j) = fs" "pos (it_at fs dest j) = j" using assms by simp_all
  have loop: "?r = iter_find_loop (Suc (length fs)) j (tag (fld fs i)) (it_at fs dest j)"
    by (simp add: pb_field_iter_find_def sel)
  have "fst ?r"
  proof (rule ccontr)
    assume n: "\<not> fst ?r"
    then have "iter_find_loop (Suc (length fs)) j (tag (fld fs i)) (it_at fs dest j) = (False, snd ?r)"
      using loop by (metis prod.collapse)
    with iter_find_loop_not_found [of "it_at fs dest j" "j" "Suc (length fs)" "tag (fld fs i)" "snd ?r"] assms sel
    have "\<not> matches (tag (fld fs i)) (fs ! i)" by (auto simp: rounds_def simp del: iter_find_loop.simps)
    then show False using assms(3,5) by (simp add: matches_def fld_in)
  qed
  then have f: "iter_find_loop (Suc (length fs)) j (tag (fld fs i)) (it_at fs dest j) = (True, snd ?r)"
    using loop by (metis prod.collapse)
  with iter_find_loop_found [of "it_at fs dest j" j "Suc (length fs)" "tag (fld fs i)" "snd ?r"] assms sel
  have k: "pos (snd ?r) < length fs" "matches (tag (fld fs i)) (fs ! pos (snd ?r))" by auto
  then have "tag (fs ! pos (snd ?r)) = tag (fs ! i)" using assms(3) by (simp add: matches_def fld_in)
  then have p: "pos (snd ?r) = i" using assms(2,3) k(1) by (metis distinct_conv_nth length_map nth_map)
  obtain l where l: "l < length fs" "snd ?r = it_at fs dest l"
    using find_loop_it_at [OF assms(1,4)] loop by metis
  then have "l = i" using p assms(1) by simp
  with l \<open>fst ?r\<close> show ?thesis by (metis prod.collapse)
qed

text \<open>Required fields are counted by the iterator, and their bits are set in this order.\<close>

definition reqs :: "pb_field list \<Rightarrow> nat \<Rightarrow> nat" where
  "reqs fs i = length (filter (\<lambda>f. PB_HTYPE (ftype f) = PB_HTYPE_REQUIRED) (take i fs))"

definition seen :: "nat \<Rightarrow> u32 list" where
  "seen r = [mask (min r 32), mask (min r 64 - 32)]"

lemma reqs_Suc: "i < length fs \<Longrightarrow>
    reqs fs (Suc i) = (if PB_HTYPE (ftype (fld fs i)) = PB_HTYPE_REQUIRED then Suc (reqs fs i) else reqs fs i)"
  by (simp add: reqs_def take_Suc_conv_app_nth fld_in)

lemma reqs_le: "reqs fs i \<le> i"
  unfolding reqs_def using length_filter_le [of _ "take i fs"] by (rule order_trans) simp

lemma it_at_required:
  assumes "plain_at (Suc n) D fs dest sz" and "i < length fs"
  shows "required_field_index (it_at fs dest i) = word_of_nat (reqs fs i)"
  using assms(2)
proof (induction i)
  case 0
  then show ?case by (simp add: it_at.simps(1) pb_field_iter_begin_def reqs_def Let_def)
next
  case (Suc i)
  note P = plain_atD [OF assms(1)]
  have sel: "start (it_at fs dest i) = fs" "pos (it_at fs dest i) = i" using P(2) Suc.prems by simp_all
  have tags: "tag (fld fs i) \<noteq> 0" "tag (fld fs (Suc i)) \<noteq> 0" using fld_tag [OF P(2)] Suc.prems by simp_all
  have no: "PB_HTYPE (ftype (fld fs (Suc i))) \<noteq> PB_HTYPE_ONEOF"
    by (rule plain_cases [OF assms(1) Suc.prems]) (simp_all add: PB_HTYPE_OPTIONAL_def PB_HTYPE_REQUIRED_def
      PB_HTYPE_REPEATED_def PB_HTYPE_ONEOF_def)
  show ?case unfolding it_at.simps(2) pb_field_iter_next_def Let_def sel
    using tags no Suc by (simp add: reqs_Suc)
qed

lemma seen_Suc:
  assumes "r < 64"
  shows "(seen r)[r div 32 := seen r ! (r div 32) OR push_bit (r mod 32) 1] = seen (Suc r)"
proof -
  have m: "mask k OR push_bit k 1 = (mask (Suc k) :: u32)" for k
    by (simp add: mask_Suc_exp push_bit_eq_mult or.commute)
  show ?thesis
  proof (cases "r < 32")
    case True
    then have "r div 32 = 0" "r mod 32 = r" "min r 32 = r" "min (Suc r) 32 = Suc r" "min r 64 - 32 = 0" "min (Suc r) 64 - 32 = 0"
      by simp_all
    then show ?thesis using m [of r] by (simp add: seen_def)
  next
    case False
    then have "r div 32 = 1" "r mod 32 = r - 32" "min r 64 - 32 = r - 32" "min (Suc r) 64 - 32 = Suc (r - 32)" "min r 32 = 32" "min (Suc r) 32 = 32"
      using assms by (simp_all add: div_nat_eqI mod_if)
    then show ?thesis using m [of "r - 32"] by (simp add: seen_def)
  qed
qed

lemma seen_64: "64 \<le> r \<Longrightarrow> seen (Suc r) = seen r"
  by (simp add: seen_def)

lemma mark_seen:
  assumes "plain_at (Suc n) D fs dest sz" and "i < length fs" and "fields_seen L = seen (reqs fs i)" and "it L = it_at fs dest i"
  shows "mark_required L = L\<lparr>fields_seen := seen (reqs fs (Suc i))\<rparr>"
proof -
  note P = plain_atD [OF assms(1)]
  have c: "cur (it L) = fld fs i" using P(2) assms(2,4) by simp
  let ?r = "reqs fs i"
  have r: "?r < 2 ^ 32" using reqs_le [of fs i] assms(2) P(3) by simp
  have u: "unat (word_of_nat ?r :: u32) = ?r" using r by (simp add: unat_of_nat)
  have w: "unat (drop_bit 5 (word_of_nat ?r :: u32)) = ?r div 32" using u by (simp add: unat_drop_bit)
  have b: "unat ((word_of_nat ?r :: u32) AND 31) = ?r mod 32"
    using unat_and_mask [of "word_of_nat ?r :: u32" 5] u by (simp add: mask_eq_exp_minus_1)
  have q: "required_field_index (it L) = word_of_nat ?r" using it_at_required [OF assms(1,2)] assms(4) by simp
  show ?thesis
  proof (cases "PB_HTYPE (ftype (fld fs i)) = PB_HTYPE_REQUIRED")
    case False
    then show ?thesis using assms(2,3) by (simp add: mark_required_def c Let_def reqs_Suc)
  next
    case True
    show ?thesis
    proof (cases "?r < 64")
      case T: True
      then have "(word_of_nat ?r :: u32) < PB_MAX_REQUIRED_FIELDS" using u by (simp add: PB_MAX_REQUIRED_FIELDS_def word_less_nat_alt)
      then show ?thesis using True seen_Suc [OF T] assms(2,3) w b by (simp add: mark_required_def c q Let_def reqs_Suc)
    next
      case F: False
      then have "\<not> (word_of_nat ?r :: u32) < PB_MAX_REQUIRED_FIELDS" using u by (simp add: PB_MAX_REQUIRED_FIELDS_def word_less_nat_alt)
      then show ?thesis using True F assms(2,3) by (simp add: mark_required_def c q Let_def reqs_Suc seen_64)
    qed
  qed
qed

section \<open>Fields\<close>

text \<open>The local variables of the loop when the fields before the \<^verbatim>\<open>i\<close>th are done.\<close>

definition at_stage :: "pb_field list \<Rightarrow> nat \<Rightarrow> nat \<Rightarrow> noinit_locals \<Rightarrow> bool" where
  "at_stage fs dest i L \<longleftrightarrow> (\<exists>j < length fs. it L = it_at fs dest j) \<and> fields_seen L = seen (reqs fs i) \<and> fixed_count_field L = None"

lemma handle_plain:
  assumes P: "plain_at (Suc k) D fs dest sz" and i: "i < length fs" and L: "at_stage fs dest i L"
    and dec: "decode_static_field n di dn denv wt (it_at fs dest i) sh = (Some (), sh')"
  shows "\<exists>L'. handle_field n di dn denv wt (tag (fld fs i)) L sh = (Some L', sh') \<and> at_stage fs dest (Suc i) L'"
proof -
  note F = plain_atD [OF P]
  let ?it = "it_at fs dest i"
  let ?L = "L\<lparr>it := ?it\<rparr>" and ?L' = "L\<lparr>it := ?it, fields_seen := seen (reqs fs (Suc i))\<rparr>"
  obtain j where "j < length fs" "it L = it_at fs dest j" and s: "fields_seen L = seen (reqs fs i)" and n: "fixed_count_field L = None"
    using L by (auto simp: at_stage_def)
  then have find: "pb_field_iter_find (tag (fld fs i)) (it L) = (True, ?it)"
    using iter_find_it_at [OF F(2,4) i] plain_static(2) [OF P i] by simp
  have c: "cur ?it = fld fs i" using F(2) i by simp
  have use: "use_fixed_count (frame denv n) ?L sh = (Some ?L, sh)"
    using plain_at_addr(3) [OF P i] htypes by (auto simp: use_fixed_count_def Let_def c)
  have mark: "mark_required ?L = ?L'" using mark_seen [OF P i, of ?L] s by simp
  have no: "PB_HTYPE (ftype (fld fs i)) \<noteq> PB_HTYPE_ONEOF"
    by (rule plain_cases [OF P i]) (simp_all add: PB_HTYPE_OPTIONAL_def PB_HTYPE_REQUIRED_def PB_HTYPE_REPEATED_def PB_HTYPE_ONEOF_def)
  have "decode_field n di dn denv wt ?it sh = (Some ?it, sh')"
    using plain_static(1) [OF P i] no dec by (simp add: decode_field_def c)
  then have "handle_field n di dn denv wt (tag (fld fs i)) L sh = (Some ?L', sh')"
    using find use mark by (simp add: handle_field_def)
  moreover have "at_stage fs dest (Suc i) ?L'" using i n by (auto simp: at_stage_def)
  ultimately show ?thesis by blast
qed

lemma tagged_field:
  assumes "ext_takes denv" and P: "plain_at (Suc k) D fs dest sz" and i: "i < length fs" and L: "at_stage fs dest i L"
    and wt: "unat wt < 8"
    and dec: "decode_static_field n di dn denv wt (it_at fs dest i) (src bs rest e, h) = (Some (), sh')"
  shows "\<exists>L'. nloop n di dn denv L (src (tag_bytes wt (tag (fld fs i)) @ bs) rest e, h) = nloop n di dn denv L' sh' \<and>
    at_stage fs dest (Suc i) L'"
proof -
  have "tag (fld fs i) \<noteq> 0" using fld_tag [OF plain_atD(2) [OF P]] i by simp
  with handle_plain [OF P i L dec] nloop_field [OF assms(1) wt plain_value(4) [OF P i]] show ?thesis by metis
qed

lemma stage_same:
  assumes "at_stage fs dest i L" and "i < length fs" and "PB_HTYPE (ftype (fld fs i)) \<noteq> PB_HTYPE_REQUIRED"
  shows "at_stage fs dest (Suc i) L"
  using assms by (simp add: at_stage_def reqs_Suc)

lemma static_plain:
  assumes P: "plain_at (Suc k) D fs dest sz" and i: "i < length fs"
  defines "func \<equiv> \<lambda>di dn denv. PB_DECODERS di dn denv (PB_LTYPE (ftype (fld fs i))) (fld fs i)"
  shows "PB_HTYPE (ftype (fld fs i)) = PB_HTYPE_REQUIRED \<Longrightarrow>
      decode_static_field n di dn denv wt (it_at fs dest i) sh = func di dn denv (dest + offset_of fs i) sh"
    and "PB_HTYPE (ftype (fld fs i)) = PB_HTYPE_OPTIONAL \<Longrightarrow>
      decode_static_field n di dn denv wt (it_at fs dest i) (s, h) =
        func di dn denv (dest + offset_of fs i) (s, poke_heap (dest + flag_offset fs i) [1] h)"
    and "PB_HTYPE (ftype (fld fs i)) = PB_HTYPE_REPEATED \<Longrightarrow>
      decode_static_field n di dn denv wt (it_at fs dest i) sh =
        (if wt = PB_WT_STRING \<and> PB_LTYPE (ftype (fld fs i)) \<le> PB_LTYPE_LAST_PACKABLE
         then decode_packed_array (func di dn denv) (it_at fs dest i) sh
         else decode_array_item (func di dn denv) (it_at fs dest i) sh)"
proof -
  have c: "cur (it_at fs dest i) = fld fs i" using plain_atD(2) [OF P] i by simp
  note A = plain_at_addr(1-3) [OF P i]
  show "decode_static_field n di dn denv wt (it_at fs dest i) sh = func di dn denv (dest + offset_of fs i) sh"
    if "PB_HTYPE (ftype (fld fs i)) = PB_HTYPE_REQUIRED"
    using that by (simp add: decode_static_field_def c A func_def Let_def)
  show "decode_static_field n di dn denv wt (it_at fs dest i) (s, h) =
      func di dn denv (dest + offset_of fs i) (s, poke_heap (dest + flag_offset fs i) [1] h)"
    if "PB_HTYPE (ftype (fld fs i)) = PB_HTYPE_OPTIONAL"
    using that A htypes by (simp add: decode_static_field_def c func_def Let_def store_on_stream)
  show "decode_static_field n di dn denv wt (it_at fs dest i) sh =
      (if wt = PB_WT_STRING \<and> PB_LTYPE (ftype (fld fs i)) \<le> PB_LTYPE_LAST_PACKABLE
       then decode_packed_array (func di dn denv) (it_at fs dest i) sh
       else decode_array_item (func di dn denv) (it_at fs dest i) sh)"
    if "PB_HTYPE (ftype (fld fs i)) = PB_HTYPE_REPEATED"
    unfolding decode_static_field_def Let_def c func_def using that htypes by simp
qed

section \<open>Arrays\<close>

lemmas val_agree = item_agree [OF _ _ _ _ message_agree]

text \<open>The first \<^verbatim>\<open>k\<close> items of an array are those of the source.\<close>

definition vals_done ::
    "nat \<Rightarrow> bytes pb_env \<Rightarrow> pb_spec \<Rightarrow> pb_field list \<Rightarrow> nat \<Rightarrow> mem \<Rightarrow> nat \<Rightarrow> mem \<Rightarrow> nat \<Rightarrow> nat \<Rightarrow> bool" where
  "vals_done n env sp fs a m dest m' i k \<longleftrightarrow> (\<forall>l < k.
     val n (with_mem env m') sp (fld fs i) (dest + offset_of fs i + l * unat (data_size (fld fs i))) =
     val n (with_mem env m) sp (fld fs i) (a + offset_of fs i + l * unat (data_size (fld fs i))))"

lemma vals_agree:
  assumes P: "plain_at (Suc n) (descs env) fs dest sz" "i < length fs" and r: "PB_HTYPE (ftype (fld fs i)) = PB_HTYPE_REPEATED"
    and v: "vals_done n env sp fs a m dest m1 i k" and k: "k \<le> unat (array_size (fld fs i))"
    and ag: "agree (box (dest + offset_of fs i) (k * unat (data_size (fld fs i)))) m1 m2"
  shows "vals_done n env sp fs a m dest m2 i k"
  unfolding vals_done_def
proof (intro allI impI)
  fix l assume l: "l < k"
  let ?d = "unat (data_size (fld fs i))"
  let ?p = "dest + offset_of fs i + l * ?d"
  have "Suc l * ?d \<le> k * ?d" using l by (intro mult_le_mono) auto
  then have "box ?p ?d \<subseteq> box (dest + offset_of fs i) (k * ?d)" by auto
  then have "agree (box ?p ?d) m1 m2" by (rule agree_mono [OF ag])
  moreover have "is_item fs dest i ?p" using l k r by (intro item_part [OF P]) auto
  ultimately have "val n (with_mem env m1) sp (fld fs i) ?p = val n (with_mem env m2) sp (fld fs i) ?p"
    by (intro val_agree [OF P])
  with v l show "val n (with_mem env m2) sp (fld fs i) ?p =
      val n (with_mem env m) sp (fld fs i) (a + offset_of fs i + l * ?d)" by (simp add: vals_done_def)
qed

lemma vals_step:
  assumes P: "plain_at (Suc n) (descs env) fs dest sz" "i < length fs" and r: "PB_HTYPE (ftype (fld fs i)) = PB_HTYPE_REPEATED"
    and v: "vals_done n env sp fs a m dest (hmem h) i k" and k: "k < unat (array_size (fld fs i))" and Loc: "box dest sz \<inter> Loc = {}"
    and s: "same_outside (box (dest + offset_of fs i + k * unat (data_size (fld fs i))) (unat (data_size (fld fs i))) \<union> Loc) h h'"
    and last: "val n (with_mem env (hmem h')) sp (fld fs i) (dest + offset_of fs i + k * unat (data_size (fld fs i))) =
      val n (with_mem env m) sp (fld fs i) (a + offset_of fs i + k * unat (data_size (fld fs i)))"
  shows "vals_done n env sp fs a m dest (hmem h') i (Suc k)"
proof -
  let ?d = "unat (data_size (fld fs i))"
  have "k * ?d \<le> prev_size_of (fld fs i)"
    using item_part [OF P, of k] k r by (auto simp: is_item_def)
  then have "box (dest + offset_of fs i) (k * ?d) \<subseteq> data_part fs dest i" by auto
  then have "box (dest + offset_of fs i) (k * ?d) \<inter> Loc = {}"
    using Loc plain_at_parts [OF P] unfolding field_part_def by blast
  then have "agree (box (dest + offset_of fs i) (k * ?d)) (hmem h) (hmem h')"
    by (intro same_outside_agree [OF s]) auto
  then have "vals_done n env sp fs a m dest (hmem h') i k"
    using k by (intro vals_agree [OF P r v]) simp_all
  then show ?thesis using last by (auto simp: vals_done_def less_Suc_eq)
qed

text \<open>An array with its counter, \<^verbatim>\<open>k\<close> items long.\<close>

definition array_done ::
    "nat \<Rightarrow> bytes pb_env \<Rightarrow> pb_spec \<Rightarrow> pb_field list \<Rightarrow> nat \<Rightarrow> mem \<Rightarrow> nat \<Rightarrow> nat \<Rightarrow> nat \<Rightarrow> heap \<Rightarrow> bool" where
  "array_done n env sp fs a m dest i k h \<longleftrightarrow>
     read_size (hmem h) (dest + flag_offset fs i) = word_of_nat k \<and> vals_done n env sp fs a m dest (hmem h) i k"

lemma flag_box:
  assumes P: "plain_at (Suc n) D fs dest sz" "i < length fs" and r: "PB_HTYPE (ftype (fld fs i)) = PB_HTYPE_REPEATED"
  shows "box (dest + flag_offset fs i) 4 \<inter> data_part fs dest i = {}" and "box (dest + flag_offset fs i) 4 \<subseteq> box dest sz"
    and "box (dest + flag_offset fs i) 4 \<subseteq> field_part fs dest i"
  using plain_atD(8) [OF P] plain_at_parts [OF P] r htypes by (auto simp: flag_len_def field_part_def)

lemma read_size_poke: "k < 2 ^ 32 \<Longrightarrow> read_size (hmem (poke_heap a (le_bytes 4 k) h)) a = word_of_nat k"
  by (simp add: read_size_def read_nat_def read_poke le_nat_le_bytes)

lemma array_count:
  assumes P: "plain_at (Suc n) (descs env) fs dest sz" "i < length fs" and r: "PB_HTYPE (ftype (fld fs i)) = PB_HTYPE_REPEATED"
    and v: "vals_done n env sp fs a m dest (hmem h) i k" and k: "k \<le> unat (array_size (fld fs i))" and j: "j < 2 ^ 32"
  shows "vals_done n env sp fs a m dest (hmem (poke_heap (dest + flag_offset fs i) (le_bytes 4 j) h)) i k"
    and "read_size (hmem (poke_heap (dest + flag_offset fs i) (le_bytes 4 j) h)) (dest + flag_offset fs i) = word_of_nat j"
    and "same_outside (field_part fs dest i \<union> Loc) h (poke_heap (dest + flag_offset fs i) (le_bytes 4 j) h)"
proof -
  let ?d = "unat (data_size (fld fs i))"
  have "k * ?d \<le> prev_size_of (fld fs i)"
    using item_part [OF P, of "k - 1"] k r by (cases k) (auto simp: is_item_def)
  then have "box (dest + offset_of fs i) (k * ?d) \<inter> box (dest + flag_offset fs i) 4 = {}"
    using flag_box(1) [OF P r] by fastforce
  then have "agree (box (dest + offset_of fs i) (k * ?d)) (hmem h) (hmem (poke_heap (dest + flag_offset fs i) (le_bytes 4 j) h))"
    by (intro same_outside_agree [OF poke_same]) auto
  then show "vals_done n env sp fs a m dest (hmem (poke_heap (dest + flag_offset fs i) (le_bytes 4 j) h)) i k"
    by (rule vals_agree [OF P r v k])
  show "read_size (hmem (poke_heap (dest + flag_offset fs i) (le_bytes 4 j) h)) (dest + flag_offset fs i) = word_of_nat j"
    using j by (rule read_size_poke)
  show "same_outside (field_part fs dest i \<union> Loc) h (poke_heap (dest + flag_offset fs i) (le_bytes 4 j) h)"
    using flag_box(3) [OF P r] by (intro same_outside_poke) auto
qed

lemma item_address:
  assumes P: "plain_at (Suc n) D fs dest sz" "i < length fs" and r: "PB_HTYPE (ftype (fld fs i)) = PB_HTYPE_REPEATED"
    and k: "k < unat (array_size (fld fs i))"
  shows "unat (data_size (fld fs i) * word_of_nat k) = k * unat (data_size (fld fs i))"
    and "unat (word_of_nat k :: u32) = k" and "(word_of_nat k :: u32) < array_size (fld fs i)" and "Suc k < 2 ^ 32"
proof -
  have k32: "k < 2 ^ 32" using k unat_u32_bound [of "array_size (fld fs i)"] by simp
  then show u: "unat (word_of_nat k :: u32) = k" by (simp add: unat_of_nat)
  show "(word_of_nat k :: u32) < array_size (fld fs i)" using k u by (simp add: word_less_nat_alt)
  show "Suc k < 2 ^ 32" using k unat_u32_bound [of "array_size (fld fs i)"] by simp
  have "unat (data_size (fld fs i)) * unat (array_size (fld fs i)) < 2 ^ 32"
    by (rule plain_cases [OF P]) (use r htypes in auto)
  moreover have "unat (data_size (fld fs i)) * k \<le> unat (data_size (fld fs i)) * unat (array_size (fld fs i))"
    using k by simp
  ultimately have "unat (data_size (fld fs i)) * k < 2 ^ 32" by linarith
  then show "unat (data_size (fld fs i) * word_of_nat k) = k * unat (data_size (fld fs i))"
    using u by (simp add: unat_word_ariths mult.commute)
qed

text \<open>A message at \<^verbatim>\<open>a\<close> that is sent and received at \<^verbatim>\<open>dest\<close>, by decoders that work for its submessages.\<close>

definition transfer ::
    "nat \<Rightarrow> bytes pb_env \<Rightarrow> bytes pb_denv \<Rightarrow> pb_spec \<Rightarrow> pb_field list \<Rightarrow> nat \<Rightarrow> mem \<Rightarrow> nat \<Rightarrow> nat \<Rightarrow> nat set \<Rightarrow>
     bytes msg_decoder \<Rightarrow> bytes msg_decoder \<Rightarrow> bool" where
  "transfer n env denv sp fs a m dest sz Loc di dn \<longleftrightarrow>
     plain_at (Suc n) (descs env) fs dest sz \<and> plain_at (Suc n) (descs env) fs a sz \<and> text_ok (Suc n) (descs env) m fs a \<and>
     ddescs denv = descs env \<and> subs_back n env denv sp Loc di dn \<and> box dest sz \<inter> Loc = {} \<and> ext_takes denv"

lemma transferD:
  assumes "transfer n env denv sp fs a m dest sz Loc di dn"
  shows "plain_at (Suc n) (descs env) fs dest sz" and "plain_at (Suc n) (descs env) fs a sz" and "box dest sz \<inter> Loc = {}"
    and "ext_takes denv" and "ddescs denv = descs env"
  using assms by (simp_all add: transfer_def)

lemma transfer_item:
  assumes T: "transfer n env denv sp fs a m dest sz Loc di dn" and i: "i < length fs" and k: "k < count_of fs a m i"
    and r: "PB_HTYPE (ftype (fld fs i)) = PB_HTYPE_REPEATED \<Longrightarrow> k < unat (array_size (fld fs i))"
    and v: "val n (with_mem env m) sp (fld fs i) (a + offset_of fs i + k * unat (data_size (fld fs i))) = Some bs"
    and len: "length bs < 2 ^ 32"
  defines "p \<equiv> dest + offset_of fs i + k * unat (data_size (fld fs i))"
  shows "reads (item_pre n (descs env) (fld fs i) p) (PB_DECODERS di dn denv (PB_LTYPE (ftype (fld fs i))) (fld fs i) p) bs
    (box p (unat (data_size (fld fs i))) \<union> Loc) (\<lambda>h. val n (with_mem env (hmem h)) sp (fld fs i) p = Some bs)"
proof -
  note P = transferD(1) [OF T] and S = transferD(2) [OF T]
  have k0: "k = 0" if "PB_HTYPE (ftype (fld fs i)) \<noteq> PB_HTYPE_REPEATED" using k that by (simp add: count_of_def split: if_splits)
  show ?thesis unfolding p_def
    by (rule item_back [OF P S i item_part [OF P i r k0] item_part [OF S i r k0] v len])
      (use T i k in \<open>auto simp: transfer_def\<close>)
qed

lemma array_item:
  assumes T: "transfer n env denv sp fs a m dest sz Loc di dn" and i: "i < length fs"
    and r: "PB_HTYPE (ftype (fld fs i)) = PB_HTYPE_REPEATED" and k: "k < count_of fs a m i" "k < unat (array_size (fld fs i))"
    and v: "val n (with_mem env m) sp (fld fs i) (a + offset_of fs i + k * unat (data_size (fld fs i))) = Some bs"
    and len: "length bs < 2 ^ 32" and vd: "vals_done n env sp fs a m dest (hmem h) i k"
  shows "\<exists>h'. PB_DECODERS di dn denv (PB_LTYPE (ftype (fld fs i))) (fld fs i)
        (dest + offset_of fs i + unat (data_size (fld fs i) * word_of_nat k)) (src (bs @ tail) rest e, h) = (Some (), (src tail rest e, h')) \<and>
      same_outside (field_part fs dest i \<union> Loc) h h' \<and> vals_done n env sp fs a m dest (hmem h') i (Suc k) \<and>
      read_size (hmem h') (dest + flag_offset fs i) = read_size (hmem h) (dest + flag_offset fs i)"
proof -
  note P = transferD(1) [OF T]
  let ?p = "dest + offset_of fs i + k * unat (data_size (fld fs i))"
  have pre: "item_pre n (descs env) (fld fs i) ?p h" using r by (simp add: item_pre_def)
  from transfer_item [OF T i k(1) k(2) v len] pre obtain h' where h':
    "PB_DECODERS di dn denv (PB_LTYPE (ftype (fld fs i))) (fld fs i) ?p (src (bs @ tail) rest e, h) = (Some (), (src tail rest e, h'))"
    "same_outside (box ?p (unat (data_size (fld fs i))) \<union> Loc) h h'"
    "val n (with_mem env (hmem h')) sp (fld fs i) ?p = Some bs"
    by (rule readsE)
  have b: "box ?p (unat (data_size (fld fs i))) \<subseteq> data_part fs dest i"
    using k r by (intro item_box item_part [OF P i]) auto
  have "vals_done n env sp fs a m dest (hmem h') i (Suc k)"
    by (rule vals_step [OF P i r vd k(2) transferD(3) [OF T] h'(2)]) (simp add: h'(3) v)
  moreover have "same_outside (field_part fs dest i \<union> Loc) h h'"
    using b by (intro same_outside_mono [OF h'(2)]) (auto simp: field_part_def)
  moreover have "agree (box (dest + flag_offset fs i) 4) (hmem h) (hmem h')"
    using b flag_box(1,2) [OF P i r] transferD(3) [OF T] by (intro same_outside_agree [OF h'(2)]) blast
  ultimately show ?thesis using h'(1) item_address(1) [OF P i r k(2)] agree_size by auto
qed

lemma cat_Some: "cat x y = Some bs \<longleftrightarrow> (\<exists>b c. x = Some b \<and> y = Some c \<and> bs = b @ c)"
  by (auto simp: cat_def split: option.splits)

lemma word_of_nat_Suc_u32: "word_of_nat k + 1 = (word_of_nat (Suc k) :: u32)"
  by (simp add: add.commute)

lemma array_grow:
  assumes P: "plain_at (Suc n) (descs env) fs dest sz" "i < length fs" and r: "PB_HTYPE (ftype (fld fs i)) = PB_HTYPE_REPEATED"
    and k: "k < unat (array_size (fld fs i))"
    and size: "read_size (hmem h) (dest + flag_offset fs i) = word_of_nat k"
  shows "size_at (it_at fs dest i) (s, h) = word_of_nat k"
    and "set_size (it_at fs dest i) (word_of_nat k + 1) (s, h) = (s, poke_heap (dest + flag_offset fs i) (le_bytes 4 (Suc k)) h)"
proof -
  note A = plain_at_addr(2) [OF P]
  show "size_at (it_at fs dest i) (s, h) = word_of_nat k" using size by (simp add: size_at_def A)
  have "unat (word_of_nat (Suc k) :: u32) = Suc k" using item_address(4) [OF P r k] by (simp only: unat_of_nat) simp
  then show "set_size (it_at fs dest i) (word_of_nat k + 1) (s, h) = (s, poke_heap (dest + flag_offset fs i) (le_bytes 4 (Suc k)) h)"
    by (simp only: set_size_def A store_on_stream word_of_nat_Suc_u32)
qed

lemma packed_back:
  assumes T: "transfer n env denv sp fs a m dest sz Loc di dn" and i: "i < length fs"
    and r: "PB_HTYPE (ftype (fld fs i)) = PB_HTYPE_REPEATED" and pack: "PB_LTYPE (ftype (fld fs i)) \<le> PB_LTYPE_LAST_PACKABLE"
    and c: "c = count_of fs a m i" "c \<le> unat (array_size (fld fs i))"
  shows "k \<le> c \<Longrightarrow> c - k \<le> J \<Longrightarrow> array_done n env sp fs a m dest i k h \<Longrightarrow> length bs < 2 ^ 32 \<Longrightarrow>
    spec_items (val n (with_mem env m) sp (fld fs i)) (a + offset_of fs i + k * unat (data_size (fld fs i)))
      (unat (data_size (fld fs i))) (c - k) = Some bs \<Longrightarrow>
    \<exists>h'. decode_packed J (PB_DECODERS di dn denv (PB_LTYPE (ftype (fld fs i))) (fld fs i)) (it_at fs dest i) (src bs rest e, h) =
        (Some (), (src [] rest e, h')) \<and>
      same_outside (field_part fs dest i \<union> Loc) h h' \<and> array_done n env sp fs a m dest i c h'"
proof (induction "c - k" arbitrary: k J h bs)
  case 0
  then have "k = c" "bs = []" by simp_all
  then show ?case using 0 by (cases J) auto
next
  case (Suc j)
  let ?f = "fld fs i" and ?it = "it_at fs dest i"
  let ?d = "unat (data_size ?f)" and ?func = "PB_DECODERS di dn denv (PB_LTYPE (ftype ?f)) ?f"
  note P = transferD(1) [OF T]
  have k: "k < c" "k < unat (array_size ?f)" using Suc.hyps(2) c by simp_all
  obtain J' where J: "J = Suc J'" "c - Suc k \<le> J'" using Suc.hyps(2) Suc.prems(2) by (cases J) auto
  have "spec_items (val n (with_mem env m) sp ?f) (a + offset_of fs i + k * ?d) ?d (Suc (c - Suc k)) = Some bs"
    using Suc.prems(5) k by (simp add: Suc_diff_Suc)
  then obtain b bs' where b: "val n (with_mem env m) sp ?f (a + offset_of fs i + k * ?d) = Some b" "bs = b @ bs'"
    and rest: "spec_items (val n (with_mem env m) sp ?f) (a + offset_of fs i + Suc k * ?d) ?d (c - Suc k) = Some bs'"
    by (auto simp: cat_Some algebra_simps)
  have size: "read_size (hmem h) (dest + flag_offset fs i) = word_of_nat k" and vd: "vals_done n env sp fs a m dest (hmem h) i k"
    using Suc.prems(3) by (simp_all add: array_done_def)
  have len: "length b < 2 ^ 32" "length bs' < 2 ^ 32" using Suc.prems(4) b by simp_all
  obtain h1 where h1: "?func (dest + offset_of fs i + unat (data_size ?f * word_of_nat k)) (src (b @ bs') rest e, h) = (Some (), (src bs' rest e, h1))"
    "same_outside (field_part fs dest i \<union> Loc) h h1" "vals_done n env sp fs a m dest (hmem h1) i (Suc k)"
    "read_size (hmem h1) (dest + flag_offset fs i) = word_of_nat k"
    using array_item [OF T i r _ k(2) b(1) len(1) vd] k(1) c(1) size by metis
  define h2 where "h2 = poke_heap (dest + flag_offset fs i) (le_bytes 4 (Suc k)) h1"
  note cnt = array_count [OF P i r h1(3) _ item_address(4) [OF P i r k(2)], folded h2_def]
  have ad: "array_done n env sp fs a m dest i (Suc k) h2" using cnt(1,2) k(2) by (simp add: array_done_def)
  have "\<exists>h'. decode_packed J' ?func ?it (src bs' rest e, h2) = (Some (), (src [] rest e, h')) \<and>
      same_outside (field_part fs dest i \<union> Loc) h2 h' \<and> array_done n env sp fs a m dest i c h'"
    by (rule Suc.hyps(1) [OF _ _ J(2) ad len(2) rest]) (use Suc.hyps(2) k in simp_all)
  then obtain h' where h': "decode_packed J' ?func ?it (src bs' rest e, h2) = (Some (), (src [] rest e, h'))"
    "same_outside (field_part fs dest i \<union> Loc) h2 h'" "array_done n env sp fs a m dest i c h'" by blast
  have "bytes_left (src bs' rest e) < bytes_left (src (b @ bs') rest e)"
    using eats_packable [OF pack, of "(src (b @ bs') rest e, h)" di dn denv ?f "dest + offset_of fs i + unat (data_size ?f * word_of_nat k)"] h1(1)
    by (simp add: eats_def)
  then have "b \<noteq> []" by auto
  then have "decode_packed J ?func ?it (src bs rest e, h) = (Some (), (src [] rest e, h'))"
    using h1(1) h'(1) item_address(3) [OF P i r k(2)] plain_at_addr(1) [OF P i] plain_atD(2) [OF P] i
    by (simp add: J(1) b(2) h2_def array_grow [OF P i r k(2) size] array_grow [OF P i r k(2) h1(4)])
  moreover have "same_outside (field_part fs dest i \<union> Loc) h h'"
    using h1(2) cnt(3) [of Loc] h'(2) k(2) by (meson Suc_leI same_outside_trans)
  ultimately show ?case using h'(3) by blast
qed

lemma packed_array_back:
  assumes T: "transfer n env denv sp fs a m dest sz Loc di dn" and i: "i < length fs"
    and r: "PB_HTYPE (ftype (fld fs i)) = PB_HTYPE_REPEATED" and pack: "PB_LTYPE (ftype (fld fs i)) \<le> PB_LTYPE_LAST_PACKABLE"
    and c: "count_of fs a m i \<le> unat (array_size (fld fs i))" and h: "array_done n env sp fs a m dest i 0 h"
    and len: "length bs < 2 ^ 32"
    and s: "spec_items (val n (with_mem env m) sp (fld fs i)) (a + offset_of fs i) (unat (data_size (fld fs i))) (count_of fs a m i) = Some bs"
  shows "\<exists>h'. decode_packed_array (PB_DECODERS di dn denv (PB_LTYPE (ftype (fld fs i))) (fld fs i)) (it_at fs dest i)
        (src (delimited bs @ tail) rest e, h) = (Some (), (src tail rest e, h')) \<and>
      same_outside (field_part fs dest i \<union> Loc) h h' \<and> array_done n env sp fs a m dest i (count_of fs a m i) h'"
proof -
  let ?func = "PB_DECODERS di dn denv (PB_LTYPE (ftype (fld fs i))) (fld fs i)" and ?it = "it_at fs dest i"
  have cur: "cur ?it = fld fs i" using plain_atD(2) [OF transferD(1) [OF T]] i by simp
  obtain h' where h': "decode_packed (length bs + count_of fs a m i) ?func ?it (src bs (tail @ rest) e, h) = (Some (), (src [] (tail @ rest) e, h'))"
    "same_outside (field_part fs dest i \<union> Loc) h h'" "array_done n env sp fs a m dest i (count_of fs a m i) h'"
    using packed_back [OF T i r pack refl c, of 0 "length bs + count_of fs a m i" h bs "tail @ rest" e] h len s by auto
  have "decode_packed (length bs) ?func ?it (src bs (tail @ rest) e, h) = (Some (), (src [] (tail @ rest) e, h'))"
    using decode_packed_array_enough [of ?it "src bs (tail @ rest) e" "length bs + count_of fs a m i" di dn denv h] pack h'(1) cur by simp
  then have "decode_packed_array ?func ?it (src (delimited bs @ tail) rest e, h) = (Some (), (src tail rest e, h'))"
    using make_string_substream_leb128 [OF len, where bs = tail and rest = rest and e = e]
      close_string_substream_src [where left = "[]" and bs = tail and rest = rest and e' = e and e = e and any = "bs @ tail @ rest"]
    by (simp add: decode_packed_array_def delimited_def on_stream_def close_substream_def)
  with h' show ?thesis by blast
qed

lemma unpacked_back:
  assumes T: "transfer n env denv sp fs a m dest sz Loc di dn" and i: "i < length fs"
    and r: "PB_HTYPE (ftype (fld fs i)) = PB_HTYPE_REPEATED" and pack: "\<not> PB_LTYPE (ftype (fld fs i)) \<le> PB_LTYPE_LAST_PACKABLE"
    and c: "c = count_of fs a m i" "c \<le> unat (array_size (fld fs i))"
  shows "k \<le> c \<Longrightarrow> array_done n env sp fs a m dest i k h \<Longrightarrow> length bs < 2 ^ 32 \<Longrightarrow> at_stage fs dest i L \<Longrightarrow>
    spec_items (\<lambda>q. cat (spec_tag (fld fs i)) (val n (with_mem env m) sp (fld fs i) q))
      (a + offset_of fs i + k * unat (data_size (fld fs i))) (unat (data_size (fld fs i))) (c - k) = Some bs \<Longrightarrow>
    \<exists>L' h'. nloop N di dn denv L (src (bs @ tail) rest e, h) = nloop N di dn denv L' (src tail rest e, h') \<and> at_stage fs dest i L' \<and>
      same_outside (field_part fs dest i \<union> Loc) h h' \<and> array_done n env sp fs a m dest i c h'"
proof (induction "c - k" arbitrary: k h bs L)
  case 0
  then have "k = c" "bs = []" by simp_all
  then show ?case using 0 by (intro exI [of _ L] exI [of _ h]) simp
next
  case (Suc j)
  let ?f = "fld fs i" and ?it = "it_at fs dest i"
  let ?d = "unat (data_size ?f)" and ?func = "PB_DECODERS di dn denv (PB_LTYPE (ftype ?f)) ?f"
  let ?item = "\<lambda>q. cat (spec_tag ?f) (val n (with_mem env m) sp ?f q)"
  note P = transferD(1) [OF T]
  have k: "k < c" "k < unat (array_size ?f)" using Suc.hyps(2) c by simp_all
  have "spec_items ?item (a + offset_of fs i + k * ?d) ?d (Suc (c - Suc k)) = Some bs"
    using Suc.prems(5) k by (simp add: Suc_diff_Suc)
  then obtain wt b bs' where wt: "wire_type (PB_LTYPE (ftype ?f)) = Some wt"
    and b: "val n (with_mem env m) sp ?f (a + offset_of fs i + k * ?d) = Some b" "bs = tag_bytes wt (tag ?f) @ b @ bs'"
    and rest: "spec_items ?item (a + offset_of fs i + Suc k * ?d) ?d (c - Suc k) = Some bs'"
    by (auto simp: cat_Some spec_tag_def algebra_simps)
  have size: "read_size (hmem h) (dest + flag_offset fs i) = word_of_nat k" and vd: "vals_done n env sp fs a m dest (hmem h) i k"
    using Suc.prems(2) by (simp_all add: array_done_def)
  have len: "length b < 2 ^ 32" "length bs' < 2 ^ 32" using Suc.prems(3) b by simp_all
  define h1 where "h1 = poke_heap (dest + flag_offset fs i) (le_bytes 4 (Suc k)) h"
  note cnt = array_count [OF P i r vd _ item_address(4) [OF P i r k(2)], folded h1_def]
  obtain h2 where h2: "?func (dest + offset_of fs i + unat (data_size ?f * word_of_nat k)) (src (b @ bs' @ tail) rest e, h1) =
      (Some (), (src (bs' @ tail) rest e, h2))"
    "same_outside (field_part fs dest i \<union> Loc) h1 h2" "vals_done n env sp fs a m dest (hmem h2) i (Suc k)"
    "read_size (hmem h2) (dest + flag_offset fs i) = word_of_nat (Suc k)"
    using array_item [OF T i r _ k(2) b(1) len(1) cnt(1)] k c(1) cnt(2) by (metis less_imp_le)
  have no: "(array_size ?f \<le> word_of_nat k) = False" "(PB_LTYPE (ftype ?f) \<le> PB_LTYPE_LAST_PACKABLE) = False"
    using item_address(3) [OF P i r k(2)] pack by (simp_all add: not_le)
  have "decode_static_field N di dn denv wt ?it (src (b @ bs' @ tail) rest e, h) = (Some (), (src (bs' @ tail) rest e, h2))"
    using h2(1) plain_at_addr(1) [OF P i] plain_atD(2) [OF P] i
    by (simp add: static_plain(3) [OF P i r] decode_array_item_def h1_def Let_def no array_grow [OF P i r k(2) size])
  from tagged_field [OF transferD(4) [OF T] P i Suc.prems(4) wire_type_small [OF wt] this]
  obtain L1 where L1: "nloop N di dn denv L (src (bs @ tail) rest e, h) = nloop N di dn denv L1 (src (bs' @ tail) rest e, h2)"
    "at_stage fs dest (Suc i) L1" unfolding b(2) by auto
  have st: "at_stage fs dest i L1" using L1(2) i r htypes by (simp add: at_stage_def reqs_Suc)
  have ad: "array_done n env sp fs a m dest i (Suc k) h2" using h2(3,4) by (simp add: array_done_def)
  have "\<exists>L' h'. nloop N di dn denv L1 (src (bs' @ tail) rest e, h2) = nloop N di dn denv L' (src tail rest e, h') \<and> at_stage fs dest i L' \<and>
      same_outside (field_part fs dest i \<union> Loc) h2 h' \<and> array_done n env sp fs a m dest i c h'"
    by (rule Suc.hyps(1) [OF _ _ ad len(2) st rest]) (use Suc.hyps(2) k in simp_all)
  moreover have "same_outside (field_part fs dest i \<union> Loc) h h2"
    using cnt(3) [of Loc] h2(2) k(2) by (meson less_imp_le same_outside_trans)
  ultimately show ?case using L1(1) by (metis same_outside_trans)
qed

section \<open>A field, read back\<close>

lemma single_back:
  assumes T: "transfer n env denv sp fs a m dest sz Loc di dn" and i: "i < length fs" and k: "0 < count_of fs a m i"
    and s: "PB_HTYPE (ftype (fld fs i)) \<noteq> PB_HTYPE_REPEATED" and len: "length c < 2 ^ 32"
    and v: "cat (spec_tag (fld fs i)) (val n (with_mem env m) sp (fld fs i) (a + offset_of fs i)) = Some c"
    and pre: "item_pre n (descs env) (fld fs i) (dest + offset_of fs i) h"
  obtains wt b h' where "c = tag_bytes wt (tag (fld fs i)) @ b" and "wire_type (PB_LTYPE (ftype (fld fs i))) = Some wt"
    and "PB_DECODERS di dn denv (PB_LTYPE (ftype (fld fs i))) (fld fs i) (dest + offset_of fs i) (src (b @ tail) rest e, h) =
      (Some (), (src tail rest e, h'))"
    and "same_outside (box (dest + offset_of fs i) (unat (data_size (fld fs i))) \<union> Loc) h h'"
    and "cat (spec_tag (fld fs i)) (val n (with_mem env (hmem h')) sp (fld fs i) (dest + offset_of fs i)) = Some c"
proof -
  obtain wt b where wt: "wire_type (PB_LTYPE (ftype (fld fs i))) = Some wt" and c: "c = tag_bytes wt (tag (fld fs i)) @ b"
    and b: "val n (with_mem env m) sp (fld fs i) (a + offset_of fs i) = Some b"
    using v by (auto simp: cat_Some spec_tag_def)
  have "length b < 2 ^ 32" using len c by simp
  from transfer_item [OF T i k _ _ this] s b
  have "reads (item_pre n (descs env) (fld fs i) (dest + offset_of fs i))
    (PB_DECODERS di dn denv (PB_LTYPE (ftype (fld fs i))) (fld fs i) (dest + offset_of fs i)) b
    (box (dest + offset_of fs i) (unat (data_size (fld fs i))) \<union> Loc)
    (\<lambda>h. val n (with_mem env (hmem h)) sp (fld fs i) (dest + offset_of fs i) = Some b)" by simp
  from this pre obtain h' where
    "PB_DECODERS di dn denv (PB_LTYPE (ftype (fld fs i))) (fld fs i) (dest + offset_of fs i) (src (b @ tail) rest e, h) =
      (Some (), (src tail rest e, h'))"
    "same_outside (box (dest + offset_of fs i) (unat (data_size (fld fs i))) \<union> Loc) h h'"
    "val n (with_mem env (hmem h')) sp (fld fs i) (dest + offset_of fs i) = Some b"
    by (rule readsE)
  with that [OF c wt] c wt show thesis by (simp add: cat_Some spec_tag_def)
qed

lemma required_back:
  assumes T: "transfer n env denv sp fs a m dest sz Loc di dn" and i: "i < length fs" and L: "at_stage fs dest i L"
    and r: "PB_HTYPE (ftype (fld fs i)) = PB_HTYPE_REQUIRED" and len: "length c < 2 ^ 32"
    and c: "enc n (with_mem env m) sp fs a i = Some c" and h: "blank_field (blank n (descs env) (hmem h)) (descs env) (hmem h) fs dest i"
  shows "\<exists>L' h'. nloop N di dn denv L (src (c @ tail) rest e, h) = nloop N di dn denv L' (src tail rest e, h') \<and>
    at_stage fs dest (Suc i) L' \<and> same_outside (field_part fs dest i \<union> Loc) h h' \<and> enc n (with_mem env (hmem h')) sp fs dest i = Some c"
proof -
  note P = transferD(1) [OF T] and S = transferD(2) [OF T]
  have nr: "PB_HTYPE (ftype (fld fs i)) \<noteq> PB_HTYPE_REPEATED" "PB_HTYPE (ftype (fld fs i)) \<noteq> PB_HTYPE_OPTIONAL"
    by (simp_all add: r htypes [symmetric])
  have v: "cat (spec_tag (fld fs i)) (val n (with_mem env m) sp (fld fs i) (a + offset_of fs i)) = Some c"
    using c enc_simps(1) [OF S i r, of "with_mem env m"] by simp
  have pre: "item_pre n (descs env) (fld fs i) (dest + offset_of fs i) h"
    using h nr by (simp add: item_pre_def blank_field_def Let_def)
  have "0 < count_of fs a m i" using nr by (simp add: count_of_def)
  from single_back [OF T i this nr(1) len v pre] obtain wt b h' where w:
    "c = tag_bytes wt (tag (fld fs i)) @ b" "wire_type (PB_LTYPE (ftype (fld fs i))) = Some wt"
    "PB_DECODERS di dn denv (PB_LTYPE (ftype (fld fs i))) (fld fs i) (dest + offset_of fs i) (src (b @ tail) rest e, h) =
      (Some (), (src tail rest e, h'))"
    "same_outside (box (dest + offset_of fs i) (unat (data_size (fld fs i))) \<union> Loc) h h'"
    "cat (spec_tag (fld fs i)) (val n (with_mem env (hmem h')) sp (fld fs i) (dest + offset_of fs i)) = Some c" .
  have "decode_static_field N di dn denv wt (it_at fs dest i) (src (b @ tail) rest e, h) = (Some (), (src tail rest e, h'))"
    using w(3) by (simp add: static_plain(1) [OF P i r])
  from tagged_field [OF transferD(4) [OF T] P i L wire_type_small [OF w(2)] this]
  obtain L' where "nloop N di dn denv L (src (c @ tail) rest e, h) = nloop N di dn denv L' (src tail rest e, h')" "at_stage fs dest (Suc i) L'"
    unfolding w(1) by auto
  moreover have "same_outside (field_part fs dest i \<union> Loc) h h'"
    using item_box [OF item_part [OF P i, of 0]] nr by (intro same_outside_mono [OF w(4)]) (auto simp: field_part_def)
  moreover have "enc n (with_mem env (hmem h')) sp fs dest i = Some c" using enc_simps(1) [OF P i r, of "with_mem env (hmem h')"] w(5) by simp
  ultimately show ?thesis by blast
qed

lemma optional_back:
  assumes T: "transfer n env denv sp fs a m dest sz Loc di dn" and i: "i < length fs" and L: "at_stage fs dest i L"
    and r: "PB_HTYPE (ftype (fld fs i)) = PB_HTYPE_OPTIONAL" and len: "length c < 2 ^ 32"
    and c: "enc n (with_mem env m) sp fs a i = Some c" and h: "blank_field (blank n (descs env) (hmem h)) (descs env) (hmem h) fs dest i"
  shows "\<exists>L' h'. nloop N di dn denv L (src (c @ tail) rest e, h) = nloop N di dn denv L' (src tail rest e, h') \<and>
    at_stage fs dest (Suc i) L' \<and> same_outside (field_part fs dest i \<union> Loc) h h' \<and> enc n (with_mem env (hmem h')) sp fs dest i = Some c"
proof (cases "m (a + flag_offset fs i) = 0")
  note P = transferD(1) [OF T] and S = transferD(2) [OF T]
  have nr: "PB_HTYPE (ftype (fld fs i)) \<noteq> PB_HTYPE_REPEATED" "PB_HTYPE (ftype (fld fs i)) \<noteq> PB_HTYPE_REQUIRED" using r htypes by auto
  {
    case True
    then have "c = []" using c enc_simps(2) [OF S i r, of "with_mem env m"] by simp
    moreover have "hmem h (dest + flag_offset fs i) = 0" using h r by (simp add: blank_field_def Let_def)
    then have "enc n (with_mem env (hmem h)) sp fs dest i = Some []" using enc_simps(2) [OF P i r, of "with_mem env (hmem h)"] by simp
    ultimately show ?thesis using stage_same [OF L i nr(2)] by (intro exI [of _ L] exI [of _ h]) simp
  next
    case False
    let ?z = "dest + flag_offset fs i" and ?p = "dest + offset_of fs i"
    define h1 where "h1 = poke_heap ?z [1] h"
    have fl: "box ?z 1 \<subseteq> flag_part fs dest i" using r by (simp add: flag_len_def)
    have it: "is_item fs dest i ?p" using item_part [OF P i, of 0] nr by simp
    have dj: "box ?z 1 \<inter> box ?p (unat (data_size (fld fs i))) = {}"
      using fl plain_atD(8) [OF P i] item_box [OF it] by blast
    have s1: "same_outside (box ?z 1) h h1" using poke_same [of ?z "[1]" h] by (simp add: h1_def)
    have pre: "item_pre n (descs env) (fld fs i) ?p h1"
      unfolding item_pre_def
    proof (intro impI)
      assume t: "PB_LTYPE (ftype (fld fs i)) = PB_LTYPE_SUBMESSAGE"
      have "blank n (descs env) (hmem h) (descs env (ptr (fld fs i))) ?p" using h t nr by (simp add: blank_field_def Let_def)
      then show "blank n (descs env) (hmem h1) (descs env (ptr (fld fs i))) ?p"
        using blank_agree [OF plain_at_sub [OF P i t it] same_outside_agree [OF s1 dj]] by simp
    qed
    have v: "cat (spec_tag (fld fs i)) (val n (with_mem env m) sp (fld fs i) (a + offset_of fs i)) = Some c"
      using c enc_simps(2) [OF S i r, of "with_mem env m"] False by simp
    have "0 < count_of fs a m i" using nr False by (simp add: count_of_def)
    from single_back [OF T i this nr(1) len v pre] obtain wt b h' where w:
      "c = tag_bytes wt (tag (fld fs i)) @ b" "wire_type (PB_LTYPE (ftype (fld fs i))) = Some wt"
      "PB_DECODERS di dn denv (PB_LTYPE (ftype (fld fs i))) (fld fs i) ?p (src (b @ tail) rest e, h1) = (Some (), (src tail rest e, h'))"
      "same_outside (box ?p (unat (data_size (fld fs i))) \<union> Loc) h1 h'"
      "cat (spec_tag (fld fs i)) (val n (with_mem env (hmem h')) sp (fld fs i) ?p) = Some c" .
    have "decode_static_field N di dn denv wt (it_at fs dest i) (src (b @ tail) rest e, h) = (Some (), (src tail rest e, h'))"
      using w(3) by (simp add: static_plain(2) [OF P i r] h1_def)
    from tagged_field [OF transferD(4) [OF T] P i L wire_type_small [OF w(2)] this]
    obtain L' where "nloop N di dn denv L (src (c @ tail) rest e, h) = nloop N di dn denv L' (src tail rest e, h')" "at_stage fs dest (Suc i) L'"
      unfolding w(1) by auto
    moreover have "same_outside (field_part fs dest i \<union> Loc) h h'"
    proof (rule same_outside_trans)
      show "same_outside (field_part fs dest i \<union> Loc) h h1" using fl by (intro same_outside_mono [OF s1]) (auto simp: field_part_def)
      show "same_outside (field_part fs dest i \<union> Loc) h1 h'"
        using item_box [OF it] by (intro same_outside_mono [OF w(4)]) (auto simp: field_part_def)
    qed
    moreover have "hmem h' ?z = 1"
    proof -
      have "box ?z 1 \<inter> Loc = {}"
        using fl plain_at_parts [OF P i] transferD(3) [OF T] unfolding field_part_def by blast
      then have "agree (box ?z 1) (hmem h1) (hmem h')" using dj by (intro same_outside_agree [OF w(4)]) blast
      then show ?thesis by (simp add: agree_def h1_def poke_at)
    qed
    then have "enc n (with_mem env (hmem h')) sp fs dest i = Some c" using enc_simps(2) [OF P i r, of "with_mem env (hmem h')"] w(5) by simp
    ultimately show ?thesis by blast
  }
qed

lemma array_enc:
  assumes T: "transfer n env denv sp fs a m dest sz Loc di dn" and i: "i < length fs"
    and r: "PB_HTYPE (ftype (fld fs i)) = PB_HTYPE_REPEATED" and c: "count_of fs a m i \<le> unat (array_size (fld fs i))"
    and h: "array_done n env sp fs a m dest i (count_of fs a m i) h"
  shows "enc n (with_mem env (hmem h)) sp fs dest i = enc n (with_mem env m) sp fs a i"
proof -
  note P = transferD(1) [OF T] and S = transferD(2) [OF T]
  let ?c = "count_of fs a m i" and ?d = "unat (data_size (fld fs i))"
  have cnt: "unat (read_size m (a + flag_offset fs i)) = ?c" using r by (simp add: count_of_def)
  have "?c < 2 ^ 32" using c unat_u32_bound [of "array_size (fld fs i)"] by simp
  then have z: "unat (read_size (hmem h) (dest + flag_offset fs i)) = ?c"
    using h by (simp add: array_done_def unat_of_nat)
  have v: "val n (with_mem env (hmem h)) sp (fld fs i) (dest + offset_of fs i + l * ?d) =
      val n (with_mem env m) sp (fld fs i) (a + offset_of fs i + l * ?d)" if "l < ?c" for l
    using h that by (simp add: array_done_def vals_done_def)
  have "enc_array (fld fs i) (val n (with_mem env (hmem h)) sp (fld fs i)) (dest + offset_of fs i) ?c =
      enc_array (fld fs i) (val n (with_mem env m) sp (fld fs i)) (a + offset_of fs i) ?c"
    by (auto simp: enc_array_def v intro!: arg_cong2 [where f = cat] arg_cong [where f = "map_option delimited"] spec_items_cong)
  then show ?thesis
    using enc_simps(3) [OF P i r, of "with_mem env (hmem h)"] enc_simps(3) [OF S i r, of "with_mem env m"] cnt z by simp
qed

lemma repeated_back:
  assumes T: "transfer n env denv sp fs a m dest sz Loc di dn" and i: "i < length fs" and L: "at_stage fs dest i L"
    and r: "PB_HTYPE (ftype (fld fs i)) = PB_HTYPE_REPEATED" and len: "length c < 2 ^ 32"
    and c: "enc n (with_mem env m) sp fs a i = Some c" and h: "blank_field (blank n (descs env) (hmem h)) (descs env) (hmem h) fs dest i"
  shows "\<exists>L' h'. nloop N di dn denv L (src (c @ tail) rest e, h) = nloop N di dn denv L' (src tail rest e, h') \<and>
    at_stage fs dest (Suc i) L' \<and> same_outside (field_part fs dest i \<union> Loc) h h' \<and> enc n (with_mem env (hmem h')) sp fs dest i = Some c"
proof -
  note P = transferD(1) [OF T] and S = transferD(2) [OF T]
  let ?c = "count_of fs a m i" and ?f = "fld fs i"
  let ?v = "val n (with_mem env m) sp ?f"
  have nr: "PB_HTYPE (ftype ?f) \<noteq> PB_HTYPE_REQUIRED" using r htypes by simp
  have a0: "array_done n env sp fs a m dest i 0 h" using h r by (simp add: array_done_def vals_done_def blank_field_def Let_def)
  have e: "enc_array ?f ?v (a + offset_of fs i) ?c = Some c"
    using c enc_simps(3) [OF S i r, of "with_mem env m"] r by (simp add: count_of_def)
  then have le: "?c \<le> unat (array_size ?f)" by (auto simp: enc_array_def split: if_splits)
  have "\<exists>L' h'. nloop N di dn denv L (src (c @ tail) rest e, h) = nloop N di dn denv L' (src tail rest e, h') \<and>
      at_stage fs dest (Suc i) L' \<and> same_outside (field_part fs dest i \<union> Loc) h h' \<and> array_done n env sp fs a m dest i ?c h'"
  proof (cases "PB_LTYPE (ftype ?f) \<le> PB_LTYPE_LAST_PACKABLE \<and> ?c \<noteq> 0")
    case True
    then obtain bs where bs: "spec_items ?v (a + offset_of fs i) (unat (data_size ?f)) ?c = Some bs"
      and cb: "c = tag_bytes PB_WT_STRING (tag ?f) @ delimited bs"
      using e by (auto simp: enc_array_def cat_Some split: if_splits)
    have "length bs < 2 ^ 32" using len cb length_delimited [of bs] by simp
    from packed_array_back [OF T i r _ le a0 this bs] True
    obtain h' where h': "decode_packed_array (PB_DECODERS di dn denv (PB_LTYPE (ftype ?f)) ?f) (it_at fs dest i)
        (src (delimited bs @ tail) rest e, h) = (Some (), (src tail rest e, h'))"
      "same_outside (field_part fs dest i \<union> Loc) h h'" "array_done n env sp fs a m dest i ?c h'" by blast
    have "decode_static_field N di dn denv PB_WT_STRING (it_at fs dest i) (src (delimited bs @ tail) rest e, h) = (Some (), (src tail rest e, h'))"
      using h'(1) True by (simp add: static_plain(3) [OF P i r])
    from tagged_field [OF transferD(4) [OF T] P i L _ this]
    show ?thesis using h'(2,3) unfolding cb by (auto simp: PB_WT_STRING_def)
  next
    case False
    then have u: "spec_items (\<lambda>q. cat (spec_tag ?f) (?v q)) (a + offset_of fs i) (unat (data_size ?f)) ?c = Some c"
      using e by (auto simp: enc_array_def split: if_splits)
    show ?thesis
    proof (cases "?c = 0")
      case True
      then have "c = []" using u by simp
      with a0 True stage_same [OF L i nr] show ?thesis by (intro exI [of _ L] exI [of _ h]) simp
    next
      case c0: False
      from unpacked_back [OF T i r _ refl le, of 0 h c L N tail rest e] a0 len L u False c0
      show ?thesis using stage_same [OF _ i nr] by auto
    qed
  qed
  then show ?thesis using array_enc [OF T i r le] c by metis
qed

lemmas field_back = required_back optional_back repeated_back

lemma any_field_back:
  assumes T: "transfer n env denv sp fs a m dest sz Loc di dn" and i: "i < length fs" and L: "at_stage fs dest i L"
    and len: "length c < 2 ^ 32" and c: "enc n (with_mem env m) sp fs a i = Some c"
    and h: "blank_field (blank n (descs env) (hmem h)) (descs env) (hmem h) fs dest i"
  shows "\<exists>L' h'. nloop N di dn denv L (src (c @ tail) rest e, h) = nloop N di dn denv L' (src tail rest e, h') \<and>
    at_stage fs dest (Suc i) L' \<and> same_outside (field_part fs dest i \<union> Loc) h h' \<and> enc n (with_mem env (hmem h')) sp fs dest i = Some c"
  by (rule plain_cases [OF transferD(1) [OF T] i]) (rule field_back [OF T i L _ len c h]; assumption)+

section \<open>All fields\<close>

lemma field_untouched:
  assumes T: "transfer n env denv sp fs a m dest sz Loc di dn" and i: "i < length fs" and k: "k < length fs" "k \<noteq> i"
    and s: "same_outside (field_part fs dest i \<union> Loc) h h'"
  shows "agree (field_part fs dest k) (hmem h) (hmem h')"
proof (rule same_outside_agree [OF s])
  note P = transferD(1) [OF T]
  have "field_part fs dest k \<inter> Loc = {}" using plain_at_parts [OF P k(1)] transferD(3) [OF T] by blast
  then show "(field_part fs dest i \<union> Loc) \<inter> field_part fs dest k = {}" using plain_atD(9) [OF P i k(1)] k(2) by blast
qed

lemma fields_back:
  assumes T: "transfer n env denv sp fs a m dest sz Loc di dn"
  shows "i \<le> length fs \<Longrightarrow> at_stage fs dest i L \<Longrightarrow> length bs < 2 ^ 32 \<Longrightarrow>
    cats (enc n (with_mem env m) sp fs a) i (length fs - i) = Some bs \<Longrightarrow>
    (\<And>k. k < i \<Longrightarrow> enc n (with_mem env (hmem h)) sp fs dest k = enc n (with_mem env m) sp fs a k) \<Longrightarrow>
    (\<And>k. i \<le> k \<Longrightarrow> k < length fs \<Longrightarrow> blank_field (blank n (descs env) (hmem h)) (descs env) (hmem h) fs dest k) \<Longrightarrow>
    \<exists>L' h'. nloop N di dn denv L (src bs rest e, h) = (Some L', (src [] rest e, h')) \<and> at_stage fs dest (length fs) L' \<and>
      same_outside (box dest sz \<union> Loc) h h' \<and>
      (\<forall>k < length fs. enc n (with_mem env (hmem h')) sp fs dest k = enc n (with_mem env m) sp fs a k)"
proof (induction "length fs - i" arbitrary: i L bs h)
  case 0
  then have "i = length fs" "bs = []" by simp_all
  then show ?case using 0 nloop_empty by (intro exI [of _ L] exI [of _ h]) simp
next
  case (Suc j)
  note P = transferD(1) [OF T]
  have i: "i < length fs" using Suc.hyps(2) by simp
  have "length fs - i = Suc (length fs - Suc i)" using i by simp
  then obtain c bs' where c: "enc n (with_mem env m) sp fs a i = Some c" "bs = c @ bs'"
    and rest: "cats (enc n (with_mem env m) sp fs a) (Suc i) (length fs - Suc i) = Some bs'"
    using Suc.prems(4) by (auto simp: cat_Some)
  have len: "length c < 2 ^ 32" "length bs' < 2 ^ 32" using Suc.prems(3) c(2) by simp_all
  have "blank_field (blank n (descs env) (hmem h)) (descs env) (hmem h) fs dest i" using i by (intro Suc.prems(6)) simp_all
  from any_field_back [OF T i Suc.prems(2) len(1) c(1) this, where N = N and tail = bs' and rest = rest and e = e]
  obtain L1 h1 where h1: "nloop N di dn denv L (src (c @ bs') rest e, h) = nloop N di dn denv L1 (src bs' rest e, h1)"
    "at_stage fs dest (Suc i) L1" "same_outside (field_part fs dest i \<union> Loc) h h1" "enc n (with_mem env (hmem h1)) sp fs dest i = Some c"
    by blast
  note other = field_untouched [OF T i _ _ h1(3)]
  have e1: "enc n (with_mem env (hmem h1)) sp fs dest k = enc n (with_mem env m) sp fs a k" if "k < Suc i" for k
  proof (cases "k = i")
    case False
    then have k: "k < i" "k < length fs" using that i by simp_all
    from enc_agree [OF P k(2) other [OF k(2) False] message_agree] Suc.prems(5) [OF k(1)] show ?thesis by simp
  qed (use h1(4) c(1) in simp)
  have b1: "blank_field (blank n (descs env) (hmem h1)) (descs env) (hmem h1) fs dest k" if "Suc i \<le> k" "k < length fs" for k
  proof -
    have a: "agree (field_part fs dest k) (hmem h) (hmem h1)" using that by (intro other) simp_all
    have "blank_field (blank n (descs env) (hmem h)) (descs env) (hmem h) fs dest k" using that by (intro Suc.prems(6)) simp_all
    then show ?thesis using blank_field_agree [OF P that(2) a blank_agree] by simp
  qed
  have "\<exists>L' h'. nloop N di dn denv L1 (src bs' rest e, h1) = (Some L', (src [] rest e, h')) \<and> at_stage fs dest (length fs) L' \<and>
      same_outside (box dest sz \<union> Loc) h1 h' \<and>
      (\<forall>k < length fs. enc n (with_mem env (hmem h')) sp fs dest k = enc n (with_mem env m) sp fs a k)"
    by (rule Suc.hyps(1) [OF _ _ h1(2) len(2) rest e1 b1]) (use Suc.hyps(2) i in simp_all)
  then obtain L' h' where h': "nloop N di dn denv L1 (src bs' rest e, h1) = (Some L', (src [] rest e, h'))"
    "at_stage fs dest (length fs) L'" "same_outside (box dest sz \<union> Loc) h1 h'"
    "\<forall>k < length fs. enc n (with_mem env (hmem h')) sp fs dest k = enc n (with_mem env m) sp fs a k" by blast
  have "same_outside (box dest sz \<union> Loc) h h1" using plain_at_parts [OF P i] by (intro same_outside_mono [OF h1(3)]) auto
  then have "same_outside (box dest sz \<union> Loc) h h'" using h'(3) by (rule same_outside_trans)
  with h' show ?case using h1(1) c(2) by auto
qed

section \<open>The check of the required fields\<close>

lemma seek_last_it_at:
  assumes "fields_ok fs"
  shows "j < length fs \<Longrightarrow> seek_last (it_at fs dest j) =
    (required_field_index (it_at fs dest (length fs - 1)), ftype (fld fs (length fs - 1)), it_at fs dest 0)"
proof (induction "length fs - j" arbitrary: j)
  case (Suc k)
  note N = it_at_next [OF assms Suc.prems]
  show ?case
  proof (cases "Suc j < length fs")
    case True
    then show ?thesis using Suc by (subst seek_last.simps) (simp add: N)
  next
    case False
    then have "length fs - 1 = j" using Suc.prems by simp
    then show ?thesis using False Suc.prems assms by (subst seek_last.simps) (simp add: N)
  qed
qed simp

lemma drop_minus_1: "b \<le> 32 \<Longrightarrow> drop_bit (32 - b) (-1 :: u32) = mask b"
  by (rule bit_word_eqI) (auto simp: bit_simps)

lemma seen_complete:
  assumes "r \<le> 64"
  shows "(\<forall>i < r div 32. seen r ! i = -1) \<and> (r mod 32 \<noteq> 0 \<longrightarrow> seen r ! (r div 32) = drop_bit (32 - r mod 32) (-1))"
proof -
  have full: "(mask 32 :: u32) = -1" by (simp add: mask_eq_exp_minus_1)
  consider "r < 32" | "32 \<le> r" "r < 64" | "r = 64" using assms by linarith
  then show ?thesis
  proof cases
    case 1
    then show ?thesis by (simp add: seen_def drop_minus_1)
  next
    case 2
    then have "r div 32 = 1" "r mod 32 = r - 32" by (simp_all add: div_nat_eqI mod_if)
    with 2 show ?thesis by (simp add: seen_def full drop_minus_1)
  next
    case 3
    then show ?thesis by (simp add: seen_def full less_2_cases_iff All_less_Suc numeral_2_eq_2)
  qed
qed

lemma seen_min: "seen (min r 64) = seen r"
  by (auto simp: seen_def min_def)

lemma all_seen:
  assumes P: "plain_at (Suc n) D fs dest sz" and L: "at_stage fs dest (length fs) L"
  shows "all_required_seen L"
proof -
  note F = plain_atD [OF P]
  obtain j where j: "j < length fs" "it L = it_at fs dest j" and s: "fields_seen L = seen (reqs fs (length fs))"
    using L by (auto simp: at_stage_def)
  define l where "l = length fs - 1"
  have l: "l < length fs" "Suc l = length fs" using F(1) by (simp_all add: l_def)
  let ?r = "reqs fs (length fs)"
  have r32: "?r < 2 ^ 32" using reqs_le [of fs "length fs"] F(3) by simp
  have t: "(tag (cur (it_at fs dest 0)) \<noteq> 0) = True" using fld_tag [OF F(2)] F(1,2) by simp
  have q: "(if PB_HTYPE (ftype (fld fs l)) = PB_HTYPE_REQUIRED then word_of_nat (reqs fs l) + 1 else word_of_nat (reqs fs l)) =
      (word_of_nat ?r :: u32)"
    using reqs_Suc [OF l(1)] l(2) by (simp add: add.commute)
  have sk: "seek_last (it L) = (word_of_nat (reqs fs l), ftype (fld fs l), it_at fs dest 0)"
    using seek_last_it_at [OF F(2) j(1)] it_at_required [OF P l(1)] j(2) by (simp add: l_def)
  have mx: "(if (word_of_nat ?r :: u32) > PB_MAX_REQUIRED_FIELDS then PB_MAX_REQUIRED_FIELDS else word_of_nat ?r) = word_of_nat (min ?r 64)"
    using r32 by (auto simp: PB_MAX_REQUIRED_FIELDS_def word_less_nat_alt unat_of_nat min_def)
  have w: "unat (drop_bit 5 (word_of_nat (min ?r 64) :: u32)) = min ?r 64 div 32" by (simp add: unat_drop_bit unat_of_nat)
  have b: "unat ((word_of_nat (min ?r 64) :: u32) AND 31) = min ?r 64 mod 32"
    using unat_and_mask [of "word_of_nat (min ?r 64) :: u32" 5] by (simp add: mask_eq_exp_minus_1 unat_of_nat)
  have "min ?r 64 \<le> 64" by simp
  from seen_complete [OF this] show ?thesis
    by (simp only: all_required_seen_def Let_def sk prod.case t simp_thms q mx w b s seen_min)
qed

section \<open>Defaults\<close>

lemma iter_do_each:
  assumes "fields_ok fs" and "\<And>j s. j < length fs \<Longrightarrow> P j s \<Longrightarrow> P (Suc j) (f (it_at fs dest j) s)"
  shows "i < length fs \<Longrightarrow> P i s \<Longrightarrow> P (length fs) (iter_do f (it_at fs dest i) s)"
proof (induction "length fs - i" arbitrary: i s rule: less_induct)
  case less
  note N = it_at_next [OF assms(1) less.prems(1)]
  have step: "P (Suc i) (f (it_at fs dest i) s)" using assms(2) less.prems by blast
  show ?case
  proof (cases "Suc i < length fs")
    case True
    then show ?thesis using less.hyps [OF _ True step] by (subst iter_do_step) (simp add: N)
  next
    case False
    then have "Suc i = length fs" using less.prems(1) by simp
    then show ?thesis using step by (subst iter_do_step) (simp add: N)
  qed
qed

text \<open>Setting a field to its default leaves it blank and touches nothing else.\<close>

lemma field_default_blank:
  fixes h :: heap
  assumes P: "plain_at (Suc n) D fs dest sz" and i: "i < length fs" and D: "ddescs denv = D"
    and sub: "\<And>fs p sz h. plain_at n D fs p sz \<Longrightarrow> blank n D (hmem (pb_message_set_to_defaults n denv fs p h)) fs p \<and>
      same_outside (box p sz) h (pb_message_set_to_defaults n denv fs p h)"
  defines "h' \<equiv> pb_field_set_to_default (Suc n) denv (it_at fs dest i) h"
  shows "blank_field (blank n D (hmem h')) D (hmem h') fs dest i \<and> same_outside (field_part fs dest i) h h'"
proof -
  let ?f = "fld fs i" and ?it = "it_at fs dest i"
  let ?t = "ftype ?f" and ?d = "unat (data_size (fld fs i))" and ?p = "dest + offset_of fs i" and ?z = "dest + flag_offset fs i"
  have c: "cur ?it = ?f" using plain_atD(2) [OF P] i by simp
  note S = plain_static [OF P i] and A = plain_at_addr(1-3) [OF P i]
  define set_data where "set_data h = (if PB_LTYPE ?t = PB_LTYPE_SUBMESSAGE then pb_message_set_to_defaults n denv (D (ptr ?f)) ?p h
     else if ptr ?f \<noteq> 0 then poke_heap ?p (read_bytes (hmem h) (ptr ?f) ?d) h else poke_heap ?p (replicate ?d 0) h)" for h
  have it: "is_item fs dest i ?p" if "PB_HTYPE ?t \<noteq> PB_HTYPE_REPEATED" using item_part [OF P i, of 0] that by simp
  have data: "same_outside (box ?p ?d) h (set_data h)" "PB_LTYPE ?t = PB_LTYPE_SUBMESSAGE \<Longrightarrow> blank n D (hmem (set_data h)) (D (ptr ?f)) ?p"
    if "PB_HTYPE ?t \<noteq> PB_HTYPE_REPEATED" for h
    using sub [OF plain_at_sub [OF P i _ it [OF that]]] same_outside_poke [of ?p "read_bytes (hmem h) (ptr ?f) ?d" "box ?p ?d" h]
      same_outside_poke [of ?p "replicate ?d 0" "box ?p ?d" h]
    by (auto simp: set_data_def)
  show ?thesis using P i
  proof (cases rule: plain_cases)
    case required
    have nr: "PB_HTYPE ?t \<noteq> PB_HTYPE_REPEATED" "PB_HTYPE ?t \<noteq> PB_HTYPE_OPTIONAL" "PB_HTYPE ?t \<noteq> PB_HTYPE_ONEOF"
      by (simp_all add: required htypes [symmetric])
    have h': "h' = set_data h" unfolding h'_def set_data_def using S nr A by (simp add: c D Let_def)
    have "same_outside (field_part fs dest i) h h'"
      using item_box [OF it [OF nr(1)]] by (intro same_outside_mono [OF data(1) [OF nr(1), of h, folded h']]) (auto simp: field_part_def)
    then show ?thesis using data(2) [OF nr(1), of h] nr by (simp add: h' blank_field_def Let_def)
  next
    case optional
    have nr: "PB_HTYPE ?t \<noteq> PB_HTYPE_REPEATED" "PB_HTYPE ?t \<noteq> PB_HTYPE_REQUIRED" "PB_HTYPE ?t \<noteq> PB_HTYPE_ONEOF"
      using optional(1) htypes optional_static by auto
    define h1 where "h1 = poke_heap ?z [0] h"
    have h': "h' = set_data h1" unfolding h'_def set_data_def h1_def using S nr A optional(1) by (simp add: c D Let_def)
    have fl: "box ?z 1 \<subseteq> flag_part fs dest i" using optional(1) by (simp add: flag_len_def)
    have "box ?p ?d \<inter> box ?z 1 = {}" using fl plain_atD(8) [OF P i] item_box [OF it [OF nr(1)]] by blast
    then have "agree (box ?z 1) (hmem h1) (hmem h')" unfolding h' by (intro same_outside_agree [OF data(1) [OF nr(1)]])
    then have z: "hmem h' ?z = 0" by (simp add: agree_def h1_def poke_at)
    have "same_outside (field_part fs dest i) h h1" unfolding h1_def using fl by (intro same_outside_poke) (auto simp: field_part_def)
    moreover have "same_outside (field_part fs dest i) h1 h'"
      using item_box [OF it [OF nr(1)]] by (intro same_outside_mono [OF data(1) [OF nr(1), of h1, folded h']]) (auto simp: field_part_def)
    ultimately have "same_outside (field_part fs dest i) h h'" by (rule same_outside_trans)
    then show ?thesis using data(2) [OF nr(1), of h1] nr z by (simp add: h' blank_field_def Let_def)
  next
    case repeated
    have h': "h' = poke_heap ?z (le_bytes 4 0) h"
      unfolding h'_def using S A repeated(1) htypes by (simp add: c D Let_def)
    have "same_outside (field_part fs dest i) h h'"
      unfolding h' using flag_box(3) [OF P i repeated(1)] by (intro same_outside_poke) auto
    then show ?thesis using read_size_poke [of 0 ?z h] repeated(1) htypes by (simp add: h' blank_field_def Let_def)
  qed
qed

lemma defaults_blank:
  assumes "ddescs denv = D"
  shows "plain_at n D fs dest sz \<Longrightarrow> blank n D (hmem (pb_message_set_to_defaults n denv fs dest h)) fs dest \<and>
    same_outside (box dest sz) h (pb_message_set_to_defaults n denv fs dest h)"
proof (induction n arbitrary: fs dest sz h)
  case 0
  then show ?case by (simp add: plain_at_def)
next
  case (Suc n)
  note P = Suc.prems
  note F = plain_atD [OF P]
  let ?P = "\<lambda>j h'. same_outside (box dest sz) h h' \<and> (\<forall>k < j. blank_field (blank n D (hmem h')) D (hmem h') fs dest k)"
  have "?P (length fs) (iter_do (pb_field_set_to_default (Suc n) denv) (it_at fs dest 0) h)"
  proof (rule iter_do_each [OF F(2), where P = ?P])
    fix j h1
    assume j: "j < length fs" and h1: "?P j h1"
    let ?h2 = "pb_field_set_to_default (Suc n) denv (it_at fs dest j) h1"
    have d: "blank_field (blank n D (hmem ?h2)) D (hmem ?h2) fs dest j" "same_outside (field_part fs dest j) h1 ?h2"
      using field_default_blank [OF P j assms Suc.IH] by auto
    have "blank_field (blank n D (hmem ?h2)) D (hmem ?h2) fs dest k" if k: "k < j" for k
    proof -
      have "agree (field_part fs dest k) (hmem h1) (hmem ?h2)"
        using j k by (intro same_outside_agree [OF d(2)] F(9)) simp_all
      from blank_field_agree [OF P _ this blank_agree] show ?thesis using h1 j k by simp
    qed
    moreover have "same_outside (box dest sz) h ?h2"
      using h1 same_outside_mono [OF d(2) plain_at_parts [OF P j]] by (blast intro: same_outside_trans)
    ultimately show "?P (Suc j) ?h2" using d(1) by (auto simp: less_Suc_eq simp del: pb_field_set_to_default.simps)
  qed (use F(1) in simp_all)
  then show ?case using F(1,2) by (simp add: begin_it_at pb_message_set_to_defaults.simps)
qed

section \<open>Messages, read back\<close>

lemma locals_Suc: "locals denv (Suc n) = locals denv n \<union> box (frame denv n) 4"
  by (auto simp: locals_def less_Suc_eq)

lemma noinit_back:
  assumes T: "transfer n env denv sp fs a m dest sz (locals denv n) (pb_decode_with n (pb_decode_noinit n denv) denv) (pb_decode_noinit n denv)"
    and bs: "spec_message (Suc n) (with_mem env m) sp fs a = Some bs" "length bs < 2 ^ 32"
    and Loc: "box dest sz \<inter> locals denv (Suc n) = {}"
  shows "reads_all (\<lambda>h. blank (Suc n) (descs env) (hmem h) fs dest) (pb_decode_noinit (Suc n) denv fs dest) bs
    (box dest sz \<union> locals denv (Suc n)) (\<lambda>h. spec_message (Suc n) (with_mem env (hmem h)) sp fs dest = Some bs)"
  unfolding reads_all_def
proof (intro allI impI)
  fix rest e and h :: heap
  assume h: "blank (Suc n) (descs env) (hmem h) fs dest"
  note P = transferD(1) [OF T] and S = transferD(2) [OF T]
  note F = plain_atD [OF P]
  let ?dn = "pb_decode_noinit n denv" and ?D = "descs env"
  let ?di = "pb_decode_with n ?dn denv"
  define h1 where "h1 = poke_heap (frame denv n) (le_bytes 4 0) h"
  define L where "L = \<lparr>it = snd (pb_field_iter_begin fs dest), fields_seen = [0, 0], extension_range_start = 0, fixed_count_field = None\<rparr>"
  have s1: "same_outside (box (frame denv n) 4) h h1" using poke_same [of "frame denv n" "le_bytes 4 0" h] by (simp add: h1_def)
  have "box (frame denv n) 4 \<inter> box dest sz = {}" using Loc unfolding locals_Suc by blast
  then have "blank (Suc n) ?D (hmem h1) fs dest" using h blank_agree [OF P same_outside_agree [OF s1]] by simp
  then have b: "blank_field (blank n ?D (hmem h1)) ?D (hmem h1) fs dest k" if "k < length fs" for k using that by simp
  have L: "at_stage fs dest 0 L" using F(1) by (auto simp: at_stage_def L_def it_at.simps(1) seen_def reqs_def)
  have c: "cats (enc n (with_mem env m) sp fs a) 0 (length fs - 0) = Some bs" using bs(1) [unfolded spec_message_enc [OF S]] by simp
  from fields_back [OF T _ L bs(2) c, where h = h1 and N = n and rest = rest and e = e] b
  obtain L' h' where h': "nloop n ?di ?dn denv L (src bs rest e, h1) = (Some L', (src [] rest e, h'))" "at_stage fs dest (length fs) L'"
    "same_outside (box dest sz \<union> locals denv n) h1 h'"
    "\<forall>k < length fs. enc n (with_mem env (hmem h')) sp fs dest k = enc n (with_mem env m) sp fs a k"
    by auto
  have "noinit_finish (frame denv n) L' (src [] rest e, h') = (Some (), (src [] rest e, h'))"
    using all_seen [OF P h'(2)] h'(2) by (simp add: noinit_finish_def at_stage_def)
  then have "pb_decode_noinit (Suc n) denv fs dest (src bs rest e, h) = (Some (), (src [] rest e, h'))"
    using h'(1) by (simp add: store_on_stream nloop_def h1_def L_def)
  moreover have "same_outside (box dest sz \<union> locals denv (Suc n)) h h'"
  proof (rule same_outside_trans)
    show "same_outside (box dest sz \<union> locals denv (Suc n)) h h1" by (rule same_outside_mono [OF s1]) (auto simp: locals_Suc)
    show "same_outside (box dest sz \<union> locals denv (Suc n)) h1 h'" by (rule same_outside_mono [OF h'(3)]) (auto simp: locals_Suc)
  qed
  moreover have "spec_message (Suc n) (with_mem env (hmem h')) sp fs dest = Some bs"
    unfolding spec_message_enc [OF P] using c h'(4) cats_cong [of 0 "length fs" "enc n (with_mem env (hmem h')) sp fs dest"] by simp
  ultimately show "\<exists>h'. pb_decode_noinit (Suc n) denv fs dest (src bs rest e, h) = (Some (), (src [] rest e, h')) \<and>
      same_outside (box dest sz \<union> locals denv (Suc n)) h h' \<and> spec_message (Suc n) (with_mem env (hmem h')) sp fs dest = Some bs"
    by blast
qed

lemma init_back:
  assumes D: "ddescs denv = descs env" and P: "plain_at n (descs env) fs dest sz"
    and r: "reads_all (\<lambda>h. blank n (descs env) (hmem h) fs dest) (dn fs dest) bs (box dest sz \<union> A) Q"
  shows "reads_all (\<lambda>_. True) (pb_decode_with n dn denv fs dest) bs (box dest sz \<union> A) Q"
  unfolding reads_all_def
proof (intro allI impI)
  fix rest e h
  let ?h = "pb_message_set_to_defaults n denv fs dest h"
  have d: "blank n (descs env) (hmem ?h) fs dest" "same_outside (box dest sz) h ?h" using defaults_blank [OF D P] by auto
  then obtain h' where h': "dn fs dest (src bs rest e, ?h) = (Some (), (src [] rest e, h'))" "same_outside (box dest sz \<union> A) ?h h'" "Q h'"
    using r unfolding reads_all_def by blast
  have "same_outside (box dest sz \<union> A) h h'" using same_outside_mono [OF d(2), of "box dest sz \<union> A"] h'(2) by (blast intro: same_outside_trans)
  with h' show "\<exists>h'. pb_decode_with n dn denv fs dest (src bs rest e, h) = (Some (), (src [] rest e, h')) \<and>
      same_outside (box dest sz \<union> A) h h' \<and> Q h'" by (auto simp: pb_decode_with_def)
qed

lemma messages_back:
  assumes D: "ddescs denv = descs env" and ext: "ext_takes denv"
  shows "subs_back n env denv sp (locals denv n) (pb_decode_with n (pb_decode_noinit n denv) denv) (pb_decode_noinit n denv)"
proof (induction n)
  case 0
  then show ?case by (simp add: subs_back_def plain_at_def)
next
  case (Suc n)
  show ?case
    unfolding subs_back_def
  proof (intro allI impI)
    fix m fs q p sz bs
    assume S: "plain_at (Suc n) (descs env) fs q sz" and P: "plain_at (Suc n) (descs env) fs p sz"
      and str: "text_ok (Suc n) (descs env) m fs q" and bs: "spec_message (Suc n) (with_mem env m) sp fs q = Some bs" "length bs < 2 ^ 32"
      and Loc: "box p sz \<inter> locals denv (Suc n) = {}"
    have "transfer n env denv sp fs q m p sz (locals denv n) (pb_decode_with n (pb_decode_noinit n denv) denv) (pb_decode_noinit n denv)"
      using S P str D ext Suc.IH Loc by (auto simp: transfer_def locals_Suc simp del: text_ok.simps)
    from noinit_back [OF this bs Loc] init_back [OF D P, of "pb_decode_noinit (Suc n) denv", OF noinit_back [OF this bs Loc]]
    show "reads_all (\<lambda>h. blank (Suc n) (descs env) (hmem h) fs p) (pb_decode_noinit (Suc n) denv fs p) bs (box p sz \<union> locals denv (Suc n))
          (\<lambda>h. spec_message (Suc n) (with_mem env (hmem h)) sp fs p = Some bs) \<and>
        reads_all (\<lambda>_. True) (pb_decode_with (Suc n) (pb_decode_noinit (Suc n) denv) denv fs p) bs (box p sz \<union> locals denv (Suc n))
          (\<lambda>h. spec_message (Suc n) (with_mem env (hmem h)) sp fs p = Some bs)" by blast
  qed
qed

text \<open>C21: pb_decode inverts pb_encode.  A message of static fields (required, optional with a flag, arrays with
  a counter, submessages to any depth, all types of values) that pb_encode writes into a buffer is accepted by
  pb_decode, which reads all of it; and what pb_decode has stored, at any other place and over any
  earlier contents of the memory, is encoded by pb_encode to the same bytes.  Strings must end inside
  their fields.\<close>

theorem pb_decode_inverts_encode:
  assumes "plain n (descs env) fs sz" and "a \<noteq> 0" and "a + sz < 2 ^ 64" and "dest \<noteq> 0" and "dest + sz < 2 ^ 64"
    and "text_ok n (descs env) (mem_of env) fs a" and "callbacks_ok env sp"
    and "spec_message n env sp fs a = Some bs" and "length bs < 2 ^ 32"
    and "ddescs denv = descs env" and "ext_takes denv" and "{dest..<dest + sz} \<inter> locals denv n = {}"
  shows "\<exists>out inp h'. pb_encode n env fs a (pb_ostream_from_buffer (length bs)) = (Some (), out) \<and>
    pb_decode n denv fs dest (pb_istream_from_buffer (ostate out) (bytes_written out), h) = (Some (), (inp, h')) \<and> bytes_left inp = 0 \<and>
    pb_encode n (env\<lparr>mem_of := hmem h'\<rparr>) fs dest (pb_ostream_from_buffer (length bs)) = (Some (), out)"
proof -
  have p: "plain_at n (descs env) fs a sz" "plain_at n (descs env) fs dest sz" using assms(1-5) by (simp_all add: plain_at_def)
  have "reads_all (\<lambda>_. True) (pb_decode n denv fs dest) bs (box dest sz \<union> locals denv n)
      (\<lambda>h. spec_message n (with_mem env (hmem h)) sp fs dest = Some bs)"
    using messages_back [OF assms(10,11), of n sp] p assms(6,8,9,12) unfolding subs_back_def pb_decode_def
    by (auto dest!: spec [of _ "mem_of env"] spec [of _ fs])
  then obtain h' where h': "pb_decode n denv fs dest (src bs [] None, h) = (Some (), (src [] [] None, h'))"
    "spec_message n (with_mem env (hmem h')) sp fs dest = Some bs"
    unfolding reads_all_def by blast
  have len: "length bs < 2 ^ 63" using assms(9) by simp
  have cb: "callbacks_ok (with_mem env m) sp" for m using assms(7) by (simp add: callbacks_ok_def)
  let ?out = "\<lparr>ocallback = Some buf_write, ostate = bs, max_size = length bs, bytes_written = length bs, oerrmsg = None\<rparr>"
  have "pb_encode n env fs a (pb_ostream_from_buffer (length bs)) = (Some (), ?out)"
    using emits_on_buffer [OF pb_encode_emits [OF assms(7,8)] len len] by simp
  moreover have "pb_encode n (with_mem env (hmem h')) fs dest (pb_ostream_from_buffer (length bs)) = (Some (), ?out)"
    using emits_on_buffer [OF pb_encode_emits [OF cb h'(2)] len len] by simp
  ultimately show ?thesis using h'(1) istream_whole [of bs] by fastforce
qed

text \<open>The example of \<^verbatim>\<open>Nanopb_Message\<close>, from address 64 to address 8.\<close>

definition ex_back :: "bytes pb_denv" where
  "ex_back = ex_denv\<lparr>ddescs := descs ex_env\<rparr>"

lemma ex_inner_plain: "plain 1 (descs ex_env) (descs ex_env 1) 4"
proof -
  let ?fs = "descs ex_env 1"
  have "?fs \<noteq> []" "int (length ?fs) < 2 ^ 32" "fields_ok ?fs" "distinct (map tag ?fs)" "\<forall>f \<in> set ?fs. plain_field f"
    "\<forall>i < length ?fs. field_fits 4 ?fs i" "\<forall>f \<in> set ?fs. PB_LTYPE (ftype f) \<noteq> PB_LTYPE_SUBMESSAGE" "length ?fs = 1"
    by code_simp+
  moreover have "data_part ?fs 0 0 \<inter> flag_part ?fs 0 0 = {}" by code_simp
  ultimately show ?thesis by (simp only: One_nat_def plain.simps less_Suc0 simp_thms) auto
qed

lemma ex_fields_plain: "plain 2 (descs ex_env) ex_fields 12"
proof -
  let ?fs = ex_fields
  have "?fs \<noteq> []" "int (length ?fs) < 2 ^ 32" "fields_ok ?fs" "distinct (map tag ?fs)" "\<forall>f \<in> set ?fs. plain_field f"
    "\<forall>i < length ?fs. field_fits 12 ?fs i" "length ?fs = 2"
    by code_simp+
  moreover have "data_part ?fs 0 0 \<inter> flag_part ?fs 0 0 = {}" "data_part ?fs 0 1 \<inter> flag_part ?fs 0 1 = {}"
    "field_part ?fs 0 1 \<inter> field_part ?fs 0 0 = {}" by code_simp+
  moreover have "\<forall>f \<in> set ?fs. PB_LTYPE (ftype f) = PB_LTYPE_SUBMESSAGE \<longrightarrow> ptr f = 1 \<and> unat (data_size f) = 4" by code_simp
  ultimately show ?thesis using ex_inner_plain by (auto simp: numeral_2_eq_2 less_Suc_eq)
qed

lemma text_ok_no_strings:
  assumes "\<And>x f. f \<in> set (D x) \<Longrightarrow> PB_LTYPE (ftype f) \<noteq> PB_LTYPE_STRING"
  shows "(\<And>f. f \<in> set fs \<Longrightarrow> PB_LTYPE (ftype f) \<noteq> PB_LTYPE_STRING) \<Longrightarrow> text_ok n D m fs a"
proof (induction n arbitrary: fs a)
  case (Suc n)
  then show ?case using assms by (auto simp: text_item_def fld_in)
qed simp

lemma ex_fields_text: "text_ok 2 (descs ex_env) (mem_of ex_env) ex_fields 64"
proof (rule text_ok_no_strings)
  show "PB_LTYPE (ftype f) \<noteq> PB_LTYPE_STRING" if "f \<in> set (descs ex_env x)" for f x
    using that by (simp add: ex_env_def PB_LTYPE_def PB_LTYPE_STRING_def PB_LTYPE_SVARINT_def)
  show "PB_LTYPE (ftype f) \<noteq> PB_LTYPE_STRING" if "f \<in> set ex_fields" for f
    using that by (auto simp: ex_fields_def PB_LTYPE_def PB_LTYPE_STRING_def PB_LTYPE_UVARINT_def PB_LTYPE_SUBMESSAGE_def)
qed

theorem pb_decode_inverts_encode_witness:
  "\<exists>out inp h'. pb_encode 2 ex_env ex_fields 64 (pb_ostream_from_buffer 7) = (Some (), out) \<and>
    ostate out = [8, 0x96, 1, 0x1a, 2, 8, 2] \<and>
    pb_decode 2 ex_back ex_fields 8 (pb_istream_from_buffer (ostate out) 7, \<lparr>hmem = (\<lambda>_. 0xEE), hblocks = Map.empty, hwild = False\<rparr>) =
      (Some (), (inp, h')) \<and> bytes_left inp = 0 \<and>
    pb_encode 2 (ex_env\<lparr>mem_of := hmem h'\<rparr>) ex_fields 8 (pb_ostream_from_buffer 7) = (Some (), out)"
proof -
  let ?bs = "[8, 0x96, 1, 0x1a, 2, 8, 2] :: bytes" and ?h = "\<lparr>hmem = (\<lambda>_. 0xEE), hblocks = Map.empty, hwild = False\<rparr>"
  have d: "ddescs ex_back = descs ex_env" by (simp add: ex_back_def)
  have e: "ext_takes ex_back" by (simp add: ext_takes_def ex_back_def ex_denv_def)
  have l: "{8..<8 + 12} \<inter> locals ex_back 2 = {}" by (auto simp: locals_def ex_back_def ex_denv_def)
  have "\<exists>out inp h'. pb_encode 2 ex_env ex_fields 64 (pb_ostream_from_buffer (length ?bs)) = (Some (), out) \<and>
      pb_decode 2 ex_back ex_fields 8 (pb_istream_from_buffer (ostate out) (bytes_written out), ?h) = (Some (), (inp, h')) \<and>
      bytes_left inp = 0 \<and> pb_encode 2 (ex_env\<lparr>mem_of := hmem h'\<rparr>) ex_fields 8 (pb_ostream_from_buffer (length ?bs)) = (Some (), out)"
    by (rule pb_decode_inverts_encode [OF ex_fields_plain _ _ _ _ ex_fields_text ex_message _ d e l]) simp_all
  then obtain out inp h' where r: "pb_encode 2 ex_env ex_fields 64 (pb_ostream_from_buffer 7) = (Some (), out)"
    "pb_decode 2 ex_back ex_fields 8 (pb_istream_from_buffer (ostate out) (bytes_written out), ?h) = (Some (), (inp, h'))"
    "bytes_left inp = 0" "pb_encode 2 (ex_env\<lparr>mem_of := hmem h'\<rparr>) ex_fields 8 (pb_ostream_from_buffer 7) = (Some (), out)"
    by (auto simp: eval_nat_numeral)
  moreover have "ostate out = ?bs" "bytes_written out = 7"
    using emits_on_buffer [OF pb_encode_emits [OF ex_message], of 7] r(1) by simp_all
  ultimately show ?thesis by auto
qed

end
