(* ===== verification/Spec2Isabelle.thy ===== *)
theory Spec2Isabelle
  imports OID_Text Set_Of Unicode Nanopb_Message BER Base64 SHA256 SHA512 SHA1 MD5 MD4 LHash Stack Nanopb_Roundtrip
begin

text \<open>
  \<^bold>\<open>The program.\<close>  The repository is an iOS library, SMSActivate, with an example application.  Its own code
  is Swift; the C code is what the application links through its pods under \<^verbatim>\<open>src/Example/Pods\<close>: the
  cryptography of gRPC (\<^verbatim>\<open>BoringSSL-GRPC\<close>), the protocol buffers of Firebase (\<^verbatim>\<open>nanopb\<close>), libuv and the
  upb runtime of gRPC.  This development models the parts on which the data formats of the
  application rest: the byte string layer of BoringSSL with what is built on it, its containers and hash
  functions, and all of nanopb.

  \<^bold>\<open>Theories and sources.\<close>  \<^verbatim>\<open>B\<close> stands for \<^verbatim>\<open>src/Example/Pods/BoringSSL-GRPC/src/crypto\<close>, \<^verbatim>\<open>N\<close> for
  \<^verbatim>\<open>src/Example/Pods/nanopb\<close>.

  \<^item> \<^verbatim>\<open>CPrelude\<close>: C integer types as words, \<^verbatim>\<open>size_t\<close> arithmetic that wraps at 64 bits, the result type of
    functions that return 0 or 1 and change their argument, byte strings as numbers, word lemmas.
    \<^verbatim>\<open>ByteIO\<close>: the interfaces of byte sinks and byte sources as locales.
  \<^item> \<^verbatim>\<open>Mem\<close> (\<^verbatim>\<open>B/mem.c\<close>, \<^verbatim>\<open>B/internal.h\<close>): comparisons, hash, bounded lengths, duplication, byte swaps.
    \<^verbatim>\<open>Constant_Time\<close> (\<^verbatim>\<open>B/internal.h\<close>): masks, comparisons and selections without branches.
  \<^item> \<^verbatim>\<open>CBS\<close>, \<^verbatim>\<open>DER\<close> (\<^verbatim>\<open>B/bytestring/cbs.c\<close>): the reader.  A \<^verbatim>\<open>CBS\<close> is the list of bytes left.  \<^verbatim>\<open>DER\<close> has the
    reference encodings and the theorems that the ASN.1 readers accept exactly these.
  \<^item> \<^verbatim>\<open>CBB\<close>, \<^verbatim>\<open>CBB_Flush\<close>, \<^verbatim>\<open>CBB_Codec\<close>, \<^verbatim>\<open>CBB_ASN1\<close> (\<^verbatim>\<open>B/bytestring/cbb.c\<close>): the builder, a buffer with its
    capacity and error flag and a stack of pending length-prefixed children.  \<^verbatim>\<open>CBB_Flush\<close> shows that
    flushing computes the nested contents; the others that what is written is read back by the reader.
  \<^item> \<^verbatim>\<open>OID_Text\<close> (object identifiers as text), \<^verbatim>\<open>Set_Of\<close> (\<^verbatim>\<open>CBB_flush_asn1_set_of\<close>), \<^verbatim>\<open>Unicode\<close>
    (\<^verbatim>\<open>B/bytestring/unicode.c\<close>), \<^verbatim>\<open>BER\<close> (\<^verbatim>\<open>B/bytestring/ber.c\<close>), \<^verbatim>\<open>Base64\<close> (\<^verbatim>\<open>B/base64/base64.c\<close>): the codecs on
    top of reader and builder.
  \<^item> \<^verbatim>\<open>MD32\<close> (\<^verbatim>\<open>B/fipsmodule/digest/md32_common.h\<close>), \<^verbatim>\<open>SHA2_Rounds\<close>, \<^verbatim>\<open>SHA256\<close>, \<^verbatim>\<open>SHA512\<close>, \<^verbatim>\<open>SHA1\<close>
    (\<^verbatim>\<open>B/fipsmodule/sha\<close>), \<^verbatim>\<open>Quad_Rounds\<close>, \<^verbatim>\<open>MD5\<close>, \<^verbatim>\<open>MD4\<close>: the hash functions in their portable C paths, with
    contexts as records, against the digests of FIPS 180-4, RFC 1321 and RFC 1320.
  \<^item> \<^verbatim>\<open>LHash\<close> (\<^verbatim>\<open>B/lhash/lhash.c\<close>) and \<^verbatim>\<open>Stack\<close> (\<^verbatim>\<open>B/stack/stack.c\<close>): the containers.
  \<^item> \<^verbatim>\<open>Nanopb_Stream\<close>, \<^verbatim>\<open>Nanopb_Wire\<close> (\<^verbatim>\<open>N/pb_encode.c\<close>, \<^verbatim>\<open>N/pb_decode.c\<close>): streams with their callbacks and the
    wire primitives.  \<^verbatim>\<open>Nanopb_Fields\<close> (\<^verbatim>\<open>N/pb.h\<close>, \<^verbatim>\<open>N/pb_common.c\<close>): descriptors and the iterator.
    \<^verbatim>\<open>Nanopb_Encode\<close> and \<^verbatim>\<open>Nanopb_Message\<close> (\<^verbatim>\<open>N/pb_encode.c\<close>): the encoder over a byte memory and its
    specification without streams.  \<^verbatim>\<open>Nanopb_Decode\<close> (\<^verbatim>\<open>N/pb_decode.c\<close>): the decoder over a byte memory with
    tracked heap blocks.  \<^verbatim>\<open>Nanopb_Safety\<close>: what it may write to.  \<^verbatim>\<open>Nanopb_Progress\<close>: its loops end.
    \<^verbatim>\<open>Nanopb_Roundtrip\<close>: it inverts the encoder.

  \<^bold>\<open>How state and operations correspond.\<close>  A C function that takes a pointer to its state and returns success
  is a function from the state to the result (None for a return of 0) and the state it leaves, on
  success and on failure.  Structs are records with the fields of the source.  Memory is a function
  from addresses to bytes where the code works on addresses (nanopb), and a list of bytes where it only
  walks a buffer.  Allocation is a predicate on sizes, or the place of a block, chosen by the
  environment; every allocation may fail.  Callbacks are parameters.  Integers keep their width where the
  code computes with them.

  \<^bold>\<open>Interfaces.\<close>  \<^verbatim>\<open>byte_sink\<close>, \<^verbatim>\<open>roomy_sink\<close> and \<^verbatim>\<open>byte_source\<close> are interpreted on the CBB and on the nanopb
  streams; \<^verbatim>\<open>block_hash\<close> and \<^verbatim>\<open>md32_hash\<close> state what the block collectors need of a compression function and
  are interpreted on SHA-1, SHA-256, SHA-512, MD5 and MD4; \<^verbatim>\<open>sha2_rounds\<close> and \<^verbatim>\<open>sha2_schedule\<close> on the two word
  sizes of SHA-2; \<^verbatim>\<open>equality_table\<close> on the hash table.

  \<^bold>\<open>What is shown.\<close>  Readers accept exactly the canonical encodings and builders write them, so that what is
  written is read back (CBS, CBB, DER, OID text, Unicode, base64, varints, tags, strings).  Streaming and
  one-shot use agree (base64, all hash functions), and the hash functions compute their standards.  The
  containers refine a map and a list, through resizing and refused allocations, and the stack finds the
  first match in all three searches.  The nanopb encoder writes what its specification says and announces
  its exact size; the decoder stays inside the struct it fills, whatever comes in.
  Its loop over the input ends with one result on every input.  For messages of static fields decoding inverts
  encoding: what was written is accepted, and what was stored is encoded to the same bytes.  Where
  the code does something else than it means to, a theorem shows it on an input: \<^verbatim>\<open>cbs_find_ber\<close> forgets
  nested BER, \<^verbatim>\<open>pb_decode_varint32_eof\<close> lets its position wrap, \<^verbatim>\<open>sk_set\<close> leaves a wrong sorted flag,
  \<^verbatim>\<open>pb_field_set_to_default\<close> writes a counter over arrays of fixed size.

  \<^bold>\<open>Bounds.\<close>  Loops over data are structural or have a termination proof.  \<^verbatim>\<open>cbs_convert_ber\<close> has a bound of
  the input length plus one, which is shown to be enough.  \<^verbatim>\<open>pb_encode\<close>, \<^verbatim>\<open>pb_decode\<close>, \<^verbatim>\<open>pb_release\<close> and the
  setting of defaults have a bound on the nesting of submessages, on extension lists and on the calls of one
  callback; the theorems hold for every bound, and the loops over input bytes inside the decoder run at
  most once per byte that is left, which
  is proved for the loop of \<^verbatim>\<open>pb_decode_noinit\<close> and for packed arrays.  \<^verbatim>\<open>pb_field_iter_find\<close> needs one round per descriptor.

  \<^bold>\<open>Not modelled.\<close>  Freeing functions that only release memory (\<^verbatim>\<open>CBB_cleanup\<close>, \<^verbatim>\<open>sk_free\<close>, \<^verbatim>\<open>OPENSSL_lh_free\<close>,
  \<^verbatim>\<open>EVP_ENCODE_CTX_free\<close>): their only effect is on the C heap.  The assembly and vector variants of the hash
  functions, which are not C.  AES, big numbers, elliptic curves and RSA; X.509 and the ASN.1 templates; BIO,
  PEM and the error queue, which do I/O or thread-local bookkeeping; libuv, which is system calls; the upb
  runtime with its generated tables; and everything that is not C: the Swift client and the
  Objective-C and C++ pods.
\<close>

end
